(* ===== verification/Prelude.thy ===== *)
theory Prelude
  imports Main "HOL-Library.Word" "HOL-Library.Monad_Syntax"
begin

text \<open>
  Shared material of the development: the machine types, the checked accesses to C arrays, the
  byte-level copies (\<open>kmemcpy\<close>, \<open>kmemset\<close>, \<open>kmemcmp\<close> of \<open>dhcp_compat.h\<close>) and the list
  lemmas the components share.

  Reading convention.  A C array is a list.  An access outside the list is undefined behaviour
  in C, so every access that is not in bounds by construction goes through \<open>rd\<close> or \<open>wr\<close>, which
  return \<^const>\<open>None\<close> there; a function of the model that returns \<^const>\<open>None\<close> is a run of the C
  code that leaves an array.  Theorems that a function returns \<^const>\<open>Some\<close> are memory-safety
  theorems.
\<close>

unbundle bit_operations_syntax

type_synonym u8 = "8 word"
type_synonym u16 = "16 word"
type_synonym u32 = "32 word"
type_synonym u64 = "64 word"

named_theorems access_simps \<open>checked array accesses that are known to be in bounds\<close>

section \<open>Checked array accesses\<close>

definition rd :: "'a list \<Rightarrow> nat \<Rightarrow> 'a option" where
  "rd xs i = (if i < length xs then Some (xs ! i) else None)"

definition wr :: "'a list \<Rightarrow> nat \<Rightarrow> 'a \<Rightarrow> 'a list option" where
  "wr xs i x = (if i < length xs then Some (xs[i := x]) else None)"

lemma rd_Some [access_simps]: "i < length xs \<Longrightarrow> rd xs i = Some (xs ! i)"
  by (simp add: rd_def)

lemma rd_None [access_simps]: "length xs \<le> i \<Longrightarrow> rd xs i = None"
  by (simp add: rd_def)

lemma rd_eq_Some_iff: "rd xs i = Some x \<longleftrightarrow> i < length xs \<and> xs ! i = x"
  by (auto simp: rd_def)

lemma rd_eq_None_iff: "rd xs i = None \<longleftrightarrow> length xs \<le> i"
  by (auto simp: rd_def)

lemma wr_Some [access_simps]: "i < length xs \<Longrightarrow> wr xs i x = Some (xs[i := x])"
  by (simp add: wr_def)

lemma wr_None [access_simps]: "length xs \<le> i \<Longrightarrow> wr xs i x = None"
  by (simp add: wr_def)

lemma wr_eq_Some_iff: "wr xs i x = Some ys \<longleftrightarrow> i < length xs \<and> ys = xs[i := x]"
  by (auto simp: wr_def)

section \<open>Block copies of the string shim\<close>

text \<open>\<open>kmemcpy (dst + off, src, n)\<close>: both blocks have to be inside their arrays.\<close>

definition kmemcpy :: "'a list \<Rightarrow> nat \<Rightarrow> 'a list \<Rightarrow> nat \<Rightarrow> 'a list option" where
  "kmemcpy dst off src n =
     (if off + n \<le> length dst \<and> n \<le> length src
      then Some (take off dst @ take n src @ drop (off + n) dst) else None)"

text \<open>\<open>kmemset (dst + off, v, n)\<close>.\<close>

definition kmemset :: "'a list \<Rightarrow> nat \<Rightarrow> 'a \<Rightarrow> nat \<Rightarrow> 'a list option" where
  "kmemset dst off v n =
     (if off + n \<le> length dst
      then Some (take off dst @ replicate n v @ drop (off + n) dst) else None)"

text \<open>
  \<open>kmemcmp (a, b, n)\<close>: the difference of the first pair of bytes that differ, 0 when the blocks
  agree.
\<close>

fun kmemcmp :: "u8 list \<Rightarrow> u8 list \<Rightarrow> nat \<Rightarrow> int option" where
  "kmemcmp a b 0 = Some 0"
| "kmemcmp (x # a) (y # b) (Suc n) =
     (if x \<noteq> y then Some (uint x - uint y) else kmemcmp a b n)"
| "kmemcmp a b (Suc n) = None"

text \<open>The \<open>n\<close> bytes of an array from offset \<open>off\<close> on.\<close>

definition rd_bytes :: "u8 list \<Rightarrow> nat \<Rightarrow> nat \<Rightarrow> u8 list option" where
  "rd_bytes bs off n = (if off + n \<le> length bs then Some (take n (drop off bs)) else None)"

lemma rd_bytes_Some [access_simps]: "off + n \<le> length bs \<Longrightarrow> rd_bytes bs off n = Some (take n (drop off bs))"
  by (simp add: rd_bytes_def)

lemma length_kmemcpy: "kmemcpy dst off src n = Some r \<Longrightarrow> length r = length dst"
  by (auto simp: kmemcpy_def split: if_splits)

lemma kmemcpy_Some [access_simps]:
  "off + n \<le> length dst \<Longrightarrow> n \<le> length src \<Longrightarrow>
   kmemcpy dst off src n = Some (take off dst @ take n src @ drop (off + n) dst)"
  by (simp add: kmemcpy_def)

lemma kmemset_Some [access_simps]:
  "off + n \<le> length dst \<Longrightarrow>
   kmemset dst off v n = Some (take off dst @ replicate n v @ drop (off + n) dst)"
  by (simp add: kmemset_def)

lemma kmemcmp_Some:
  "n \<le> length a \<Longrightarrow> n \<le> length b \<Longrightarrow>
   \<exists>d. kmemcmp a b n = Some d \<and> (d = 0 \<longleftrightarrow> take n a = take n b)"
  by (induction a b n rule: kmemcmp.induct) (auto simp: word_uint_eq_iff)

lemma kmemcmp_eq_0_iff:
  "n \<le> length a \<Longrightarrow> n \<le> length b \<Longrightarrow> kmemcmp a b n = Some 0 \<longleftrightarrow> take n a = take n b"
  using kmemcmp_Some [of n a b] by auto

section \<open>Options and lists\<close>

lemma bind_eq_Some_iff: "Option.bind x f = Some y \<longleftrightarrow> (\<exists>z. x = Some z \<and> f z = Some y)"
  by (cases x) auto

lemma map_nth_upt_take: "n \<le> length xs \<Longrightarrow> map ((!) xs) [0..<n] = take n xs"
  by (induction n) (auto simp: take_Suc_conv_app_nth)

lemma nth_update_if: "xs[i := x] ! j = (if i = j \<and> j < length xs then x else xs ! j)"
  by (cases "i < length xs") (auto simp: nth_list_update list_update_beyond)

lemma map_ext_Some:
  assumes "\<And>k a b. m k = Some (a, b) \<longleftrightarrow> m' k = Some (a, b)"
  shows "m = m'"
proof
  fix k
  show "m k = m' k"
    using assms [of k] by (metis not_Some_eq surj_pair)
qed

lemma unat_less_pow: "unat w < 2 ^ LENGTH('a)" for w :: "'a::len word"
  by (rule unsigned_less)

lemma unat_minus_one: "w \<noteq> 0 \<Longrightarrow> unat (w - 1) = unat w - 1" for w :: "'a::len word"
  by (simp add: unat_sub word_le_nat_alt unat_gt_0 Suc_leI)

lemma unat_plus_one: "unat w < 2 ^ LENGTH('a) - 1 \<Longrightarrow> unat (w + 1) = unat w + 1" for w :: "'a::len word"
  by (subst unat_plus_if_size) (auto simp: word_size)

end
