(* ===== verification/Dhcp_Options.thy ===== *)
theory Dhcp_Options
  imports Prelude
begin

text \<open>
  The message type of the portable server library and its option field:
  \<open>dhcp-lib/dhcp_server.h\<close> (constants, \<open>dhcp_message_t\<close>) and the option routines of
  \<open>dhcp-lib/dhcp_server.c\<close> (\<open>dhcp_get_option\<close>, \<open>dhcp_add_option\<close>, \<open>dhcp_get_message_type\<close>,
  \<open>dhcp_set_message_type\<close>), with the abstract view of an option field as a list of items and the
  lemmas that the routines implement lookup and append on that list.
\<close>

section \<open>Constants and the message structure\<close>

definition DHCP_DISCOVER :: u8 where "DHCP_DISCOVER = 1"
definition DHCP_OFFER :: u8 where "DHCP_OFFER = 2"
definition DHCP_REQUEST :: u8 where "DHCP_REQUEST = 3"
definition DHCP_DECLINE :: u8 where "DHCP_DECLINE = 4"
definition DHCP_ACK :: u8 where "DHCP_ACK = 5"
definition DHCP_NAK :: u8 where "DHCP_NAK = 6"

lemmas msg_type_defs = DHCP_DISCOVER_def DHCP_OFFER_def DHCP_REQUEST_def DHCP_DECLINE_def
  DHCP_ACK_def DHCP_NAK_def

definition DHCP_OPT_PAD :: u8 where "DHCP_OPT_PAD = 0"
definition DHCP_OPT_SUBNET_MASK :: u8 where "DHCP_OPT_SUBNET_MASK = 1"
definition DHCP_OPT_ROUTER :: u8 where "DHCP_OPT_ROUTER = 3"
definition DHCP_OPT_DNS_SERVER :: u8 where "DHCP_OPT_DNS_SERVER = 6"
definition DHCP_OPT_REQUESTED_IP :: u8 where "DHCP_OPT_REQUESTED_IP = 50"
definition DHCP_OPT_LEASE_TIME :: u8 where "DHCP_OPT_LEASE_TIME = 51"
definition DHCP_OPT_MESSAGE_TYPE :: u8 where "DHCP_OPT_MESSAGE_TYPE = 53"
definition DHCP_OPT_SERVER_ID :: u8 where "DHCP_OPT_SERVER_ID = 54"
definition DHCP_OPT_END :: u8 where "DHCP_OPT_END = 255"

lemmas opt_code_defs = DHCP_OPT_PAD_def DHCP_OPT_SUBNET_MASK_def DHCP_OPT_ROUTER_def
  DHCP_OPT_DNS_SERVER_def DHCP_OPT_REQUESTED_IP_def DHCP_OPT_LEASE_TIME_def
  DHCP_OPT_MESSAGE_TYPE_def DHCP_OPT_SERVER_ID_def DHCP_OPT_END_def

lemma opt_code_neq [simp]:
  "DHCP_OPT_MESSAGE_TYPE \<noteq> DHCP_OPT_PAD" "DHCP_OPT_MESSAGE_TYPE \<noteq> DHCP_OPT_END"
  "DHCP_OPT_SERVER_ID \<noteq> DHCP_OPT_PAD" "DHCP_OPT_SERVER_ID \<noteq> DHCP_OPT_END"
  "DHCP_OPT_SUBNET_MASK \<noteq> DHCP_OPT_PAD" "DHCP_OPT_SUBNET_MASK \<noteq> DHCP_OPT_END"
  "DHCP_OPT_ROUTER \<noteq> DHCP_OPT_PAD" "DHCP_OPT_ROUTER \<noteq> DHCP_OPT_END"
  "DHCP_OPT_DNS_SERVER \<noteq> DHCP_OPT_PAD" "DHCP_OPT_DNS_SERVER \<noteq> DHCP_OPT_END"
  "DHCP_OPT_LEASE_TIME \<noteq> DHCP_OPT_PAD" "DHCP_OPT_LEASE_TIME \<noteq> DHCP_OPT_END"
  "DHCP_OPT_REQUESTED_IP \<noteq> DHCP_OPT_PAD" "DHCP_OPT_REQUESTED_IP \<noteq> DHCP_OPT_END"
  by (simp_all add: opt_code_defs)

definition DHCP_MAGIC_COOKIE :: u32 where "DHCP_MAGIC_COOKIE = 0x63825363"

text \<open>The capacity of the \<open>options\<close> array of \<open>dhcp_message_t\<close>.\<close>

definition OPTIONS_LEN :: nat where "OPTIONS_LEN = 308"

record dhcp_message_t =
  op :: u8
  htype :: u8
  hlen :: u8
  hops :: u8
  xid :: u32
  secs :: u16
  flags :: u16
  ciaddr :: u32
  yiaddr :: u32
  siaddr :: u32
  giaddr :: u32
  chaddr :: "u8 list"
  sname :: "u8 list"
  bootfile :: "u8 list"
  magic_cookie :: u32
  options :: "u8 list"

text \<open>The array sizes that the C type fixes.\<close>

definition message_ok :: "dhcp_message_t \<Rightarrow> bool" where
  "message_ok m \<longleftrightarrow> length (chaddr m) = 16 \<and> length (sname m) = 64 \<and> length (bootfile m) = 128 \<and>
     length (options m) = OPTIONS_LEN"

section \<open>Reading and adding options\<close>

text \<open>
  \<open>dhcp_get_option\<close>.  The pointer \<open>ptr\<close> is its offset from \<open>msg->options\<close>; a result
  \<open>Some (Some (p, n))\<close> is the pair of the returned pointer and \<open>*length\<close>, \<open>Some None\<close> the null
  pointer.  As in the source, \<open>*ptr\<close> is read before \<open>ptr\<close> is compared with the end of the field.
\<close>

function get_option_from :: "u8 list \<Rightarrow> u8 \<Rightarrow> nat \<Rightarrow> (nat \<times> u8) option option" where
  "get_option_from os opt ptr = do {
     c \<leftarrow> rd os ptr;
     if c = DHCP_OPT_END \<or> \<not> ptr < OPTIONS_LEN then Some None
     else if c = opt then do {
       len \<leftarrow> rd os (ptr + 1);
       Some (Some (ptr + 2, len))
     }
     else if c = DHCP_OPT_PAD then get_option_from os opt (ptr + 1)
     else do {
       len \<leftarrow> rd os (ptr + 1);
       get_option_from os opt (ptr + (2 + unat len))
     }
   }"
  by pat_completeness auto
termination
  by (relation "measure (\<lambda>(os, opt, ptr). length os - ptr)") (auto simp: rd_eq_Some_iff)

declare get_option_from.simps [simp del]

definition dhcp_get_option :: "dhcp_message_t \<Rightarrow> u8 \<Rightarrow> (nat \<times> u8) option option" where
  "dhcp_get_option msg opt = get_option_from (options msg) opt 0"

text \<open>The loop of \<open>dhcp_add_option\<close> that looks for the end of the options.\<close>

function end_of_options :: "u8 list \<Rightarrow> nat \<Rightarrow> nat option" where
  "end_of_options os ptr =
     (if ptr < OPTIONS_LEN then do {
        c \<leftarrow> rd os ptr;
        if c = DHCP_OPT_END then Some ptr
        else if c = DHCP_OPT_PAD then end_of_options os (ptr + 1)
        else do {
          len \<leftarrow> rd os (ptr + 1);
          end_of_options os (ptr + (2 + unat len))
        }
      }
      else Some ptr)"
  by pat_completeness auto
termination
  by (relation "measure (\<lambda>(os, ptr). length os - ptr)") (auto simp: rd_eq_Some_iff)

declare end_of_options.simps [simp del]

text \<open>\<open>dhcp_add_option\<close>; the null \<open>data\<close> pointer is \<^const>\<open>None\<close>.\<close>

definition dhcp_add_option ::
  "dhcp_message_t \<Rightarrow> u8 \<Rightarrow> u8 \<Rightarrow> u8 list option \<Rightarrow> dhcp_message_t option" where
  "dhcp_add_option msg opt len data = do {
     c0 \<leftarrow> rd (options msg) 0;
     os \<leftarrow> (if c0 = 0 then wr (options msg) 0 DHCP_OPT_END else Some (options msg));
     ptr \<leftarrow> end_of_options os 0;
     if ptr + 2 + unat len + 1 \<le> OPTIONS_LEN then do {
       os \<leftarrow> wr os ptr opt;
       os \<leftarrow> wr os (ptr + 1) len;
       os \<leftarrow> (case data of
               Some d \<Rightarrow> if len > 0 then kmemcpy os (ptr + 2) d (unat len) else Some os
             | None \<Rightarrow> Some os);
       os \<leftarrow> (if ptr + 2 + unat len < OPTIONS_LEN
             then wr os (ptr + 2 + unat len) DHCP_OPT_END else Some os);
       Some (msg\<lparr>options := os\<rparr>)
     }
     else Some (msg\<lparr>options := os\<rparr>)
   }"

definition dhcp_get_message_type :: "dhcp_message_t \<Rightarrow> u8 option" where
  "dhcp_get_message_type msg = do {
     r \<leftarrow> dhcp_get_option msg DHCP_OPT_MESSAGE_TYPE;
     case r of
       Some (p, len) \<Rightarrow> if len \<ge> 1 then rd (options msg) p else Some 0
     | None \<Rightarrow> Some 0
   }"

definition dhcp_set_message_type :: "dhcp_message_t \<Rightarrow> u8 \<Rightarrow> dhcp_message_t option" where
  "dhcp_set_message_type msg type = dhcp_add_option msg DHCP_OPT_MESSAGE_TYPE 1 (Some [type])"

section \<open>The abstract option field\<close>

text \<open>
  An option field that a correct sender builds is a sequence of padding bytes and options
  followed by the END code; whatever follows END is ignored.
\<close>

datatype dhcp_item = Pad | Opt u8 "u8 list"

fun encode_item :: "dhcp_item \<Rightarrow> u8 list" where
  "encode_item Pad = [DHCP_OPT_PAD]"
| "encode_item (Opt c d) = c # of_nat (length d) # d"

fun item_ok :: "dhcp_item \<Rightarrow> bool" where
  "item_ok Pad = True"
| "item_ok (Opt c d) = (c \<noteq> DHCP_OPT_PAD \<and> c \<noteq> DHCP_OPT_END \<and> length d < 256)"

definition encode_items :: "dhcp_item list \<Rightarrow> u8 list" where
  "encode_items is = concat (map encode_item is)"

fun item_lookup :: "dhcp_item list \<Rightarrow> u8 \<Rightarrow> u8 list option" where
  "item_lookup [] c = None"
| "item_lookup (Pad # is) c = item_lookup is c"
| "item_lookup (Opt c' d # is) c = (if c' = c then Some d else item_lookup is c)"

definition represents :: "u8 list \<Rightarrow> dhcp_item list \<Rightarrow> bool" where
  "represents os is \<longleftrightarrow> length os = OPTIONS_LEN \<and> list_all item_ok is \<and>
     take (length (encode_items is) + 1) os = encode_items is @ [DHCP_OPT_END]"

lemma encode_items_simps [simp]:
  "encode_items [] = []"
  "encode_items (i # is) = encode_item i @ encode_items is"
  "encode_items (is @ js) = encode_items is @ encode_items js"
  by (simp_all add: encode_items_def)

lemma representsE:
  assumes "represents os is"
  obtains rest where "os = encode_items is @ DHCP_OPT_END # rest" and "list_all item_ok is"
    and "length (encode_items is) + 1 + length rest = OPTIONS_LEN"
proof -
  define n where "n = length (encode_items is)"
  have split: "os = (encode_items is @ [DHCP_OPT_END]) @ drop (n + 1) os"
    using assms append_take_drop_id [of "n + 1" os] by (simp add: represents_def n_def)
  moreover have "n + 1 + length (drop (n + 1) os) = length os"
    by (subst (2) split) (simp add: n_def)
  ultimately show thesis
    using that [of "drop (n + 1) os"] assms by (simp add: represents_def n_def)
qed

lemma representsI:
  "list_all item_ok is \<Longrightarrow> length (encode_items is) + 1 + length rest = OPTIONS_LEN \<Longrightarrow>
   represents (encode_items is @ DHCP_OPT_END # rest) is"
  by (simp add: represents_def)

lemma unat_of_nat_u8 [simp]: "n < 256 \<Longrightarrow> unat (of_nat n :: u8) = n"
  by (simp add: unat_of_nat)

text \<open>One step of the scan over an item, and over the END code.\<close>

lemma get_option_from_END:
  "length (pre @ DHCP_OPT_END # rest) = OPTIONS_LEN \<Longrightarrow>
   get_option_from (pre @ DHCP_OPT_END # rest) c (length pre) = Some None"
  by (subst get_option_from.simps) (simp add: access_simps)

lemma get_option_from_other:
  assumes "item_ok i" and "length pre < OPTIONS_LEN" and "c \<noteq> DHCP_OPT_PAD" and "\<And>d. i \<noteq> Opt c d"
  shows "get_option_from (pre @ encode_item i @ rest) c (length pre) =
         get_option_from (pre @ encode_item i @ rest) c (length (pre @ encode_item i))"
proof (cases i)
  case Pad
  with assms show ?thesis
    by (subst get_option_from.simps) (auto simp: access_simps opt_code_defs)
next
  case (Opt c' d)
  with assms have "c' \<noteq> c" "c' \<noteq> DHCP_OPT_PAD" "c' \<noteq> DHCP_OPT_END" "length d < 256"
    by auto
  with Opt assms(2) show ?thesis
    by (subst get_option_from.simps) (simp add: access_simps nth_append)
qed

lemma get_option_from_hit:
  assumes "item_ok (Opt c d)" and "length pre < OPTIONS_LEN"
  shows "get_option_from (pre @ encode_item (Opt c d) @ rest) c (length pre) =
         Some (Some (length pre + 2, of_nat (length d)))"
  using assms
  by (subst get_option_from.simps) (auto simp: access_simps nth_append)

lemma get_option_from_items:
  assumes "list_all item_ok is" and "c \<noteq> DHCP_OPT_PAD"
    and "length (pre @ encode_items is @ DHCP_OPT_END # rest) = OPTIONS_LEN"
  shows "case item_lookup is c of
      None \<Rightarrow> get_option_from (pre @ encode_items is @ DHCP_OPT_END # rest) c (length pre) = Some None
    | Some d \<Rightarrow> \<exists>p. get_option_from (pre @ encode_items is @ DHCP_OPT_END # rest) c (length pre)
                      = Some (Some (p, of_nat (length d))) \<and> length d < 256 \<and>
                  p + length d < OPTIONS_LEN \<and>
                  take (length d) (drop p (pre @ encode_items is @ DHCP_OPT_END # rest)) = d"
  using assms
proof (induction "is" arbitrary: pre)
  case Nil
  then show ?case by (simp add: get_option_from_END)
next
  case (Cons i "is")
  have len: "length (pre @ encode_item i @ encode_items is @ DHCP_OPT_END # rest) = OPTIONS_LEN"
    using Cons.prems by simp
  show ?case
  proof (cases "\<exists>d. i = Opt c d")
    case True
    then obtain d where i: "i = Opt c d" by blast
    with Cons.prems have "item_ok (Opt c d)" "length d < 256" by auto
    with get_option_from_hit [OF this(1), of pre "encode_items is @ DHCP_OPT_END # rest"] len i
    show ?thesis by auto
  next
    case False
    then have "item_lookup (i # is) c = item_lookup is c"
      by (cases i) auto
    moreover have "get_option_from (pre @ encode_item i @ encode_items is @ DHCP_OPT_END # rest) c
        (length pre) = get_option_from (pre @ encode_item i @ encode_items is @ DHCP_OPT_END # rest) c
        (length (pre @ encode_item i))"
      using get_option_from_other [of i pre c "encode_items is @ DHCP_OPT_END # rest"]
        False len Cons.prems by auto
    ultimately show ?thesis
      using Cons.IH [of "pre @ encode_item i"] Cons.prems by (auto simp del: length_append split: option.splits)
  qed
qed

text \<open>
  A field that the items fill to the last byte: the scan finds an option that is there, and otherwise
  arrives at the first byte behind the field.
\<close>

lemma get_option_from_filled:
  assumes "list_all item_ok is" and "c \<noteq> DHCP_OPT_PAD" and "length (pre @ encode_items is) = OPTIONS_LEN"
  shows "case item_lookup is c of
      None \<Rightarrow> get_option_from (pre @ encode_items is @ behind) c (length pre) =
        get_option_from (pre @ encode_items is @ behind) c OPTIONS_LEN
    | Some d \<Rightarrow> \<exists>p. get_option_from (pre @ encode_items is @ behind) c (length pre) = Some (Some (p, of_nat (length d))) \<and>
        length d < 256 \<and> p + length d \<le> OPTIONS_LEN \<and> take (length d) (drop p (pre @ encode_items is)) = d"
  using assms
proof (induction "is" arbitrary: pre)
  case Nil
  then show ?case by simp
next
  case (Cons i "is")
  have len: "length pre < OPTIONS_LEN" using Cons.prems by (cases i) auto
  show ?case
  proof (cases "\<exists>d. i = Opt c d")
    case True
    then obtain d where i: "i = Opt c d" by blast
    with Cons.prems have "item_ok (Opt c d)" "length d < 256" by auto
    with get_option_from_hit [OF this(1) len, of "encode_items is @ behind"] Cons.prems i
    show ?thesis by auto
  next
    case False
    then have "item_lookup (i # is) c = item_lookup is c"
      by (cases i) auto
    moreover have "get_option_from (pre @ encode_item i @ encode_items is @ behind) c (length pre) =
        get_option_from (pre @ encode_item i @ encode_items is @ behind) c (length (pre @ encode_item i))"
      using get_option_from_other [of i pre c "encode_items is @ behind"] False len Cons.prems by auto
    ultimately show ?thesis
      using Cons.IH [of "pre @ encode_item i"] Cons.prems by (auto simp del: length_append split: option.splits)
  qed
qed

lemma end_of_options_items:
  assumes "list_all item_ok is"
    and "length (pre @ encode_items is @ DHCP_OPT_END # rest) = OPTIONS_LEN"
  shows "end_of_options (pre @ encode_items is @ DHCP_OPT_END # rest) (length pre) =
         Some (length (pre @ encode_items is))"
  using assms
proof (induction "is" arbitrary: pre)
  case Nil
  then show ?case by (subst end_of_options.simps) (simp add: access_simps)
next
  case (Cons i "is")
  have "end_of_options (pre @ encode_item i @ encode_items is @ DHCP_OPT_END # rest) (length pre) =
        end_of_options (pre @ encode_item i @ encode_items is @ DHCP_OPT_END # rest)
          (length (pre @ encode_item i))"
    using Cons.prems
    by (cases i; subst end_of_options.simps) (auto simp: access_simps nth_append opt_code_defs)
  also have "\<dots> = Some (length (pre @ encode_item i @ encode_items is))"
    using Cons.IH [of "pre @ encode_item i"] Cons.prems by (simp del: length_append)
  finally show ?case by simp
qed

text \<open>
  The fields \<open>dhcp_add_option\<close> is called on: a field that represents a list of items whose
  first item is no padding, or one whose first byte is still zero, which counts as empty.
\<close>

definition holds_items :: "u8 list \<Rightarrow> dhcp_item list \<Rightarrow> bool" where
  "holds_items os is \<longleftrightarrow>
     represents os is \<and> (is \<noteq> [] \<longrightarrow> hd is \<noteq> Pad) \<or>
     is = [] \<and> length os = OPTIONS_LEN \<and> os ! 0 = 0"

lemma represents_first:
  assumes "represents os is" and "is \<noteq> [] \<longrightarrow> hd is \<noteq> Pad"
  shows "os ! 0 \<noteq> 0" and "0 < length os"
proof -
  obtain rest where "os = encode_items is @ DHCP_OPT_END # rest" "list_all item_ok is"
    using assms(1) by (rule representsE)
  then show "os ! 0 \<noteq> 0" and "0 < length os"
    using assms(2) by (cases "is"; cases "hd is"; auto simp: opt_code_defs)+
qed

lemma represents_fresh:
  "length os = OPTIONS_LEN \<Longrightarrow> represents (os[0 := DHCP_OPT_END]) []"
  by (cases os) (auto simp: represents_def OPTIONS_LEN_def)

lemma holds_items_ready:
  assumes "holds_items os is"
  obtains os' where "rd os 0 = Some (os ! 0)"
    and "(if os ! 0 = 0 then wr os 0 DHCP_OPT_END else Some os) = Some os'"
    and "represents os' is"
proof (cases "os ! 0 = 0")
  case True
  with assms have "is = []" and len: "length os = OPTIONS_LEN"
    using represents_first by (auto simp: holds_items_def)
  with True that [of "os[0 := DHCP_OPT_END]"] represents_fresh [OF len] show thesis
    by (simp add: access_simps OPTIONS_LEN_def)
next
  case False
  with assms have "represents os is" "0 < length os"
    using represents_first by (auto simp: holds_items_def)
  with False that [of os] show thesis by (simp add: access_simps)
qed

text \<open>Overwriting the bytes from the END code on with a new option and a new END code.\<close>

lemma write_option_data:
  fixes pre rest d :: "u8 list" and opt len :: u8
  assumes "length d = unat len" and "length d \<le> length rest"
  shows "(if len > 0 then kmemcpy (pre @ opt # len # rest) (length pre + 2) d (unat len)
      else Some (pre @ opt # len # rest)) = Some (pre @ opt # len # d @ drop (length d) rest)"
proof (cases "len = 0")
  case True
  with assms(1) show ?thesis by simp
next
  case False
  then show ?thesis
    using assms by (simp add: kmemcpy_def word_gt_0)
qed

lemma write_option_end:
  fixes pre rest d :: "u8 list" and opt len :: u8
  assumes "length d = unat len" and "length d < length rest"
  shows "wr (pre @ opt # len # d @ drop (length d) rest) (length pre + 2 + unat len) e
      = Some (pre @ opt # len # d @ e # drop (1 + length d) rest)"
  using assms
  by (cases "drop (length d) rest")
     (auto simp: access_simps list_update_append drop_Suc drop_tl)

text \<open>\<open>dhcp_add_option\<close> appends: the field represents one more item afterwards.\<close>

lemma dhcp_add_option_append:
  assumes "holds_items (options m) is" and "item_ok (Opt c d)" and "length d = unat len"
    and "length (encode_items is) + 2 + length d + 1 \<le> OPTIONS_LEN"
  shows "\<exists>os. dhcp_add_option m c len (Some d) = Some (m\<lparr>options := os\<rparr>) \<and>
    holds_items os (is @ [Opt c d])"
proof -
  let ?n = "length (encode_items is)"
  obtain os where first: "rd (options m) 0 = Some (options m ! 0)"
    and ready: "(if options m ! 0 = 0 then wr (options m) 0 DHCP_OPT_END else Some (options m)) = Some os"
    and rep: "represents os is"
    using holds_items_ready [OF assms(1)] by blast
  obtain rest where rest: "os = encode_items is @ DHCP_OPT_END # rest" "list_all item_ok is"
    "?n + 1 + length rest = OPTIONS_LEN"
    using rep by (rule representsE)
  obtain r1 rest' where rest': "rest = r1 # rest'"
    using rest(3) assms(4) by (cases rest) auto
  have fin: "end_of_options os 0 = Some ?n"
    using end_of_options_items [of "is" "[]" rest] rest by simp
  have w1: "wr os ?n c = Some (encode_items is @ c # r1 # rest')"
    by (simp add: access_simps rest rest')
  have w2: "wr (encode_items is @ c # r1 # rest') (?n + 1) len = Some (encode_items is @ c # len # rest')"
    by (simp add: access_simps list_update_append)
  have room: "length d < length rest'"
    using rest(3) rest' assms(4) by simp
  define os' where "os' = encode_items is @ c # len # d @ DHCP_OPT_END # drop (1 + length d) rest'"
  have guards: "?n + 2 + unat len + 1 \<le> OPTIONS_LEN" "?n + 2 + unat len < OPTIONS_LEN"
    using assms(3,4) by auto
  have "dhcp_add_option m c len (Some d) = Some (m\<lparr>options := os'\<rparr>)"
    by (simp only: dhcp_add_option_def first ready fin w1 w2 guards if_True Option.bind.simps option.case
        write_option_data [OF assms(3) less_imp_le [OF room]] write_option_end [OF assms(3) room] os'_def)
  moreover have "represents (encode_items (is @ [Opt c d]) @ DHCP_OPT_END # drop (1 + length d) rest')
      (is @ [Opt c d])"
    by (rule representsI) (use rest rest' room assms in auto)
  then have "represents os' (is @ [Opt c d])" using assms(3) by (simp add: os'_def)
  moreover have "hd (is @ [Opt c d]) \<noteq> Pad"
    using assms(1) by (cases "is") (auto simp: holds_items_def)
  ultimately show ?thesis by (auto simp: holds_items_def)
qed

text \<open>Without room the field is left as it is, but for the END code in a fresh field.\<close>

lemma dhcp_add_option_full:
  assumes "holds_items (options m) is"
    and "OPTIONS_LEN < length (encode_items is) + 2 + unat len + 1"
  shows "\<exists>os. dhcp_add_option m c len data = Some (m\<lparr>options := os\<rparr>) \<and> represents os is"
proof -
  obtain os where first: "rd (options m) 0 = Some (options m ! 0)"
    and ready: "(if options m ! 0 = 0 then wr (options m) 0 DHCP_OPT_END else Some (options m)) = Some os"
    and rep: "represents os is"
    using holds_items_ready [OF assms(1)] by blast
  obtain rest where rest: "os = encode_items is @ DHCP_OPT_END # rest" "list_all item_ok is"
    "length (encode_items is) + 1 + length rest = OPTIONS_LEN"
    using rep by (rule representsE)
  have fin: "end_of_options os 0 = Some (length (encode_items is))"
    using end_of_options_items [of "is" "[]" rest] rest by simp
  have no: "(length (encode_items is) + 2 + unat len + 1 \<le> OPTIONS_LEN) = False"
    using assms(2) by auto
  have "dhcp_add_option m c len data = Some (m\<lparr>options := os\<rparr>)"
    by (simp only: dhcp_add_option_def first ready fin no if_False Option.bind.simps)
  with rep show ?thesis by blast
qed

section \<open>Lookup of an option\<close>

text \<open>\<open>dhcp_get_option\<close> is lookup in the represented items, and it stays in the field.\<close>

lemma dhcp_get_option_None:
  assumes "represents (options m) is" and "c \<noteq> DHCP_OPT_PAD" and "item_lookup is c = None"
  shows "dhcp_get_option m c = Some None"
  using assms representsE [OF assms(1)] get_option_from_items [of "is" c "[]"]
  by (force simp: dhcp_get_option_def)

lemma dhcp_get_option_Some:
  assumes "represents (options m) is" and "c \<noteq> DHCP_OPT_PAD" and "item_lookup is c = Some d"
  obtains p where "dhcp_get_option m c = Some (Some (p, of_nat (length d)))"
    and "length d < 256" and "p + length d < OPTIONS_LEN"
    and "take (length d) (drop p (options m)) = d"
proof -
  obtain rest where "options m = encode_items is @ DHCP_OPT_END # rest" "list_all item_ok is"
    "length (encode_items is) + 1 + length rest = OPTIONS_LEN"
    using assms(1) by (rule representsE)
  then show thesis
    using that get_option_from_items [of "is" c "[]" rest] assms(2,3)
    by (auto simp: dhcp_get_option_def)
qed

lemma dhcp_get_message_type_items:
  assumes "represents (options m) is"
  shows "dhcp_get_message_type m = Some (case item_lookup is DHCP_OPT_MESSAGE_TYPE of
      Some (t # d) \<Rightarrow> t | _ \<Rightarrow> 0)"
proof (cases "item_lookup is DHCP_OPT_MESSAGE_TYPE")
  case None
  with dhcp_get_option_None [OF assms _ None] show ?thesis
    by (simp add: dhcp_get_message_type_def opt_code_defs)
next
  case (Some d)
  then obtain p where p: "dhcp_get_option m DHCP_OPT_MESSAGE_TYPE = Some (Some (p, of_nat (length d)))"
    "length d < 256" "p + length d < OPTIONS_LEN" "take (length d) (drop p (options m)) = d"
    using dhcp_get_option_Some [OF assms _ Some] by (auto simp: opt_code_defs)
  have len: "length (options m) = OPTIONS_LEN" using assms by (simp add: represents_def)
  show ?thesis
  proof (cases d)
    case Nil
    with Some p show ?thesis by (simp add: dhcp_get_message_type_def)
  next
    case (Cons t d')
    have "unat (1 :: u8) \<le> unat (of_nat (length d) :: u8)"
      by (subst unat_of_nat_u8) (use p(2) Cons in auto)
    then have "(1 :: u8) \<le> of_nat (length d)" by (simp add: word_le_nat_alt)
    moreover have "options m ! p = t"
      using p(3,4) len Cons by (metis append_Nil drop_append length_0_conv list.sel(1) hd_drop_conv_nth
          add_lessD1 take_Suc_Cons length_Cons hd_take zero_less_Suc)
    ultimately show ?thesis
      using Some p Cons len by (simp add: dhcp_get_message_type_def access_simps)
  qed
qed


text \<open>
  A field of padding only, with no END code: the walk of \<open>dhcp_get_option\<close> reads one byte past
  the array, because \<open>*ptr\<close> is evaluated before the comparison with the end of the field.
\<close>

lemma get_option_from_blank:
  assumes "c \<noteq> DHCP_OPT_PAD" and "i \<le> OPTIONS_LEN"
  shows "get_option_from (replicate OPTIONS_LEN 0) c i = None"
  using assms(2)
proof (induction "OPTIONS_LEN - i" arbitrary: i)
  case 0
  then show ?case by (subst get_option_from.simps) (simp add: access_simps)
next
  case (Suc k)
  then have "i < OPTIONS_LEN" "k = OPTIONS_LEN - Suc i" by auto
  with Suc.hyps(1) [of "Suc i"] assms(1) show ?case
    by (subst get_option_from.simps) (auto simp: access_simps opt_code_defs)
qed

lemma dhcp_get_message_type_blank:
  "options m = replicate OPTIONS_LEN 0 \<Longrightarrow> dhcp_get_message_type m = None"
  by (simp add: dhcp_get_message_type_def dhcp_get_option_def get_option_from_blank)

end
