(* ===== verification/Dhcp_Message.thy ===== *)
theory Dhcp_Message
  imports Dhcp_Options
begin

text \<open>
  The server configuration and the reply builders of \<open>dhcp-lib/dhcp_server.c\<close>:
  \<open>uint32_to_ip\<close>, \<open>ip_to_uint32\<close>, \<open>dhcp_build_offer\<close>, \<open>dhcp_build_ack\<close>, \<open>dhcp_build_nak\<close>.
  The lemmas show that the address conversions are inverse to each other, that every builder
  stays inside the option field, and which items the field of each reply represents.
\<close>

section \<open>Configuration and server state\<close>

record dhcp_config_t =
  server_ip :: u32
  subnet_mask :: u32
  gateway_ip :: u32
  dns_ip :: u32
  pool_start :: u32
  pool_end :: u32
  lease_time :: u32

text \<open>\<open>dhcp_server_t\<close>: the type of \<open>pool\<close> is chosen by the lease mode at compile time.\<close>

record 'p dhcp_server_t =
  config :: dhcp_config_t
  pool :: 'p

section \<open>Addresses as bytes\<close>

definition uint32_to_ip :: "u32 \<Rightarrow> u8 \<times> u8 \<times> u8 \<times> u8" where
  "uint32_to_ip ip =
     (ucast (drop_bit 24 ip AND 0xFF), ucast (drop_bit 16 ip AND 0xFF),
      ucast (drop_bit 8 ip AND 0xFF), ucast (ip AND 0xFF))"

definition ip_to_uint32 :: "u8 \<Rightarrow> u8 \<Rightarrow> u8 \<Rightarrow> u8 \<Rightarrow> u32" where
  "ip_to_uint32 a b c d =
     push_bit 24 (ucast a) OR push_bit 16 (ucast b) OR push_bit 8 (ucast c) OR ucast d"

text \<open>The four bytes of a word in network order, as the builders store them.\<close>

definition be_bytes :: "u32 \<Rightarrow> u8 list" where
  "be_bytes w = (case uint32_to_ip w of (a, b, c, d) \<Rightarrow> [a, b, c, d])"

lemma length_be_bytes [simp]: "length (be_bytes w) = 4"
  by (simp add: be_bytes_def uint32_to_ip_def)

lemma and_0xFF: "x AND 0xFF = take_bit 8 x" for x :: u32
proof -
  have "(0xFF :: u32) = mask 8" by (simp add: mask_eq_exp_minus_1)
  then show ?thesis by (simp only: take_bit_eq_mask)
qed

lemma ip_to_uint32_uint32_to_ip:
  "(case uint32_to_ip ip of (a, b, c, d) \<Rightarrow> ip_to_uint32 a b c d) = ip"
proof -
  have "ip_to_uint32 (ucast (take_bit 8 (drop_bit 24 ip))) (ucast (take_bit 8 (drop_bit 16 ip)))
      (ucast (take_bit 8 (drop_bit 8 ip))) (ucast (take_bit 8 ip)) = ip" (is "?w = ip")
  proof (rule bit_word_eqI)
    fix n assume "n < LENGTH(32)"
    then consider "n < 8" | "8 \<le> n" "n < 16" | "16 \<le> n" "n < 24" | "24 \<le> n" "n < 32"
      by fastforce
    then show "bit ?w n = bit ip n"
      by cases (auto simp: ip_to_uint32_def bit_simps)
  qed
  then show ?thesis by (simp add: uint32_to_ip_def and_0xFF)
qed

lemma uint32_to_ip_ip_to_uint32:
  "uint32_to_ip (ip_to_uint32 a b c d) = (a, b, c, d)"
  unfolding uint32_to_ip_def ip_to_uint32_def prod.inject and_0xFF
  by (intro conjI bit_word_eqI) (auto simp: bit_simps dest: bit_imp_le_length)

lemma be_bytes_inverse:
  "be_bytes ip = [a, b, c, d] \<Longrightarrow> ip_to_uint32 a b c d = ip"
  using ip_to_uint32_uint32_to_ip [of ip] by (auto simp: be_bytes_def split: prod.splits)

lemma be_bytes_ip_to_uint32: "be_bytes (ip_to_uint32 a b c d) = [a, b, c, d]"
  by (simp add: be_bytes_def uint32_to_ip_ip_to_uint32)

section \<open>Reply builders\<close>

text \<open>\<open>kmemset (msg, 0, sizeof (dhcp_message_t))\<close>.\<close>

definition zero_message :: dhcp_message_t where
  "zero_message = \<lparr>op = 0, htype = 0, hlen = 0, hops = 0, xid = 0, secs = 0, flags = 0,
     ciaddr = 0, yiaddr = 0, siaddr = 0, giaddr = 0, chaddr = replicate 16 0,
     sname = replicate 64 0, bootfile = replicate 128 0, magic_cookie = 0,
     options = replicate OPTIONS_LEN 0\<rparr>"

definition dhcp_build_offer ::
  "'p dhcp_server_t \<Rightarrow> dhcp_message_t \<Rightarrow> u32 \<Rightarrow> dhcp_message_t option" where
  "dhcp_build_offer server request offered_ip = do {
     let offer = zero_message;
     let offer = offer\<lparr>op := 2, htype := htype request, hlen := hlen request, hops := 0,
       xid := xid request, secs := 0, flags := flags request, ciaddr := 0,
       yiaddr := offered_ip, siaddr := server_ip (config server), giaddr := giaddr request\<rparr>;
     ch \<leftarrow> kmemcpy (chaddr offer) 0 (chaddr request) 16;
     let offer = offer\<lparr>chaddr := ch, magic_cookie := DHCP_MAGIC_COOKIE\<rparr>;
     offer \<leftarrow> dhcp_set_message_type offer DHCP_OFFER;
     offer \<leftarrow> dhcp_add_option offer DHCP_OPT_SERVER_ID 4 (Some (be_bytes (server_ip (config server))));
     offer \<leftarrow> dhcp_add_option offer DHCP_OPT_SUBNET_MASK 4 (Some (be_bytes (subnet_mask (config server))));
     offer \<leftarrow> dhcp_add_option offer DHCP_OPT_ROUTER 4 (Some (be_bytes (gateway_ip (config server))));
     offer \<leftarrow> dhcp_add_option offer DHCP_OPT_DNS_SERVER 4 (Some (be_bytes (dns_ip (config server))));
     dhcp_add_option offer DHCP_OPT_LEASE_TIME 4 (Some (be_bytes (lease_time (config server))))
   }"

definition dhcp_build_ack ::
  "'p dhcp_server_t \<Rightarrow> dhcp_message_t \<Rightarrow> u32 \<Rightarrow> dhcp_message_t option" where
  "dhcp_build_ack server request assigned_ip = do {
     let ack = zero_message;
     let ack = ack\<lparr>op := 2, htype := htype request, hlen := hlen request, hops := 0,
       xid := xid request, secs := 0, flags := flags request, ciaddr := ciaddr request,
       yiaddr := assigned_ip, siaddr := server_ip (config server), giaddr := giaddr request\<rparr>;
     ch \<leftarrow> kmemcpy (chaddr ack) 0 (chaddr request) 16;
     let ack = ack\<lparr>chaddr := ch, magic_cookie := DHCP_MAGIC_COOKIE\<rparr>;
     ack \<leftarrow> dhcp_set_message_type ack DHCP_ACK;
     ack \<leftarrow> dhcp_add_option ack DHCP_OPT_SERVER_ID 4 (Some (be_bytes (server_ip (config server))));
     ack \<leftarrow> dhcp_add_option ack DHCP_OPT_SUBNET_MASK 4 (Some (be_bytes (subnet_mask (config server))));
     ack \<leftarrow> dhcp_add_option ack DHCP_OPT_ROUTER 4 (Some (be_bytes (gateway_ip (config server))));
     ack \<leftarrow> dhcp_add_option ack DHCP_OPT_DNS_SERVER 4 (Some (be_bytes (dns_ip (config server))));
     dhcp_add_option ack DHCP_OPT_LEASE_TIME 4 (Some (be_bytes (lease_time (config server))))
   }"

definition dhcp_build_nak :: "dhcp_message_t \<Rightarrow> dhcp_message_t option" where
  "dhcp_build_nak request = do {
     let nak = zero_message;
     let nak = nak\<lparr>op := 2, htype := htype request, hlen := hlen request, hops := 0,
       xid := xid request, secs := 0, flags := flags request, ciaddr := 0,
       yiaddr := 0, siaddr := 0, giaddr := giaddr request\<rparr>;
     ch \<leftarrow> kmemcpy (chaddr nak) 0 (chaddr request) 16;
     let nak = nak\<lparr>chaddr := ch, magic_cookie := DHCP_MAGIC_COOKIE\<rparr>;
     os \<leftarrow> kmemset (options nak) 0 0 308;
     os \<leftarrow> wr os 0 DHCP_OPT_MESSAGE_TYPE;
     os \<leftarrow> wr os 1 1;
     os \<leftarrow> wr os 2 DHCP_NAK;
     os \<leftarrow> wr os 3 DHCP_OPT_END;
     Some (nak\<lparr>options := os\<rparr>)
   }"

section \<open>What the builders produce\<close>

text \<open>The items of an OFFER (message type 2) and of an ACK (message type 5).\<close>

definition reply_items :: "dhcp_config_t \<Rightarrow> u8 \<Rightarrow> dhcp_item list" where
  "reply_items c type =
     [Opt DHCP_OPT_MESSAGE_TYPE [type],
      Opt DHCP_OPT_SERVER_ID (be_bytes (server_ip c)),
      Opt DHCP_OPT_SUBNET_MASK (be_bytes (subnet_mask c)),
      Opt DHCP_OPT_ROUTER (be_bytes (gateway_ip c)),
      Opt DHCP_OPT_DNS_SERVER (be_bytes (dns_ip c)),
      Opt DHCP_OPT_LEASE_TIME (be_bytes (lease_time c))]"

text \<open>The header fields every reply copies from the request.\<close>

definition reply_header :: "dhcp_message_t \<Rightarrow> dhcp_message_t \<Rightarrow> bool" where
  "reply_header request m \<longleftrightarrow> op m = 2 \<and> htype m = htype request \<and> hlen m = hlen request \<and>
     xid m = xid request \<and> flags m = flags request \<and> giaddr m = giaddr request \<and>
     chaddr m = chaddr request \<and> magic_cookie m = DHCP_MAGIC_COOKIE \<and> message_ok m"

lemma holds_items_zero: "options m = replicate OPTIONS_LEN 0 \<Longrightarrow> holds_items (options m) []"
  by (simp add: holds_items_def OPTIONS_LEN_def)

text \<open>
  Adding the six reply options to a message with a fresh option field; the option field is the
  only part of the message that changes.
\<close>

lemma add_reply_options:
  assumes "options m = replicate OPTIONS_LEN 0"
  shows "\<exists>os. do {
     m1 \<leftarrow> dhcp_set_message_type m type;
     m2 \<leftarrow> dhcp_add_option m1 DHCP_OPT_SERVER_ID 4 (Some (be_bytes (server_ip c)));
     m3 \<leftarrow> dhcp_add_option m2 DHCP_OPT_SUBNET_MASK 4 (Some (be_bytes (subnet_mask c)));
     m4 \<leftarrow> dhcp_add_option m3 DHCP_OPT_ROUTER 4 (Some (be_bytes (gateway_ip c)));
     m5 \<leftarrow> dhcp_add_option m4 DHCP_OPT_DNS_SERVER 4 (Some (be_bytes (dns_ip c)));
     dhcp_add_option m5 DHCP_OPT_LEASE_TIME 4 (Some (be_bytes (lease_time c)))
   } = Some (m\<lparr>options := os\<rparr>) \<and> holds_items os (reply_items c type)"
proof -
  have step: "\<exists>os'. dhcp_add_option (m\<lparr>options := os\<rparr>) k 4 (Some (be_bytes w)) =
      Some (m\<lparr>options := os'\<rparr>) \<and> holds_items os' (is @ [Opt k (be_bytes w)])"
    if "holds_items os is" "k \<noteq> DHCP_OPT_PAD" "k \<noteq> DHCP_OPT_END" "length (encode_items is) \<le> 300"
    for os "is" k w
    using dhcp_add_option_append [of "m\<lparr>options := os\<rparr>" "is" k "be_bytes w" 4] that
    by (simp add: OPTIONS_LEN_def)
  obtain o1 where o1: "dhcp_set_message_type m type = Some (m\<lparr>options := o1\<rparr>)"
    and h1: "holds_items o1 [Opt DHCP_OPT_MESSAGE_TYPE [type]]"
    using dhcp_add_option_append [of m "[]" DHCP_OPT_MESSAGE_TYPE "[type]" 1]
      holds_items_zero [OF assms]
    by (auto simp: dhcp_set_message_type_def OPTIONS_LEN_def)
  note s1 = step [OF h1, of DHCP_OPT_SERVER_ID "server_ip c"]
  obtain o2 where o2: "dhcp_add_option (m\<lparr>options := o1\<rparr>) DHCP_OPT_SERVER_ID 4
      (Some (be_bytes (server_ip c))) = Some (m\<lparr>options := o2\<rparr>)"
    and h2: "holds_items o2 (take 2 (reply_items c type))"
    using s1 by (auto simp: reply_items_def)
  obtain o3 where o3: "dhcp_add_option (m\<lparr>options := o2\<rparr>) DHCP_OPT_SUBNET_MASK 4
      (Some (be_bytes (subnet_mask c))) = Some (m\<lparr>options := o3\<rparr>)"
    and h3: "holds_items o3 (take 3 (reply_items c type))"
    using step [OF h2, of DHCP_OPT_SUBNET_MASK "subnet_mask c"]
    by (auto simp: reply_items_def)
  obtain o4 where o4: "dhcp_add_option (m\<lparr>options := o3\<rparr>) DHCP_OPT_ROUTER 4
      (Some (be_bytes (gateway_ip c))) = Some (m\<lparr>options := o4\<rparr>)"
    and h4: "holds_items o4 (take 4 (reply_items c type))"
    using step [OF h3, of DHCP_OPT_ROUTER "gateway_ip c"]
    by (auto simp: reply_items_def)
  obtain o5 where o5: "dhcp_add_option (m\<lparr>options := o4\<rparr>) DHCP_OPT_DNS_SERVER 4
      (Some (be_bytes (dns_ip c))) = Some (m\<lparr>options := o5\<rparr>)"
    and h5: "holds_items o5 (take 5 (reply_items c type))"
    using step [OF h4, of DHCP_OPT_DNS_SERVER "dns_ip c"]
    by (auto simp: reply_items_def)
  show ?thesis
    using step [OF h5, of DHCP_OPT_LEASE_TIME "lease_time c"]
    by (auto simp: o1 o2 o3 o4 o5 reply_items_def)
qed

lemma holds_items_represents: "holds_items os is \<Longrightarrow> is \<noteq> [] \<Longrightarrow> represents os is"
  by (auto simp: holds_items_def)

lemma represents_length: "represents os is \<Longrightarrow> length os = OPTIONS_LEN"
  by (simp add: represents_def)

lemma zero_message_sel [simp]:
  "chaddr zero_message = replicate 16 0" "options zero_message = replicate OPTIONS_LEN 0"
  "sname zero_message = replicate 64 0" "bootfile zero_message = replicate 128 0"
  by (simp_all add: zero_message_def)

lemma dhcp_build_offer_ok:
  assumes "length (chaddr request) = 16"
  obtains m where "dhcp_build_offer server request ip = Some m"
    and "reply_header request m" and "yiaddr m = ip" and "siaddr m = server_ip (config server)"
    and "ciaddr m = 0" and "represents (options m) (reply_items (config server) DHCP_OFFER)"
proof -
  let ?m = "zero_message\<lparr>op := 2, htype := htype request, hlen := hlen request, hops := 0,
       xid := xid request, secs := 0, flags := flags request, ciaddr := 0,
       yiaddr := ip, siaddr := server_ip (config server), giaddr := giaddr request,
       chaddr := chaddr request, magic_cookie := DHCP_MAGIC_COOKIE\<rparr>"
  obtain os where add: "do {
     m1 \<leftarrow> dhcp_set_message_type ?m DHCP_OFFER;
     m2 \<leftarrow> dhcp_add_option m1 DHCP_OPT_SERVER_ID 4 (Some (be_bytes (server_ip (config server))));
     m3 \<leftarrow> dhcp_add_option m2 DHCP_OPT_SUBNET_MASK 4 (Some (be_bytes (subnet_mask (config server))));
     m4 \<leftarrow> dhcp_add_option m3 DHCP_OPT_ROUTER 4 (Some (be_bytes (gateway_ip (config server))));
     m5 \<leftarrow> dhcp_add_option m4 DHCP_OPT_DNS_SERVER 4 (Some (be_bytes (dns_ip (config server))));
     dhcp_add_option m5 DHCP_OPT_LEASE_TIME 4 (Some (be_bytes (lease_time (config server))))
   } = Some (?m\<lparr>options := os\<rparr>)" and h: "holds_items os (reply_items (config server) DHCP_OFFER)"
    using add_reply_options [of ?m DHCP_OFFER "config server"] by auto
  from h have r: "represents os (reply_items (config server) DHCP_OFFER)"
    by (rule holds_items_represents) (simp add: reply_items_def)
  from add have "dhcp_build_offer server request ip = Some (?m\<lparr>options := os\<rparr>)"
    using assms by (simp add: dhcp_build_offer_def access_simps)
  then show thesis
    by (rule that) (use assms r in \<open>simp_all add: reply_header_def message_ok_def represents_length\<close>)
qed

lemma dhcp_build_ack_ok:
  assumes "length (chaddr request) = 16"
  obtains m where "dhcp_build_ack server request ip = Some m"
    and "reply_header request m" and "yiaddr m = ip" and "siaddr m = server_ip (config server)"
    and "ciaddr m = ciaddr request" and "represents (options m) (reply_items (config server) DHCP_ACK)"
proof -
  let ?m = "zero_message\<lparr>op := 2, htype := htype request, hlen := hlen request, hops := 0,
       xid := xid request, secs := 0, flags := flags request, ciaddr := ciaddr request,
       yiaddr := ip, siaddr := server_ip (config server), giaddr := giaddr request,
       chaddr := chaddr request, magic_cookie := DHCP_MAGIC_COOKIE\<rparr>"
  obtain os where add: "do {
     m1 \<leftarrow> dhcp_set_message_type ?m DHCP_ACK;
     m2 \<leftarrow> dhcp_add_option m1 DHCP_OPT_SERVER_ID 4 (Some (be_bytes (server_ip (config server))));
     m3 \<leftarrow> dhcp_add_option m2 DHCP_OPT_SUBNET_MASK 4 (Some (be_bytes (subnet_mask (config server))));
     m4 \<leftarrow> dhcp_add_option m3 DHCP_OPT_ROUTER 4 (Some (be_bytes (gateway_ip (config server))));
     m5 \<leftarrow> dhcp_add_option m4 DHCP_OPT_DNS_SERVER 4 (Some (be_bytes (dns_ip (config server))));
     dhcp_add_option m5 DHCP_OPT_LEASE_TIME 4 (Some (be_bytes (lease_time (config server))))
   } = Some (?m\<lparr>options := os\<rparr>)" and h: "holds_items os (reply_items (config server) DHCP_ACK)"
    using add_reply_options [of ?m DHCP_ACK "config server"] by auto
  from h have r: "represents os (reply_items (config server) DHCP_ACK)"
    by (rule holds_items_represents) (simp add: reply_items_def)
  from add have "dhcp_build_ack server request ip = Some (?m\<lparr>options := os\<rparr>)"
    using assms by (simp add: dhcp_build_ack_def access_simps)
  then show thesis
    by (rule that) (use assms r in \<open>simp_all add: reply_header_def message_ok_def represents_length\<close>)
qed

lemma dhcp_build_nak_ok:
  assumes "length (chaddr request) = 16"
  obtains m where "dhcp_build_nak request = Some m" and "reply_header request m"
    and "yiaddr m = 0" and "siaddr m = 0" and "ciaddr m = 0"
    and "represents (options m) [Opt DHCP_OPT_MESSAGE_TYPE [DHCP_NAK]]"
proof -
  define os where "os = [DHCP_OPT_MESSAGE_TYPE, 1, DHCP_NAK, DHCP_OPT_END] @ replicate 304 (0 :: u8)"
  let ?m = "zero_message\<lparr>op := 2, htype := htype request, hlen := hlen request, hops := 0,
       xid := xid request, secs := 0, flags := flags request, ciaddr := 0,
       yiaddr := 0, siaddr := 0, giaddr := giaddr request,
       chaddr := chaddr request, magic_cookie := DHCP_MAGIC_COOKIE, options := os\<rparr>"
  have rep: "replicate OPTIONS_LEN (0 :: u8) = [0, 0, 0, 0] @ replicate 304 0"
    by (simp add: OPTIONS_LEN_def list_eq_iff_nth_eq nth_append nth_Cons' numeral_2_eq_2)
  have set0: "kmemset (replicate OPTIONS_LEN (0 :: u8)) 0 0 308 = Some ([0, 0, 0, 0] @ replicate 304 0)"
    unfolding rep [symmetric] by (simp add: kmemset_def OPTIONS_LEN_def)
  have "do { os \<leftarrow> wr ([0, 0, 0, 0] @ replicate 304 0) 0 DHCP_OPT_MESSAGE_TYPE; os \<leftarrow> wr os 1 1;
      os \<leftarrow> wr os 2 DHCP_NAK; wr os 3 DHCP_OPT_END } = Some os"
    by (simp add: wr_def os_def)
  then have nak: "dhcp_build_nak request = Some ?m"
    using assms
    by (auto simp: dhcp_build_nak_def kmemcpy_def set0 bind_eq_Some_iff)
  have r: "represents os [Opt DHCP_OPT_MESSAGE_TYPE [DHCP_NAK]]"
    by (simp add: represents_def os_def OPTIONS_LEN_def)
  from nak show thesis
    by (rule that) (use assms r in \<open>simp_all add: reply_header_def message_ok_def represents_length\<close>)
qed

lemma item_lookup_reply_items [simp]:
  "item_lookup (reply_items c type) DHCP_OPT_MESSAGE_TYPE = Some [type]"
  "item_lookup (reply_items c type) DHCP_OPT_SERVER_ID = Some (be_bytes (server_ip c))"
  "item_lookup (reply_items c type) DHCP_OPT_SUBNET_MASK = Some (be_bytes (subnet_mask c))"
  "item_lookup (reply_items c type) DHCP_OPT_ROUTER = Some (be_bytes (gateway_ip c))"
  "item_lookup (reply_items c type) DHCP_OPT_DNS_SERVER = Some (be_bytes (dns_ip c))"
  "item_lookup (reply_items c type) DHCP_OPT_LEASE_TIME = Some (be_bytes (lease_time c))"
  by (simp_all add: reply_items_def opt_code_defs)

end
