(* ===== verification/Dhcp_Serve.thy ===== *)
theory Dhcp_Serve
  imports Dhcp_Message
begin

text \<open>
  The part the five \<open>dhcp_process_message_*\<close> functions of \<open>dhcp-lib/dhcp_server.c\<close> share: the
  dispatch on the message type, the decoding of the requested address and the choice of the
  reply.  \<open>serve\<close> is that skeleton over three operations of a lease backend; every backend's
  process function is shown equal to an instance of it in the backend's theory.

  \<open>outcome\<close> is the specification: it works on the items of the request instead of its bytes and
  returns the reply as a value of a datatype.  The locale \<open>address_server\<close> states what a backend
  promises; inside it the byte-level server is shown to refine \<open>outcome\<close>, to stay in bounds and
  to keep the backend's invariant over every sequence of requests.
\<close>

section \<open>The requested address\<close>

text \<open>The four bytes at \<open>req_opt\<close>, combined as the source does.\<close>

definition requested_ip :: "u8 list \<Rightarrow> nat \<Rightarrow> u32 option" where
  "requested_ip os p = do {
     a \<leftarrow> rd os p;
     b \<leftarrow> rd os (p + 1);
     c \<leftarrow> rd os (p + 2);
     d \<leftarrow> rd os (p + 3);
     Some (push_bit 24 (ucast a) OR push_bit 16 (ucast b) OR push_bit 8 (ucast c) OR ucast d)
   }"

lemma requested_ip_bytes:
  assumes "length os = OPTIONS_LEN" and "p + 4 < OPTIONS_LEN" and "take 4 (drop p os) = [a, b, c, d]"
  shows "requested_ip os p = Some (ip_to_uint32 a b c d)"
proof -
  have "take 4 (drop p os) ! 0 = os ! p" "take 4 (drop p os) ! 1 = os ! (p + 1)"
    "take 4 (drop p os) ! 2 = os ! (p + 2)" "take 4 (drop p os) ! 3 = os ! (p + 3)"
    using assms(1,2) by simp_all
  with assms show ?thesis
    by (simp add: requested_ip_def ip_to_uint32_def access_simps)
qed

section \<open>The skeleton and its specification\<close>

definition serve ::
  "('p dhcp_server_t \<Rightarrow> u8 list \<Rightarrow> u32 \<Rightarrow> ('p dhcp_server_t \<times> u32) option) \<Rightarrow>
   ('p dhcp_server_t \<Rightarrow> u32 \<Rightarrow> u8 list \<Rightarrow> u32 \<Rightarrow> ('p dhcp_server_t \<times> bool) option) \<Rightarrow>
   ('p dhcp_server_t \<Rightarrow> u8 list \<Rightarrow> 'p dhcp_server_t option) \<Rightarrow>
   'p dhcp_server_t \<Rightarrow> dhcp_message_t \<Rightarrow> dhcp_message_t \<Rightarrow> u32 \<Rightarrow> ('p dhcp_server_t \<times> dhcp_message_t) option" where
  "serve offer commit decline s request response cur_time = do {
     msg_type \<leftarrow> dhcp_get_message_type request;
     if msg_type = DHCP_DISCOVER then do {
       (s', offered_ip) \<leftarrow> offer s (chaddr request) cur_time;
       if offered_ip \<noteq> 0 then do {
         m \<leftarrow> dhcp_build_offer s' request offered_ip;
         Some (s', m)
       }
       else Some (s', response)
     }
     else if msg_type = DHCP_REQUEST then do {
       req_opt \<leftarrow> dhcp_get_option request DHCP_OPT_REQUESTED_IP;
       case req_opt of
         None \<Rightarrow> Some (s, response)
       | Some (p, len) \<Rightarrow>
           if len = 4 then do {
             ip \<leftarrow> requested_ip (options request) p;
             (s', ok) \<leftarrow> commit s ip (chaddr request) cur_time;
             if ok then do {
               m \<leftarrow> dhcp_build_ack s' request ip;
               Some (s', m)
             }
             else do {
               m \<leftarrow> dhcp_build_nak request;
               Some (s', m)
             }
           }
           else Some (s, response)
     }
     else if msg_type = DHCP_DECLINE then do {
       s' \<leftarrow> decline s (chaddr request);
       Some (s', response)
     }
     else Some (s, response)
   }"

datatype reply = NoReply | Offer u32 | Ack u32 | Nak

definition outcome ::
  "('s \<Rightarrow> u8 list \<Rightarrow> u32 \<Rightarrow> ('s \<times> u32) option) \<Rightarrow>
   ('s \<Rightarrow> u32 \<Rightarrow> u8 list \<Rightarrow> u32 \<Rightarrow> ('s \<times> bool) option) \<Rightarrow>
   ('s \<Rightarrow> u8 list \<Rightarrow> 's option) \<Rightarrow>
   's \<Rightarrow> dhcp_item list \<Rightarrow> u8 list \<Rightarrow> u32 \<Rightarrow> ('s \<times> reply) option" where
  "outcome offer commit decline s is mac cur_time =
     (case item_lookup is DHCP_OPT_MESSAGE_TYPE of
        Some (t # _) \<Rightarrow>
          if t = DHCP_DISCOVER then do {
            (s', ip) \<leftarrow> offer s mac cur_time;
            Some (s', if ip \<noteq> 0 then Offer ip else NoReply)
          }
          else if t = DHCP_REQUEST then
            (case item_lookup is DHCP_OPT_REQUESTED_IP of
               Some [a, b, c, d] \<Rightarrow> do {
                 (s', ok) \<leftarrow> commit s (ip_to_uint32 a b c d) mac cur_time;
                 Some (s', if ok then Ack (ip_to_uint32 a b c d) else Nak)
               }
             | _ \<Rightarrow> Some (s, NoReply))
          else if t = DHCP_DECLINE then do {
            s' \<leftarrow> decline s mac;
            Some (s', NoReply)
          }
          else Some (s, NoReply)
      | _ \<Rightarrow> Some (s, NoReply))"

text \<open>Every outcome is that of at most one operation of the backend.\<close>

lemma outcome_if_discover:
  assumes "item_lookup is DHCP_OPT_MESSAGE_TYPE = Some [DHCP_DISCOVER]"
  shows "outcome offer commit decline s is mac t = do { (s', ip) \<leftarrow> offer s mac t; Some (s', if ip \<noteq> 0 then Offer ip else NoReply) }"
  using assms by (simp add: outcome_def)

lemma outcome_if_request:
  assumes "item_lookup is DHCP_OPT_MESSAGE_TYPE = Some [DHCP_REQUEST]" and "item_lookup is DHCP_OPT_REQUESTED_IP = Some (be_bytes ip)"
  shows "outcome offer commit decline s is mac t = do { (s', ok) \<leftarrow> commit s ip mac t; Some (s', if ok then Ack ip else Nak) }"
proof -
  obtain x y z w where ip: "be_bytes ip = [x, y, z, w]" by (cases "uint32_to_ip ip") (simp add: be_bytes_def)
  show ?thesis using assms by (simp add: outcome_def msg_type_defs ip be_bytes_inverse [OF ip] cong: if_cong)
qed

lemma outcome_cases:
  obtains (none) "outcome offer commit decline s is mac t = Some (s, NoReply)"
  | (offer) "outcome offer commit decline s is mac t = do {
        (s', ip) \<leftarrow> offer s mac t; Some (s', if ip \<noteq> 0 then Offer ip else NoReply) }"
  | (commit) ip where "outcome offer commit decline s is mac t = do {
        (s', ok) \<leftarrow> commit s ip mac t; Some (s', if ok then Ack ip else Nak) }"
  | (decline) "outcome offer commit decline s is mac t = do {
        s' \<leftarrow> decline s mac; Some (s', NoReply) }"
proof -
  let ?out = "outcome offer commit decline s is mac t"
  have "?out = Some (s, NoReply) \<or>
    ?out = do { (s', ip) \<leftarrow> offer s mac t; Some (s', if ip \<noteq> 0 then Offer ip else NoReply) } \<or>
    (\<exists>ip. ?out = do { (s', ok) \<leftarrow> commit s ip mac t; Some (s', if ok then Ack ip else Nak) }) \<or>
    ?out = do { s' \<leftarrow> decline s mac; Some (s', NoReply) }"
    unfolding outcome_def by (simp split: option.split list.split) blast
  then show thesis using that by blast
qed

text \<open>
  The message that realises a reply: the header copied from the request, the address, and the
  items of the option field.  Without a reply the response buffer is untouched.
\<close>

fun realises :: "dhcp_message_t \<Rightarrow> dhcp_config_t \<Rightarrow> dhcp_message_t \<Rightarrow> reply \<Rightarrow> dhcp_message_t \<Rightarrow> bool" where
  "realises request c response NoReply m = (m = response)"
| "realises request c response (Offer ip) m =
     (reply_header request m \<and> yiaddr m = ip \<and> siaddr m = server_ip c \<and>
      represents (options m) (reply_items c DHCP_OFFER))"
| "realises request c response (Ack ip) m =
     (reply_header request m \<and> yiaddr m = ip \<and> siaddr m = server_ip c \<and>
      represents (options m) (reply_items c DHCP_ACK))"
| "realises request c response Nak m =
     (reply_header request m \<and> yiaddr m = 0 \<and>
      represents (options m) [Opt DHCP_OPT_MESSAGE_TYPE [DHCP_NAK]])"

lemma build_offer_realises:
  assumes "length (chaddr request) = 16"
  shows "\<exists>m. dhcp_build_offer s request ip = Some m \<and> realises request (config s) response (Offer ip) m"
  using dhcp_build_offer_ok [OF assms, of s ip] by (metis realises.simps(2))

lemma build_ack_realises:
  assumes "length (chaddr request) = 16"
  shows "\<exists>m. dhcp_build_ack s request ip = Some m \<and> realises request (config s) response (Ack ip) m"
  using dhcp_build_ack_ok [OF assms, of s ip] by (metis realises.simps(3))

lemma build_nak_realises:
  assumes "length (chaddr request) = 16"
  shows "\<exists>m. dhcp_build_nak request = Some m \<and> realises request c response Nak m"
  using dhcp_build_nak_ok [OF assms] by (metis realises.simps(4))

text \<open>A request as the receiving side hands it to the library: array sizes and a parsable field.\<close>

definition wf_request :: "dhcp_message_t \<Rightarrow> dhcp_item list \<Rightarrow> bool" where
  "wf_request m is \<longleftrightarrow> length (chaddr m) = 16 \<and> represents (options m) is"

text \<open>How the server decodes the requested address: the four bytes of the item, or nothing.\<close>

lemma request_option_address:
  assumes "represents (options request) is"
    and "item_lookup is DHCP_OPT_REQUESTED_IP = Some [a, b, c, d]"
  obtains p where "dhcp_get_option request DHCP_OPT_REQUESTED_IP = Some (Some (p, 4))"
    and "requested_ip (options request) p = Some (ip_to_uint32 a b c d)"
proof -
  obtain p where "dhcp_get_option request DHCP_OPT_REQUESTED_IP = Some (Some (p, 4))"
    and "p + 4 < OPTIONS_LEN" and "take 4 (drop p (options request)) = [a, b, c, d]"
    using dhcp_get_option_Some [OF assms(1) _ assms(2)] by (auto simp: numeral_eq_Suc)
  then show thesis
    using that requested_ip_bytes represents_length [OF assms(1)] by blast
qed

lemma request_option_other:
  assumes "represents (options request) is"
    and "\<And>a b c d. item_lookup is DHCP_OPT_REQUESTED_IP \<noteq> Some [a, b, c, d]"
  obtains "dhcp_get_option request DHCP_OPT_REQUESTED_IP = Some None"
  | p len where "dhcp_get_option request DHCP_OPT_REQUESTED_IP = Some (Some (p, len))" and "len \<noteq> 4"
proof (cases "item_lookup is DHCP_OPT_REQUESTED_IP")
  case None
  then show thesis using that(1) dhcp_get_option_None [OF assms(1) _ None] by simp
next
  case (Some e)
  then obtain p where p: "dhcp_get_option request DHCP_OPT_REQUESTED_IP = Some (Some (p, of_nat (length e)))"
    "length e < 256"
    using dhcp_get_option_Some [OF assms(1) _ Some] by auto
  have "length e \<noteq> 4"
    using assms(2) Some by (auto simp: length_Suc_conv numeral_eq_Suc)
  then have "unat (of_nat (length e) :: u8) \<noteq> unat (4 :: u8)"
    by (subst unat_of_nat_u8) (use p in auto)
  then have "(of_nat (length e) :: u8) \<noteq> 4" by metis
  then show thesis using that(2) p(1) by blast
qed

text \<open>
  The byte-level server refines the item-level specification: whenever \<open>outcome\<close> is defined the
  server returns, with the same state and a message that realises the same reply.
\<close>

lemma serve_request_refines:
  assumes ch: "length (chaddr request) = 16" and rep: "represents (options request) is"
    and mt: "item_lookup is DHCP_OPT_MESSAGE_TYPE = Some (DHCP_REQUEST # d)"
    and out: "outcome offer commit decline s is (chaddr request) t = Some (s', r)"
  shows "\<exists>m. serve offer commit decline s request response t = Some (s', m) \<and>
    realises request (config s') response r m"
proof -
  have type: "dhcp_get_message_type request = Some DHCP_REQUEST"
    using dhcp_get_message_type_items [OF rep] mt by simp
  have dis: "DHCP_REQUEST \<noteq> DHCP_DISCOVER" by (simp add: msg_type_defs)
  show ?thesis
  proof (cases "\<exists>a b c d. item_lookup is DHCP_OPT_REQUESTED_IP = Some [a, b, c, d]")
    case True
    then obtain a b c d where req: "item_lookup is DHCP_OPT_REQUESTED_IP = Some [a, b, c, d]" by blast
    define ip where "ip = ip_to_uint32 a b c d"
    obtain p where p: "dhcp_get_option request DHCP_OPT_REQUESTED_IP = Some (Some (p, 4))"
      "requested_ip (options request) p = Some ip"
      using request_option_address [OF rep req] ip_def by blast
    obtain ok where ok: "commit s ip (chaddr request) t = Some (s', ok)" "r = (if ok then Ack ip else Nak)"
      using out mt req dis by (auto simp: outcome_def ip_def bind_eq_Some_iff)
    show ?thesis
      using build_ack_realises [OF ch, of s' ip response] build_nak_realises [OF ch, of "config s'" response]
      by (cases ok) (auto simp: serve_def type dis p ok)
  next
    case False
    then have same: "s' = s" "r = NoReply"
      using out mt dis by (auto simp: outcome_def split: option.splits list.splits)
    show ?thesis
      by (rule request_option_other [OF rep]) (use False in \<open>auto simp: serve_def type dis same\<close>)
  qed
qed

lemma serve_refines_outcome:
  assumes wf: "wf_request request is"
    and out: "outcome offer commit decline s is (chaddr request) t = Some (s', r)"
  shows "\<exists>m. serve offer commit decline s request response t = Some (s', m) \<and>
    realises request (config s') response r m"
proof -
  have ch: "length (chaddr request) = 16" and rep: "represents (options request) is"
    using wf by (auto simp: wf_request_def)
  note type = dhcp_get_message_type_items [OF rep]
  note offer = build_offer_realises [OF ch, of s' _ response]
  show ?thesis
  proof (cases "item_lookup is DHCP_OPT_MESSAGE_TYPE = None \<or> item_lookup is DHCP_OPT_MESSAGE_TYPE = Some []")
    case True
    with type out show ?thesis
      by (auto simp: serve_def outcome_def msg_type_defs)
  next
    case False
    then obtain mt d where look: "item_lookup is DHCP_OPT_MESSAGE_TYPE = Some (mt # d)"
      by (metis list.exhaust option.exhaust)
    with type have mt: "dhcp_get_message_type request = Some mt" by simp
    consider "mt = DHCP_REQUEST" | "mt = DHCP_DISCOVER" | "mt = DHCP_DECLINE"
      | "mt \<noteq> DHCP_DISCOVER" "mt \<noteq> DHCP_REQUEST" "mt \<noteq> DHCP_DECLINE" by blast
    then show ?thesis
    proof cases
      case 1
      with serve_request_refines [OF ch rep _ out] look show ?thesis by blast
    next
      case 2
      with out look obtain ip where "offer s (chaddr request) t = Some (s', ip)"
        "r = (if ip \<noteq> 0 then Offer ip else NoReply)"
        by (auto simp: outcome_def bind_eq_Some_iff)
      with 2 offer [of ip] show ?thesis
        by (cases "ip = 0") (auto simp: serve_def mt)
    next
      case 3
      with out look show ?thesis
        by (auto simp: serve_def outcome_def mt msg_type_defs bind_eq_Some_iff)
    next
      case 4
      with out look show ?thesis
        by (auto simp: serve_def outcome_def mt)
    qed
  qed
qed

section \<open>The contract of a backend\<close>

text \<open>
  A run of the server: requests with their arrival times, answered in order into a buffer that
  the caller clears before each call, as \<open>CDHCPServer\<close> does.
\<close>

fun serve_run ::
  "('s \<Rightarrow> dhcp_message_t \<Rightarrow> dhcp_message_t \<Rightarrow> u32 \<Rightarrow> ('s \<times> dhcp_message_t) option) \<Rightarrow>
   's \<Rightarrow> (dhcp_message_t \<times> u32) list \<Rightarrow> ('s \<times> dhcp_message_t list) option" where
  "serve_run step s [] = Some (s, [])"
| "serve_run step s ((request, t) # rs) = do {
     (s', m) \<leftarrow> step s request zero_message t;
     (s'', ms) \<leftarrow> serve_run step s' rs;
     Some (s'', m # ms)
   }"

text \<open>
  What a backend promises: under its invariant every operation returns and keeps the invariant,
  and an address that is offered or granted is one of the configured pool.
\<close>

locale address_server =
  fixes inv :: "'p dhcp_server_t \<Rightarrow> bool"
    and offer :: "'p dhcp_server_t \<Rightarrow> u8 list \<Rightarrow> u32 \<Rightarrow> ('p dhcp_server_t \<times> u32) option"
    and commit :: "'p dhcp_server_t \<Rightarrow> u32 \<Rightarrow> u8 list \<Rightarrow> u32 \<Rightarrow> ('p dhcp_server_t \<times> bool) option"
    and decline :: "'p dhcp_server_t \<Rightarrow> u8 list \<Rightarrow> 'p dhcp_server_t option"
  assumes offer_ok: "inv s \<Longrightarrow> length mac = 16 \<Longrightarrow>
      \<exists>s' ip. offer s mac t = Some (s', ip) \<and> inv s' \<and>
        (ip \<noteq> 0 \<longrightarrow> pool_start (config s') \<le> ip \<and> ip \<le> pool_end (config s'))"
    and commit_ok: "inv s \<Longrightarrow> length mac = 16 \<Longrightarrow>
      \<exists>s' ok. commit s ip mac t = Some (s', ok) \<and> inv s' \<and>
        (ok \<longrightarrow> pool_start (config s') \<le> ip \<and> ip \<le> pool_end (config s'))"
    and decline_ok: "inv s \<Longrightarrow> length mac = 16 \<Longrightarrow> \<exists>s'. decline s mac = Some s' \<and> inv s'"
begin

lemma outcome_ok:
  assumes "inv s" and "length mac = 16"
  shows "\<exists>s' r. outcome offer commit decline s is mac t = Some (s', r) \<and> inv s' \<and>
    (\<forall>ip. r = Offer ip \<or> r = Ack ip \<longrightarrow> pool_start (config s') \<le> ip \<and> ip \<le> pool_end (config s'))"
proof (cases rule: outcome_cases [of offer commit decline s "is" mac t])
  case none
  with assms show ?thesis by simp
next
  case offer
  with offer_ok [OF assms, of t] show ?thesis by auto
next
  case (commit ip)
  with commit_ok [OF assms, of ip t] show ?thesis by (auto split: if_splits)
next
  case decline
  with decline_ok [OF assms] show ?thesis by auto
qed

text \<open>One request: the server returns, keeps the invariant and sends what \<open>outcome\<close> decides.\<close>

lemma serve_ok:
  assumes "inv s" and "wf_request request is"
  shows "\<exists>s' m r. serve offer commit decline s request response t = Some (s', m) \<and>
    inv s' \<and> outcome offer commit decline s is (chaddr request) t = Some (s', r) \<and>
    realises request (config s') response r m \<and>
    (\<forall>ip. r = Offer ip \<or> r = Ack ip \<longrightarrow> pool_start (config s') \<le> ip \<and> ip \<le> pool_end (config s'))"
  using outcome_ok [OF assms(1), of "chaddr request" "is" t] serve_refines_outcome [OF assms(2)] assms(2)
  by (fastforce simp: wf_request_def)

text \<open>
  The DORA exchange on messages: when the backend commits the address that it has just offered,
  the REQUEST for it is answered with an ACK for it.
\<close>

lemma offer_ack_messages:
  assumes inv: "inv s" and wf1: "wf_request rq1 is1" and wf2: "wf_request rq2 is2"
    and disc: "item_lookup is1 DHCP_OPT_MESSAGE_TYPE = Some [DHCP_DISCOVER]"
    and offered: "serve offer commit decline s rq1 zero_message t1 = Some (s1, m1)"
      "dhcp_get_message_type m1 = Some DHCP_OFFER"
    and req: "item_lookup is2 DHCP_OPT_MESSAGE_TYPE = Some [DHCP_REQUEST]"
      "item_lookup is2 DHCP_OPT_REQUESTED_IP = Some (be_bytes (yiaddr m1))" "chaddr rq2 = chaddr rq1"
    and commits: "\<And>ip. offer s (chaddr rq1) t1 = Some (s1, ip) \<Longrightarrow> ip \<noteq> 0 \<Longrightarrow>
      \<exists>s2. commit s1 ip (chaddr rq1) t2 = Some (s2, True)"
  shows "\<exists>s2 m2. offer s (chaddr rq1) t1 = Some (s1, yiaddr m1) \<and> inv s1 \<and>
    commit s1 (yiaddr m1) (chaddr rq1) t2 = Some (s2, True) \<and>
    serve offer commit decline s1 rq2 zero_message t2 = Some (s2, m2) \<and>
    dhcp_get_message_type m2 = Some DHCP_ACK \<and> yiaddr m2 = yiaddr m1"
proof -
  obtain r where r: "outcome offer commit decline s is1 (chaddr rq1) t1 = Some (s1, r)" "inv s1"
    "realises rq1 (config s1) zero_message r m1"
    using serve_ok [OF inv wf1, of zero_message t1] offered(1) by auto
  from r(1) disc obtain ip where o: "offer s (chaddr rq1) t1 = Some (s1, ip)" and
    rip: "r = (if ip \<noteq> 0 then Offer ip else NoReply)"
    by (auto simp: outcome_def bind_eq_Some_iff)
  have "ip \<noteq> 0"
    using r(3) rip offered(2) dhcp_get_message_type_blank [of zero_message] by (auto split: if_splits)
  then have ip: "ip \<noteq> 0" "yiaddr m1 = ip" using r(3) rip by auto
  obtain s2 where c: "commit s1 ip (chaddr rq1) t2 = Some (s2, True)" using commits [OF o ip(1)] by blast
  obtain a b c' d where bytes: "be_bytes ip = [a, b, c', d]"
    by (cases "uint32_to_ip ip") (auto simp: be_bytes_def)
  have "outcome offer commit decline s1 is2 (chaddr rq2) t2 = Some (s2, Ack ip)"
    using req ip c bytes be_bytes_inverse [OF bytes] by (simp add: outcome_def msg_type_defs)
  from serve_refines_outcome [OF wf2 this, of zero_message] obtain m2 where
    m2: "serve offer commit decline s1 rq2 zero_message t2 = Some (s2, m2)"
    "yiaddr m2 = ip" "represents (options m2) (reply_items (config s2) DHCP_ACK)" by auto
  then show ?thesis using o r(2) c ip(2) dhcp_get_message_type_items [OF m2(3)] by auto
qed

text \<open>A whole run returns and keeps the invariant.\<close>

lemma serve_run_ok:
  assumes "inv s" and "\<forall>(request, t) \<in> set rs. \<exists>is. wf_request request is"
  shows "\<exists>s' ms. serve_run (serve offer commit decline) s rs = Some (s', ms) \<and>
    inv s' \<and> length ms = length rs"
  using assms
proof (induction rs arbitrary: s)
  case Nil
  then show ?case by simp
next
  case (Cons r rs)
  obtain request t where r: "r = (request, t)" by (cases r)
  then obtain "is" where "wf_request request is" using Cons.prems by auto
  with serve_ok [OF Cons.prems(1) this, of zero_message t] obtain s' m where
    "serve offer commit decline s request zero_message t = Some (s', m)" "inv s'"
    by blast
  moreover from Cons.IH [OF this(2)] Cons.prems obtain s'' ms where
    "serve_run (serve offer commit decline) s' rs = Some (s'', ms)"
    "inv s''" "length ms = length rs" by auto
  ultimately show ?case by (simp add: r)
qed

end

section \<open>Backends that record leases\<close>

text \<open>
  The array and the hash map backend keep a lease per client: a finite map from the first six
  bytes of the hardware address to the leased address and its expiry time.  The contract says how
  each operation changes that map; leases that disappear have expired.
\<close>

type_synonym lease_map = "u8 list \<rightharpoonup> u32 \<times> u32"

definition only_expired :: "u32 \<Rightarrow> lease_map \<Rightarrow> lease_map \<Rightarrow> bool" where
  "only_expired t L L' \<longleftrightarrow>
     (\<forall>k. L' k = L k \<or> L' k = None \<and> (\<exists>ip e. L k = Some (ip, e) \<and> e \<le> t))"

lemma only_expired_refl [simp]: "only_expired t L L"
  by (simp add: only_expired_def)

lemma only_expired_trans: "only_expired t L M \<Longrightarrow> only_expired t M N \<Longrightarrow> only_expired t L N"
  unfolding only_expired_def by metis

lemma only_expired_SomeD: "only_expired t L L' \<Longrightarrow> L' k = Some l \<Longrightarrow> L k = Some l"
  unfolding only_expired_def by (metis option.distinct(1))

lemma only_expired_keeps: "only_expired t L L' \<Longrightarrow> L k = Some (ip, e) \<Longrightarrow> t < e \<Longrightarrow> L' k = Some (ip, e)"
  unfolding only_expired_def by (metis leD option.inject prod.inject)

abbreviation mac_key :: "u8 list \<Rightarrow> u8 list" where
  "mac_key ch \<equiv> take 6 ch"

definition leased_ips :: "lease_map \<Rightarrow> u32 set" where
  "leased_ips L = fst ` ran L"

lemma leased_ips_iff: "ip \<in> leased_ips L \<longleftrightarrow> (\<exists>k e. L k = Some (ip, e))"
  by (force simp: leased_ips_def ran_def)

text \<open>The clean-up at the start of an operation: it runs when the table is full and drops expired leases.\<close>

definition cleaned :: "u32 \<Rightarrow> nat \<Rightarrow> lease_map \<Rightarrow> lease_map \<Rightarrow> bool" where
  "cleaned t n L L' \<longleftrightarrow> only_expired t L L' \<and> (card (dom L) < n \<longrightarrow> L' = L)"

text \<open>The address a DISCOVER is answered with, 0 for none.\<close>

definition offer_spec :: "nat \<Rightarrow> u32 \<Rightarrow> u32 \<Rightarrow> lease_map \<Rightarrow> u8 list \<Rightarrow> u32 \<Rightarrow> bool" where
  "offer_spec n lo hi L key ip \<longleftrightarrow>
     (case L key of
        Some (ip', _) \<Rightarrow> ip = ip'
      | None \<Rightarrow>
          if n \<le> card (dom L) \<or> (\<forall>a. lo \<le> a \<and> a \<le> hi \<longrightarrow> a \<in> leased_ips L) then ip = 0
          else lo \<le> ip \<and> ip \<le> hi \<and> ip \<notin> leased_ips L)"

text \<open>
  An offered address is one the client holds or a free one, an allocated one was checked; both
  are in the range.
\<close>

lemma offer_spec_range:
  assumes "offer_spec n lo hi L key ip" and "ip \<noteq> 0"
    and "\<And>a e. L key = Some (a, e) \<Longrightarrow> lo \<le> a \<and> a \<le> hi"
  shows "lo \<le> ip \<and> ip \<le> hi"
  using assms by (auto simp: offer_spec_def split: option.splits prod.splits if_splits)

text \<open>The allocation a REQUEST asks for: renewal, refusal or a new lease.\<close>

definition alloc_spec :: "nat \<Rightarrow> lease_map \<Rightarrow> u32 \<Rightarrow> u8 list \<Rightarrow> u32 \<Rightarrow> lease_map \<times> bool" where
  "alloc_spec n L ip key expire =
     (case L key of
        Some (ip', _) \<Rightarrow> if ip' \<noteq> ip then (L, False) else (L(key \<mapsto> (ip, expire)), True)
      | None \<Rightarrow>
          if ip \<in> leased_ips L \<or> n \<le> card (dom L) then (L, False)
          else (L(key \<mapsto> (ip, expire)), True))"

lemma alloc_spec_True: "alloc_spec n L ip key expire = (L', True) \<Longrightarrow> L' = L(key \<mapsto> (ip, expire))"
  by (auto simp: alloc_spec_def split: option.splits if_splits)

lemma alloc_spec_False: "alloc_spec n L ip key expire = (L', False) \<Longrightarrow> L' = L"
  by (auto simp: alloc_spec_def split: option.splits if_splits)

text \<open>
  A client that requests the address it has just been offered gets it: the clean-up in between
  can only make room.
\<close>

lemma offer_then_alloc:
  assumes "offer_spec n lo hi L key ip" and "ip \<noteq> 0" and "finite (dom L)"
    and uniq: "\<And>k1 k2 e1 e2. L k1 = Some (ip, e1) \<Longrightarrow> L k2 = Some (ip, e2) \<Longrightarrow> k1 = k2"
    and "card (dom L) \<le> n" and "cleaned t n L L1"
  shows "snd (alloc_spec n L1 ip key expire)"
proof (cases "L key")
  case None
  with assms(1,2) have "card (dom L) < n" "ip \<notin> leased_ips L"
    by (auto simp: offer_spec_def split: if_splits)
  with assms(6) None show ?thesis by (simp add: cleaned_def alloc_spec_def)
next
  case (Some l)
  then obtain e where key: "L key = Some (ip, e)"
    using assms(1) by (cases l) (auto simp: offer_spec_def)
  have sub: "only_expired t L L1" using assms(6) by (simp add: cleaned_def)
  show ?thesis
  proof (cases "L1 key")
    case (Some l')
    with only_expired_SomeD [OF sub Some] key show ?thesis by (auto simp: alloc_spec_def)
  next
    case None
    have "dom L1 \<subseteq> dom L" using only_expired_SomeD [OF sub] by blast
    moreover have "key \<in> dom L - dom L1" using None key by auto
    ultimately have "dom L1 \<subset> dom L" by blast
    then have "card (dom L1) < card (dom L)" by (rule psubset_card_mono [OF assms(3)])
    moreover have "ip \<notin> leased_ips L1"
      using only_expired_SomeD [OF sub] uniq [OF key] None
      by (metis leased_ips_iff option.distinct(1))
    ultimately show ?thesis using assms(5) None by (simp add: alloc_spec_def)
  qed
qed

text \<open>
  The contract, over the invariant, the operations and the view of the leases; \<open>cap\<close> is the
  number of leases the backend can hold.
\<close>

locale lease_server = address_server inv offer commit decline
  for inv :: "'p dhcp_server_t \<Rightarrow> bool"
    and offer :: "'p dhcp_server_t \<Rightarrow> u8 list \<Rightarrow> u32 \<Rightarrow> ('p dhcp_server_t \<times> u32) option"
    and commit :: "'p dhcp_server_t \<Rightarrow> u32 \<Rightarrow> u8 list \<Rightarrow> u32 \<Rightarrow> ('p dhcp_server_t \<times> bool) option"
    and decline :: "'p dhcp_server_t \<Rightarrow> u8 list \<Rightarrow> 'p dhcp_server_t option" +
  fixes leases_of :: "'p \<Rightarrow> lease_map" and cap :: "'p \<Rightarrow> nat"
  assumes unique_ip: "inv s \<Longrightarrow> leases_of (pool s) m1 = Some (ip, e1) \<Longrightarrow>
      leases_of (pool s) m2 = Some (ip, e2) \<Longrightarrow> m1 = m2"
    and finite_leases: "inv s \<Longrightarrow> finite (dom (leases_of (pool s))) \<and>
      card (dom (leases_of (pool s))) \<le> cap (pool s)"
    and offer_leases: "inv s \<Longrightarrow> length mac = 16 \<Longrightarrow> offer s mac t = Some (s', ip) \<Longrightarrow>
      config s' = config s \<and> cap (pool s') = cap (pool s) \<and>
      cleaned t (cap (pool s)) (leases_of (pool s)) (leases_of (pool s')) \<and>
      offer_spec (cap (pool s)) (pool_start (config s)) (pool_end (config s))
        (leases_of (pool s')) (mac_key mac) ip"
    and commit_leases: "inv s \<Longrightarrow> length mac = 16 \<Longrightarrow> commit s ip mac t = Some (s', ok) \<Longrightarrow>
      config s' = config s \<and> cap (pool s') = cap (pool s) \<and>
      (if pool_start (config s) \<le> ip \<and> ip \<le> pool_end (config s)
       then \<exists>L. cleaned t (cap (pool s)) (leases_of (pool s)) L \<and>
         (leases_of (pool s'), ok) = alloc_spec (cap (pool s)) L ip (mac_key mac) (t + lease_time (config s))
       else leases_of (pool s') = leases_of (pool s) \<and> \<not> ok)"
    and decline_leases: "inv s \<Longrightarrow> length mac = 16 \<Longrightarrow> decline s mac = Some s' \<Longrightarrow>
      config s' = config s \<and> cap (pool s') = cap (pool s) \<and>
      leases_of (pool s') = (leases_of (pool s))(mac_key mac := None)"
begin

lemma offer_free:
  assumes "inv s" and "length mac = 16" and "offer s mac t = Some (s', ip)" and "ip \<noteq> 0"
    and "leases_of (pool s') m = Some (ip, e)"
  shows "m = mac_key mac"
proof (cases "leases_of (pool s') (mac_key mac)")
  case None
  with offer_leases [OF assms(1-3)] assms(4,5) show ?thesis
    by (auto simp: offer_spec_def leased_ips_iff split: if_splits)
next
  case (Some l)
  then have "fst l = ip" using offer_leases [OF assms(1-3)] by (auto simp: offer_spec_def split: prod.splits)
  moreover have "inv s'" using offer_ok [OF assms(1,2), of t] assms(3) by auto
  ultimately show ?thesis using unique_ip [of s' m ip e "mac_key mac" "snd l"] Some assms(5) by auto
qed

lemma commit_effect:
  assumes "inv s" and "length mac = 16" and "commit s ip mac t = Some (s', ok)"
  shows "only_expired t ((leases_of (pool s))(mac_key mac := None)) ((leases_of (pool s'))(mac_key mac := None))"
    and "ok \<Longrightarrow> leases_of (pool s') (mac_key mac) = Some (ip, t + lease_time (config s))"
proof -
  consider L where "only_expired t (leases_of (pool s)) L"
      "(leases_of (pool s'), ok) = alloc_spec (cap (pool s)) L ip (mac_key mac) (t + lease_time (config s))"
    | "leases_of (pool s') = leases_of (pool s)" "\<not> ok"
    using commit_leases [OF assms] by (auto simp: cleaned_def split: if_splits)
  then have "only_expired t ((leases_of (pool s))(mac_key mac := None)) ((leases_of (pool s'))(mac_key mac := None)) \<and>
    (ok \<longrightarrow> leases_of (pool s') (mac_key mac) = Some (ip, t + lease_time (config s)))"
    by cases (cases ok; auto simp: only_expired_def dest!: sym [of "(_, _)"] alloc_spec_True alloc_spec_False)+
  then show "only_expired t ((leases_of (pool s))(mac_key mac := None)) ((leases_of (pool s'))(mac_key mac := None))"
    and "ok \<Longrightarrow> leases_of (pool s') (mac_key mac) = Some (ip, t + lease_time (config s))"
    by blast+
qed

text \<open>The handshake: the REQUEST for the address just offered is granted, at any later time.\<close>

lemma handshake:
  assumes "inv s" and "length mac = 16" and "offer s mac t = Some (s', ip)" and "ip \<noteq> 0"
  shows "\<exists>s''. commit s' ip mac t' = Some (s'', True)"
proof -
  have inv': "inv s'" and range: "pool_start (config s') \<le> ip \<and> ip \<le> pool_end (config s')"
    using offer_ok [OF assms(1,2), of t] assms(3,4) by auto
  obtain s'' ok where c: "commit s' ip mac t' = Some (s'', ok)"
    using commit_ok [OF inv' assms(2), of ip t'] by blast
  with commit_leases [OF inv' assms(2) c] range obtain L where
    L: "cleaned t' (cap (pool s')) (leases_of (pool s')) L"
    "(leases_of (pool s''), ok) = alloc_spec (cap (pool s')) L ip (mac_key mac) (t' + lease_time (config s'))"
    by auto
  have "snd (alloc_spec (cap (pool s')) L ip (mac_key mac) (t' + lease_time (config s')))"
    by (rule offer_then_alloc [OF _ assms(4) _ _ _ L(1), of "pool_start (config s)" "pool_end (config s)"])
       (use offer_leases [OF assms(1-3)] finite_leases [OF inv'] unique_ip [OF inv'] in auto)
  with L(2) have ok by (metis snd_conv)
  with c show ?thesis by simp
qed

text \<open>The same exchange on messages, from the DISCOVER to the ACK.\<close>

lemma handshake_messages:
  assumes inv: "inv s" and wf1: "wf_request rq1 is1" and wf2: "wf_request rq2 is2"
    and disc: "item_lookup is1 DHCP_OPT_MESSAGE_TYPE = Some [DHCP_DISCOVER]"
    and offered: "serve offer commit decline s rq1 zero_message t1 = Some (s1, m1)"
      "dhcp_get_message_type m1 = Some DHCP_OFFER"
    and req: "item_lookup is2 DHCP_OPT_MESSAGE_TYPE = Some [DHCP_REQUEST]"
      "item_lookup is2 DHCP_OPT_REQUESTED_IP = Some (be_bytes (yiaddr m1))" "chaddr rq2 = chaddr rq1"
  shows "\<exists>s2 m2. serve offer commit decline s1 rq2 zero_message t2 = Some (s2, m2) \<and>
    dhcp_get_message_type m2 = Some DHCP_ACK \<and> yiaddr m2 = yiaddr m1 \<and>
    leases_of (pool s2) (mac_key (chaddr rq1)) = Some (yiaddr m1, t2 + lease_time (config s))"
proof -
  have ch: "length (chaddr rq1) = 16" using wf1 by (simp add: wf_request_def)
  obtain s2 m2 where m2: "offer s (chaddr rq1) t1 = Some (s1, yiaddr m1)" "inv s1"
    "commit s1 (yiaddr m1) (chaddr rq1) t2 = Some (s2, True)"
    "serve offer commit decline s1 rq2 zero_message t2 = Some (s2, m2)"
    "dhcp_get_message_type m2 = Some DHCP_ACK" "yiaddr m2 = yiaddr m1"
    using offer_ack_messages [OF assms, of t2] handshake [OF inv ch] by blast
  moreover have "config s1 = config s" using offer_leases [OF inv ch m2(1)] by simp
  ultimately show ?thesis using commit_effect(2) [OF m2(2) ch m2(3)] by auto
qed

text \<open>What one request does to the leases.\<close>

lemma outcome_leases:
  assumes "inv s" and "length mac = 16" and "outcome offer commit decline s is mac t = Some (s', r)"
  shows "config s' = config s \<and>
    only_expired t ((leases_of (pool s))(mac_key mac := None)) ((leases_of (pool s'))(mac_key mac := None)) \<and>
    (\<forall>ip. r = Offer ip \<longrightarrow> (\<forall>m e. leases_of (pool s') m = Some (ip, e) \<longrightarrow> m = mac_key mac)) \<and>
    (\<forall>ip. r = Ack ip \<longrightarrow> leases_of (pool s') (mac_key mac) = Some (ip, t + lease_time (config s)))"
proof (cases rule: outcome_cases [of offer commit decline s "is" mac t])
  case none
  with assms show ?thesis by simp
next
  case offer
  with assms(3) obtain ip where ip: "offer s mac t = Some (s', ip)" and r: "r = (if ip \<noteq> 0 then Offer ip else NoReply)"
    by (auto simp: bind_eq_Some_iff)
  from offer_leases [OF assms(1,2) ip] offer_free [OF assms(1,2) ip] show ?thesis
    using r by (auto simp: cleaned_def only_expired_def split: if_splits)
next
  case (commit ip)
  with assms(3) obtain ok where ok: "commit s ip mac t = Some (s', ok)" "r = (if ok then Ack ip else Nak)"
    by (auto simp: bind_eq_Some_iff)
  with commit_effect [OF assms(1,2) ok(1)] commit_leases [OF assms(1,2) ok(1)] show ?thesis
    by (auto split: if_splits)
next
  case decline
  with assms(3) have "decline s mac = Some s'" "r = NoReply"
    by (auto simp: bind_eq_Some_iff)
  with decline_leases [OF assms(1,2)] show ?thesis by auto
qed

text \<open>An offer never names an address that another client holds, and an ACK records the lease.\<close>

lemma serve_leases:
  assumes "inv s" and "wf_request request is"
    and "serve offer commit decline s request response t = Some (s', m)"
  shows "\<exists>r. outcome offer commit decline s is (chaddr request) t = Some (s', r) \<and> inv s' \<and>
    realises request (config s) response r m \<and> config s' = config s \<and>
    (\<forall>ip. r = Offer ip \<longrightarrow> (\<forall>k e. leases_of (pool s') k = Some (ip, e) \<longrightarrow> k = mac_key (chaddr request))) \<and>
    (\<forall>ip. r = Ack ip \<longrightarrow>
       leases_of (pool s') (mac_key (chaddr request)) = Some (ip, t + lease_time (config s)))"
proof -
  have ch: "length (chaddr request) = 16" using assms(2) by (simp add: wf_request_def)
  obtain r where r: "outcome offer commit decline s is (chaddr request) t = Some (s', r)" "inv s'"
    "realises request (config s') response r m"
    using serve_ok [OF assms(1,2), of response t] assms(3) by auto
  then show ?thesis using outcome_leases [OF assms(1) ch r(1)] by auto
qed

text \<open>
  A lease survives every request of other clients that arrives before it expires.
\<close>

lemma serve_keeps_lease:
  assumes "inv s" and "wf_request request is"
    and "serve offer commit decline s request response t = Some (s', m)"
    and "leases_of (pool s) k = Some (ip, e)" and "mac_key (chaddr request) \<noteq> k" and "t < e"
  shows "leases_of (pool s') k = Some (ip, e)"
proof -
  have ch: "length (chaddr request) = 16" using assms(2) by (simp add: wf_request_def)
  obtain r where r: "outcome offer commit decline s is (chaddr request) t = Some (s', r)"
    using serve_ok [OF assms(1,2), of response t] assms(3) by auto
  note only_expired_keeps [OF outcome_leases [OF assms(1) ch r, THEN conjunct2, THEN conjunct1], of k ip e]
  with assms(4-6) show ?thesis by simp
qed

lemma serve_run_keeps_lease:
  assumes "inv s" and "\<forall>(request, t) \<in> set rs. (\<exists>is. wf_request request is) \<and>
      mac_key (chaddr request) \<noteq> k \<and> t < e"
    and "leases_of (pool s) k = Some (ip, e)"
    and "serve_run (serve offer commit decline) s rs = Some (s', ms)"
  shows "inv s' \<and> leases_of (pool s') k = Some (ip, e)"
  using assms
proof (induction rs arbitrary: s ms)
  case Nil
  then show ?case by simp
next
  case (Cons r rs)
  obtain request t where r: "r = (request, t)" by (cases r)
  obtain "is" where wf: "wf_request request is" using Cons.prems r by auto
  obtain s1 m ms' where step: "serve offer commit decline s request zero_message t = Some (s1, m)"
    and rest: "serve_run (serve offer commit decline) s1 rs = Some (s', ms')"
    using Cons.prems(4) r by (auto simp: bind_eq_Some_iff)
  have "inv s1" using serve_ok [OF Cons.prems(1) wf, of zero_message t] step by auto
  moreover have "leases_of (pool s1) k = Some (ip, e)"
    by (rule serve_keeps_lease [OF Cons.prems(1) wf step Cons.prems(3)]) (use Cons.prems r in auto)
  ultimately show ?case using Cons.IH [OF _ _ _ rest] Cons.prems by auto
qed

end

end
