(* ===== verification/Lease_Pool.thy ===== *)
theory Lease_Pool
  imports Dhcp_Serve
begin

text \<open>
  The interface between the server and a lease pool, shared by the ARRAY and the HASHMAP backend:
  both process functions call the same three operations of the pool with the range and the lease
  time of the configuration.  The locale \<open>lease_pool\<close> states what the pool promises for them and
  gives the contract \<open>lease_server\<close> of the whole server.
\<close>

definition pool_offer ::
  "('p \<Rightarrow> u32 \<Rightarrow> u32 \<Rightarrow> u8 list \<Rightarrow> u32 \<Rightarrow> ('p \<times> u32) option) \<Rightarrow>
   'p dhcp_server_t \<Rightarrow> u8 list \<Rightarrow> u32 \<Rightarrow> ('p dhcp_server_t \<times> u32) option" where
  "pool_offer find_available s mac t = do {
     (p, ip) \<leftarrow> find_available (pool s) (pool_start (config s)) (pool_end (config s)) mac t;
     Some (s\<lparr>pool := p\<rparr>, ip)
   }"

definition pool_commit ::
  "('p \<Rightarrow> u32 \<Rightarrow> u8 list \<Rightarrow> u32 \<Rightarrow> u32 \<Rightarrow> ('p \<times> bool) option) \<Rightarrow>
   'p dhcp_server_t \<Rightarrow> u32 \<Rightarrow> u8 list \<Rightarrow> u32 \<Rightarrow> ('p dhcp_server_t \<times> bool) option" where
  "pool_commit alloc s ip mac t =
     (if pool_start (config s) \<le> ip \<and> ip \<le> pool_end (config s) then do {
        (p, ok) \<leftarrow> alloc (pool s) ip mac (lease_time (config s)) t;
        Some (s\<lparr>pool := p\<rparr>, ok)
      }
      else Some (s, False))"

definition pool_decline ::
  "('p \<Rightarrow> u8 list \<Rightarrow> 'p option) \<Rightarrow> 'p dhcp_server_t \<Rightarrow> u8 list \<Rightarrow> 'p dhcp_server_t option" where
  "pool_decline rel s mac = do {
     p \<leftarrow> rel (pool s) mac;
     Some (s\<lparr>pool := p\<rparr>)
   }"

lemmas pool_op_defs = pool_offer_def pool_commit_def pool_decline_def

definition pool_server_inv :: "(u32 \<Rightarrow> u32 \<Rightarrow> 'p \<Rightarrow> bool) \<Rightarrow> 'p dhcp_server_t \<Rightarrow> bool" where
  "pool_server_inv I s \<longleftrightarrow> 0 < pool_start (config s) \<and> I (pool_start (config s)) (pool_end (config s)) (pool s)"

locale lease_pool =
  fixes inv :: "u32 \<Rightarrow> u32 \<Rightarrow> 'p \<Rightarrow> bool"
    and find_available :: "'p \<Rightarrow> u32 \<Rightarrow> u32 \<Rightarrow> u8 list \<Rightarrow> u32 \<Rightarrow> ('p \<times> u32) option"
    and alloc :: "'p \<Rightarrow> u32 \<Rightarrow> u8 list \<Rightarrow> u32 \<Rightarrow> u32 \<Rightarrow> ('p \<times> bool) option"
    and drop_lease :: "'p \<Rightarrow> u8 list \<Rightarrow> 'p option"
    and leases_of :: "'p \<Rightarrow> lease_map"
    and cap :: "'p \<Rightarrow> nat"
  assumes pool_unique: "inv lo hi p \<Longrightarrow> leases_of p k1 = Some (ip, e1) \<Longrightarrow> leases_of p k2 = Some (ip, e2) \<Longrightarrow> k1 = k2"
    and pool_range: "inv lo hi p \<Longrightarrow> leases_of p k = Some (ip, e) \<Longrightarrow> lo \<le> ip \<and> ip \<le> hi"
    and pool_finite: "inv lo hi p \<Longrightarrow> finite (dom (leases_of p)) \<and> card (dom (leases_of p)) \<le> cap p"
    and pool_available: "inv lo hi p \<Longrightarrow> 0 < lo \<Longrightarrow> 6 \<le> length mac \<Longrightarrow>
      \<exists>p' ip. find_available p lo hi mac t = Some (p', ip) \<and> inv lo hi p' \<and> cap p' = cap p \<and>
        cleaned t (cap p) (leases_of p) (leases_of p') \<and> offer_spec (cap p) lo hi (leases_of p') (mac_key mac) ip"
    and pool_alloc: "inv lo hi p \<Longrightarrow> 6 \<le> length mac \<Longrightarrow> lo \<le> ip \<Longrightarrow> ip \<le> hi \<Longrightarrow>
      \<exists>p' ok L. alloc p ip mac lt t = Some (p', ok) \<and> inv lo hi p' \<and> cap p' = cap p \<and>
        cleaned t (cap p) (leases_of p) L \<and> (leases_of p', ok) = alloc_spec (cap p) L ip (mac_key mac) (t + lt)"
    and pool_drop: "inv lo hi p \<Longrightarrow> 6 \<le> length mac \<Longrightarrow>
      \<exists>p'. drop_lease p mac = Some p' \<and> inv lo hi p' \<and> cap p' = cap p \<and>
        leases_of p' = (leases_of p)(mac_key mac := None)"
begin

lemma offer_result:
  assumes "pool_server_inv inv s" and "length mac = 16"
  shows "\<exists>s' ip. pool_offer find_available s mac t = Some (s', ip) \<and> pool_server_inv inv s' \<and> config s' = config s \<and>
    cap (pool s') = cap (pool s) \<and> cleaned t (cap (pool s)) (leases_of (pool s)) (leases_of (pool s')) \<and>
    offer_spec (cap (pool s)) (pool_start (config s)) (pool_end (config s)) (leases_of (pool s')) (mac_key mac) ip"
proof -
  have "6 \<le> length mac" using assms(2) by simp
  with pool_available [of "pool_start (config s)" "pool_end (config s)" "pool s" mac t] assms(1)
  obtain p ip where "find_available (pool s) (pool_start (config s)) (pool_end (config s)) mac t = Some (p, ip)"
    "inv (pool_start (config s)) (pool_end (config s)) p" "cap p = cap (pool s)"
    "cleaned t (cap (pool s)) (leases_of (pool s)) (leases_of p)"
    "offer_spec (cap (pool s)) (pool_start (config s)) (pool_end (config s)) (leases_of p) (mac_key mac) ip"
    unfolding pool_server_inv_def by blast
  with assms(1) show ?thesis by (simp add: pool_offer_def pool_server_inv_def)
qed

lemma commit_result:
  assumes "pool_server_inv inv s" and "length mac = 16"
  shows "\<exists>s' ok. pool_commit alloc s ip mac t = Some (s', ok) \<and> pool_server_inv inv s' \<and> config s' = config s \<and>
    cap (pool s') = cap (pool s) \<and>
    (if pool_start (config s) \<le> ip \<and> ip \<le> pool_end (config s)
     then \<exists>L. cleaned t (cap (pool s)) (leases_of (pool s)) L \<and>
       (leases_of (pool s'), ok) = alloc_spec (cap (pool s)) L ip (mac_key mac) (t + lease_time (config s))
     else leases_of (pool s') = leases_of (pool s) \<and> \<not> ok)"
proof (cases "pool_start (config s) \<le> ip \<and> ip \<le> pool_end (config s)")
  case True
  have "6 \<le> length mac" using assms(2) by simp
  with pool_alloc [of "pool_start (config s)" "pool_end (config s)" "pool s" mac ip "lease_time (config s)" t] assms(1) True
  obtain p ok L where "alloc (pool s) ip mac (lease_time (config s)) t = Some (p, ok)"
    "inv (pool_start (config s)) (pool_end (config s)) p" "cap p = cap (pool s)"
    "cleaned t (cap (pool s)) (leases_of (pool s)) L"
    "(leases_of p, ok) = alloc_spec (cap (pool s)) L ip (mac_key mac) (t + lease_time (config s))"
    unfolding pool_server_inv_def by blast
  with assms(1) True show ?thesis by (auto simp: pool_commit_def pool_server_inv_def)
next
  case False
  with assms(1) show ?thesis by (auto simp: pool_commit_def)
qed

lemma decline_result:
  assumes "pool_server_inv inv s" and "length mac = 16"
  shows "\<exists>s'. pool_decline drop_lease s mac = Some s' \<and> pool_server_inv inv s' \<and> config s' = config s \<and>
    cap (pool s') = cap (pool s) \<and> leases_of (pool s') = (leases_of (pool s))(mac_key mac := None)"
  using pool_drop [of "pool_start (config s)" "pool_end (config s)" "pool s" mac] assms
  by (auto simp: pool_decline_def pool_server_inv_def)

end

text \<open>A lease pool makes a lease server.\<close>

sublocale lease_pool \<subseteq> srv: lease_server "pool_server_inv inv" "pool_offer find_available"
  "pool_commit alloc" "pool_decline drop_lease" leases_of cap
proof unfold_locales
  fix s :: "'p dhcp_server_t" and mac :: "u8 list" and t ip :: u32
  assume inv: "pool_server_inv inv s" and mac: "length mac = 16"
  from offer_result [OF this, of t] obtain s' a where
    o: "pool_offer find_available s mac t = Some (s', a)" "pool_server_inv inv s'" "config s' = config s"
    "offer_spec (cap (pool s)) (pool_start (config s)) (pool_end (config s)) (leases_of (pool s')) (mac_key mac) a"
    by blast
  have "a \<noteq> 0 \<Longrightarrow> pool_start (config s) \<le> a \<and> a \<le> pool_end (config s)"
    using offer_spec_range [OF o(4)] pool_range [of _ _ "pool s'"] o(2,3) unfolding pool_server_inv_def by metis
  with o show "\<exists>s' ip. pool_offer find_available s mac t = Some (s', ip) \<and> pool_server_inv inv s' \<and>
      (ip \<noteq> 0 \<longrightarrow> pool_start (config s') \<le> ip \<and> ip \<le> pool_end (config s'))" by auto
  show "\<exists>s' ok. pool_commit alloc s ip mac t = Some (s', ok) \<and> pool_server_inv inv s' \<and>
      (ok \<longrightarrow> pool_start (config s') \<le> ip \<and> ip \<le> pool_end (config s'))"
    using commit_result [OF inv mac, of ip t] by (auto split: if_splits)
  show "\<exists>s'. pool_decline drop_lease s mac = Some s' \<and> pool_server_inv inv s'"
    using decline_result [OF inv mac] by blast
next
  fix s :: "'p dhcp_server_t" and m1 m2 ip e1 e2
  assume "pool_server_inv inv s" "leases_of (pool s) m1 = Some (ip, e1)" "leases_of (pool s) m2 = Some (ip, e2)"
  then show "m1 = m2" unfolding pool_server_inv_def using pool_unique by blast
next
  fix s :: "'p dhcp_server_t"
  assume "pool_server_inv inv s"
  then show "finite (dom (leases_of (pool s))) \<and> card (dom (leases_of (pool s))) \<le> cap (pool s)"
    unfolding pool_server_inv_def using pool_finite by blast
next
  fix s s' :: "'p dhcp_server_t" and mac :: "u8 list" and t ip :: u32
  assume "pool_server_inv inv s" "length mac = 16" "pool_offer find_available s mac t = Some (s', ip)"
  with offer_result [of s mac t] show "config s' = config s \<and> cap (pool s') = cap (pool s) \<and>
      cleaned t (cap (pool s)) (leases_of (pool s)) (leases_of (pool s')) \<and>
      offer_spec (cap (pool s)) (pool_start (config s)) (pool_end (config s)) (leases_of (pool s')) (mac_key mac) ip"
    by simp
next
  fix s s' :: "'p dhcp_server_t" and mac :: "u8 list" and t ip :: u32 and ok
  assume "pool_server_inv inv s" "length mac = 16" "pool_commit alloc s ip mac t = Some (s', ok)"
  with commit_result [of s mac ip t] show "config s' = config s \<and> cap (pool s') = cap (pool s) \<and>
      (if pool_start (config s) \<le> ip \<and> ip \<le> pool_end (config s)
       then \<exists>L. cleaned t (cap (pool s)) (leases_of (pool s)) L \<and>
         (leases_of (pool s'), ok) = alloc_spec (cap (pool s)) L ip (mac_key mac) (t + lease_time (config s))
       else leases_of (pool s') = leases_of (pool s) \<and> \<not> ok)"
    by simp
next
  fix s s' :: "'p dhcp_server_t" and mac :: "u8 list"
  assume "pool_server_inv inv s" "length mac = 16" "pool_decline drop_lease s mac = Some s'"
  with decline_result [of s mac] show "config s' = config s \<and> cap (pool s') = cap (pool s) \<and>
      leases_of (pool s') = (leases_of (pool s))(mac_key mac := None)"
    by simp
qed

end
