(* ===== verification/Ip_Cursor.thy ===== *)
theory Ip_Cursor
  imports Prelude
begin

text \<open>
  The rotating cursor of the lease pools.  \<open>dhcp_arraypool_find_available_ip\<close> and
  \<open>dhcp_hashpool_find_available_ip\<close> walk the address range with
  \<open>next_ip = pool_start + ((ip - pool_start + 1) % range_size)\<close> for \<open>range_size\<close> steps.
  \<open>scan_ips\<close> is that walk over an arbitrary test; the lemmas show that the cursor stays in the
  range and that the walk sees every address of it.
\<close>

definition cursor_next :: "u32 \<Rightarrow> u32 \<Rightarrow> u32 \<Rightarrow> u32" where
  "cursor_next lo range_size ip = lo + ((ip - lo + 1) mod range_size)"

fun scan_ips :: "(u32 \<Rightarrow> bool) \<Rightarrow> u32 \<Rightarrow> u32 \<Rightarrow> u32 \<Rightarrow> nat \<Rightarrow> u32 \<times> u32" where
  "scan_ips taken lo range_size c 0 = (c, 0)"
| "scan_ips taken lo range_size c (Suc k) =
     (if \<not> taken c then (cursor_next lo range_size c, c)
      else scan_ips taken lo range_size (cursor_next lo range_size c) k)"

text \<open>Offsets into a range that does not contain the address 0.\<close>

lemma unat_range_size:
  fixes lo hi :: u32
  assumes "0 < lo" and "lo \<le> hi"
  shows "unat (hi - lo + 1) = unat hi - unat lo + 1"
proof -
  have "unat (hi - lo) = unat hi - unat lo" using assms(2) by (rule unat_sub)
  moreover have "unat hi < 2 ^ 32" using unat_less_pow [of hi] by simp
  moreover have "0 < unat lo" using assms(1) by (simp add: word_less_nat_alt)
  moreover have "unat lo \<le> unat hi" using assms(2) by (simp add: word_le_nat_alt)
  ultimately have "unat (hi - lo) < 2 ^ 32 - 1" by linarith
  then show ?thesis using assms(2) by (simp add: unat_plus_one unat_sub)
qed

lemma unat_offset:
  fixes lo c :: u32
  assumes "lo \<le> c"
  shows "unat (c - lo) = unat c - unat lo"
  using assms by (rule unat_sub)

lemma offset_in_range:
  fixes lo hi :: u32
  assumes "lo \<le> hi" and "x \<le> unat hi - unat lo"
  shows "lo \<le> lo + of_nat x" and "lo + of_nat x \<le> hi" and "unat (lo + of_nat x - lo) = x"
proof -
  have hi: "unat hi < 2 ^ 32" using unat_less_pow [of hi] by simp
  have le: "unat lo \<le> unat hi" using assms(1) by (simp add: word_le_nat_alt)
  have x: "unat (of_nat x :: u32) = x" using assms(2) hi by (simp add: unat_of_nat)
  have s: "unat (lo + of_nat x) = unat lo + x"
    by (subst unat_plus_if_size) (use x assms(2) hi le in \<open>auto simp: word_size\<close>)
  show "lo \<le> lo + of_nat x" "lo + of_nat x \<le> hi"
    using s assms(2) le by (auto simp: word_le_nat_alt)
  show "unat (lo + of_nat x - lo) = x" using x by simp
qed

lemma cursor_next_in_range:
  assumes "0 < lo" and "lo \<le> c" and "c \<le> hi"
  defines "n \<equiv> unat hi - unat lo + 1"
  shows "lo \<le> cursor_next lo (hi - lo + 1) c" and "cursor_next lo (hi - lo + 1) c \<le> hi"
    and "unat (cursor_next lo (hi - lo + 1) c - lo) = (unat (c - lo) + 1) mod n"
proof -
  have le: "lo \<le> hi" using assms(2,3) by simp
  have n: "unat (hi - lo + 1) = n" using unat_range_size [OF assms(1) le] by (simp add: n_def)
  have off: "unat (c - lo + 1) = unat (c - lo) + 1"
  proof (rule unat_plus_one)
    have "unat c < 2 ^ 32" using unat_less_pow [of c] by simp
    moreover have "0 < unat lo" using assms(1) by (simp add: word_less_nat_alt)
    ultimately show "unat (c - lo) < 2 ^ LENGTH(32) - 1"
      using unat_offset [OF assms(2)] by simp
  qed
  define x where "x = (unat (c - lo) + 1) mod n"
  have "0 < n" by (simp add: n_def)
  then have x: "x \<le> unat hi - unat lo" using mod_less_divisor [of n] by (simp add: x_def n_def less_Suc_eq_le)
  have "(c - lo + 1) mod (hi - lo + 1) = of_nat x"
    by (simp add: word_arith_nat_mod n off x_def)
  then have "cursor_next lo (hi - lo + 1) c = lo + of_nat x" by (simp add: cursor_next_def)
  with offset_in_range [OF le x] show
    "lo \<le> cursor_next lo (hi - lo + 1) c" "cursor_next lo (hi - lo + 1) c \<le> hi"
    "unat (cursor_next lo (hi - lo + 1) c - lo) = (unat (c - lo) + 1) mod n"
    by (simp_all add: x_def)
qed

text \<open>\<open>k\<close> steps of the walk: a free address, or the \<open>k\<close> addresses from the cursor on are taken.\<close>

lemma scan_ips_steps:
  assumes "0 < lo" and "lo \<le> c" and "c \<le> hi"
  defines "n \<equiv> unat hi - unat lo + 1"
  shows "case scan_ips taken lo (hi - lo + 1) c k of (c', ip) \<Rightarrow> lo \<le> c' \<and> c' \<le> hi \<and>
    (lo \<le> ip \<and> ip \<le> hi \<and> \<not> taken ip \<or>
     ip = 0 \<and> (\<forall>m < k. taken (lo + of_nat ((unat (c - lo) + m) mod n))))"
  using assms(2,3)
proof (induction k arbitrary: c)
  case 0
  then show ?case by simp
next
  case (Suc k)
  note next_c = cursor_next_in_range [OF assms(1) Suc.prems]
  have "unat c \<le> unat hi" using Suc.prems(2) by (simp add: word_le_nat_alt)
  then have "unat (c - lo) < n" by (simp add: n_def unat_offset [OF Suc.prems(1)])
  then have c0: "lo + of_nat (unat (c - lo) mod n) = c" by simp
  have shift: "((unat (c - lo) + 1) mod n + m) mod n = (unat (c - lo) + Suc m) mod n" for m
    by (simp add: mod_add_left_eq)
  show ?case
  proof (cases "taken c")
    case False
    then show ?thesis using Suc.prems next_c by simp
  next
    case True
    have all: "\<forall>m < Suc k. taken (lo + of_nat ((unat (c - lo) + m) mod n))"
      if "\<forall>m < k. taken (lo + of_nat ((unat (cursor_next lo (hi - lo + 1) c - lo) + m) mod n))"
    proof (intro allI impI)
      fix m assume "m < Suc k"
      then show "taken (lo + of_nat ((unat (c - lo) + m) mod n))"
        using that True c0 shift next_c(3) by (cases m) (auto simp: n_def)
    qed
    show ?thesis
      using Suc.IH [OF next_c(1,2)] True all by (auto split: prod.splits)
  qed
qed

text \<open>The whole walk finds a free address of the range unless there is none.\<close>

lemma scan_ips_complete:
  assumes "0 < lo" and "lo \<le> c" and "c \<le> hi"
    and "scan_ips taken lo (hi - lo + 1) c (unat (hi - lo + 1)) = (c', ip)"
  shows "lo \<le> c' \<and> c' \<le> hi"
    and "if \<forall>a. lo \<le> a \<and> a \<le> hi \<longrightarrow> taken a then ip = 0 else lo \<le> ip \<and> ip \<le> hi \<and> \<not> taken ip"
proof -
  define n where "n = unat hi - unat lo + 1"
  have le: "lo \<le> hi" using assms(2,3) by simp
  have n: "unat (hi - lo + 1) = n" using unat_range_size [OF assms(1) le] by (simp add: n_def)
  note steps = scan_ips_steps [OF assms(1-3), of taken n, folded n_def]
  show "lo \<le> c' \<and> c' \<le> hi" using steps assms(4) n by simp
  have "taken a" if all: "\<forall>m < n. taken (lo + of_nat ((unat (c - lo) + m) mod n))" and a: "lo \<le> a" "a \<le> hi" for a
  proof -
    define d where "d = unat (c - lo)"
    define x where "x = unat (a - lo)"
    have "x < n" "d < n"
      using a assms(2,3) by (auto simp: x_def d_def n_def unat_offset word_le_nat_alt)
    then have m: "(x + n - d) mod n < n" by simp
    have "(d + (x + n - d) mod n) mod n = (d + (x + n - d)) mod n" by (rule mod_add_right_eq)
    also have "\<dots> = (x + n) mod n" using \<open>d < n\<close> by simp
    also have "\<dots> = x" using \<open>x < n\<close> by (simp only: mod_add_self2 mod_less)
    finally have "(d + (x + n - d) mod n) mod n = x" .
    note m = m this
    have "lo + of_nat x = a" by (simp add: x_def)
    with all m show ?thesis unfolding d_def by metis
  qed
  then show "if \<forall>a. lo \<le> a \<and> a \<le> hi \<longrightarrow> taken a then ip = 0 else lo \<le> ip \<and> ip \<le> hi \<and> \<not> taken ip"
    using steps assms(4) n by auto
qed

end
