(* ===== verification/Array_Pool_Correct.thy ===== *)
theory Array_Pool_Correct
  imports Array_Pool Ip_Cursor
begin

text \<open>
  Correctness of the ARRAY backend.  \<open>array_inv\<close> is the invariant of the pool, \<open>array_leases\<close>
  the lease map it stands for.  Every state change of the C code is one of three updates of a
  slot (\<open>release\<close>, \<open>renew\<close>, \<open>install\<close>); each is shown to keep the invariant and to act on the
  lease map, and the operations are shown to be made of them.
\<close>

section \<open>Invariant and lease map\<close>

definition used :: "dhcp_arraypool_t \<Rightarrow> nat set" where
  "used p = {i. i < unat (max_leases p) \<and> in_use (leases p ! i) \<noteq> 0}"

definition array_leases :: "dhcp_arraypool_t \<Rightarrow> lease_map" where
  "array_leases p m =
     (case find (\<lambda>i. in_use (leases p ! i) \<noteq> 0 \<and> mac_address (leases p ! i) = m) [0..<unat (max_leases p)] of
        None \<Rightarrow> None
      | Some i \<Rightarrow> Some (ip_address (leases p ! i), expire_time (leases p ! i)))"

definition array_wf :: "dhcp_arraypool_t \<Rightarrow> bool" where
  "array_wf p \<longleftrightarrow> unat (max_leases p) \<le> length (leases p) \<and>
     (\<forall>i < length (leases p). length (mac_address (leases p ! i)) = 6)"

definition array_inv :: "u32 \<Rightarrow> u32 \<Rightarrow> dhcp_arraypool_t \<Rightarrow> bool" where
  "array_inv lo hi p \<longleftrightarrow> array_wf p \<and> unat (lease_count p) = card (used p) \<and>
     inj_on (\<lambda>i. ip_address (leases p ! i)) (used p) \<and>
     inj_on (\<lambda>i. mac_address (leases p ! i)) (used p) \<and>
     (\<forall>i \<in> used p. lo \<le> ip_address (leases p ! i) \<and> ip_address (leases p ! i) \<le> hi) \<and>
     lo \<le> next_ip p \<and> next_ip p \<le> hi"

lemma finite_used [simp]: "finite (used p)"
  by (simp add: used_def)

lemma used_less: "i \<in> used p \<Longrightarrow> i < unat (max_leases p)"
  by (simp add: used_def)

lemma used_bound: "array_wf p \<Longrightarrow> i \<in> used p \<Longrightarrow> i < length (leases p)"
  by (auto simp: used_def array_wf_def)

lemma wf_mac_length: "array_wf p \<Longrightarrow> i < length (leases p) \<Longrightarrow> length (mac_address (leases p ! i)) = 6"
  by (auto simp: array_wf_def)

lemma card_used_le: "card (used p) \<le> unat (max_leases p)"
  using card_mono [of "{..<unat (max_leases p)}" "used p"] by (auto simp: used_def)

lemma array_leases_None_iff:
  "array_leases p m = None \<longleftrightarrow> (\<forall>i \<in> used p. mac_address (leases p ! i) \<noteq> m)"
  by (force simp: array_leases_def used_def find_None_iff find_Some_iff split: option.split)

lemma array_leases_used:
  assumes "array_inv lo hi p" and "i \<in> used p"
  shows "array_leases p (mac_address (leases p ! i)) = Some (ip_address (leases p ! i), expire_time (leases p ! i))"
proof -
  obtain j where j: "find (\<lambda>j. in_use (leases p ! j) \<noteq> 0 \<and> mac_address (leases p ! j) = mac_address (leases p ! i))
      [0..<unat (max_leases p)] = Some j"
    using assms(2) by (cases "find (\<lambda>j. in_use (leases p ! j) \<noteq> 0 \<and>
      mac_address (leases p ! j) = mac_address (leases p ! i)) [0..<unat (max_leases p)]")
      (auto simp: used_def find_None_iff)
  then have "j \<in> used p" "mac_address (leases p ! j) = mac_address (leases p ! i)"
    by (auto simp: used_def find_Some_iff)
  then have "j = i" using assms by (auto simp: array_inv_def dest: inj_onD)
  with j show ?thesis by (simp add: array_leases_def)
qed

lemma array_leases_Some_iff:
  assumes "array_inv lo hi p"
  shows "array_leases p m = Some (ip, e) \<longleftrightarrow>
    (\<exists>i \<in> used p. mac_address (leases p ! i) = m \<and> ip_address (leases p ! i) = ip \<and> expire_time (leases p ! i) = e)"
proof
  assume l: "array_leases p m = Some (ip, e)"
  then obtain i where "i \<in> used p" "mac_address (leases p ! i) = m"
    using array_leases_None_iff [of p m] by auto
  with array_leases_used [OF assms, of i] l
  show "\<exists>i \<in> used p. mac_address (leases p ! i) = m \<and> ip_address (leases p ! i) = ip \<and> expire_time (leases p ! i) = e"
    by auto
next
  assume "\<exists>i \<in> used p. mac_address (leases p ! i) = m \<and> ip_address (leases p ! i) = ip \<and> expire_time (leases p ! i) = e"
  then show "array_leases p m = Some (ip, e)" using array_leases_used [OF assms] by auto
qed

lemma dom_array_leases: "dom (array_leases p) = (\<lambda>i. mac_address (leases p ! i)) ` used p"
  using array_leases_None_iff [of p] by (auto simp: dom_def)

lemma card_dom_array_leases:
  assumes "array_inv lo hi p"
  shows "card (dom (array_leases p)) = unat (lease_count p)"
  using assms by (simp add: dom_array_leases card_image array_inv_def)

lemma leased_ips_array:
  assumes "array_inv lo hi p"
  shows "ip \<in> leased_ips (array_leases p) \<longleftrightarrow> (\<exists>i \<in> used p. ip_address (leases p ! i) = ip)"
  using array_leases_Some_iff [OF assms] by (auto simp: leased_ips_iff)

section \<open>The three updates of a slot\<close>

definition release :: "dhcp_arraypool_t \<Rightarrow> nat \<Rightarrow> dhcp_arraypool_t" where
  "release p i = p\<lparr>leases := (leases p)[i := (leases p ! i)\<lparr>in_use := 0\<rparr>],
     lease_count := lease_count p - 1\<rparr>"

definition renew :: "dhcp_arraypool_t \<Rightarrow> nat \<Rightarrow> u32 \<Rightarrow> dhcp_arraypool_t" where
  "renew p i e = p\<lparr>leases := (leases p)[i := (leases p ! i)\<lparr>expire_time := e\<rparr>]\<rparr>"

definition install :: "dhcp_arraypool_t \<Rightarrow> nat \<Rightarrow> u32 \<Rightarrow> u8 list \<Rightarrow> u32 \<Rightarrow> dhcp_arraypool_t" where
  "install p i ip m e = p\<lparr>leases := (leases p)[i := (leases p ! i)\<lparr>ip_address := ip, mac_address := m,
     expire_time := e, in_use := 1\<rparr>], lease_count := lease_count p + 1\<rparr>"

lemma update_sel [simp]:
  "max_leases (release p i) = max_leases p" "next_ip (release p i) = next_ip p"
  "max_leases (renew p i e) = max_leases p" "next_ip (renew p i e) = next_ip p"
  "max_leases (install p i ip m e) = max_leases p" "next_ip (install p i ip m e) = next_ip p"
  "length (leases (release p i)) = length (leases p)" "length (leases (renew p i e)) = length (leases p)"
  "length (leases (install p i ip m e)) = length (leases p)"
  by (simp_all add: release_def renew_def install_def)

lemma used_release: "array_wf p \<Longrightarrow> i \<in> used p \<Longrightarrow> used (release p i) = used p - {i}"
  using used_bound [of p i] by (auto simp: used_def release_def nth_list_update)

lemma used_renew: "array_wf p \<Longrightarrow> i \<in> used p \<Longrightarrow> used (renew p i e) = used p"
  using used_bound [of p i] by (auto simp: used_def renew_def nth_list_update split: if_splits)

lemma used_install:
  "i < unat (max_leases p) \<Longrightarrow> i < length (leases p) \<Longrightarrow> used (install p i ip m e) = insert i (used p)"
  by (auto simp: used_def install_def nth_list_update)

lemma release_other [simp]: "j \<noteq> i \<Longrightarrow> leases (release p i) ! j = leases p ! j"
  by (simp add: release_def)

lemma array_wf_update:
  assumes "array_wf p"
  shows "array_wf (release p i)" and "array_wf (renew p i e)"
    and "length m = 6 \<Longrightarrow> array_wf (install p i ip m e)"
  using assms by (auto simp: array_wf_def release_def renew_def install_def nth_update_if)

lemma release_inv:
  assumes "array_inv lo hi p" and "i \<in> used p"
  shows "array_inv lo hi (release p i)"
proof -
  have wf: "array_wf p" using assms(1) by (simp add: array_inv_def)
  note u = used_release [OF wf assms(2)]
  have "card (used p) \<noteq> 0" using assms(2) by auto
  then have "lease_count p \<noteq> 0" using assms(1) by (auto simp: array_inv_def)
  then have "unat (lease_count p - 1) = unat (lease_count p) - 1"
    by (rule unat_minus_one)
  then have "unat (lease_count (release p i)) = card (used (release p i))"
    using assms u by (simp add: array_inv_def release_def)
  moreover have "inj_on (\<lambda>j. ip_address (leases (release p i) ! j)) (used p - {i})"
    "inj_on (\<lambda>j. mac_address (leases (release p i) ! j)) (used p - {i})"
    using assms(1) by (auto simp: array_inv_def inj_on_def)
  ultimately show ?thesis
    using assms(1) array_wf_update(1) [OF wf] by (auto simp: array_inv_def u)
qed

lemma release_leases:
  assumes "array_inv lo hi p" and "i \<in> used p"
  shows "array_leases (release p i) = (array_leases p)(mac_address (leases p ! i) := None)"
proof (rule map_ext_Some)
  fix m ip e
  have wf: "array_wf p" using assms(1) by (simp add: array_inv_def)
  have "m = mac_address (leases p ! i) \<longleftrightarrow> j = i" if "j \<in> used p" "mac_address (leases p ! j) = m" for j
    using assms that by (auto simp: array_inv_def dest: inj_onD)
  then show "array_leases (release p i) m = Some (ip, e) \<longleftrightarrow>
      ((array_leases p)(mac_address (leases p ! i) := None)) m = Some (ip, e)"
    by (auto simp: array_leases_Some_iff [OF release_inv [OF assms]] array_leases_Some_iff [OF assms(1)]
        used_release [OF wf assms(2)] fun_upd_apply)
qed

lemma renew_sel:
  assumes "i < length (leases p)"
  shows "ip_address (leases (renew p i e) ! j) = ip_address (leases p ! j)"
    and "mac_address (leases (renew p i e) ! j) = mac_address (leases p ! j)"
    and "expire_time (leases (renew p i e) ! j) = (if i = j then e else expire_time (leases p ! j))"
  using assms by (auto simp: renew_def nth_update_if)

lemma renew_inv:
  assumes "array_inv lo hi p" and "i \<in> used p"
  shows "array_inv lo hi (renew p i e)"
proof -
  have wf: "array_wf p" using assms(1) by (simp add: array_inv_def)
  note sel = renew_sel [OF used_bound [OF wf assms(2)], of e]
  show ?thesis
    using assms(1) array_wf_update(2) [OF wf, of i e]
    by (auto simp: array_inv_def used_renew [OF wf assms(2)] sel) (simp add: renew_def)
qed

lemma renew_leases:
  assumes "array_inv lo hi p" and "i \<in> used p"
  shows "array_leases (renew p i e) =
    (array_leases p)(mac_address (leases p ! i) \<mapsto> (ip_address (leases p ! i), e))"
proof (rule map_ext_Some)
  fix m ip x
  have wf: "array_wf p" using assms(1) by (simp add: array_inv_def)
  note sel = renew_sel [OF used_bound [OF wf assms(2)], of e]
  have "m = mac_address (leases p ! i) \<longleftrightarrow> j = i" if "j \<in> used p" "mac_address (leases p ! j) = m" for j
    using assms that by (auto simp: array_inv_def dest: inj_onD)
  then show "array_leases (renew p i e) m = Some (ip, x) \<longleftrightarrow>
      ((array_leases p)(mac_address (leases p ! i) \<mapsto> (ip_address (leases p ! i), e))) m = Some (ip, x)"
    using assms(2)
    by (auto simp: array_leases_Some_iff [OF renew_inv [OF assms]] array_leases_Some_iff [OF assms(1)]
        used_renew [OF wf assms(2)] sel fun_upd_apply split: if_splits)
qed

lemma install_sel:
  assumes "i < length (leases p)"
  shows "leases (install p i ip m e) ! i = (leases p ! i)\<lparr>ip_address := ip, mac_address := m, expire_time := e, in_use := 1\<rparr>"
    and "j \<noteq> i \<Longrightarrow> leases (install p i ip m e) ! j = leases p ! j"
  using assms by (simp_all add: install_def)

lemma install_inv:
  assumes "array_inv lo hi p" and "i < unat (max_leases p)" and "i \<notin> used p" and "length m = 6"
    and "\<And>j. j \<in> used p \<Longrightarrow> ip_address (leases p ! j) \<noteq> ip \<and> mac_address (leases p ! j) \<noteq> m"
    and "lo \<le> ip" and "ip \<le> hi"
  shows "array_inv lo hi (install p i ip m e)"
proof -
  have wf: "array_wf p" using assms(1) by (simp add: array_inv_def)
  then have i: "i < length (leases p)" using assms(2) by (simp add: array_wf_def)
  note u = used_install [OF assms(2) i, of ip m e] and sel = install_sel [OF i, where ip = ip and m = m and e = e]
  have "card (insert i (used p)) \<le> unat (max_leases p)"
    using card_used_le [of "install p i ip m e"] u by simp
  then have "unat (lease_count p) + 1 \<le> unat (max_leases p)"
    using assms(1,3) by (simp add: array_inv_def)
  then have "unat (lease_count p + 1) = unat (lease_count p) + 1"
    using unat_less_pow [of "max_leases p"] by (intro unat_plus_one) simp
  then have "unat (lease_count (install p i ip m e)) = card (used (install p i ip m e))"
    using assms(1,3) by (simp add: array_inv_def u) (simp add: install_def)
  moreover have "inj_on (\<lambda>j. ip_address (leases (install p i ip m e) ! j)) (insert i (used p))"
    "inj_on (\<lambda>j. mac_address (leases (install p i ip m e) ! j)) (insert i (used p))"
    using assms(1,3,5) sel by (auto simp: array_inv_def inj_on_def) metis+
  moreover have "lo \<le> ip_address (leases (install p i ip m e) ! j) \<and> ip_address (leases (install p i ip m e) ! j) \<le> hi"
    if "j \<in> insert i (used p)" for j
    using that assms(1,6,7) sel by (cases "j = i") (auto simp: array_inv_def)
  ultimately show ?thesis
    using assms(1) array_wf_update(3) [OF wf assms(4)] by (simp add: array_inv_def u)
qed

lemma install_leases:
  assumes "array_inv lo hi p" and "i < unat (max_leases p)" and "i \<notin> used p" and "length m = 6"
    and "\<And>j. j \<in> used p \<Longrightarrow> ip_address (leases p ! j) \<noteq> ip \<and> mac_address (leases p ! j) \<noteq> m"
    and "lo \<le> ip" and "ip \<le> hi"
  shows "array_leases (install p i ip m e) = (array_leases p)(m \<mapsto> (ip, e))"
proof (rule map_ext_Some)
  fix k a x
  have i: "i < length (leases p)" using assms(1,2) by (simp add: array_inv_def array_wf_def)
  note sel = install_sel [OF i, where ip = ip and m = m and e = e]
  have ne: "j \<noteq> i" if "j \<in> used p" for j using that assms(3) by auto
  show "array_leases (install p i ip m e) k = Some (a, x) \<longleftrightarrow> ((array_leases p)(m \<mapsto> (ip, e))) k = Some (a, x)"
    using assms(5) ne
    by (auto simp: array_leases_Some_iff [OF install_inv [OF assms]] array_leases_Some_iff [OF assms(1)]
        used_install [OF assms(2) i] sel fun_upd_apply split: if_splits)
qed

section \<open>The loops\<close>

lemma mac_compare:
  assumes "array_wf p" and "i < length (leases p)" and "6 \<le> length mac"
  shows "\<exists>d. kmemcmp (mac_address (leases p ! i)) mac 6 = Some d \<and>
    (d = 0 \<longleftrightarrow> mac_address (leases p ! i) = mac_key mac)"
  using kmemcmp_Some [of 6 "mac_address (leases p ! i)" mac] wf_mac_length [OF assms(1,2)] assms(3) by simp

lemma find_lease_from_find:
  assumes "array_wf p" and "6 \<le> length mac" and "n = unat (max_leases p)"
  shows "find_lease_from (leases p) mac n i =
    Some (find (\<lambda>j. in_use (leases p ! j) \<noteq> 0 \<and> mac_address (leases p ! j) = mac_key mac) [i..<n])"
proof (induction "n - i" arbitrary: i)
  case 0
  then show ?case by (simp add: find_lease_from.simps)
next
  case (Suc k)
  then have "i < n" "k = n - Suc i" by auto
  then have i: "i < length (leases p)" using assms by (simp add: array_wf_def)
  show ?case
    using \<open>i < n\<close> Suc.hyps(1) [OF \<open>k = n - Suc i\<close>] mac_compare [OF assms(1) i assms(2)] i
    by (subst find_lease_from.simps) (auto simp: access_simps upt_conv_Cons)
qed

lemma find_lease_cases:
  assumes "array_inv lo hi p" and "6 \<le> length mac"
  obtains (None) "dhcp_arraypool_find_lease p mac = Some None" and "array_leases p (mac_key mac) = None"
  | (Some) i where "dhcp_arraypool_find_lease p mac = Some (Some i)" and "i \<in> used p"
      and "mac_address (leases p ! i) = mac_key mac"
      and "array_leases p (mac_key mac) = Some (ip_address (leases p ! i), expire_time (leases p ! i))"
proof -
  have wf: "array_wf p" using assms(1) by (simp add: array_inv_def)
  define r where "r = find (\<lambda>j. in_use (leases p ! j) \<noteq> 0 \<and> mac_address (leases p ! j) = mac_key mac) [0..<unat (max_leases p)]"
  have fl: "dhcp_arraypool_find_lease p mac = Some r"
    using find_lease_from_find [OF wf assms(2) refl, of 0] by (simp add: dhcp_arraypool_find_lease_def r_def)
  show thesis
  proof (cases r)
    case None
    with fl that(1) show thesis by (auto simp: array_leases_def r_def)
  next
    case (Some i)
    then have "i \<in> used p" "mac_address (leases p ! i) = mac_key mac"
      by (auto simp: r_def used_def find_Some_iff)
    with fl Some that(2) array_leases_used [OF assms(1)] show thesis by metis
  qed
qed

lemma ip_taken_iff:
  assumes "n \<le> length ls"
  shows "ip_taken ls ip n i = Some (\<exists>j \<in> {i..<n}. in_use (ls ! j) \<noteq> 0 \<and> ip_address (ls ! j) = ip)"
proof (induction "n - i" arbitrary: i)
  case 0
  then show ?case by (subst ip_taken.simps) auto
next
  case (Suc k)
  then have "i < n" "k = n - Suc i" by auto
  then have "{i..<n} = insert i {Suc i..<n}" by auto
  then show ?case
    using \<open>i < n\<close> Suc.hyps(1) [OF \<open>k = n - Suc i\<close>] assms
    by (subst ip_taken.simps) (simp add: access_simps)
qed

lemma ip_taken_used:
  assumes "array_wf p"
  shows "ip_taken (leases p) ip (unat (max_leases p)) 0 = Some (\<exists>j \<in> used p. ip_address (leases p ! j) = ip)"
  using ip_taken_iff [of "unat (max_leases p)" "leases p" ip 0] assms
  by (auto simp: array_wf_def used_def)

lemma cursor_update [simp]:
  "used (p\<lparr>next_ip := c\<rparr>) = used p" "array_leases (p\<lparr>next_ip := c\<rparr>) = array_leases p"
  by (simp_all add: used_def array_leases_def fun_eq_iff split: option.split)

lemma next_free_ip_scan:
  assumes "array_wf p"
  shows "next_free_ip p ps rs k =
    (case scan_ips (\<lambda>ip. \<exists>j \<in> used p. ip_address (leases p ! j) = ip) ps rs (next_ip p) k of
       (c, ip) \<Rightarrow> Some (p\<lparr>next_ip := c\<rparr>, ip))"
  using assms
proof (induction k arbitrary: p)
  case 0
  then show ?case by simp
next
  case (Suc k)
  let ?p = "p\<lparr>next_ip := cursor_next ps rs (next_ip p)\<rparr>"
  have wf: "array_wf ?p" and u: "used ?p = used p"
    using Suc.prems by (simp_all add: array_wf_def used_def)
  show ?case
    using Suc.IH [OF wf] ip_taken_used [OF Suc.prems, of "next_ip p"]
    by (auto simp: cursor_next_def [symmetric] u Let_def split: prod.splits)
qed

lemma cleanup_from_ok:
  assumes "array_inv lo hi p"
  shows "\<exists>p'. cleanup_from p t i = Some p' \<and> array_inv lo hi p' \<and>
    only_expired t (array_leases p) (array_leases p') \<and> max_leases p' = max_leases p \<and>
    (\<forall>j < i. leases p' ! j = leases p ! j) \<and> (\<forall>j \<in> used p'. i \<le> j \<longrightarrow> t < expire_time (leases p' ! j))"
  using assms
proof (induction "unat (max_leases p) - i" arbitrary: i p)
  case 0
  then show ?case by (subst cleanup_from.simps) (auto dest: used_less)
next
  case (Suc k)
  then have "i < unat (max_leases p)" "k = unat (max_leases p) - Suc i" by auto
  have wf: "array_wf p" using Suc.prems by (simp add: array_inv_def)
  then have i: "i < length (leases p)" using \<open>i < unat (max_leases p)\<close> by (simp add: array_wf_def)
  show ?case
  proof (cases "in_use (leases p ! i) \<noteq> 0 \<and> expire_time (leases p ! i) \<le> t")
    case True
    then have u: "i \<in> used p" using \<open>i < unat (max_leases p)\<close> by (simp add: used_def)
    have step: "cleanup_from p t i = cleanup_from (release p i) t (Suc i)"
      using True i \<open>i < unat (max_leases p)\<close>
      by (subst cleanup_from.simps) (simp add: access_simps release_def)
    have exp: "only_expired t (array_leases p) (array_leases (release p i))"
      using True array_leases_used [OF Suc.prems u] release_leases [OF Suc.prems u]
      by (auto simp: only_expired_def)
    obtain p' where p': "cleanup_from (release p i) t (Suc i) = Some p'" "array_inv lo hi p'"
      "only_expired t (array_leases (release p i)) (array_leases p')" "max_leases p' = max_leases p"
      "\<forall>j < Suc i. leases p' ! j = leases (release p i) ! j"
      "\<forall>j \<in> used p'. Suc i \<le> j \<longrightarrow> t < expire_time (leases p' ! j)"
      using Suc.hyps(1) [of "release p i" "Suc i"] release_inv [OF Suc.prems u] \<open>k = unat (max_leases p) - Suc i\<close>
      by auto
    have "i \<notin> used p'" using p'(5) i by (simp add: used_def release_def)
    then have "\<forall>j \<in> used p'. i \<le> j \<longrightarrow> t < expire_time (leases p' ! j)"
      using p'(6) by (metis Suc_leI le_neq_implies_less)
    with step p' only_expired_trans [OF exp p'(3)] show ?thesis by auto
  next
    case False
    have step: "cleanup_from p t i = cleanup_from p t (Suc i)"
      using False i \<open>i < unat (max_leases p)\<close> by (subst cleanup_from.simps) (auto simp: access_simps)
    obtain p' where p': "cleanup_from p t (Suc i) = Some p'" "array_inv lo hi p'"
      "only_expired t (array_leases p) (array_leases p')" "max_leases p' = max_leases p"
      "\<forall>j < Suc i. leases p' ! j = leases p ! j"
      "\<forall>j \<in> used p'. Suc i \<le> j \<longrightarrow> t < expire_time (leases p' ! j)"
      using Suc.hyps(1) [of p "Suc i"] Suc.prems \<open>k = unat (max_leases p) - Suc i\<close> by auto
    have "i \<in> used p' \<Longrightarrow> t < expire_time (leases p' ! i)"
      using p'(5) False by (auto simp: used_def)
    then have "\<forall>j \<in> used p'. i \<le> j \<longrightarrow> t < expire_time (leases p' ! j)"
      using p'(6) by (metis Suc_leI le_neq_implies_less)
    with step p' show ?thesis by auto
  qed
qed

text \<open>What the scan of \<open>dhcp_arraypool_alloc_lease\<close> has found before slot \<open>i\<close>.\<close>

definition scan_inv :: "dhcp_arraypool_t \<Rightarrow> u32 \<Rightarrow> u8 list \<Rightarrow> nat \<Rightarrow>
    nat option \<Rightarrow> nat option \<Rightarrow> nat option \<Rightarrow> bool" where
  "scan_inv p ip key i mac_match ip_match free_slot \<longleftrightarrow>
     (case mac_match of
        Some j \<Rightarrow> j \<in> used p \<and> mac_address (leases p ! j) = key
      | None \<Rightarrow> \<forall>j \<in> used p. j < i \<longrightarrow> mac_address (leases p ! j) \<noteq> key) \<and>
     (case ip_match of
        Some j \<Rightarrow> j \<in> used p \<and> j < i \<and> ip_address (leases p ! j) = ip
      | None \<Rightarrow> \<forall>j \<in> used p. j < i \<longrightarrow> ip_address (leases p ! j) \<noteq> ip) \<and>
     (case free_slot of
        Some j \<Rightarrow> j < unat (max_leases p) \<and> j \<notin> used p
      | None \<Rightarrow> \<forall>j < i. j \<in> used p)"

lemma scan_inv_free:
  assumes "scan_inv p ip key i mm im fs" and "i < unat (max_leases p)" and "i \<notin> used p"
  shows "scan_inv p ip key (Suc i) mm im (if fs = None then Some i else fs)"
  using assms by (auto simp: scan_inv_def less_Suc_eq split: option.splits)

lemma scan_inv_used:
  assumes "scan_inv p ip key i mm im fs" and "i \<in> used p"
  shows "scan_inv p ip key (Suc i)
    (if mac_address (leases p ! i) = key then Some i else mm)
    (if ip_address (leases p ! i) = ip then Some i else im) fs"
  using assms by (auto simp: scan_inv_def less_Suc_eq split: option.splits)

lemma alloc_scan_ok:
  assumes "array_wf p" and "6 \<le> length mac" and "n = unat (max_leases p)"
    and "scan_inv p ip (mac_key mac) i mm im fs" and "i \<le> n"
  shows "\<exists>mm' im' fs' i'. alloc_scan (leases p) ip mac n i mm im fs = Some (mm', im', fs') \<and>
    scan_inv p ip (mac_key mac) i' mm' im' fs' \<and> (mm' = None \<and> im' = None \<longrightarrow> i' = n)"
  using assms(4,5)
proof (induction "n - i" arbitrary: i mm im fs)
  case 0
  then show ?case by (subst alloc_scan.simps) auto
next
  case (Suc k)
  then have lt: "i < n" "k = n - Suc i" "Suc i \<le> n" by auto
  then have i: "i < length (leases p)" using assms(1,3) by (simp add: array_wf_def)
  show ?case
  proof (cases "in_use (leases p ! i) = 0")
    case True
    then have "i \<notin> used p" by (simp add: used_def)
    with Suc.hyps(1) [OF lt(2) scan_inv_free [OF Suc.prems(1)] lt(3)] True i lt(1) assms(3)
    show ?thesis by (subst alloc_scan.simps) (simp add: access_simps)
  next
    case False
    then have u: "i \<in> used p" using lt(1) assms(3) by (simp add: used_def)
    obtain d where d: "kmemcmp (mac_address (leases p ! i)) mac 6 = Some d"
      "d = 0 \<longleftrightarrow> mac_address (leases p ! i) = mac_key mac"
      using mac_compare [OF assms(1) i assms(2)] by blast
    define mm1 where "mm1 = (if mac_address (leases p ! i) = mac_key mac then Some i else mm)"
    define im1 where "im1 = (if ip_address (leases p ! i) = ip then Some i else im)"
    have inv1: "scan_inv p ip (mac_key mac) (Suc i) mm1 im1 fs"
      using scan_inv_used [OF Suc.prems(1) u] by (simp add: mm1_def im1_def)
    have "alloc_scan (leases p) ip mac n i mm im fs =
      (if (mm1 \<noteq> None \<or> im1 \<noteq> None) \<and> fs \<noteq> None then Some (mm1, im1, fs)
       else alloc_scan (leases p) ip mac n (Suc i) mm1 im1 fs)"
      using lt(1) i False d by (subst alloc_scan.simps) (simp add: access_simps Let_def mm1_def im1_def)
    with Suc.hyps(1) [OF lt(2) inv1 lt(3)] inv1 show ?thesis by auto
  qed
qed

section \<open>The operations on the lease map\<close>

text \<open>The clean-up at the head of an operation.\<close>

lemma array_cleanup_if_full:
  assumes "array_inv lo hi p"
  obtains p' where "(if lease_count p \<ge> max_leases p
      then dhcp_arraypool_cleanup_expire_lease p t else Some p) = Some p'"
    and "array_inv lo hi p'" and "max_leases p' = max_leases p"
    and "cleaned t (unat (max_leases p)) (array_leases p) (array_leases p')"
proof (cases "lease_count p \<ge> max_leases p")
  case True
  obtain p' where "cleanup_from p t 0 = Some p'" "array_inv lo hi p'"
    "only_expired t (array_leases p) (array_leases p')" "max_leases p' = max_leases p"
    using cleanup_from_ok [OF assms, of t 0] by auto
  with True that [of p'] card_dom_array_leases [OF assms] show thesis
    by (auto simp: dhcp_arraypool_cleanup_expire_lease_def cleaned_def word_le_nat_alt)
next
  case False
  with that [of p] assms show thesis by (simp add: cleaned_def)
qed

lemma array_full_iff:
  assumes "array_inv lo hi p"
  shows "max_leases p \<le> lease_count p \<longleftrightarrow> unat (max_leases p) \<le> card (dom (array_leases p))"
  using card_dom_array_leases [OF assms] by (simp add: word_le_nat_alt)

lemma array_find_available_ok:
  assumes "array_inv lo hi p" and "0 < lo" and "6 \<le> length mac"
  shows "\<exists>p' ip. dhcp_arraypool_find_available_ip p lo hi mac t = Some (p', ip) \<and> array_inv lo hi p' \<and>
    max_leases p' = max_leases p \<and> cleaned t (unat (max_leases p)) (array_leases p) (array_leases p') \<and>
    offer_spec (unat (max_leases p)) lo hi (array_leases p') (mac_key mac) ip"
proof -
  obtain p1 where p1: "(if lease_count p \<ge> max_leases p
      then dhcp_arraypool_cleanup_expire_lease p t else Some p) = Some p1"
    "array_inv lo hi p1" "max_leases p1 = max_leases p"
    "cleaned t (unat (max_leases p)) (array_leases p) (array_leases p1)"
    using array_cleanup_if_full [OF assms(1)] by blast
  have wf: "array_wf p1" using p1(2) by (simp add: array_inv_def)
  show ?thesis
  proof (cases rule: find_lease_cases [OF p1(2) assms(3)])
    case (2 i)
    then show ?thesis
      using p1 used_bound [OF wf]
      by (auto simp: dhcp_arraypool_find_available_ip_def access_simps offer_spec_def)
  next
    case 1
    show ?thesis
    proof (cases "max_leases p1 \<le> lease_count p1")
      case True
      with 1 p1 array_full_iff [OF p1(2)] show ?thesis
        by (auto simp: dhcp_arraypool_find_available_ip_def offer_spec_def)
    next
      case False
      let ?taken = "\<lambda>ip. \<exists>j \<in> used p1. ip_address (leases p1 ! j) = ip"
      obtain c ip where scan: "scan_ips ?taken lo (hi - lo + 1) (next_ip p1) (unat (hi - lo + 1)) = (c, ip)"
        by force
      have "lo \<le> next_ip p1" "next_ip p1 \<le> hi" using p1(2) by (simp_all add: array_inv_def)
      note complete = scan_ips_complete [OF assms(2) this scan]
      let ?p' = "p1\<lparr>next_ip := c\<rparr>"
      have "array_leases ?p' = array_leases p1" "used ?p' = used p1" by simp_all
      moreover from this have "array_inv lo hi ?p'"
        using p1(2) complete(1) by (simp add: array_inv_def array_wf_def)
      moreover have "dhcp_arraypool_find_available_ip p lo hi mac t = Some (?p', ip)"
        using p1(1) 1 False scan
        by (auto simp: dhcp_arraypool_find_available_ip_def next_free_ip_scan [OF wf] Let_def)
      moreover have "offer_spec (unat (max_leases p)) lo hi (array_leases p1) (mac_key mac) ip"
        using 1 complete(2) leased_ips_array [OF p1(2)] array_full_iff [OF p1(2)] False p1(3)
        by (auto simp: offer_spec_def split: if_splits)
      ultimately show ?thesis using p1 by auto
    qed
  qed
qed


text \<open>The scan may stop before the client's own lease; that lease is then for another address.\<close>

lemma ip_match_other:
  assumes "array_inv lo hi p" and "scan_inv p ip key i None (Some k) fs"
  shows "array_leases p key \<noteq> Some (ip, e)"
proof
  assume "array_leases p key = Some (ip, e)"
  then obtain j where j: "j \<in> used p" "mac_address (leases p ! j) = key" "ip_address (leases p ! j) = ip"
    using array_leases_Some_iff [OF assms(1)] by auto
  have k: "k \<in> used p" "k < i" "ip_address (leases p ! k) = ip" using assms(2) by (simp_all add: scan_inv_def)
  then have "j = k" using assms(1) j by (auto simp: array_inv_def dest: inj_onD)
  with j k assms(2) show False by (simp add: scan_inv_def)
qed

text \<open>
  The allocation.  After the scan there are three cases: the client already has a lease, another
  client has the address, or neither, and then a free slot is taken if there is one.
\<close>

definition alloc_result :: "dhcp_arraypool_t \<Rightarrow> u32 \<Rightarrow> u8 list \<Rightarrow> u32 \<Rightarrow>
    nat option \<Rightarrow> nat option \<Rightarrow> nat option \<Rightarrow> dhcp_arraypool_t \<times> bool" where
  "alloc_result p ip key e mac_match ip_match free_slot =
     (case mac_match of
        Some j \<Rightarrow> if ip_address (leases p ! j) \<noteq> ip then (p, False) else (renew p j e, True)
      | None \<Rightarrow>
          if ip_match \<noteq> None then (p, False)
          else (case free_slot of None \<Rightarrow> (p, False) | Some f \<Rightarrow> (install p f ip key e, True)))"

definition alloc_good :: "u32 \<Rightarrow> u32 \<Rightarrow> dhcp_arraypool_t \<Rightarrow> u32 \<Rightarrow> u8 list \<Rightarrow> u32 \<Rightarrow> dhcp_arraypool_t \<times> bool \<Rightarrow> bool" where
  "alloc_good lo hi p ip key e r \<longleftrightarrow> array_inv lo hi (fst r) \<and> max_leases (fst r) = max_leases p \<and>
     (array_leases (fst r), snd r) = alloc_spec (unat (max_leases p)) (array_leases p) ip key e"

lemma alloc_known_client:
  assumes "array_inv lo hi p" and "scan_inv p ip key i (Some j) im fs"
  shows "alloc_good lo hi p ip key e (alloc_result p ip key e (Some j) im fs)"
proof -
  have j: "j \<in> used p" "mac_address (leases p ! j) = key" using assms(2) by (simp_all add: scan_inv_def)
  then have "array_leases p key = Some (ip_address (leases p ! j), expire_time (leases p ! j))"
    using array_leases_used [OF assms(1)] by blast
  then show ?thesis
    using assms(1) renew_inv [OF assms(1) j(1), of e] renew_leases [OF assms(1) j(1), of e] j(2)
    by (simp add: alloc_good_def alloc_result_def alloc_spec_def)
qed

lemma alloc_taken_address:
  assumes "array_inv lo hi p" and "scan_inv p ip key i None (Some k) fs"
  shows "alloc_good lo hi p ip key e (alloc_result p ip key e None (Some k) fs)"
proof -
  have "ip \<in> leased_ips (array_leases p)"
    using assms(2) leased_ips_array [OF assms(1)] by (auto simp: scan_inv_def)
  then show ?thesis
    using assms(1) ip_match_other [OF assms]
    by (auto simp: alloc_good_def alloc_result_def alloc_spec_def split: option.split)
qed

lemma alloc_new_client:
  assumes "array_inv lo hi p" and "scan_inv p ip key (unat (max_leases p)) None None fs"
    and "length key = 6" and "lo \<le> ip" and "ip \<le> hi"
  shows "alloc_good lo hi p ip key e (alloc_result p ip key e None None fs)"
proof -
  have fresh: "\<And>j. j \<in> used p \<Longrightarrow> ip_address (leases p ! j) \<noteq> ip \<and> mac_address (leases p ! j) \<noteq> key"
    using assms(2) by (auto simp: scan_inv_def used_def)
  then have none: "array_leases p key = None" "ip \<notin> leased_ips (array_leases p)"
    using array_leases_None_iff leased_ips_array [OF assms(1)] by blast+
  have card: "card (dom (array_leases p)) = card (used p)"
    using card_dom_array_leases [OF assms(1)] assms(1) by (simp add: array_inv_def)
  show ?thesis
  proof (cases fs)
    case None
    then have "used p = {..<unat (max_leases p)}" using assms(2) by (auto simp: scan_inv_def used_def)
    then have "unat (max_leases p) \<le> card (dom (array_leases p))" using card by simp
    then show ?thesis using assms(1) none None by (simp add: alloc_good_def alloc_result_def alloc_spec_def)
  next
    case (Some f)
    then have f: "f < unat (max_leases p)" "f \<notin> used p" using assms(2) by (auto simp: scan_inv_def)
    have "card (used p) < card {..<unat (max_leases p)}"
      by (rule psubset_card_mono) (use f in \<open>auto simp: used_def\<close>)
    then have "\<not> unat (max_leases p) \<le> card (dom (array_leases p))" using card by simp
    then show ?thesis
      using none Some install_inv [OF assms(1) f assms(3) fresh assms(4,5)]
        install_leases [OF assms(1) f assms(3) fresh assms(4,5)]
      by (simp add: alloc_good_def alloc_result_def alloc_spec_def)
  qed
qed

lemma alloc_computes:
  assumes "array_wf p" and "6 \<le> length mac" and "scan_inv p ip (mac_key mac) i mm im fs"
  shows "(case mm of
       Some i \<Rightarrow> do {
         l \<leftarrow> rd (leases p) i;
         if ip_address l \<noteq> ip then Some (p, False)
         else do {
           ls \<leftarrow> wr (leases p) i (l\<lparr>expire_time := e\<rparr>);
           Some (p\<lparr>leases := ls\<rparr>, True)
         }
       }
     | None \<Rightarrow>
         if im \<noteq> None then Some (p, False)
         else (case fs of
             None \<Rightarrow> Some (p, False)
           | Some f \<Rightarrow> do {
               l \<leftarrow> rd (leases p) f;
               m \<leftarrow> kmemcpy (mac_address l) 0 mac 6;
               ls \<leftarrow> wr (leases p) f (l\<lparr>ip_address := ip, mac_address := m,
                        expire_time := e, in_use := 1\<rparr>);
               Some (p\<lparr>leases := ls, lease_count := lease_count p + 1\<rparr>, True)
             })) = Some (alloc_result p ip (mac_key mac) e mm im fs)"
proof -
  have "j < length (leases p)" if "mm = Some j" for j
    using assms(1,3) that used_bound by (auto simp: scan_inv_def)
  moreover have f: "f < length (leases p)" if "fs = Some f" for f
    using assms(1,3) that by (auto simp: scan_inv_def array_wf_def)
  moreover have "kmemcpy (mac_address (leases p ! f)) 0 mac 6 = Some (mac_key mac)" if "fs = Some f" for f
    using wf_mac_length [OF assms(1) f [OF that]] assms(2) by (simp add: access_simps)
  ultimately show ?thesis
    by (simp add: alloc_result_def access_simps renew_def install_def split: option.split)
qed

lemma array_alloc_ok:
  assumes "array_inv lo hi p" and "6 \<le> length mac" and "lo \<le> ip" and "ip \<le> hi"
  shows "\<exists>p' ok L. dhcp_arraypool_alloc_lease p ip mac lt t = Some (p', ok) \<and> array_inv lo hi p' \<and>
    max_leases p' = max_leases p \<and> cleaned t (unat (max_leases p)) (array_leases p) L \<and>
    (array_leases p', ok) = alloc_spec (unat (max_leases p)) L ip (mac_key mac) (t + lt)"
proof -
  obtain p1 where p1: "(if lease_count p \<ge> max_leases p
      then dhcp_arraypool_cleanup_expire_lease p t else Some p) = Some p1"
    "array_inv lo hi p1" "max_leases p1 = max_leases p"
    "cleaned t (unat (max_leases p)) (array_leases p) (array_leases p1)"
    using array_cleanup_if_full [OF assms(1)] by blast
  have wf: "array_wf p1" using p1(2) by (simp add: array_inv_def)
  have "scan_inv p1 ip (mac_key mac) 0 None None None" by (simp add: scan_inv_def)
  from alloc_scan_ok [OF wf assms(2) refl this] obtain mm im fs i where
    scan: "alloc_scan (leases p1) ip mac (unat (max_leases p1)) 0 None None None = Some (mm, im, fs)"
    and inv: "scan_inv p1 ip (mac_key mac) i mm im fs" and i: "mm = None \<and> im = None \<longrightarrow> i = unat (max_leases p1)"
    by auto
  let ?r = "alloc_result p1 ip (mac_key mac) (t + lt) mm im fs"
  have "alloc_good lo hi p1 ip (mac_key mac) (t + lt) ?r"
    using inv i alloc_known_client [OF p1(2)] alloc_taken_address [OF p1(2)]
      alloc_new_client [OF p1(2) _ _ assms(3,4)] assms(2)
    by (cases mm; cases im) auto
  moreover have "dhcp_arraypool_alloc_lease p ip mac lt t = Some ?r"
    unfolding dhcp_arraypool_alloc_lease_def p1(1) Option.bind.simps scan prod.case
    by (rule alloc_computes [OF wf assms(2) inv])
  ultimately show ?thesis using p1 unfolding alloc_good_def by (metis prod.collapse)
qed

lemma array_decline_lease_ok:
  assumes "array_inv lo hi p" and "6 \<le> length mac"
  shows "\<exists>p'. dhcp_arraypool_decline_lease p mac = Some p' \<and> array_inv lo hi p' \<and>
    max_leases p' = max_leases p \<and> array_leases p' = (array_leases p)(mac_key mac := None)"
proof (cases rule: find_lease_cases [OF assms])
  case 1
  then show ?thesis using assms(1)
    by (auto simp: dhcp_arraypool_decline_lease_def fun_upd_idem)
next
  case (2 i)
  have "i < length (leases p)" using assms(1) 2(2) used_bound by (auto simp: array_inv_def)
  then have "dhcp_arraypool_decline_lease p mac = Some (release p i)"
    using 2 by (simp add: dhcp_arraypool_decline_lease_def access_simps release_def)
  then show ?thesis using release_inv [OF assms(1) 2(2)] release_leases [OF assms(1) 2(2)] 2(3) by simp
qed

section \<open>Initialisation\<close>

lemma clear_in_use_ok:
  assumes "n \<le> length ls" and "i \<le> n"
  shows "clear_in_use ls n i =
    Some (take i ls @ map (in_use_update (\<lambda>_. 0)) (take (n - i) (drop i ls)) @ drop n ls)"
  using assms
proof (induction "n - i" arbitrary: i ls)
  case 0
  then show ?case by (subst clear_in_use.simps) simp
next
  case (Suc k)
  then have lt: "i < n" "k = n - Suc i" "i < length ls" by auto
  let ?ls = "ls[i := (ls ! i)\<lparr>in_use := 0\<rparr>]"
  have "clear_in_use ls n i = clear_in_use ?ls n (Suc i)"
    using lt by (subst clear_in_use.simps) (simp add: access_simps)
  also have "\<dots> = Some (take (Suc i) ?ls @ map (in_use_update (\<lambda>_. 0)) (take (n - Suc i) (drop (Suc i) ?ls)) @ drop n ?ls)"
    using Suc.hyps(1) [of "Suc i" ?ls] lt Suc.prems by simp
  also have "take (Suc i) ?ls = take i ls @ [(ls ! i)\<lparr>in_use := 0\<rparr>]"
    using lt by (simp add: take_Suc_conv_app_nth)
  also have "take (n - i) (drop i ls) = ls ! i # take (n - Suc i) (drop (Suc i) ls)"
    using lt by (simp add: Cons_nth_drop_Suc [symmetric] take_Cons' )
  ultimately show ?case using lt by simp
qed


lemma arraypool_init_ok:
  assumes "unat maxl \<le> length ls" and "\<forall>l \<in> set ls. length (mac_address l) = 6" and "lo \<le> hi"
  shows "\<exists>p. dhcp_arraypool_init lo (Some ls) maxl = Some p \<and> array_inv lo hi p \<and>
    array_leases p = Map.empty \<and> max_leases p = maxl"
proof -
  let ?ls = "map (in_use_update (\<lambda>_. 0)) (take (unat maxl) ls) @ drop (unat maxl) ls"
  let ?p = "\<lparr>leases = ?ls, max_leases = maxl, lease_count = 0, next_ip = lo\<rparr>"
  have init: "dhcp_arraypool_init lo (Some ls) maxl = Some ?p"
    using clear_in_use_ok [OF assms(1), of 0] by (simp add: dhcp_arraypool_init_def)
  have used: "used ?p = {}" using assms(1) by (auto simp: used_def nth_append)
  have "length (mac_address (?ls ! i)) = 6" if "i < length ls" for i
    using that assms(1,2) by (auto simp: nth_append)
  then have "array_inv lo hi ?p"
    using used assms by (simp add: array_inv_def array_wf_def)
  moreover have "array_leases ?p = Map.empty"
    using used array_leases_None_iff by (simp add: fun_eq_iff)
  ultimately show ?thesis using init by auto
qed

section \<open>The contract\<close>

abbreviation array_server_inv :: "array_server \<Rightarrow> bool" where
  "array_server_inv \<equiv> pool_server_inv array_inv"

interpretation arr: lease_pool array_inv dhcp_arraypool_find_available_ip dhcp_arraypool_alloc_lease
  dhcp_arraypool_decline_lease array_leases "\<lambda>p. unat (max_leases p)"
proof unfold_locales
  fix lo hi p k1 k2 ip e1 e2
  assume inv: "array_inv lo hi p"
  note iff = array_leases_Some_iff [OF inv]
  show "array_leases p k1 = Some (ip, e1) \<Longrightarrow> array_leases p k2 = Some (ip, e2) \<Longrightarrow> k1 = k2"
    using inv unfolding iff by (auto simp: array_inv_def dest: inj_onD)
  show "array_leases p k1 = Some (ip, e1) \<Longrightarrow> lo \<le> ip \<and> ip \<le> hi"
    using inv unfolding iff by (auto simp: array_inv_def)
  show "finite (dom (array_leases p)) \<and> card (dom (array_leases p)) \<le> unat (max_leases p)"
    using card_dom_array_leases [OF inv] inv card_used_le [of p] by (auto simp: dom_array_leases array_inv_def)
next
  show "array_inv lo hi p \<Longrightarrow> 0 < lo \<Longrightarrow> 6 \<le> length mac \<Longrightarrow>
    \<exists>p' ip. dhcp_arraypool_find_available_ip p lo hi mac t = Some (p', ip) \<and> array_inv lo hi p' \<and>
      unat (max_leases p') = unat (max_leases p) \<and> cleaned t (unat (max_leases p)) (array_leases p) (array_leases p') \<and>
      offer_spec (unat (max_leases p)) lo hi (array_leases p') (mac_key mac) ip" for lo hi p mac t
    using array_find_available_ok by metis
  show "array_inv lo hi p \<Longrightarrow> 6 \<le> length mac \<Longrightarrow> lo \<le> ip \<Longrightarrow> ip \<le> hi \<Longrightarrow>
    \<exists>p' ok L. dhcp_arraypool_alloc_lease p ip mac lt t = Some (p', ok) \<and> array_inv lo hi p' \<and>
      unat (max_leases p') = unat (max_leases p) \<and> cleaned t (unat (max_leases p)) (array_leases p) L \<and>
      (array_leases p', ok) = alloc_spec (unat (max_leases p)) L ip (mac_key mac) (t + lt)" for lo hi p mac ip lt t
    using array_alloc_ok by metis
  show "array_inv lo hi p \<Longrightarrow> 6 \<le> length mac \<Longrightarrow>
    \<exists>p'. dhcp_arraypool_decline_lease p mac = Some p' \<and> array_inv lo hi p' \<and>
      unat (max_leases p') = unat (max_leases p) \<and> array_leases p' = (array_leases p)(mac_key mac := None)" for lo hi p mac
    using array_decline_lease_ok by metis
qed

end
