(* ===== verification/Samples.thy ===== *)
theory Samples
  imports Dhcp_Serve
begin

text \<open>
  Concrete messages and a concrete configuration, at which the hypotheses of the theorems are
  shown to hold: the pool of two addresses 10.0.0.10 and 10.0.0.11, clients that differ in the
  last byte of their hardware address, and requests built from a list of items.
\<close>

definition sample_config :: dhcp_config_t where
  "sample_config = \<lparr>server_ip = 0x0A000001, subnet_mask = 0xFFFFFF00, gateway_ip = 0x0A000001,
     dns_ip = 0x08080808, pool_start = 0x0A00000A, pool_end = 0x0A00000B, lease_time = 3600\<rparr>"

lemma sample_config_sel [simp]:
  "server_ip sample_config = 0x0A000001" "pool_start sample_config = 0x0A00000A"
  "pool_end sample_config = 0x0A00000B" "lease_time sample_config = 3600"
  by (simp_all add: sample_config_def)

definition sample_chaddr :: "u8 \<Rightarrow> u8 list" where
  "sample_chaddr n = [2, 0, 0, 0, 0, n] @ replicate 10 0"

lemma sample_chaddr_simps [simp]:
  "length (sample_chaddr n) = 16" "take 6 (sample_chaddr n) = [2, 0, 0, 0, 0, n]"
  by (simp_all add: sample_chaddr_def)

definition sample_request :: "u8 \<Rightarrow> dhcp_item list \<Rightarrow> dhcp_message_t" where
  "sample_request n is = zero_message\<lparr>op := 1, htype := 1, hlen := 6, xid := 77,
     chaddr := sample_chaddr n,
     options := encode_items is @ DHCP_OPT_END # replicate (OPTIONS_LEN - 1 - length (encode_items is)) 0\<rparr>"

lemma sample_request_chaddr [simp]: "chaddr (sample_request n is) = sample_chaddr n"
  by (simp add: sample_request_def)

lemma sample_request_wf:
  assumes "list_all item_ok is" and "length (encode_items is) < OPTIONS_LEN"
  shows "wf_request (sample_request n is) is"
  using assms by (auto simp: wf_request_def sample_request_def intro!: representsI)

definition discover_items :: "dhcp_item list" where
  "discover_items = [Opt DHCP_OPT_MESSAGE_TYPE [DHCP_DISCOVER]]"

definition request_items :: "u32 \<Rightarrow> dhcp_item list" where
  "request_items ip = [Opt DHCP_OPT_MESSAGE_TYPE [DHCP_REQUEST], Opt DHCP_OPT_REQUESTED_IP (be_bytes ip)]"

lemma sample_items_wf [simp]:
  "wf_request (sample_request n discover_items) discover_items"
  "wf_request (sample_request n (request_items ip)) (request_items ip)"
  by (rule sample_request_wf; simp add: discover_items_def request_items_def OPTIONS_LEN_def)+

lemma sample_items_ex [simp]:
  "Ex (wf_request (sample_request n discover_items))"
  "Ex (wf_request (sample_request n (request_items ip)))"
  using sample_items_wf by blast+

lemma sample_items_lookup [simp]:
  "item_lookup discover_items DHCP_OPT_MESSAGE_TYPE = Some [DHCP_DISCOVER]"
  "item_lookup (request_items ip) DHCP_OPT_MESSAGE_TYPE = Some [DHCP_REQUEST]"
  "item_lookup (request_items ip) DHCP_OPT_REQUESTED_IP = Some (be_bytes ip)"
  by (simp_all add: discover_items_def request_items_def opt_code_defs)

end
