(* ===== verification/Array_Server.thy ===== *)
theory Array_Server
  imports Array_Pool_Correct Samples
begin

text \<open>
  What the server promises with the ARRAY backend, as statements about
  \<open>dhcp_process_message_array\<close> itself.  Each is a lemma of the contract \<open>lease_server\<close> at the
  interpretation \<open>arr\<close> of \<open>lease_pool\<close>.
\<close>

section \<open>Sample states\<close>

definition blank_lease :: dhcp_lease_t where
  "blank_lease = \<lparr>ip_address = 0, mac_address = replicate 6 0, expire_time = 0, in_use = 0\<rparr>"

definition sample_array :: array_server where
  "sample_array = \<lparr>config = sample_config, pool = \<lparr>leases =
     [\<lparr>ip_address = 0x0A00000A, mac_address = [2, 0, 0, 0, 0, 1], expire_time = 3600, in_use = 1\<rparr>, blank_lease],
     max_leases = 2, lease_count = 1, next_ip = 0x0A00000B\<rparr>\<rparr>"

lemma used_sample_array: "used (pool sample_array) = {0}"
  by (auto simp: used_def sample_array_def blank_lease_def less_2_cases_iff)

lemma sample_array_inv [simp]: "array_server_inv sample_array"
proof -
  have "array_wf (pool sample_array)"
    by (auto simp: array_wf_def sample_array_def blank_lease_def less_Suc_eq)
  then show ?thesis
    using used_sample_array
    by (simp add: pool_server_inv_def array_inv_def) (simp add: sample_array_def)
qed

lemma sample_array_sel [simp]: "config sample_array = sample_config"
  by (simp add: sample_array_def)

lemma sample_array_lease: "array_leases (pool sample_array) [2, 0, 0, 0, 0, 1] = Some (0x0A00000A, 3600)"
  by code_simp

section \<open>Properties\<close>

text \<open>
  C5. Memory safety and functional correctness of one request.  On a request whose option field
  is well formed, \<open>dhcp_process_message_array\<close> returns (no access leaves an array), keeps the
  invariant of the lease table, and sends exactly the message that the item-level specification
  \<open>outcome\<close> decides; an address that is offered or acknowledged is one of the configured pool.
\<close>

theorem array_server_refines:
  assumes "array_server_inv s" and "wf_request request is"
  shows "\<exists>s' m r. dhcp_process_message_array s request response t = Some (s', m) \<and> array_server_inv s' \<and>
    outcome array_offer array_commit array_decline s is (chaddr request) t = Some (s', r) \<and>
    realises request (config s') response r m \<and>
    (\<forall>ip. r = Offer ip \<or> r = Ack ip \<longrightarrow> pool_start (config s') \<le> ip \<and> ip \<le> pool_end (config s'))"
  unfolding process_array_is_serve by (rule arr.srv.serve_ok [OF assms])

theorem array_server_refines_witness:
  "\<exists>s' m r. dhcp_process_message_array sample_array (sample_request 2 discover_items) zero_message 5 = Some (s', m) \<and>
    array_server_inv s' \<and>
    outcome array_offer array_commit array_decline sample_array discover_items (sample_chaddr 2) 5 = Some (s', r) \<and>
    realises (sample_request 2 discover_items) (config s') zero_message r m"
  using array_server_refines [OF sample_array_inv sample_items_wf(1), of 2 zero_message 5] by auto

text \<open>
  C6. No address is leased twice.  From the state that \<open>dhcp_init_server_array\<close> builds on any
  array of leases, every sequence of well-formed requests is answered, and afterwards no two
  clients hold the same address and at most \<open>max_leases\<close> clients hold one.
\<close>

theorem array_run_unique:
  assumes "unat maxl \<le> length ls" and "\<forall>l \<in> set ls. length (mac_address l) = 6"
    and "0 < pool_start c" and "pool_start c \<le> pool_end c"
    and "\<forall>(request, t) \<in> set rs. \<exists>is. wf_request request is"
  shows "\<exists>s0 s ms. dhcp_init_server_array c (Some ls) maxl = Some s0 \<and>
    serve_run dhcp_process_message_array s0 rs = Some (s, ms) \<and> length ms = length rs \<and>
    (\<forall>k1 k2 ip e1 e2. array_leases (pool s) k1 = Some (ip, e1) \<and> array_leases (pool s) k2 = Some (ip, e2) \<longrightarrow> k1 = k2) \<and>
    card (dom (array_leases (pool s))) \<le> unat (max_leases (pool s))"
proof -
  obtain p where p: "dhcp_arraypool_init (pool_start c) (Some ls) maxl = Some p" "array_inv (pool_start c) (pool_end c) p"
    using arraypool_init_ok [OF assms(1,2,4)] by blast
  then have init: "dhcp_init_server_array c (Some ls) maxl = Some \<lparr>config = c, pool = p\<rparr>"
    and inv: "array_server_inv \<lparr>config = c, pool = p\<rparr>"
    using assms(3) by (simp_all add: dhcp_init_server_array_def pool_server_inv_def)
  obtain s ms where "serve_run dhcp_process_message_array \<lparr>config = c, pool = p\<rparr> rs = Some (s, ms)"
    "array_server_inv s" "length ms = length rs"
    using arr.srv.serve_run_ok [OF inv assms(5)] unfolding process_array_is_serve by blast
  with init arr.srv.unique_ip [of s] arr.srv.finite_leases [of s] show ?thesis by blast
qed

theorem array_run_unique_witness:
  "\<exists>s0 s ms. dhcp_init_server_array sample_config (Some [blank_lease, blank_lease]) 2 = Some s0 \<and>
    serve_run dhcp_process_message_array s0
      [(sample_request 1 discover_items, 0), (sample_request 1 (request_items 0x0A00000A), 1)] = Some (s, ms) \<and>
    length ms = 2"
proof -
  let ?rs = "[(sample_request 1 discover_items, 0), (sample_request 1 (request_items 0x0A00000A), 1)]"
  obtain s0 s ms where "dhcp_init_server_array sample_config (Some [blank_lease, blank_lease]) 2 = Some s0"
    "serve_run dhcp_process_message_array s0 ?rs = Some (s, ms)" "length ms = length ?rs"
    using array_run_unique [of 2 "[blank_lease, blank_lease]" sample_config ?rs] by (auto simp: blank_lease_def)
  then show ?thesis by auto
qed

text \<open>
  The DORA exchange succeeds.  If a DISCOVER is answered by an OFFER, the REQUEST of the same
  client for the offered address is answered by an ACK for it, at any later time, and the lease
  is recorded with the configured lease time.
\<close>

theorem array_handshake:
  assumes "array_server_inv s" and "wf_request rq1 is1" and "wf_request rq2 is2"
    and "item_lookup is1 DHCP_OPT_MESSAGE_TYPE = Some [DHCP_DISCOVER]"
    and "dhcp_process_message_array s rq1 zero_message t1 = Some (s1, m1)"
    and "dhcp_get_message_type m1 = Some DHCP_OFFER"
    and "item_lookup is2 DHCP_OPT_MESSAGE_TYPE = Some [DHCP_REQUEST]"
    and "item_lookup is2 DHCP_OPT_REQUESTED_IP = Some (be_bytes (yiaddr m1))" and "chaddr rq2 = chaddr rq1"
  shows "\<exists>s2 m2. dhcp_process_message_array s1 rq2 zero_message t2 = Some (s2, m2) \<and>
    dhcp_get_message_type m2 = Some DHCP_ACK \<and> yiaddr m2 = yiaddr m1 \<and>
    array_leases (pool s2) (mac_key (chaddr rq1)) = Some (yiaddr m1, t2 + lease_time (config s))"
  using arr.srv.handshake_messages [OF assms(1-4) _ assms(6-9)] assms(5) unfolding process_array_is_serve by blast

text \<open>
  What a reply says about the leases.  An OFFER never names an address that another client
  holds, and an ACK is sent only when the lease of the client is recorded for that address.
\<close>

theorem array_reply_leases:
  assumes "array_server_inv s" and "wf_request request is"
    and "dhcp_process_message_array s request response t = Some (s', m)"
  shows "\<exists>r. outcome array_offer array_commit array_decline s is (chaddr request) t = Some (s', r) \<and>
    realises request (config s) response r m \<and>
    (\<forall>ip. r = Offer ip \<longrightarrow> (\<forall>k e. array_leases (pool s') k = Some (ip, e) \<longrightarrow> k = mac_key (chaddr request))) \<and>
    (\<forall>ip. r = Ack ip \<longrightarrow>
       array_leases (pool s') (mac_key (chaddr request)) = Some (ip, t + lease_time (config s)))"
  using arr.srv.serve_leases [OF assms(1,2), of response t s' m] assms(3) unfolding process_array_is_serve by blast

text \<open>
  C12. A lease is kept until it expires.  Whatever requests other clients send before the expiry
  time of a lease, in any order, the server still has the lease afterwards.
\<close>

theorem array_lease_kept:
  assumes "array_server_inv s" and "array_leases (pool s) k = Some (ip, e)"
    and "\<forall>(request, t) \<in> set rs. (\<exists>is. wf_request request is) \<and> mac_key (chaddr request) \<noteq> k \<and> t < e"
  shows "\<exists>s' ms. serve_run dhcp_process_message_array s rs = Some (s', ms) \<and>
    array_leases (pool s') k = Some (ip, e)"
proof -
  have "\<forall>(request, t) \<in> set rs. \<exists>is. wf_request request is" using assms(3) by auto
  then obtain s' ms where "serve_run dhcp_process_message_array s rs = Some (s', ms)"
    using arr.srv.serve_run_ok [OF assms(1)] unfolding process_array_is_serve by blast
  with arr.srv.serve_run_keeps_lease [OF assms(1,3,2)] show ?thesis
    unfolding process_array_is_serve by blast
qed

theorem array_lease_kept_witness:
  "\<exists>s' ms. serve_run dhcp_process_message_array sample_array
      [(sample_request 2 discover_items, 5), (sample_request 2 (request_items 0x0A00000A), 6)] = Some (s', ms) \<and>
    array_leases (pool s') [2, 0, 0, 0, 0, 1] = Some (0x0A00000A, 3600)"
  by (rule array_lease_kept [OF sample_array_inv sample_array_lease]) auto

end
