(* ===== verification/Hash_Table.thy ===== *)
theory Hash_Table
  imports Prelude
begin

text \<open>
  The open-addressing hash table of \<open>ds-lib/hash.h\<close> and \<open>ds-lib/hash.c\<close>.  The macro
  \<open>DEFINE_HASH_IMPL (SUFFIX, ELEM_MAX)\<close> is modelled once, with \<open>ELEM_MAX\<close> as the argument \<open>n\<close>; its two
  expansions are the definitions with the suffixes \<open>mac\<close> and \<open>ip\<close> at the end.

  A pointer to a bucket is the index of the bucket.  The table calls its hash and comparison
  functions through the function pointers it stores, with the stored \<open>aux\<close> pointer; here they are
  option-valued functions, \<^const>\<open>None\<close> standing for a call that reads outside an element.
  The probe loops are partial functions in the option monad: \<^const>\<open>None\<close> is an access outside the
  arrays, a remainder by a capacity of zero, or a loop that does not end.  Indices stay below the
  capacity, so \<open>h_idx + 1\<close> cannot wrap and they are natural numbers; \<open>elem_cnt\<close> keeps its width.
\<close>

section \<open>Data\<close>

record hash_elem =
  elem :: "u8 list"
  elem_size :: u32

type_synonym aux_ptr = u64

record hash_tab =
  buckets :: "hash_elem list"
  occupied :: "u8 list"
  elem_cnt :: u32
  capacity :: u32
  hash :: "hash_elem \<Rightarrow> aux_ptr \<Rightarrow> u32 option"
  comp :: "hash_elem \<Rightarrow> hash_elem \<Rightarrow> aux_ptr \<Rightarrow> int option"
  aux :: aux_ptr

section \<open>Operations\<close>

text \<open>The loop that copies \<open>ELEM_MAX\<close> bytes, with the assignment of the size.\<close>

definition replace_elem :: "nat \<Rightarrow> hash_elem \<Rightarrow> hash_elem \<Rightarrow> hash_elem option" where
  "replace_elem n old new = do {
     bs \<leftarrow> kmemcpy (elem old) 0 (elem new) n;
     Some (old\<lparr>elem_size := elem_size new, elem := bs\<rparr>)
   }"

definition insert_elem :: "nat \<Rightarrow> hash_tab \<Rightarrow> nat \<Rightarrow> hash_elem \<Rightarrow> hash_tab option" where
  "insert_elem n h idx new = do {
     occ \<leftarrow> wr (occupied h) idx 1;
     old \<leftarrow> rd (buckets h) idx;
     b \<leftarrow> replace_elem n old new;
     bs \<leftarrow> wr (buckets h) idx b;
     Some (h\<lparr>occupied := occ, buckets := bs\<rparr>)
   }"

definition clear_elem :: "nat \<Rightarrow> hash_tab \<Rightarrow> nat \<Rightarrow> hash_tab option" where
  "clear_elem n h idx = do {
     occ \<leftarrow> wr (occupied h) idx 0;
     old \<leftarrow> rd (buckets h) idx;
     z \<leftarrow> kmemset (elem old) 0 0 n;
     bs \<leftarrow> wr (buckets h) idx (old\<lparr>elem_size := 0, elem := z\<rparr>);
     Some (h\<lparr>occupied := occ, buckets := bs\<rparr>)
   }"

text \<open>The loop of \<open>hash_clear\<close>; the last argument is the index.\<close>

function clear_from :: "nat \<Rightarrow> hash_tab \<Rightarrow> nat \<Rightarrow> hash_tab option" where
  "clear_from n h i =
     (if i < unat (capacity h) then do {
        h' \<leftarrow> clear_elem n h i;
        clear_from n h' (i + 1)
      }
      else Some h)"
  by pat_completeness auto
termination
  by (relation "measure (\<lambda>(n, h, i). unat (capacity h) - i)")
     (auto simp: clear_elem_def bind_eq_Some_iff)

declare clear_from.simps [simp del]

definition hash_clear :: "nat \<Rightarrow> hash_tab \<Rightarrow> hash_tab option" where
  "hash_clear n h = do {
     h \<leftarrow> clear_from n h 0;
     Some (h\<lparr>elem_cnt := 0\<rparr>)
   }"

text \<open>\<open>hash_init\<close>; \<open>N\<close> is the constant \<open>HASH_N\<close> of the translation unit.\<close>

definition hash_init :: "nat \<Rightarrow> u32 \<Rightarrow> hash_tab \<Rightarrow> (hash_elem \<Rightarrow> aux_ptr \<Rightarrow> u32 option) \<Rightarrow>
    (hash_elem \<Rightarrow> hash_elem \<Rightarrow> aux_ptr \<Rightarrow> int option) \<Rightarrow> aux_ptr \<Rightarrow> (hash_tab \<times> bool) option" where
  "hash_init n N h hf cf ax = do {
     h \<leftarrow> hash_clear n (h\<lparr>capacity := N, hash := hf, comp := cf, aux := ax\<rparr>);
     Some (h, elem_cnt h = 0)
   }"

text \<open>\<open>h->hash (e, h->aux) % h->capacity\<close>.\<close>

definition hash_slot :: "hash_tab \<Rightarrow> hash_elem \<Rightarrow> nat option" where
  "hash_slot h e = do {
     v \<leftarrow> hash h e (aux h);
     if capacity h = 0 then None else Some (unat (v mod capacity h))
   }"

definition next_slot :: "hash_tab \<Rightarrow> nat \<Rightarrow> nat" where
  "next_slot h i = (i + 1) mod unat (capacity h)"

text \<open>The search loop of \<open>hash_find\<close> and \<open>hash_delete\<close>, from \<open>h_idx = i\<close>.\<close>

partial_function (option) find_probe :: "hash_tab \<Rightarrow> hash_elem \<Rightarrow> nat \<Rightarrow> nat \<Rightarrow> nat option option" where
  "find_probe h e start_idx i = do {
     occ \<leftarrow> rd (occupied h) i;
     if occ \<noteq> 0 then do {
       b \<leftarrow> rd (buckets h) i;
       d \<leftarrow> comp h b e (aux h);
       if d = 0 then Some (Some i)
       else if start_idx = next_slot h i then Some None
       else find_probe h e start_idx (next_slot h i)
     }
     else Some None
   }"

definition hash_find :: "hash_tab \<Rightarrow> hash_elem \<Rightarrow> nat option option" where
  "hash_find h e = do {
     h_idx \<leftarrow> hash_slot h e;
     find_probe h e h_idx h_idx
   }"

text \<open>The loop of \<open>hash_insert\<close> and what follows it.\<close>

partial_function (option) insert_probe :: "nat \<Rightarrow> hash_tab \<Rightarrow> hash_elem \<Rightarrow> nat \<Rightarrow> nat \<Rightarrow> (hash_tab \<times> bool) option" where
  "insert_probe n h new orig_idx i = do {
     occ \<leftarrow> rd (occupied h) i;
     if occ \<noteq> 0 then do {
       b \<leftarrow> rd (buckets h) i;
       d \<leftarrow> comp h b new (aux h);
       if d = 0 then do {
         b' \<leftarrow> replace_elem n b new;
         bs \<leftarrow> wr (buckets h) i b';
         Some (h\<lparr>buckets := bs\<rparr>, True)
       }
       else if next_slot h i = orig_idx then Some (h, False)
       else insert_probe n h new orig_idx (next_slot h i)
     }
     else do {
       h \<leftarrow> insert_elem n h i new;
       Some (h\<lparr>elem_cnt := elem_cnt h + 1\<rparr>, True)
     }
   }"

definition hash_insert :: "nat \<Rightarrow> hash_tab \<Rightarrow> hash_elem \<Rightarrow> (hash_tab \<times> bool) option" where
  "hash_insert n h new =
     (if capacity h = elem_cnt h then Some (h, False)
      else do {
        h_idx \<leftarrow> hash_slot h new;
        insert_probe n h new h_idx h_idx
      })"

definition hash_replace :: "nat \<Rightarrow> hash_tab \<Rightarrow> hash_elem \<Rightarrow> (hash_tab \<times> bool) option" where
  "hash_replace n h new = do {
     old_elem \<leftarrow> hash_find h new;
     case old_elem of
       None \<Rightarrow> Some (h, False)
     | Some i \<Rightarrow> do {
         b \<leftarrow> rd (buckets h) i;
         b' \<leftarrow> replace_elem n b new;
         bs \<leftarrow> wr (buckets h) i b';
         Some (h\<lparr>buckets := bs\<rparr>, True)
       }
   }"

text \<open>The inner loop of the repair in \<open>hash_delete\<close>: the first free slot before \<open>next_idx\<close>.\<close>

partial_function (option) movable_probe :: "hash_tab \<Rightarrow> nat \<Rightarrow> nat \<Rightarrow> nat option" where
  "movable_probe h next_idx movable_idx =
     (if movable_idx \<noteq> next_idx then do {
        occ \<leftarrow> rd (occupied h) movable_idx;
        if occ = 0 then Some movable_idx
        else movable_probe h next_idx (next_slot h movable_idx)
      }
      else Some movable_idx)"

text \<open>One iteration of the repair loop, on the element at \<open>next_idx\<close>.\<close>

definition repair_step :: "nat \<Rightarrow> hash_tab \<Rightarrow> nat \<Rightarrow> hash_tab option" where
  "repair_step n h next_idx = do {
     b \<leftarrow> rd (buckets h) next_idx;
     expected_idx \<leftarrow> hash_slot h b;
     if expected_idx \<noteq> next_idx then do {
       movable_idx \<leftarrow> movable_probe h next_idx expected_idx;
       if movable_idx \<noteq> next_idx then do {
         h \<leftarrow> insert_elem n h movable_idx b;
         clear_elem n h next_idx
       }
       else Some h
     }
     else Some h
   }"

partial_function (option) repair_from :: "nat \<Rightarrow> hash_tab \<Rightarrow> nat \<Rightarrow> nat \<Rightarrow> hash_tab option" where
  "repair_from n h start_idx next_idx = do {
     occ \<leftarrow> rd (occupied h) next_idx;
     if occ \<noteq> 0 then do {
       h \<leftarrow> repair_step n h next_idx;
       if next_slot h next_idx = start_idx then Some h
       else repair_from n h start_idx (next_slot h next_idx)
     }
     else Some h
   }"

definition hash_delete :: "nat \<Rightarrow> hash_tab \<Rightarrow> hash_elem \<Rightarrow> (hash_tab \<times> bool) option" where
  "hash_delete n h e = do {
     start_idx \<leftarrow> hash_slot h e;
     found \<leftarrow> find_probe h e start_idx start_idx;
     case found of
       None \<Rightarrow> Some (h, False)
     | Some h_idx \<Rightarrow> do {
         h \<leftarrow> clear_elem n h h_idx;
         h \<leftarrow> repair_from n (h\<lparr>elem_cnt := elem_cnt h - 1\<rparr>) h_idx (next_slot h h_idx);
         Some (h, True)
       }
   }"

definition hash_size :: "hash_tab \<Rightarrow> u32" where
  "hash_size h = elem_cnt h"

definition hash_empty :: "hash_tab \<Rightarrow> bool" where
  "hash_empty h \<longleftrightarrow> elem_cnt h = 0"

section \<open>The two expansions\<close>

definition HASH_N :: nat where "HASH_N = 2048"
definition HASH_ELEM_MAX :: nat where "HASH_ELEM_MAX = 14"
definition HASH_ELEM_IP_SIZE :: nat where "HASH_ELEM_IP_SIZE = 4"

definition hash_init_mac where "hash_init_mac = hash_init HASH_ELEM_MAX (of_nat HASH_N)"
definition hash_find_mac where "hash_find_mac = hash_find"
definition hash_insert_mac where "hash_insert_mac = hash_insert HASH_ELEM_MAX"
definition hash_delete_mac where "hash_delete_mac = hash_delete HASH_ELEM_MAX"
definition hash_size_mac where "hash_size_mac = hash_size"

definition hash_init_ip where "hash_init_ip = hash_init HASH_ELEM_IP_SIZE (of_nat HASH_N)"
definition hash_find_ip where "hash_find_ip = hash_find"
definition hash_insert_ip where "hash_insert_ip = hash_insert HASH_ELEM_IP_SIZE"
definition hash_delete_ip where "hash_delete_ip = hash_delete HASH_ELEM_IP_SIZE"

lemmas hash_mac_defs = hash_init_mac_def hash_find_mac_def hash_insert_mac_def hash_delete_mac_def hash_size_mac_def
lemmas hash_ip_defs = hash_init_ip_def hash_find_ip_def hash_insert_ip_def hash_delete_ip_def

end
