(* ===== verification/Hash_Pool.thy ===== *)
theory Hash_Pool
  imports Lease_Pool Hash_Table
begin

text \<open>
  The HASHMAP backend: \<open>dhcp-lib/dhcp_hashmap.h\<close>, \<open>dhcp-lib/dhcp_hashmap.c\<close> and the entry points
  \<open>dhcp_init_server_hashmap\<close>, \<open>dhcp_process_message_hashmap\<close> of \<open>dhcp-lib/dhcp_server.c\<close>.

  A lease is the packed structure \<open>dhcp_hash_elem\<close> laid over the 14 bytes of a table element: six
  bytes of hardware address, then the address and the expiry time, both in the byte order of
  the target, which is little-endian.  A pointer to such a lease is the index of its bucket.  The
  bytes of a search key beyond the hardware address are not initialised in C; they are zero here,
  and the comparison and the hash function do not read them.
\<close>

section \<open>Words in memory\<close>

definition le_bytes :: "u32 \<Rightarrow> u8 list" where
  "le_bytes w = [ucast w, ucast (drop_bit 8 w), ucast (drop_bit 16 w), ucast (drop_bit 24 w)]"

fun le_word :: "u8 list \<Rightarrow> u32" where
  "le_word [a, b, c, d] = ucast a OR push_bit 8 (ucast b) OR push_bit 16 (ucast c) OR push_bit 24 (ucast d)"
| "le_word _ = 0"

lemma length_le_bytes [simp]: "length (le_bytes w) = 4"
  by (simp add: le_bytes_def)

lemma le_word_le_bytes [simp]: "le_word (le_bytes w) = w"
proof (rule bit_word_eqI)
  fix n assume "n < LENGTH(32)"
  then consider "n < 8" | "8 \<le> n" "n < 16" | "16 \<le> n" "n < 24" | "24 \<le> n" "n < 32"
    by fastforce
  then show "bit (le_word (le_bytes w)) n = bit w n"
    by cases (auto simp: le_bytes_def bit_simps)
qed

lemma le_bytes_inject [simp]: "le_bytes v = le_bytes w \<longleftrightarrow> v = w"
  by (metis le_word_le_bytes)

section \<open>Data\<close>

record dhcp_hashpool_t =
  leases :: hash_tab
  ip_set :: hash_tab
  next_ip :: u32
  max_leases :: u16

text \<open>The fields of \<open>dhcp_hash_elem\<close>.\<close>

definition elem_mac_address :: "hash_elem \<Rightarrow> u8 list option" where
  "elem_mac_address e = rd_bytes (elem e) 0 6"

definition elem_ip_bytes :: "hash_elem \<Rightarrow> u8 list option" where
  "elem_ip_bytes e = rd_bytes (elem e) 6 4"

definition elem_ip_address :: "hash_elem \<Rightarrow> u32 option" where
  "elem_ip_address e = map_option le_word (elem_ip_bytes e)"

definition elem_expire_time :: "hash_elem \<Rightarrow> u32 option" where
  "elem_expire_time e = map_option le_word (rd_bytes (elem e) 10 4)"

section \<open>Hash and comparison\<close>

text \<open>The FNV-1a loop over \<open>k\<close> bytes from index \<open>i\<close>.\<close>

fun fnv_from :: "u8 list \<Rightarrow> u32 \<Rightarrow> nat \<Rightarrow> nat \<Rightarrow> u32 option" where
  "fnv_from bs h i 0 = Some h"
| "fnv_from bs h i (Suc k) = do {
     b \<leftarrow> rd bs i;
     fnv_from bs ((h XOR ucast b) * 16777619) (i + 1) k
   }"

fun comp_from :: "u8 list \<Rightarrow> u8 list \<Rightarrow> nat \<Rightarrow> nat \<Rightarrow> int option" where
  "comp_from as bs i 0 = Some 0"
| "comp_from as bs i (Suc k) = do {
     a \<leftarrow> rd as i;
     b \<leftarrow> rd bs i;
     if a \<noteq> b then Some (uint a - uint b) else comp_from as bs (i + 1) k
   }"

definition dhcp_mac_hash :: "hash_elem \<Rightarrow> aux_ptr \<Rightarrow> u32 option" where
  "dhcp_mac_hash e x = do {
     h \<leftarrow> fnv_from (elem e) 2166136261 0 6;
     Some (h mod of_nat HASH_N)
   }"

definition dhcp_mac_comp :: "hash_elem \<Rightarrow> hash_elem \<Rightarrow> aux_ptr \<Rightarrow> int option" where
  "dhcp_mac_comp a b x = comp_from (elem a) (elem b) 0 6"

definition dhcp_ip_hash :: "hash_elem \<Rightarrow> aux_ptr \<Rightarrow> u32 option" where
  "dhcp_ip_hash e x = do {
     h \<leftarrow> fnv_from (elem e) 2166136261 0 4;
     Some (h mod of_nat HASH_N)
   }"

definition dhcp_ip_comp :: "hash_elem \<Rightarrow> hash_elem \<Rightarrow> aux_ptr \<Rightarrow> int option" where
  "dhcp_ip_comp a b x = comp_from (elem a) (elem b) 0 4"

section \<open>Operations\<close>

definition dhcp_hashpool_init :: "dhcp_hashpool_t \<Rightarrow> u32 \<Rightarrow> u16 \<Rightarrow> dhcp_hashpool_t option" where
  "dhcp_hashpool_init p ps maxl = do {
     (ls, _) \<leftarrow> hash_init_mac (leases p) dhcp_mac_hash dhcp_mac_comp 0;
     (is, _) \<leftarrow> hash_init_ip (ip_set p) dhcp_ip_hash dhcp_ip_comp 0;
     Some (p\<lparr>leases := ls, ip_set := is, next_ip := ps,
       max_leases := (if HASH_N < unat maxl then of_nat HASH_N else maxl)\<rparr>)
   }"

text \<open>The local search keys.\<close>

definition mac_elem :: "u8 list \<Rightarrow> hash_elem option" where
  "mac_elem mac = do {
     bs \<leftarrow> kmemcpy (replicate HASH_ELEM_MAX 0) 0 mac 6;
     Some \<lparr>elem = bs, elem_size = 6\<rparr>
   }"

definition ip_elem :: "u8 list \<Rightarrow> hash_elem option" where
  "ip_elem ip_bytes = do {
     bs \<leftarrow> kmemcpy (replicate HASH_ELEM_IP_SIZE 0) 0 ip_bytes 4;
     Some \<lparr>elem = bs, elem_size = 4\<rparr>
   }"

definition dhcp_hashpool_find_lease :: "dhcp_hashpool_t \<Rightarrow> u8 list \<Rightarrow> nat option option" where
  "dhcp_hashpool_find_lease p mac = do {
     key \<leftarrow> mac_elem mac;
     hash_find_mac (leases p) key
   }"

text \<open>\<open>dhcp_hashpool_cleanup_expire_lease\<close>: collect at most 32 expired leases, then delete them.\<close>

function collect_expired :: "hash_tab \<Rightarrow> u32 \<Rightarrow> nat \<Rightarrow> (u8 list \<times> u8 list) list \<Rightarrow> (u8 list \<times> u8 list) list option" where
  "collect_expired h cur_time i acc =
     (if i < HASH_N \<and> length acc < 32 then do {
        occ \<leftarrow> rd (occupied h) i;
        if occ \<noteq> 0 then do {
          e \<leftarrow> rd (buckets h) i;
          x \<leftarrow> elem_expire_time e;
          if x \<le> cur_time then do {
            m \<leftarrow> elem_mac_address e;
            a \<leftarrow> elem_ip_bytes e;
            collect_expired h cur_time (i + 1) (acc @ [(m, a)])
          }
          else collect_expired h cur_time (i + 1) acc
        }
        else collect_expired h cur_time (i + 1) acc
      }
      else Some acc)"
  by pat_completeness auto
termination
  by (relation "measure (\<lambda>(h, t, i, acc). HASH_N - i)") auto

declare collect_expired.simps [simp del]

fun delete_leases :: "dhcp_hashpool_t \<Rightarrow> (u8 list \<times> u8 list) list \<Rightarrow> dhcp_hashpool_t option" where
  "delete_leases p [] = Some p"
| "delete_leases p ((mac, ip_bytes) # es) = do {
     mac_key \<leftarrow> mac_elem mac;
     (ls, _) \<leftarrow> hash_delete_mac (leases p) mac_key;
     ip_key \<leftarrow> ip_elem ip_bytes;
     (is, _) \<leftarrow> hash_delete_ip (ip_set p) ip_key;
     delete_leases (p\<lparr>leases := ls, ip_set := is\<rparr>) es
   }"

definition dhcp_hashpool_cleanup_expire_lease :: "dhcp_hashpool_t \<Rightarrow> u32 \<Rightarrow> dhcp_hashpool_t option" where
  "dhcp_hashpool_cleanup_expire_lease p cur_time = do {
     es \<leftarrow> collect_expired (leases p) cur_time 0 [];
     delete_leases p es
   }"

text \<open>The loop of \<open>dhcp_hashpool_find_available_ip\<close>; the last argument counts the iterations left.\<close>

fun hash_next_free_ip :: "dhcp_hashpool_t \<Rightarrow> u32 \<Rightarrow> u32 \<Rightarrow> nat \<Rightarrow> (dhcp_hashpool_t \<times> u32) option" where
  "hash_next_free_ip p ps range_size 0 = Some (p, 0)"
| "hash_next_free_ip p ps range_size (Suc k) = do {
     let ip = next_ip p;
     let p = p\<lparr>next_ip := ps + ((ip - ps + 1) mod range_size)\<rparr>;
     ip_key \<leftarrow> ip_elem (le_bytes ip);
     r \<leftarrow> hash_find_ip (ip_set p) ip_key;
     if r = None then Some (p, ip) else hash_next_free_ip p ps range_size k
   }"

definition dhcp_hashpool_find_available_ip ::
  "dhcp_hashpool_t \<Rightarrow> u32 \<Rightarrow> u32 \<Rightarrow> u8 list \<Rightarrow> u32 \<Rightarrow> (dhcp_hashpool_t \<times> u32) option" where
  "dhcp_hashpool_find_available_ip p ps pe mac cur_time = do {
     p \<leftarrow> (if unat (hash_size_mac (leases p)) \<ge> unat (max_leases p)
          then dhcp_hashpool_cleanup_expire_lease p cur_time else Some p);
     existing \<leftarrow> dhcp_hashpool_find_lease p mac;
     case existing of
       Some i \<Rightarrow> do {
         e \<leftarrow> rd (buckets (leases p)) i;
         ip \<leftarrow> elem_ip_address e;
         Some (p, ip)
       }
     | None \<Rightarrow>
         if unat (hash_size_mac (leases p)) \<ge> unat (max_leases p) then Some (p, 0)
         else let range_size = pe - ps + 1
              in hash_next_free_ip p ps range_size (unat range_size)
   }"

text \<open>\<open>existing->expire_time = v\<close>, through the pointer into bucket \<open>i\<close>.\<close>

definition set_expire_time :: "hash_tab \<Rightarrow> nat \<Rightarrow> u32 \<Rightarrow> hash_tab option" where
  "set_expire_time h i v = do {
     e \<leftarrow> rd (buckets h) i;
     bs \<leftarrow> kmemcpy (elem e) 10 (le_bytes v) 4;
     buckets' \<leftarrow> wr (buckets h) i (e\<lparr>elem := bs\<rparr>);
     Some (h\<lparr>buckets := buckets'\<rparr>)
   }"

text \<open>\<open>new_lease\<close> of \<open>dhcp_hashpool_alloc_lease\<close>: all 14 bytes are assigned.\<close>

definition new_lease :: "u8 list \<Rightarrow> u32 \<Rightarrow> u32 \<Rightarrow> hash_elem option" where
  "new_lease mac ip expire = do {
     bs \<leftarrow> kmemcpy (replicate HASH_ELEM_MAX 0) 0 mac 6;
     bs \<leftarrow> kmemcpy bs 6 (le_bytes ip) 4;
     bs \<leftarrow> kmemcpy bs 10 (le_bytes expire) 4;
     Some \<lparr>elem = bs, elem_size = of_nat HASH_ELEM_MAX\<rparr>
   }"

definition dhcp_hashpool_alloc_lease ::
  "dhcp_hashpool_t \<Rightarrow> u32 \<Rightarrow> u8 list \<Rightarrow> u32 \<Rightarrow> u32 \<Rightarrow> (dhcp_hashpool_t \<times> bool) option" where
  "dhcp_hashpool_alloc_lease p ip mac lt cur_time = do {
     p \<leftarrow> (if unat (hash_size_mac (leases p)) \<ge> unat (max_leases p)
          then dhcp_hashpool_cleanup_expire_lease p cur_time else Some p);
     existing \<leftarrow> dhcp_hashpool_find_lease p mac;
     case existing of
       Some i \<Rightarrow> do {
         e \<leftarrow> rd (buckets (leases p)) i;
         a \<leftarrow> elem_ip_address e;
         if a \<noteq> ip then Some (p, False)
         else do {
           ls \<leftarrow> set_expire_time (leases p) i (cur_time + lt);
           Some (p\<lparr>leases := ls\<rparr>, True)
         }
       }
     | None \<Rightarrow> do {
         ip_key \<leftarrow> ip_elem (le_bytes ip);
         r \<leftarrow> hash_find_ip (ip_set p) ip_key;
         if r \<noteq> None then Some (p, False)
         else if unat (hash_size_mac (leases p)) \<ge> unat (max_leases p) then Some (p, False)
         else do {
           new \<leftarrow> new_lease mac ip (cur_time + lt);
           (ls, ok) \<leftarrow> hash_insert_mac (leases p) new;
           let p = p\<lparr>leases := ls\<rparr>;
           if \<not> ok then Some (p, False)
           else do {
             (is, ok) \<leftarrow> hash_insert_ip (ip_set p) ip_key;
             let p = p\<lparr>ip_set := is\<rparr>;
             if \<not> ok then do {
               (ls, _) \<leftarrow> hash_delete_mac (leases p) new;
               Some (p\<lparr>leases := ls\<rparr>, False)
             }
             else Some (p, True)
           }
         }
       }
   }"

definition dhcp_hashpool_decline_lease :: "dhcp_hashpool_t \<Rightarrow> u8 list \<Rightarrow> dhcp_hashpool_t option" where
  "dhcp_hashpool_decline_lease p mac = do {
     mac_key \<leftarrow> mac_elem mac;
     result \<leftarrow> hash_find_mac (leases p) mac_key;
     case result of
       None \<Rightarrow> Some p
     | Some i \<Rightarrow> do {
         e \<leftarrow> rd (buckets (leases p)) i;
         a \<leftarrow> elem_ip_bytes e;
         ip_key \<leftarrow> ip_elem a;
         (is, _) \<leftarrow> hash_delete_ip (ip_set p) ip_key;
         (ls, _) \<leftarrow> hash_delete_mac (leases p) mac_key;
         Some (p\<lparr>ip_set := is, leases := ls\<rparr>)
       }
   }"

section \<open>Server entry points\<close>

type_synonym hash_server = "dhcp_hashpool_t dhcp_server_t"

definition dhcp_init_server_hashmap :: "hash_server \<Rightarrow> dhcp_config_t \<Rightarrow> u16 \<Rightarrow> hash_server option" where
  "dhcp_init_server_hashmap s c maxl = do {
     p \<leftarrow> dhcp_hashpool_init (pool s) (pool_start c) maxl;
     Some (s\<lparr>config := c, pool := p\<rparr>)
   }"

definition dhcp_process_message_hashmap ::
  "hash_server \<Rightarrow> dhcp_message_t \<Rightarrow> dhcp_message_t \<Rightarrow> u32 \<Rightarrow> (hash_server \<times> dhcp_message_t) option" where
  "dhcp_process_message_hashmap server request response cur_time = do {
     msg_type \<leftarrow> dhcp_get_message_type request;
     if msg_type = DHCP_DISCOVER then do {
       (p, offered_ip) \<leftarrow> dhcp_hashpool_find_available_ip (pool server)
          (pool_start (config server)) (pool_end (config server)) (chaddr request) cur_time;
       let server = server\<lparr>pool := p\<rparr>;
       if offered_ip \<noteq> 0 then do {
         m \<leftarrow> dhcp_build_offer server request offered_ip;
         Some (server, m)
       }
       else Some (server, response)
     }
     else if msg_type = DHCP_REQUEST then do {
       req_opt \<leftarrow> dhcp_get_option request DHCP_OPT_REQUESTED_IP;
       case req_opt of
         None \<Rightarrow> Some (server, response)
       | Some (ptr, len) \<Rightarrow>
           if len = 4 then do {
             ip \<leftarrow> requested_ip (options request) ptr;
             if ip \<ge> pool_start (config server) \<and> ip \<le> pool_end (config server) then do {
               (p, ok) \<leftarrow> dhcp_hashpool_alloc_lease (pool server) ip (chaddr request)
                  (lease_time (config server)) cur_time;
               let server = server\<lparr>pool := p\<rparr>;
               if ok then do {
                 m \<leftarrow> dhcp_build_ack server request ip;
                 Some (server, m)
               }
               else do {
                 m \<leftarrow> dhcp_build_nak request;
                 Some (server, m)
               }
             }
             else do {
               m \<leftarrow> dhcp_build_nak request;
               Some (server, m)
             }
           }
           else Some (server, response)
     }
     else if msg_type = DHCP_DECLINE then do {
       p \<leftarrow> dhcp_hashpool_decline_lease (pool server) (chaddr request);
       Some (server\<lparr>pool := p\<rparr>, response)
     }
     else Some (server, response)
   }"

text \<open>The three operations the process function calls, at the level of the server.\<close>

abbreviation hash_offer where "hash_offer \<equiv> pool_offer dhcp_hashpool_find_available_ip"
abbreviation hash_commit where "hash_commit \<equiv> pool_commit dhcp_hashpool_alloc_lease"
abbreviation hash_decline where "hash_decline \<equiv> pool_decline dhcp_hashpool_decline_lease"

lemma process_hashmap_is_serve:
  "dhcp_process_message_hashmap = serve hash_offer hash_commit hash_decline"
proof (intro ext)
  fix s request response t
  show "dhcp_process_message_hashmap s request response t =
      serve hash_offer hash_commit hash_decline s request response t"
    unfolding dhcp_process_message_hashmap_def serve_def pool_op_defs
    by (auto simp: Let_def split_def intro!: Option.bind_cong split: option.split)
qed

end
