(* ===== verification/Probing.thy ===== *)
theory Probing
  imports Prelude
begin

text \<open>
  Linear probing on a ring of \<open>N\<close> slots, independent of the C data structures.  The content of the
  ring is a function \<open>v\<close> from slots to optional entries; \<open>home a\<close> is the slot where the search for
  the entry \<open>a\<close> starts.

  The usual invariant of linear probing (no free slot between the home of an entry and the entry)
  is not kept by the deletion of \<open>ds-lib/hash.c\<close> in a table that is full, unless the ring is cut
  open at a suitable slot \<open>f\<close>: seen from the slot after \<open>f\<close> no entry lies before its home.
  \<open>probed\<close> is the invariant for a given cut; any free slot can serve as the cut, and in a full
  table the slot filled last.
\<close>

section \<open>Positions relative to a cut\<close>

definition slot :: "nat \<Rightarrow> nat \<Rightarrow> nat \<Rightarrow> nat" where
  "slot N f p = (f + 1 + p) mod N"

definition pos :: "nat \<Rightarrow> nat \<Rightarrow> nat \<Rightarrow> nat" where
  "pos N f j = (j + N - f - 1) mod N"

lemma slot_less [simp]: "0 < N \<Longrightarrow> slot N f p < N"
  by (simp add: slot_def)

lemma pos_less [simp]: "0 < N \<Longrightarrow> pos N f j < N"
  by (simp add: pos_def)

lemma slot_pos [simp]:
  assumes "f < N" and "j < N"
  shows "slot N f (pos N f j) = j"
proof -
  have "(f + 1 + (j + N - f - 1) mod N) mod N = (f + 1 + (j + N - f - 1)) mod N"
    by (rule mod_add_right_eq)
  also have "f + 1 + (j + N - f - 1) = j + N" using assms by simp
  finally show ?thesis using assms by (simp add: slot_def pos_def)
qed

lemma pos_slot [simp]:
  assumes "f < N" and "p < N"
  shows "pos N f (slot N f p) = p"
proof -
  have "((f + 1 + p) mod N + (N - f - 1)) mod N = (f + 1 + p + (N - f - 1)) mod N"
    by (simp add: mod_add_left_eq)
  also have "f + 1 + p + (N - f - 1) = p + N" using assms by simp
  finally have "((f + 1 + p) mod N + (N - f - 1)) mod N = p" using assms by simp
  moreover have "slot N f p + N - f - 1 = slot N f p + (N - f - 1)" using assms by simp
  ultimately show ?thesis by (simp add: pos_def slot_def)
qed

lemma slot_inject: "f < N \<Longrightarrow> p < N \<Longrightarrow> q < N \<Longrightarrow> slot N f p = slot N f q \<longleftrightarrow> p = q"
  by (metis pos_slot)

lemma slot_Suc: "(slot N f p + 1) mod N = slot N f (Suc p)"
  by (simp add: slot_def mod_Suc_eq)

lemma slot_add_N: "slot N f (p + N) = slot N f p"
  using mod_add_self2 [of "f + 1 + p" N] by (simp add: slot_def add.assoc)

lemma slot_wrap [simp]: "slot N f N = slot N f 0"
  using slot_add_N [of N f 0] by simp

lemma slot_last: "f < N \<Longrightarrow> slot N f (N - 1) = f"
  by (simp add: slot_def)

lemma slot_add: "(slot N f p + d) mod N = slot N f (p + d)"
  by (simp add: slot_def mod_add_left_eq add.assoc)

lemma ex_slot: "f < N \<Longrightarrow> (\<exists>i < N. P i) \<longleftrightarrow> (\<exists>p < N. P (slot N f p))"
  by (metis pos_less slot_less slot_pos less_nat_zero_code neq0_conv)

text \<open>Positions relative to another cut \<open>e\<close>.\<close>

lemma pos_rebase:
  assumes "f < N" and "e < N" and "p < N"
  shows "pos N e (slot N f p) =
    (if pos N f e < p then p - pos N f e - 1 else p + N - pos N f e - 1)"
proof -
  define pe where "pe = pos N f e"
  have pe: "pe < N" "e = slot N f pe" using assms by (simp_all add: pe_def)
  define r where "r = (if pe < p then p - pe - 1 else p + N - pe - 1)"
  have r: "r < N" using pe assms(3) by (auto simp: r_def)
  have "slot N e r = (slot N f pe + (1 + r)) mod N" using pe by (simp add: slot_def add.assoc)
  also have "\<dots> = slot N f (pe + 1 + r)" by (subst slot_add) (simp add: add.assoc)
  also have "\<dots> = slot N f p"
  proof (cases "pe < p")
    case False
    then have "pe + 1 + r = p + N" using pe(1) by (simp add: r_def)
    then show ?thesis by (simp only: slot_add_N)
  qed (simp add: r_def)
  finally have "slot N e r = slot N f p" .
  then have "pos N e (slot N f p) = r" using pos_slot [OF assms(2) r] by simp
  then show ?thesis by (simp add: r_def pe_def)
qed

section \<open>The invariant\<close>

definition probed :: "nat \<Rightarrow> ('a \<Rightarrow> nat) \<Rightarrow> nat \<Rightarrow> (nat \<Rightarrow> 'a option) \<Rightarrow> bool" where
  "probed N home f v \<longleftrightarrow>
     (\<forall>p < N. \<forall>a. v (slot N f p) = Some a \<longrightarrow>
        pos N f (home a) \<le> p \<and> (\<forall>q. pos N f (home a) \<le> q \<and> q < p \<longrightarrow> v (slot N f q) \<noteq> None))"

lemma probed_empty: "probed N home f (\<lambda>_. None)"
  by (simp add: probed_def)

lemma probed_between:
  assumes "probed N home f v" and "f < N" and "i < N" and "v i = Some a"
  shows "pos N f (home a) \<le> pos N f i"
    and "\<And>q. pos N f (home a) \<le> q \<Longrightarrow> q < pos N f i \<Longrightarrow> v (slot N f q) \<noteq> None"
proof -
  have "pos N f i < N" "v (slot N f (pos N f i)) = Some a" using assms by simp_all
  with assms(1) show "pos N f (home a) \<le> pos N f i"
    "\<And>q. pos N f (home a) \<le> q \<Longrightarrow> q < pos N f i \<Longrightarrow> v (slot N f q) \<noteq> None"
    unfolding probed_def by blast+
qed

text \<open>Any free slot can take over the role of the cut.\<close>

lemma probed_rebase:
  assumes pr: "probed N home f v" and f: "f < N" and e: "e < N" "v e = None"
    and home: "\<And>a. home a < N"
  shows "probed N home e v"
  unfolding probed_def
proof (intro allI impI)
  fix p' a assume p': "p' < N" and a: "v (slot N e p') = Some a"
  define pe p hp where "pe = pos N f e" and "p = pos N f (slot N e p')" and "hp = pos N f (home a)"
  have N: "0 < N" using f by simp
  have lt: "pe < N" "p < N" "hp < N" using N by (simp_all add: pe_def p_def hp_def)
  have at: "slot N f p = slot N e p'" "slot N f pe = e" "slot N f hp = home a"
    using f e(1) home N by (simp_all add: p_def pe_def hp_def)
  have iv: "hp \<le> p" "\<And>q. hp \<le> q \<Longrightarrow> q < p \<Longrightarrow> v (slot N f q) \<noteq> None"
    using pr a at(1) lt(2) unfolding probed_def hp_def by metis+
  have out: "\<not> (hp \<le> pe \<and> pe \<le> p)"
    using iv(2) [of pe] at a e(2) by (metis le_neq_implies_less option.distinct(1))
  have rb: "pos N e (slot N f q) = (if pe < q then q - pe - 1 else q + N - pe - 1)" if "q < N" for q
    using pos_rebase [OF f e(1) that] by (simp add: pe_def)
  have pp: "p' = (if pe < p then p - pe - 1 else p + N - pe - 1)"
    using rb [OF lt(2)] at(1) pos_slot [OF e(1) p'] by simp
  have hh: "pos N e (home a) = (if pe < hp then hp - pe - 1 else hp + N - pe - 1)"
    using rb [OF lt(3)] at(3) by simp
  have le: "pos N e (home a) \<le> p'"
    using iv(1) out by (auto simp: pp hh split: if_splits)
  have "v (slot N e q') \<noteq> None" if q': "pos N e (home a) \<le> q'" "q' < p'" for q'
  proof -
    define q where "q = pos N f (slot N e q')"
    have q: "q < N" "slot N f q = slot N e q'" using f N by (simp_all add: q_def)
    have "q' < N" using q'(2) p' by simp
    then have "q' = (if pe < q then q - pe - 1 else q + N - pe - 1)"
      using rb [OF q(1)] q(2) pos_slot [OF e(1)] by simp
    then have "hp \<le> q" "q < p"
      using q' out iv(1) lt q(1) by (auto simp: pp hh split: if_splits)
    with iv(2) q(2) show ?thesis by metis
  qed
  with le show "pos N e (home a) \<le> p' \<and>
      (\<forall>q. pos N e (home a) \<le> q \<and> q < p' \<longrightarrow> v (slot N e q) \<noteq> None)" by blast
qed


section \<open>Searching\<close>

text \<open>Where a search for the key \<open>k\<close> that starts at slot \<open>s\<close> stops: the distance from \<open>s\<close>.\<close>

definition stops :: "('a \<Rightarrow> 'k) \<Rightarrow> (nat \<Rightarrow> 'a option) \<Rightarrow> 'k \<Rightarrow> nat \<Rightarrow> bool" where
  "stops key v k i \<longleftrightarrow> (case v i of None \<Rightarrow> True | Some a \<Rightarrow> key a = k)"

definition probe_stop :: "nat \<Rightarrow> ('a \<Rightarrow> 'k) \<Rightarrow> (nat \<Rightarrow> 'a option) \<Rightarrow> 'k \<Rightarrow> nat \<Rightarrow> nat option" where
  "probe_stop N key v k s = find (\<lambda>d. stops key v k ((s + d) mod N)) [0..<N]"

definition keys_distinct :: "nat \<Rightarrow> ('a \<Rightarrow> 'k) \<Rightarrow> (nat \<Rightarrow> 'a option) \<Rightarrow> bool" where
  "keys_distinct N key v \<longleftrightarrow>
     (\<forall>i < N. \<forall>j < N. \<forall>a b. v i = Some a \<and> v j = Some b \<and> key a = key b \<longrightarrow> i = j)"

lemma probe_stop_Some_iff:
  "probe_stop N key v k s = Some d \<longleftrightarrow>
     d < N \<and> stops key v k ((s + d) mod N) \<and> (\<forall>d' < d. \<not> stops key v k ((s + d') mod N))"
  by (auto simp: probe_stop_def find_Some_iff)

lemma probe_stop_None_iff:
  "probe_stop N key v k s = None \<longleftrightarrow> (\<forall>d < N. \<not> stops key v k ((s + d) mod N))"
  by (simp add: probe_stop_def find_None_iff)

text \<open>Every slot is at some distance below \<open>N\<close>.\<close>

lemma ring_distance:
  fixes s j N :: nat
  assumes "s < N" and "j < N"
  shows "\<exists>d < N. (s + d) mod N = j"
proof (cases "s \<le> j")
  case True
  then show ?thesis using assms by (intro exI [of _ "j - s"]) auto
next
  case False
  then show ?thesis using assms by (intro exI [of _ "j + N - s"]) auto
qed

text \<open>A search for a key that is present finds it.\<close>

lemma probe_stop_present:
  assumes pr: "probed N home f v" and f: "f < N" and home: "home a < N"
    and i: "i < N" "v i = Some a" and kd: "keys_distinct N key v"
  obtains d where "probe_stop N key v (key a) (home a) = Some d" and "(home a + d) mod N = i"
proof -
  let ?hp = "pos N f (home a)" and ?p = "pos N f i"
  have pN: "?p < N" using f by simp
  note iv = probed_between [OF pr f i]
  have walk: "(home a + d) mod N = slot N f (?hp + d)" for d
    using slot_add [of N f ?hp d] slot_pos [OF f home] by simp
  have hit: "(home a + (?p - ?hp)) mod N = i"
    using walk [of "?p - ?hp"] iv(1) f i(1) by (simp del: add_diff_assoc add_diff_assoc2)
  have "\<not> stops key v (key a) ((home a + d) mod N)" if "d < ?p - ?hp" for d
  proof -
    have q: "?hp + d < ?p" "?hp + d < N" using that pN by linarith+
    then obtain b where b: "v (slot N f (?hp + d)) = Some b" using iv(2) [of "?hp + d"] by auto
    moreover have "slot N f (?hp + d) \<noteq> i"
      using q f i(1) by (metis nat_neq_iff pos_slot)
    ultimately have "key b \<noteq> key a"
      using kd i f q(2) unfolding keys_distinct_def by (metis slot_less less_nat_zero_code neq0_conv)
    then show ?thesis using b walk by (simp add: stops_def)
  qed
  moreover have "?p - ?hp < N" using pos_less [of N f i] f by (simp add: less_imp_diff_less)
  ultimately have "probe_stop N key v (key a) (home a) = Some (?p - ?hp)"
    using hit i(2) by (simp add: probe_stop_Some_iff stops_def)
  then show thesis using that hit by blast
qed

text \<open>A ring with a free slot stops every search.\<close>

lemma probe_stop_free:
  assumes "s < N" and "j < N" and "v j = None"
  obtains d where "probe_stop N key v k s = Some d"
proof (cases "probe_stop N key v k s")
  case None
  obtain d where "d < N" "(s + d) mod N = j" using ring_distance [OF assms(1,2)] by blast
  with None assms(3) have False by (auto simp: probe_stop_None_iff stops_def)
  then show thesis ..
qed

section \<open>Insertion\<close>

text \<open>Filling the free slot where the search stopped; that slot is a cut of the new ring.\<close>

lemma probed_insert:
  assumes pr: "probed N home f v" and f: "f < N" and home: "\<And>a. home a < N"
    and d: "probe_stop N key v k (home a) = Some d" and i: "i = (home a + d) mod N" "v i = None"
  shows "probed N home i (v(i \<mapsto> a))"
proof -
  have iN: "i < N" using i(1) f by simp
  note pri = probed_rebase [OF pr f iN i(2) home]
  let ?hp = "pos N i (home a)"
  have dN: "d < N" and before: "\<forall>d' < d. v ((home a + d') mod N) \<noteq> None"
    using d by (fastforce simp: probe_stop_Some_iff stops_def split: option.splits)+
  have walk: "(home a + d') mod N = slot N i (?hp + d')" for d'
    using slot_add [of N i ?hp d'] slot_pos [OF iN home] by simp
  have hp: "?hp < N" using iN by simp
  have end_pos: "?hp + d = N - 1"
  proof (rule ccontr)
    assume ne: "?hp + d \<noteq> N - 1"
    have at_i: "slot N i (?hp + d) = slot N i (N - 1)" using walk i(1) slot_last [OF iN] by metis
    show False
    proof (cases "?hp + d < N")
      case True
      then show False using at_i ne slot_inject [OF iN] hp by simp
    next
      case False
      then have "slot N i (?hp + d - N) = slot N i (N - 1)"
        using at_i slot_add_N [of N i "?hp + d - N"] by simp
      moreover have "?hp + d - N < N - 1" using hp dN False by linarith
      moreover from this have "?hp + d - N < N" "N - 1 < N" by linarith+
      ultimately show False using slot_inject [OF iN, of "?hp + d - N" "N - 1"] by auto
    qed
  qed
  show ?thesis
    unfolding probed_def
  proof (intro allI impI)
    fix p b assume p: "p < N" and b: "(v(i \<mapsto> a)) (slot N i p) = Some b"
    show "pos N i (home b) \<le> p \<and> (\<forall>q. pos N i (home b) \<le> q \<and> q < p \<longrightarrow> (v(i \<mapsto> a)) (slot N i q) \<noteq> None)"
    proof (cases "slot N i p = i")
      case True
      then have "p = N - 1" using slot_last [OF iN] slot_inject [OF iN p, of "N - 1"] p by simp
      moreover have "v (slot N i q) \<noteq> None" if "?hp \<le> q" "q < N - 1" for q
      proof -
        have "q - ?hp < d" "?hp + (q - ?hp) = q" using that end_pos by linarith+
        then show ?thesis using before walk [of "q - ?hp"] by metis
      qed
      ultimately show ?thesis using b True hp by auto
    next
      case False
      then show ?thesis using pri p b unfolding probed_def by (auto split: if_splits)
    qed
  qed
qed

text \<open>Replacing an entry by one with the same home.\<close>

lemma probed_replace:
  assumes "probed N home f v" and "v i = Some b" and "home a = home b"
  shows "probed N home f (v(i \<mapsto> a))"
  using assms unfolding probed_def by (auto split: if_splits)


section \<open>Deletion\<close>

text \<open>
  The state of the repair loop before position \<open>p\<close>: there is one hole \<open>g\<close> before \<open>p\<close>, the entries
  before \<open>p\<close> satisfy the invariant and the ones from \<open>p\<close> on may have the hole on their path.
\<close>

definition holed :: "nat \<Rightarrow> ('a \<Rightarrow> nat) \<Rightarrow> nat \<Rightarrow> (nat \<Rightarrow> 'a option) \<Rightarrow> nat \<Rightarrow> nat \<Rightarrow> bool" where
  "holed N home f v g p \<longleftrightarrow> g < p \<and> p \<le> N \<and> v (slot N f g) = None \<and>
     (\<forall>q < N. \<forall>a. v (slot N f q) = Some a \<longrightarrow>
        pos N f (home a) \<le> q \<and>
        (\<forall>r. pos N f (home a) \<le> r \<and> r < q \<longrightarrow> v (slot N f r) \<noteq> None \<or> r = g \<and> p \<le> q))"

lemma holed_start:
  assumes "probed N home f v" and "f < N" and "g < N"
  shows "holed N home f (v(slot N f g := None)) g (Suc g)"
  using assms unfolding holed_def probed_def
  by (auto simp: slot_inject split: if_splits)

lemma holed_end: "holed N home f v g N \<Longrightarrow> probed N home f v"
  unfolding holed_def probed_def by (meson leD)

text \<open>A free slot after the hole ends the repair: no later entry can have the hole on its path.\<close>

lemma holed_stop:
  assumes "holed N home f v g p" and "v (slot N f p) = None"
  shows "probed N home f v"
  unfolding probed_def
proof (intro allI impI)
  fix q a assume q: "q < N" "v (slot N f q) = Some a"
  have iv: "pos N f (home a) \<le> q"
    "\<And>r. pos N f (home a) \<le> r \<Longrightarrow> r < q \<Longrightarrow> v (slot N f r) \<noteq> None \<or> r = g \<and> p \<le> q"
    using assms(1) q unfolding holed_def by blast+
  have "p \<noteq> q" "g < p" using assms q(2) by (auto simp: holed_def)
  then have "v (slot N f r) \<noteq> None" if "pos N f (home a) \<le> r" "r < q" for r
    using iv(2) [OF that] iv(2) [of p] that assms(2) by fastforce
  with iv(1) show "pos N f (home a) \<le> q \<and> (\<forall>r. pos N f (home a) \<le> r \<and> r < q \<longrightarrow> v (slot N f r) \<noteq> None)"
    by blast
qed

text \<open>An entry whose path does not meet the hole stays, the other ones are moved into it.\<close>

lemma holed_keep:
  assumes "holed N home f v g p" and "p < N" and "v (slot N f p) = Some a" and "g < pos N f (home a)"
  shows "holed N home f v g (Suc p)"
  using assms unfolding holed_def
  by (metis (no_types, lifting) Suc_leI le_less less_SucI not_less_eq_eq not_less option.inject)

lemma holed_move:
  assumes h: "holed N home f v g p" and p: "p < N" "v (slot N f p) = Some a" and f: "f < N"
    and hp: "pos N f (home a) \<le> g"
  shows "holed N home f (v(slot N f g \<mapsto> a, slot N f p := None)) p (Suc p)"
proof -
  have g: "g < p" "g < N" using h p by (auto simp: holed_def)
  have ne: "slot N f g \<noteq> slot N f p" using g p f by (simp add: slot_inject)
  have old: "pos N f (home b) \<le> q \<and> (\<forall>r. pos N f (home b) \<le> r \<and> r < q \<longrightarrow> v (slot N f r) \<noteq> None \<or> r = g \<and> p \<le> q)"
    if "q < N" "v (slot N f q) = Some b" for q b
    using h that unfolding holed_def by blast
  have at: "(v(slot N f g \<mapsto> a, slot N f p := None)) (slot N f q) =
      (if q = p then None else if q = g then Some a else v (slot N f q))" if "q < N" for q
    using that g p f by (auto simp: slot_inject)
  show ?thesis
    unfolding holed_def
  proof (intro conjI allI impI)
    fix q b assume q: "q < N" "(v(slot N f g \<mapsto> a, slot N f p := None)) (slot N f q) = Some b"
    then have "q \<noteq> p" using at by auto
    show "pos N f (home b) \<le> q"
      using q at [OF q(1)] old [of q b] hp by (auto split: if_splits)
    fix r assume r: "pos N f (home b) \<le> r \<and> r < q"
    then have rN: "r < N" using q(1) by simp
    show "(v(slot N f g \<mapsto> a, slot N f p := None)) (slot N f r) \<noteq> None \<or> r = p \<and> Suc p \<le> q"
    proof (cases "q = g")
      case True
      then have "b = a" using q(2) at [OF q(1)] g(1) by simp
      then have "v (slot N f r) \<noteq> None" using old [OF p] r True g(1) by fastforce
      then show ?thesis using at [OF rN] r True g(1) by auto
    next
      case False
      then have "v (slot N f q) = Some b" using q at [OF q(1)] \<open>q \<noteq> p\<close> by simp
      then show ?thesis using old [OF q(1)] r at [OF rN] by (cases "r = p") auto
    qed
  qed (use p in simp_all)
qed

text \<open>Moving an entry to a free slot keeps the content of the ring.\<close>

definition content :: "nat \<Rightarrow> (nat \<Rightarrow> 'a option) \<Rightarrow> 'a set" where
  "content N v = {a. \<exists>i < N. v i = Some a}"

definition filled :: "nat \<Rightarrow> (nat \<Rightarrow> 'a option) \<Rightarrow> nat" where
  "filled N v = card {i. i < N \<and> v i \<noteq> None}"

definition rearranged :: "nat \<Rightarrow> ('a \<Rightarrow> 'k) \<Rightarrow> (nat \<Rightarrow> 'a option) \<Rightarrow> (nat \<Rightarrow> 'a option) \<Rightarrow> bool" where
  "rearranged N key v w \<longleftrightarrow> content N w = content N v \<and> filled N w = filled N v \<and>
     (keys_distinct N key v \<longrightarrow> keys_distinct N key w)"

lemma rearranged_refl [simp]: "rearranged N key v v"
  by (simp add: rearranged_def)

lemma rearranged_trans: "rearranged N key u v \<Longrightarrow> rearranged N key v w \<Longrightarrow> rearranged N key u w"
  by (simp add: rearranged_def)

lemma rearranged_move:
  assumes "i < N" and "j < N" and "v i = None" and "v j = Some a"
  shows "rearranged N key v (v(i \<mapsto> a, j := None))"
proof -
  let ?w = "v(i \<mapsto> a, j := None)"
  have ne: "i \<noteq> j" using assms by auto
  have "content N ?w = content N v"
    using assms ne by (auto simp: content_def split: if_splits) (metis option.inject option.distinct(1))+
  moreover have "{k. k < N \<and> ?w k \<noteq> None} = insert i ({k. k < N \<and> v k \<noteq> None} - {j})"
    using assms ne by auto
  moreover have "card (insert i ({k. k < N \<and> v k \<noteq> None} - {j})) = card {k. k < N \<and> v k \<noteq> None}"
    using assms card_Suc_Diff1 [of "{k. k < N \<and> v k \<noteq> None}" j] by (subst card_insert_disjoint) auto
  ultimately have "content N ?w = content N v" "filled N ?w = filled N v"
    by (simp_all only: filled_def)
  moreover have "keys_distinct N key ?w" if "keys_distinct N key v"
    using that assms unfolding keys_distinct_def
    by (auto split: if_splits)
  ultimately show ?thesis by (simp add: rearranged_def)
qed


section \<open>The map of a ring\<close>

definition ring_map :: "nat \<Rightarrow> ('a \<Rightarrow> 'k) \<Rightarrow> (nat \<Rightarrow> 'a option) \<Rightarrow> 'k \<rightharpoonup> 'a" where
  "ring_map N key v k =
     (case find (\<lambda>i. case v i of None \<Rightarrow> False | Some b \<Rightarrow> key b = k) [0..<N] of
        None \<Rightarrow> None
      | Some i \<Rightarrow> v i)"

lemma keys_distinctD:
  "keys_distinct N key v \<Longrightarrow> i < N \<Longrightarrow> j < N \<Longrightarrow> v i = Some a \<Longrightarrow> v j = Some b \<Longrightarrow> key a = key b \<Longrightarrow> i = j"
  unfolding keys_distinct_def by blast

lemma ring_map_Some_iff:
  assumes "keys_distinct N key v"
  shows "ring_map N key v k = Some b \<longleftrightarrow> (\<exists>i < N. v i = Some b \<and> key b = k)"
proof (cases "find (\<lambda>i. case v i of None \<Rightarrow> False | Some b \<Rightarrow> key b = k) [0..<N]")
  case None
  then have "\<forall>i < N. \<forall>b. v i = Some b \<longrightarrow> key b \<noteq> k"
    by (fastforce simp: find_None_iff)
  with None show ?thesis by (auto simp: ring_map_def)
next
  case (Some i)
  then obtain a where a: "i < N" "v i = Some a" "key a = k"
    by (auto simp: find_Some_iff split: option.splits)
  have "(\<exists>j < N. v j = Some b \<and> key b = k) \<longleftrightarrow> b = a"
    using keys_distinctD [OF assms a(1) _ a(2)] a by (metis option.inject)
  moreover have "ring_map N key v k = Some a"
    unfolding ring_map_def Some using a(2) by simp
  ultimately show ?thesis by (metis option.inject)
qed

lemma ring_map_slot:
  "keys_distinct N key v \<Longrightarrow> i < N \<Longrightarrow> v i = Some b \<Longrightarrow> ring_map N key v (key b) = Some b"
  by (auto simp: ring_map_Some_iff)

lemma ring_map_eqI:
  assumes "keys_distinct N key v" and "\<And>k b. (\<exists>i < N. v i = Some b \<and> key b = k) \<longleftrightarrow> m k = Some b"
  shows "ring_map N key v = m"
proof
  fix k
  show "ring_map N key v k = m k"
    using ring_map_Some_iff [OF assms(1), of k] assms(2) [of _ k] by (metis not_Some_eq)
qed

lemma rearranged_map:
  assumes "rearranged N key v w" and "keys_distinct N key v"
  shows "ring_map N key w = ring_map N key v"
proof (rule ring_map_eqI)
  show "keys_distinct N key w" using assms by (simp add: rearranged_def)
  fix k b
  have "b \<in> content N w \<longleftrightarrow> b \<in> content N v" using assms(1) by (simp add: rearranged_def)
  then show "(\<exists>i < N. w i = Some b \<and> key b = k) \<longleftrightarrow> ring_map N key v k = Some b"
    by (auto simp: ring_map_Some_iff [OF assms(2)] content_def)
qed

text \<open>Filling or overwriting a slot, and clearing one.\<close>

lemma ring_put:
  assumes kd: "keys_distinct N key v" and i: "i < N"
    and other: "\<And>j b. j < N \<Longrightarrow> v j = Some b \<Longrightarrow> key b = key a \<Longrightarrow> j = i"
    and same: "\<And>b. v i = Some b \<Longrightarrow> key b = key a"
  shows "keys_distinct N key (v(i \<mapsto> a))" and "ring_map N key (v(i \<mapsto> a)) = (ring_map N key v)(key a \<mapsto> a)"
proof -
  show kd': "keys_distinct N key (v(i \<mapsto> a))"
    unfolding keys_distinct_def
  proof (intro allI impI)
    fix p q b c assume "p < N" "q < N" "(v(i \<mapsto> a)) p = Some b \<and> (v(i \<mapsto> a)) q = Some c \<and> key b = key c"
    then show "p = q" using other [of p b] other [of q c] keys_distinctD [OF kd, of p q b c]
      by (auto split: if_splits)
  qed
  show "ring_map N key (v(i \<mapsto> a)) = (ring_map N key v)(key a \<mapsto> a)"
  proof (rule ring_map_eqI [OF kd'])
    fix k b
    show "(\<exists>j < N. (v(i \<mapsto> a)) j = Some b \<and> key b = k) \<longleftrightarrow> ((ring_map N key v)(key a \<mapsto> a)) k = Some b"
    proof (cases "k = key a")
      case True
      then show ?thesis using i other by (auto split: if_splits)
    next
      case False
      then have "(v(i \<mapsto> a)) j = Some b \<and> key b = k \<longleftrightarrow> v j = Some b \<and> key b = k" for j
        using same [of b] by (cases "j = i") auto
      then show ?thesis using False by (simp add: ring_map_Some_iff [OF kd])
    qed
  qed
qed

lemma ring_remove:
  assumes kd: "keys_distinct N key v" and i: "i < N" "v i = Some a"
  shows "keys_distinct N key (v(i := None))" and "ring_map N key (v(i := None)) = (ring_map N key v)(key a := None)"
proof -
  show kd': "keys_distinct N key (v(i := None))"
    using kd unfolding keys_distinct_def by (auto split: if_splits)
  show "ring_map N key (v(i := None)) = (ring_map N key v)(key a := None)"
  proof (rule ring_map_eqI [OF kd'])
    fix k b
    have "(v(i := None)) j = Some b \<and> key b = k \<longleftrightarrow> v j = Some b \<and> key b = k \<and> k \<noteq> key a" if "j < N" for j
      using keys_distinctD [OF kd i(1) that i(2), of b] i(2) by (cases "j = i") auto
    then show "(\<exists>j < N. (v(i := None)) j = Some b \<and> key b = k) \<longleftrightarrow> ((ring_map N key v)(key a := None)) k = Some b"
      using ring_map_Some_iff [OF kd, of k b] by (metis fun_upd_apply option.distinct(1))
  qed
qed

lemma filled_put: "i < N \<Longrightarrow> v i = None \<Longrightarrow> filled N (v(i \<mapsto> a)) = Suc (filled N v)"
proof -
  assume i: "i < N" "v i = None"
  then have "{j. j < N \<and> (v(i \<mapsto> a)) j \<noteq> None} = insert i {j. j < N \<and> v j \<noteq> None}" by auto
  then show ?thesis using i by (simp add: filled_def)
qed

lemma filled_overwrite: "v i = Some b \<Longrightarrow> filled N (v(i \<mapsto> a)) = filled N v"
  unfolding filled_def by (rule arg_cong [where f = card]) auto

lemma filled_remove: "i < N \<Longrightarrow> v i = Some a \<Longrightarrow> Suc (filled N (v(i := None))) = filled N v"
proof -
  assume i: "i < N" "v i = Some a"
  then have "{j. j < N \<and> (v(i := None)) j \<noteq> None} = {j. j < N \<and> v j \<noteq> None} - {i}" by auto
  then show ?thesis using i card_Suc_Diff1 [of "{j. j < N \<and> v j \<noteq> None}" i] by (simp add: filled_def)
qed

lemma filled_le: "filled N v \<le> N"
  using card_mono [of "{..<N}" "{i. i < N \<and> v i \<noteq> None}"] by (auto simp: filled_def)

lemma filled_less_free:
  assumes "filled N v < N"
  shows "\<exists>j < N. v j = None"
proof (rule ccontr)
  assume "\<not> (\<exists>j < N. v j = None)"
  then have "{i. i < N \<and> v i \<noteq> None} = {..<N}" by auto
  with assms show False by (simp add: filled_def)
qed

lemma dom_ring_map:
  assumes "keys_distinct N key v"
  shows "dom (ring_map N key v) = (\<lambda>i. key (the (v i))) ` {i. i < N \<and> v i \<noteq> None}"
  unfolding dom_def using ring_map_Some_iff [OF assms] by (force simp: image_iff)

lemma filled_card_dom:
  assumes "keys_distinct N key v"
  shows "filled N v = card (dom (ring_map N key v))" and "finite (dom (ring_map N key v))"
proof -
  have "inj_on (\<lambda>i. key (the (v i))) {i. i < N \<and> v i \<noteq> None}"
    using assms unfolding inj_on_def keys_distinct_def by auto
  then show "filled N v = card (dom (ring_map N key v))"
    by (simp add: filled_def card_image dom_ring_map [OF assms])
  show "finite (dom (ring_map N key v))" by (simp add: dom_ring_map [OF assms])
qed

end
