(* ===== verification/Hash_Table_Correct.thy ===== *)
theory Hash_Table_Correct
  imports Hash_Table Probing
begin

text \<open>
  The hash table implements a finite map.  \<open>view\<close> reads a slot, \<open>hash_inv\<close> is the invariant of the
  table and \<open>hash_map\<close> the map it stands for, from keys to elements.  The locale \<open>keyed_hash\<close>
  states what the table needs of its two function pointers: they look at the same key of an
  element.  Inside it each operation is shown to return, to keep the invariant and to act on the
  map, for every capacity and also when the table is full.
\<close>

section \<open>Invariant and abstraction\<close>

abbreviation slots :: "hash_tab \<Rightarrow> nat" where
  "slots h \<equiv> unat (capacity h)"

definition view :: "hash_tab \<Rightarrow> nat \<Rightarrow> hash_elem option" where
  "view h i = (if occupied h ! i \<noteq> 0 then Some (buckets h ! i) else None)"

definition hash_home :: "hash_tab \<Rightarrow> hash_elem \<Rightarrow> nat" where
  "hash_home h e = unat (the (hash h e (aux h)) mod capacity h)"

definition hash_wf :: "nat \<Rightarrow> (hash_elem \<Rightarrow> bool) \<Rightarrow> hash_tab \<Rightarrow> bool" where
  "hash_wf n valid h \<longleftrightarrow> 0 < slots h \<and> length (buckets h) = slots h \<and> length (occupied h) = slots h \<and>
     (\<forall>b \<in> set (buckets h). length (elem b) = n) \<and>
     (\<forall>i < slots h. occupied h ! i \<noteq> 0 \<longrightarrow> valid (buckets h ! i))"

definition hash_inv :: "nat \<Rightarrow> (hash_elem \<Rightarrow> bool) \<Rightarrow> (hash_elem \<Rightarrow> 'k) \<Rightarrow> hash_tab \<Rightarrow> bool" where
  "hash_inv n valid key h \<longleftrightarrow> hash_wf n valid h \<and> keys_distinct (slots h) key (view h) \<and>
     unat (elem_cnt h) = filled (slots h) (view h) \<and>
     (\<exists>f < slots h. probed (slots h) (hash_home h) f (view h))"

definition hash_map :: "(hash_elem \<Rightarrow> 'k) \<Rightarrow> hash_tab \<Rightarrow> 'k \<rightharpoonup> hash_elem" where
  "hash_map key h = ring_map (slots h) key (view h)"

section \<open>Updates of a slot\<close>

definition slot_update :: "nat \<Rightarrow> (hash_elem \<Rightarrow> bool) \<Rightarrow> hash_tab \<Rightarrow> nat \<Rightarrow> hash_elem option \<Rightarrow> hash_tab \<Rightarrow> bool" where
  "slot_update n valid h i x h' \<longleftrightarrow> hash_wf n valid h' \<and> capacity h' = capacity h \<and> hash h' = hash h \<and>
     comp h' = comp h \<and> aux h' = aux h \<and> elem_cnt h' = elem_cnt h \<and> view h' = (view h)(i := x)"

lemma replace_elem_ok:
  assumes "length (elem old) = n" and "length (elem new) = n"
  shows "replace_elem n old new = Some new"
  using assms by (simp add: replace_elem_def access_simps)

lemma wf_elem_length: "hash_wf n valid h \<Longrightarrow> i < slots h \<Longrightarrow> length (elem (buckets h ! i)) = n"
  by (auto simp: hash_wf_def)

lemma hash_wf_updated:
  assumes "hash_wf n valid h" and "length (elem b) = n" and "x \<noteq> 0 \<Longrightarrow> valid b"
  shows "hash_wf n valid (h\<lparr>occupied := (occupied h)[i := x], buckets := (buckets h)[i := b]\<rparr>)"
proof -
  have "valid ((buckets h)[i := b] ! j)" if "j < slots h" "(occupied h)[i := x] ! j \<noteq> 0" for j
    using that assms by (cases "i = j") (auto simp: hash_wf_def)
  then show ?thesis
    using assms(1,2) set_update_subset_insert [of "buckets h" i b] by (auto simp: hash_wf_def)
qed

lemma insert_elem_ok:
  assumes "hash_wf n valid h" and "i < slots h" and "length (elem e) = n" and "valid e"
  shows "\<exists>h'. insert_elem n h i e = Some h' \<and> slot_update n valid h i (Some e) h'"
proof -
  let ?h = "h\<lparr>occupied := (occupied h)[i := 1], buckets := (buckets h)[i := e]\<rparr>"
  have len: "i < length (occupied h)" "i < length (buckets h)" using assms by (auto simp: hash_wf_def)
  have "insert_elem n h i e = Some ?h"
    using len wf_elem_length [OF assms(1,2)] assms(3) by (simp add: insert_elem_def access_simps replace_elem_ok)
  moreover have "view ?h = (view h)(i := Some e)"
    using len by (auto simp: view_def fun_eq_iff)
  ultimately show ?thesis using hash_wf_updated [OF assms(1,3)] assms(4) by (auto simp: slot_update_def)
qed

lemma clear_elem_ok:
  assumes "hash_wf n valid h" and "i < slots h"
  shows "\<exists>h'. clear_elem n h i = Some h' \<and> slot_update n valid h i None h'"
proof -
  let ?b = "(buckets h ! i)\<lparr>elem_size := 0, elem := replicate n 0\<rparr>"
  let ?h = "h\<lparr>occupied := (occupied h)[i := 0], buckets := (buckets h)[i := ?b]\<rparr>"
  have len: "i < length (occupied h)" "i < length (buckets h)" using assms by (auto simp: hash_wf_def)
  have "clear_elem n h i = Some ?h"
    using len wf_elem_length [OF assms] by (simp add: clear_elem_def access_simps)
  moreover have "view ?h = (view h)(i := None)"
    using len by (auto simp: view_def fun_eq_iff)
  ultimately show ?thesis using hash_wf_updated [OF assms(1), of ?b 0 i] by (auto simp: slot_update_def)
qed

lemma replace_at_ok:
  assumes "hash_wf n valid h" and "i < slots h" and "view h i \<noteq> None" and "length (elem e) = n" and "valid e"
  shows "slot_update n valid h i (Some e) (h\<lparr>buckets := (buckets h)[i := e]\<rparr>)"
proof -
  have len: "i < length (occupied h)" "i < length (buckets h)" using assms by (auto simp: hash_wf_def)
  have "view (h\<lparr>buckets := (buckets h)[i := e]\<rparr>) = (view h)(i := Some e)"
    using len assms(3) by (auto simp: view_def fun_eq_iff)
  then show ?thesis
    using hash_wf_updated [OF assms(1,4), of "occupied h ! i" i] assms(5) by (simp add: slot_update_def)
qed

lemma slot_update_home: "slot_update n valid h i x h' \<Longrightarrow> hash_home h' = hash_home h"
  by (simp add: slot_update_def hash_home_def fun_eq_iff)

lemma hash_home_cnt [simp]: "hash_home (h\<lparr>elem_cnt := c\<rparr>) = hash_home h"
  by (simp add: hash_home_def fun_eq_iff)

lemma view_cnt [simp]: "view (h\<lparr>elem_cnt := c\<rparr>) = view h"
  by (simp add: view_def fun_eq_iff)

lemma hash_wf_cnt [simp]: "hash_wf n valid (h\<lparr>elem_cnt := c\<rparr>) = hash_wf n valid h"
  by (simp add: hash_wf_def)

lemma hash_map_cnt [simp]: "hash_map key (h\<lparr>elem_cnt := c\<rparr>) = hash_map key h"
  by (simp add: hash_map_def)

lemma hash_home_less: "0 < slots h \<Longrightarrow> hash_home h e < slots h"
  unfolding hash_home_def by (simp add: word_arith_nat_mod unat_of_nat) (metis mod_less_divisor mod_mod_trivial unat_less_pow mod_less le_less_trans mod_less_eq_dividend)


section \<open>The functions a table is used with\<close>

definition hash_tab_ok :: "nat \<Rightarrow> (hash_elem \<Rightarrow> bool) \<Rightarrow> (hash_elem \<Rightarrow> aux_ptr \<Rightarrow> u32 option) \<Rightarrow>
    (hash_elem \<Rightarrow> hash_elem \<Rightarrow> aux_ptr \<Rightarrow> int option) \<Rightarrow> (hash_elem \<Rightarrow> 'k) \<Rightarrow> hash_tab \<Rightarrow> bool" where
  "hash_tab_ok n valid hf cf key h \<longleftrightarrow> hash h = hf \<and> comp h = cf \<and> hash_inv n valid key h"

text \<open>
  \<open>n\<close> is the size of an element, \<open>valid\<close> says on which elements the two functions are defined, and
  \<open>key\<close> is what identifies an element: the hash is a function of the key and the comparison is zero
  exactly on equal keys.
\<close>

locale keyed_hash =
  fixes n :: nat
    and valid :: "hash_elem \<Rightarrow> bool"
    and hf :: "hash_elem \<Rightarrow> aux_ptr \<Rightarrow> u32 option"
    and cf :: "hash_elem \<Rightarrow> hash_elem \<Rightarrow> aux_ptr \<Rightarrow> int option"
    and key :: "hash_elem \<Rightarrow> 'k"
  assumes valid_length: "valid e \<Longrightarrow> length (elem e) = n"
    and hash_returns: "valid e \<Longrightarrow> \<exists>w. hf e x = Some w"
    and hash_of_key: "valid a \<Longrightarrow> valid b \<Longrightarrow> key a = key b \<Longrightarrow> hf a x = hf b x"
    and comp_of_key: "valid a \<Longrightarrow> valid b \<Longrightarrow>
      \<exists>d. cf a b x = Some d \<and> (d = 0 \<longleftrightarrow> key a = key b)"
begin

lemma hash_slot_home:
  assumes "hash h = hf" and "hash_wf n valid h" and "valid e"
  shows "hash_slot h e = Some (hash_home h e)"
  using hash_returns [OF assms(3), of "aux h"] assms(1,2)
  by (auto simp: hash_slot_def hash_home_def hash_wf_def)

lemma home_of_key:
  assumes "hash h = hf" and "valid a" and "valid b" and "key a = key b"
  shows "hash_home h a = hash_home h b"
  using hash_of_key [OF assms(2-4)] assms(1) by (simp add: hash_home_def)

lemma view_valid: "hash_wf n valid h \<Longrightarrow> i < slots h \<Longrightarrow> view h i = Some b \<Longrightarrow> valid b"
  by (auto simp: view_def hash_wf_def split: if_splits)

text \<open>Reading slot \<open>i\<close> and comparing it with \<open>e\<close>.\<close>

lemma slot_read:
  assumes "hash_wf n valid h" and "i < slots h"
  shows "rd (occupied h) i = Some (occupied h ! i)" and "rd (buckets h) i = Some (buckets h ! i)"
    and "occupied h ! i \<noteq> 0 \<longleftrightarrow> view h i \<noteq> None"
    and "view h i = Some b \<Longrightarrow> buckets h ! i = b"
  using assms by (auto simp: hash_wf_def access_simps view_def split: if_splits)

lemma slot_compare:
  assumes "comp h = cf" and "hash_wf n valid h" and "i < slots h" and "valid e" and "view h i = Some b"
  obtains d where "comp h (buckets h ! i) e (aux h) = Some d" and "d = 0 \<longleftrightarrow> key b = key e"
proof -
  obtain d where "cf b e (aux h) = Some d" "d = 0 \<longleftrightarrow> key b = key e"
    using comp_of_key view_valid [OF assms(2,3,5)] assms(4) by blast
  then show thesis using that slot_read(4) [OF assms(2,3,5)] assms(1) by simp
qed

text \<open>The three outcomes of looking at a slot.\<close>

lemma slot_cases:
  assumes "comp h = cf" and "hash_wf n valid h" and "i < slots h" and "valid e"
  obtains (free) "view h i = None" and "occupied h ! i = 0" and "stops key (view h) (key e) i"
  | (hit) b where "view h i = Some b" and "occupied h ! i \<noteq> 0" and "key b = key e"
      and "comp h (buckets h ! i) e (aux h) = Some 0" and "stops key (view h) (key e) i"
  | (miss) d where "occupied h ! i \<noteq> 0" and "d \<noteq> 0" and "comp h (buckets h ! i) e (aux h) = Some d"
      and "\<not> stops key (view h) (key e) i"
proof (cases "view h i")
  case None
  then show thesis using free by (simp add: stops_def view_def split: if_splits)
next
  case (Some b)
  obtain d where "comp h (buckets h ! i) e (aux h) = Some d" "d = 0 \<longleftrightarrow> key b = key e"
    using slot_compare [OF assms Some] by blast
  then show thesis
    using hit [OF Some] miss Some slot_read(3) [OF assms(2,3)] by (cases "d = 0") (auto simp: stops_def)
qed

lemma next_slot_walk:
  assumes "s < slots h" and "d < slots h"
  shows "next_slot h ((s + d) mod slots h) = (s + Suc d) mod slots h"
    and "Suc (s + d) mod slots h = s \<longleftrightarrow> Suc d = slots h"
    and "s = Suc (s + d) mod slots h \<longleftrightarrow> Suc d = slots h"
proof -
  show "next_slot h ((s + d) mod slots h) = (s + Suc d) mod slots h"
    by (simp add: next_slot_def mod_Suc_eq)
  have "(s + Suc d) mod slots h = s \<longleftrightarrow> Suc d = slots h"
  proof
    assume eq: "(s + Suc d) mod slots h = s"
    show "Suc d = slots h"
    proof (cases "s + Suc d < slots h")
      case True
      with eq show ?thesis by simp
    next
      case False
      then have "(s + Suc d) mod slots h = s + Suc d - slots h"
        using assms by (simp add: mod_if)
      with eq False show ?thesis by linarith
    qed
  next
    assume "Suc d = slots h"
    with assms show "(s + Suc d) mod slots h = s" by simp
  qed
  then show "Suc (s + d) mod slots h = s \<longleftrightarrow> Suc d = slots h"
    and "s = Suc (s + d) mod slots h \<longleftrightarrow> Suc d = slots h" by auto
qed

text \<open>The search loops run to the slot where the abstract search stops.\<close>

lemma find_probe_walk:
  assumes "comp h = cf" and "hash_wf n valid h" and "valid e" and "s < slots h" and "d < slots h"
  shows "find_probe h e s ((s + d) mod slots h) =
    (case find (\<lambda>d. stops key (view h) (key e) ((s + d) mod slots h)) [d..<slots h] of
       None \<Rightarrow> Some None
     | Some d' \<Rightarrow> Some (if view h ((s + d') mod slots h) = None then None else Some ((s + d') mod slots h)))"
  using assms(5)
proof (induction "slots h - d" arbitrary: d)
  case 0
  then show ?case by simp
next
  case (Suc m)
  let ?i = "(s + d) mod slots h"
  have i: "?i < slots h" using assms(2) by (simp add: hash_wf_def)
  note walk = next_slot_walk [OF assms(4) Suc.prems] and read = slot_read [OF assms(2) i]
  have upt: "[d..<slots h] = d # [Suc d..<slots h]" using Suc.prems by (simp add: upt_conv_Cons)
  show ?case
  proof (cases rule: slot_cases [OF assms(1,2) i assms(3)])
    case 1
    then show ?thesis by (subst find_probe.simps) (simp add: read upt)
  next
    case (2 b)
    then show ?thesis by (subst find_probe.simps) (simp add: read upt)
  next
    case (3 c)
    then have step: "find_probe h e s ?i =
      (if Suc d = slots h then Some None else find_probe h e s ((s + Suc d) mod slots h))"
      by (subst find_probe.simps) (auto simp: read walk)
    show ?thesis
    proof (cases "Suc d = slots h")
      case True
      with step 3 show ?thesis by (simp add: upt)
    next
      case False
      then have "Suc d < slots h" using Suc.prems by simp
      moreover have "m = slots h - Suc d" using Suc.hyps(2) by simp
      ultimately show ?thesis using step 3 False Suc.hyps(1) [of "Suc d"] by (simp add: upt)
    qed
  qed
qed

lemma insert_probe_walk:
  assumes "comp h = cf" and "hash_wf n valid h" and "valid e" and "s < slots h" and "d < slots h"
  shows "insert_probe n h e s ((s + d) mod slots h) =
    (case find (\<lambda>d. stops key (view h) (key e) ((s + d) mod slots h)) [d..<slots h] of
       None \<Rightarrow> Some (h, False)
     | Some d' \<Rightarrow> insert_probe n h e s ((s + d') mod slots h))"
  using assms(5)
proof (induction "slots h - d" arbitrary: d)
  case 0
  then show ?case by simp
next
  case (Suc m)
  let ?i = "(s + d) mod slots h"
  have i: "?i < slots h" using assms(2) by (simp add: hash_wf_def)
  note walk = next_slot_walk [OF assms(4) Suc.prems] and read = slot_read [OF assms(2) i]
  have upt: "[d..<slots h] = d # [Suc d..<slots h]" using Suc.prems by (simp add: upt_conv_Cons)
  show ?case
  proof (cases rule: slot_cases [OF assms(1,2) i assms(3)])
    case 1
    then show ?thesis by (simp add: upt)
  next
    case (2 b)
    then show ?thesis by (simp add: upt)
  next
    case (3 c)
    then have step: "insert_probe n h e s ?i =
      (if Suc d = slots h then Some (h, False) else insert_probe n h e s ((s + Suc d) mod slots h))"
      by (subst insert_probe.simps) (auto simp: read walk)
    show ?thesis
    proof (cases "Suc d = slots h")
      case True
      with step 3 show ?thesis by (simp add: upt)
    next
      case False
      then have "Suc d < slots h" using Suc.prems by simp
      moreover have "m = slots h - Suc d" using Suc.hyps(2) by simp
      ultimately show ?thesis using step 3 False Suc.hyps(1) [of "Suc d"] by (simp add: upt)
    qed
  qed
qed

end


section \<open>Search, insertion and replacement\<close>

context keyed_hash
begin

abbreviation ok :: "hash_tab \<Rightarrow> bool" where
  "ok \<equiv> hash_tab_ok n valid hf cf key"

lemma okD:
  assumes "ok h"
  shows "hash h = hf" and "comp h = cf" and "hash_wf n valid h" and "0 < slots h"
    and "keys_distinct (slots h) key (view h)" and "unat (elem_cnt h) = filled (slots h) (view h)"
    and "\<exists>f < slots h. probed (slots h) (hash_home h) f (view h)"
  using assms by (auto simp: hash_tab_ok_def hash_inv_def hash_wf_def)

lemma home_less: "ok h \<Longrightarrow> hash_home h e < slots h"
  using okD(4) hash_home_less by blast

lemma okI:
  assumes "ok h" and "slot_update n valid h i x h'" and "keys_distinct (slots h) key ((view h)(i := x))"
    and "unat c = filled (slots h) ((view h)(i := x))"
    and "\<exists>f < slots h. probed (slots h) (hash_home h) f ((view h)(i := x))"
  shows "ok (h'\<lparr>elem_cnt := c\<rparr>)"
  using assms slot_update_home [OF assms(2)] okD [OF assms(1)]
  by (simp add: hash_tab_ok_def hash_inv_def slot_update_def)

text \<open>The abstract search of a key that is present, and of one that is not.\<close>

lemma stop_present:
  assumes "ok h" and "valid e" and "hash_map key h (key e) = Some b"
  obtains d i where "probe_stop (slots h) key (view h) (key e) (hash_home h e) = Some d"
    and "i = (hash_home h e + d) mod slots h" and "i < slots h" and "view h i = Some b" and "key b = key e"
proof -
  note o = okD [OF assms(1)]
  obtain i where i: "i < slots h" "view h i = Some b" "key b = key e"
    using assms(3) unfolding hash_map_def ring_map_Some_iff [OF o(5)] by blast
  have home: "hash_home h b = hash_home h e"
    by (rule home_of_key [OF o(1) view_valid [OF o(3) i(1,2)] assms(2) i(3)])
  obtain f where f: "f < slots h" "probed (slots h) (hash_home h) f (view h)" using o(7) by blast
  obtain d where
    "probe_stop (slots h) key (view h) (key b) (hash_home h b) = Some d" "(hash_home h b + d) mod slots h = i"
    by (rule probe_stop_present [OF f(2,1) home_less [OF assms(1)] i(1,2) o(5)])
  then show thesis using that i home by simp
qed

lemma stop_absent:
  assumes "ok h" and "hash_map key h (key e) = None"
    and "probe_stop (slots h) key (view h) (key e) (hash_home h e) = Some d"
  shows "view h ((hash_home h e + d) mod slots h) = None"
proof (rule ccontr)
  let ?i = "(hash_home h e + d) mod slots h"
  note o = okD [OF assms(1)]
  assume "view h ?i \<noteq> None"
  then obtain b where "view h ?i = Some b" "key b = key e"
    using assms(3) by (auto simp: probe_stop_Some_iff stops_def)
  with ring_map_slot [OF o(5), of ?i b] assms(2) o(4) show False by (simp add: hash_map_def)
qed

lemma find_ok:
  assumes "ok h" and "valid e"
  shows "\<exists>r. hash_find h e = Some r \<and>
    (case r of
       None \<Rightarrow> hash_map key h (key e) = None
     | Some i \<Rightarrow> i < slots h \<and> view h i \<noteq> None \<and> hash_map key h (key e) = view h i)"
proof -
  note o = okD [OF assms(1)]
  let ?s = "hash_home h e"
  have find: "hash_find h e = (case probe_stop (slots h) key (view h) (key e) ?s of
       None \<Rightarrow> Some None
     | Some d \<Rightarrow> Some (if view h ((?s + d) mod slots h) = None then None else Some ((?s + d) mod slots h)))"
    using find_probe_walk [OF o(2,3) assms(2) home_less [OF assms(1), of e] o(4)] home_less [OF assms(1), of e]
    by (simp add: hash_find_def hash_slot_home [OF o(1,3) assms(2)] probe_stop_def)
  show ?thesis
  proof (cases "hash_map key h (key e)")
    case (Some b)
    from stop_present [OF assms Some] obtain d i where
      "probe_stop (slots h) key (view h) (key e) ?s = Some d" "i = (?s + d) mod slots h"
      "i < slots h" "view h i = Some b" by metis
    with Some show ?thesis by (simp add: find)
  next
    case None
    then show ?thesis
      using stop_absent [OF assms(1) None]
      by (cases "probe_stop (slots h) key (view h) (key e) ?s") (auto simp: find)
  qed
qed

lemma put_ok:
  assumes "ok h" and "valid e" and "i < slots h" and "view h i = Some b" and "key b = key e"
    and "slot_update n valid h i (Some e) h'"
  shows "ok h' \<and> hash_map key h' = (hash_map key h)(key e \<mapsto> e) \<and> capacity h' = capacity h"
proof -
  note o = okD [OF assms(1)]
  have only: "\<And>j c. j < slots h \<Longrightarrow> view h j = Some c \<Longrightarrow> key c = key e \<Longrightarrow> j = i"
    using keys_distinctD [OF o(5) _ assms(3) _ assms(4)] assms(5) by metis
  have same: "\<And>c. view h i = Some c \<Longrightarrow> key c = key e" using assms(4,5) by simp
  have put: "keys_distinct (slots h) key ((view h)(i \<mapsto> e))"
    "ring_map (slots h) key ((view h)(i \<mapsto> e)) = (ring_map (slots h) key (view h))(key e \<mapsto> e)"
    by (rule ring_put [OF o(5) assms(3)]; fact only same)+
  have "hash_home h e = hash_home h b"
    using home_of_key [OF o(1)] view_valid [OF o(3) assms(3,4)] assms(2,5) by metis
  then have "\<exists>f < slots h. probed (slots h) (hash_home h) f ((view h)(i \<mapsto> e))"
    using o(7) probed_replace assms(4) by metis
  then have "ok (h'\<lparr>elem_cnt := elem_cnt h\<rparr>)"
    using okI [OF assms(1,6) put(1)] o(6) filled_overwrite [where v = "view h", OF assms(4)] by metis
  moreover have "h'\<lparr>elem_cnt := elem_cnt h\<rparr> = h'" using assms(6) by (simp add: slot_update_def)
  ultimately show ?thesis using assms(6) put(2) by (simp add: hash_map_def slot_update_def)
qed

text \<open>Filling the free slot where the search for the key of \<open>e\<close> stops.\<close>

lemma fill_free_ok:
  assumes "ok h" and "valid e" and room: "filled (slots h) (view h) < slots h"
    and d: "probe_stop (slots h) key (view h) (key e) (hash_home h e) = Some d"
    and i_def: "i = (hash_home h e + d) mod slots h" and None: "view h i = None"
    and h1: "slot_update n valid h i (Some e) h1"
  shows "ok (h1\<lparr>elem_cnt := elem_cnt h + 1\<rparr>) \<and> capacity h1 = capacity h \<and> hash_map key h1 = (hash_map key h)(key e \<mapsto> e)"
proof -
  note o = okD [OF assms(1)]
  have i: "i < slots h" using o(4) by (simp add: i_def)
  have absent: "j = i" if "j < slots h" "view h j = Some b" "key b = key e" for j b
  proof -
    have "hash_map key h (key e) = Some b" using that ring_map_slot [OF o(5)] by (metis hash_map_def)
    with stop_present [OF assms(1,2)] d None show "j = i" by (metis i_def option.distinct(1) option.inject)
  qed
  have put: "keys_distinct (slots h) key ((view h)(i \<mapsto> e))"
    "ring_map (slots h) key ((view h)(i \<mapsto> e)) = (ring_map (slots h) key (view h))(key e \<mapsto> e)"
    using ring_put [OF o(5) i absent] None by auto
  have "unat (elem_cnt h) < 2 ^ LENGTH(32) - 1"
    using room o(6) unat_less_pow [of "capacity h"] by simp
  from unat_plus_one [OF this] have "unat (elem_cnt h + 1) = filled (slots h) ((view h)(i \<mapsto> e))"
    using o(6) filled_put [where v = "view h", OF i None] by simp
  moreover have "\<exists>f < slots h. probed (slots h) (hash_home h) f ((view h)(i \<mapsto> e))"
    using o(7) probed_insert [where home = "hash_home h" and v = "view h",
        OF _ _ home_less [OF assms(1)] d i_def None] i by blast
  ultimately show ?thesis using okI [OF assms(1) h1 put(1)] put(2) h1 by (auto simp: hash_map_def slot_update_def)
qed

text \<open>Insertion: a full table refuses (also a key it has), any other table maps the key to the element.\<close>

lemma insert_ok:
  assumes "ok h" and "valid e"
  shows "\<exists>h' r. hash_insert n h e = Some (h', r) \<and> ok h' \<and> capacity h' = capacity h \<and>
    (if card (dom (hash_map key h)) = slots h then \<not> r \<and> h' = h
     else r \<and> hash_map key h' = (hash_map key h)(key e \<mapsto> e))"
proof -
  note o = okD [OF assms(1)]
  let ?s = "hash_home h e"
  have full: "capacity h = elem_cnt h \<longleftrightarrow> card (dom (hash_map key h)) = slots h"
    using o(6) filled_card_dom(1) [OF o(5)] by (auto simp: hash_map_def word_unat_eq_iff)
  show ?thesis
  proof (cases "card (dom (hash_map key h)) = slots h")
    case True
    with full assms(1) show ?thesis by (auto simp: hash_insert_def)
  next
    case False
    then have room: "filled (slots h) (view h) < slots h"
      using filled_card_dom(1) [OF o(5)] filled_le [of "slots h" "view h"] by (simp add: hash_map_def)
    obtain j where "j < slots h" "view h j = None" using filled_less_free [OF room] by blast
    then obtain d where d: "probe_stop (slots h) key (view h) (key e) ?s = Some d"
      using probe_stop_free [OF home_less [OF assms(1)]] by metis
    define i where "i = (?s + d) mod slots h"
    have i: "i < slots h" using o(4) by (simp add: i_def)
    note read = slot_read [OF o(3) i]
    have run: "hash_insert n h e = insert_probe n h e ?s i"
      using False full d insert_probe_walk [OF o(2,3) assms(2) home_less [OF assms(1), of e] o(4), folded probe_stop_def]
      by (simp add: hash_insert_def hash_slot_home [OF o(1,3) assms(2)] i_def home_less [OF assms(1)])
    show ?thesis
    proof (cases "view h i")
      case (Some b)
      then have b: "key b = key e" using d by (simp add: probe_stop_Some_iff stops_def i_def)
      obtain c where "comp h (buckets h ! i) e (aux h) = Some c" "c = 0"
        using slot_compare [OF o(2,3) i assms(2) Some] b by blast
      moreover have "replace_elem n (buckets h ! i) e = Some e"
        by (rule replace_elem_ok [OF wf_elem_length [OF o(3) i] valid_length [OF assms(2)]])
      moreover have "i < length (buckets h)" using o(3) i by (simp add: hash_wf_def)
      ultimately have "hash_insert n h e = Some (h\<lparr>buckets := (buckets h)[i := e]\<rparr>, True)"
        unfolding run using Some by (subst insert_probe.simps) (simp add: read access_simps)
      then show ?thesis
        using put_ok [OF assms i Some b replace_at_ok [OF o(3) i _ valid_length [OF assms(2)] assms(2)]] Some False by auto
    next
      case None
      obtain h1 where h1: "insert_elem n h i e = Some h1" "slot_update n valid h i (Some e) h1"
        using insert_elem_ok [OF o(3) i valid_length [OF assms(2)] assms(2)] by blast
      then have "hash_insert n h e = Some (h1\<lparr>elem_cnt := elem_cnt h1 + 1\<rparr>, True)"
        unfolding run using None by (subst insert_probe.simps) (simp add: read)
      moreover have cnt: "elem_cnt h1 = elem_cnt h" using h1(2) by (simp add: slot_update_def)
      ultimately show ?thesis using fill_free_ok [OF assms room d i_def None h1(2)] cnt False by auto
    qed
  qed
qed

lemma replace_ok:
  assumes "ok h" and "valid e"
  shows "\<exists>h' r. hash_replace n h e = Some (h', r) \<and> ok h' \<and> capacity h' = capacity h \<and>
    (if hash_map key h (key e) = None then \<not> r \<and> h' = h
     else r \<and> hash_map key h' = (hash_map key h)(key e \<mapsto> e))"
proof -
  note o = okD [OF assms(1)]
  obtain r where r: "hash_find h e = Some r" "case r of None \<Rightarrow> hash_map key h (key e) = None
     | Some i \<Rightarrow> i < slots h \<and> view h i \<noteq> None \<and> hash_map key h (key e) = view h i"
    using find_ok [OF assms] by blast
  show ?thesis
  proof (cases r)
    case None
    with r assms(1) show ?thesis by (auto simp: hash_replace_def)
  next
    case (Some i)
    with r(2) obtain b where b: "i < slots h" "view h i = Some b" "hash_map key h (key e) = Some b" by auto
    then have "key b = key e" unfolding hash_map_def ring_map_Some_iff [OF o(5)] by blast
    note put = put_ok [OF assms b(1,2) this replace_at_ok [OF o(3) b(1) _ valid_length [OF assms(2)] assms(2)]]
    have "i < length (buckets h)" using o(3) b(1) by (simp add: hash_wf_def)
    then have "hash_replace n h e = Some (h\<lparr>buckets := (buckets h)[i := e]\<rparr>, True)"
      using r(1) Some replace_elem_ok [OF wf_elem_length [OF o(3) b(1)] valid_length [OF assms(2)]]
      by (simp add: hash_replace_def access_simps)
    with put b show ?thesis by auto
  qed
qed

end


section \<open>Deletion\<close>

text \<open>What the repair loop keeps: everything but the arrangement of the entries.\<close>

definition tab_moved :: "nat \<Rightarrow> (hash_elem \<Rightarrow> bool) \<Rightarrow> (hash_elem \<Rightarrow> 'k) \<Rightarrow> hash_tab \<Rightarrow> hash_tab \<Rightarrow> bool" where
  "tab_moved n valid key h h' \<longleftrightarrow> hash_wf n valid h' \<and> capacity h' = capacity h \<and> hash h' = hash h \<and>
     comp h' = comp h \<and> aux h' = aux h \<and> elem_cnt h' = elem_cnt h \<and>
     rearranged (slots h) key (view h) (view h')"

lemma tab_moved_refl: "hash_wf n valid h \<Longrightarrow> tab_moved n valid key h h"
  by (simp add: tab_moved_def)

lemma tab_moved_trans: "tab_moved n valid key h h1 \<Longrightarrow> tab_moved n valid key h1 h2 \<Longrightarrow> tab_moved n valid key h h2"
  by (auto simp: tab_moved_def intro: rearranged_trans)

lemma tab_moved_home: "tab_moved n valid key h h' \<Longrightarrow> hash_home h' = hash_home h"
  by (simp add: tab_moved_def hash_home_def fun_eq_iff)

lemma next_slot_slot: "next_slot h (slot (slots h) f p) = slot (slots h) f (Suc p)"
  using slot_Suc [of "slots h" f p] by (simp add: next_slot_def)

context keyed_hash
begin

text \<open>The inner loop stops at the first free slot \<open>g\<close>, or at \<open>p\<close>.\<close>

lemma movable_ok:
  assumes "hash_wf n valid h" and "f < slots h" and "p < slots h" and "q \<le> g" and "g \<le> p"
    and "\<And>r. q \<le> r \<Longrightarrow> r < g \<Longrightarrow> view h (slot (slots h) f r) \<noteq> None"
    and "g = p \<or> view h (slot (slots h) f g) = None"
  shows "movable_probe h (slot (slots h) f p) (slot (slots h) f q) = Some (slot (slots h) f g)"
  using assms(4,6)
proof (induction "g - q" arbitrary: q)
  case 0
  then have "q = g" by simp
  show ?case
  proof (cases "g = p")
    case True
    with \<open>q = g\<close> show ?thesis by (subst movable_probe.simps) simp
  next
    case False
    then have "slot (slots h) f g \<noteq> slot (slots h) f p" "view h (slot (slots h) f g) = None"
      using assms(2,3,5,7) by (auto simp: slot_inject)
    moreover have "slot (slots h) f g < slots h" using assms(2) by simp
    ultimately show ?thesis
      using \<open>q = g\<close> slot_read [OF assms(1)] by (subst movable_probe.simps) simp
  qed
next
  case (Suc m)
  then have q: "q < g" "m = g - Suc q" by auto
  then have ne: "slot (slots h) f q \<noteq> slot (slots h) f p"
    using assms(2,3,5) by (simp add: slot_inject)
  have "slot (slots h) f q < slots h" using assms(2) by simp
  note read = slot_read [OF assms(1) this]
  have "movable_probe h (slot (slots h) f p) (slot (slots h) f q) =
      movable_probe h (slot (slots h) f p) (slot (slots h) f (Suc q))"
    using ne read Suc.prems(2) [of q] q(1) by (subst movable_probe.simps) (simp add: next_slot_slot)
  then show ?case using Suc.hyps(1) [OF q(2)] Suc.prems(2) q(1) by simp
qed

text \<open>One step of the repair.\<close>

lemma repair_step_stays:
  assumes "hash h = hf" and "hash_wf n valid h" and "f < slots h" and "p < slots h"
    and "view h (slot (slots h) f p) = Some a" and "pos (slots h) f (hash_home h a) \<le> p"
    and "\<And>r. pos (slots h) f (hash_home h a) \<le> r \<Longrightarrow> r < p \<Longrightarrow> view h (slot (slots h) f r) \<noteq> None"
  shows "repair_step n h (slot (slots h) f p) = Some h"
proof -
  have i: "slot (slots h) f p < slots h" using assms(3) by simp
  note read = slot_read [OF assms(2) i]
  have home: "hash_slot h a = Some (hash_home h a)"
    by (rule hash_slot_home [OF assms(1,2) view_valid [OF assms(2) i assms(5)]])
  have "hash_home h a < slots h" using assms(2) hash_home_less by (simp add: hash_wf_def)
  then have "slot (slots h) f (pos (slots h) f (hash_home h a)) = hash_home h a" using assms(3) by simp
  with movable_ok [OF assms(2-4) assms(6) order.refl assms(7)] have
    "movable_probe h (slot (slots h) f p) (hash_home h a) = Some (slot (slots h) f p)" by simp
  then show ?thesis using read(2) read(4) [OF assms(5)] home by (simp add: repair_step_def)
qed

lemma repair_step_ok:
  assumes hh: "hash h = hf" and wf: "hash_wf n valid h" and f: "f < slots h" and p: "p < slots h"
    and hol: "holed (slots h) (hash_home h) f (view h) g p" and a: "view h (slot (slots h) f p) = Some a"
  shows "\<exists>h' g'. repair_step n h (slot (slots h) f p) = Some h' \<and> tab_moved n valid key h h' \<and>
    holed (slots h) (hash_home h) f (view h') g' (Suc p)"
proof -
  let ?N = "slots h" and ?hp = "pos (slots h) f (hash_home h a)"
  have g: "g < p" "view h (slot ?N f g) = None" using hol by (auto simp: holed_def)
  have path: "?hp \<le> p" "\<And>r. ?hp \<le> r \<Longrightarrow> r < p \<Longrightarrow> view h (slot ?N f r) \<noteq> None \<or> r = g"
    using hol p a unfolding holed_def by blast+
  have i: "slot ?N f p < ?N" and j: "slot ?N f g < ?N" using f by simp_all
  note read = slot_read [OF wf i]
  have len: "valid a" by (rule view_valid [OF wf i a])
  show ?thesis
  proof (cases "?hp \<le> g")
    case False
    then have "repair_step n h (slot ?N f p) = Some h"
      using repair_step_stays [OF hh wf f p a path(1)] path(2) by fastforce
    then show ?thesis using tab_moved_refl [OF wf] holed_keep [OF hol p a] False by auto
  next
    case True
    have "hash_home h a < ?N" using wf hash_home_less by (simp add: hash_wf_def)
    then have home: "slot ?N f ?hp = hash_home h a" using f by simp
    have "\<And>r. ?hp \<le> r \<Longrightarrow> r < g \<Longrightarrow> view h (slot ?N f r) \<noteq> None" using path(2) g(1) by fastforce
    with movable_ok [OF wf f p True less_imp_le [OF g(1)]] g(2) home have
      mov: "movable_probe h (slot ?N f p) (hash_home h a) = Some (slot ?N f g)" by simp
    have ne: "slot ?N f g \<noteq> slot ?N f p" "hash_home h a \<noteq> slot ?N f p"
      using f p g(1) True home by (auto simp: slot_inject)
    obtain h1 where h1: "insert_elem n h (slot ?N f g) a = Some h1" "slot_update n valid h (slot ?N f g) (Some a) h1"
      using insert_elem_ok [OF wf j valid_length [OF len] len] by blast
    obtain h2 where h2: "clear_elem n h1 (slot ?N f p) = Some h2" "slot_update n valid h1 (slot ?N f p) None h2"
      using clear_elem_ok [of n valid h1 "slot ?N f p"] h1(2) i by (auto simp: slot_update_def)
    have v2: "view h2 = (view h)(slot ?N f g \<mapsto> a, slot ?N f p := None)"
      using h1(2) h2(2) by (simp add: slot_update_def)
    have "repair_step n h (slot ?N f p) = Some h2"
      using read(2) read(4) [OF a] hash_slot_home [OF hh wf len] mov ne h1(1) h2(1)
      by (simp add: repair_step_def)
    moreover have "tab_moved n valid key h h2"
      using h1(2) h2(2) rearranged_move [OF j i g(2) a, of key] v2
      by (simp add: tab_moved_def slot_update_def)
    moreover have "holed ?N (hash_home h) f (view h2) p (Suc p)"
      unfolding v2 by (rule holed_move [OF hol p a f True])
    ultimately show ?thesis by blast
  qed
qed

text \<open>Once the invariant holds again, the rest of the loop changes nothing.\<close>

lemma repair_idle:
  assumes "hash h = hf" and "hash_wf n valid h" and "f < slots h" and "probed (slots h) (hash_home h) f (view h)"
    and "p < st" and "st < slots h"
  shows "repair_from n h (slot (slots h) f st) (slot (slots h) f p) = Some h"
  using assms(5)
proof (induction "st - p" arbitrary: p)
  case 0
  then show ?case by simp
next
  case (Suc m)
  let ?N = "slots h"
  have p: "p < ?N" using Suc.prems assms(6) by simp
  have i: "slot ?N f p < ?N" using assms(3) by simp
  note read = slot_read [OF assms(2) i]
  show ?case
  proof (cases "view h (slot ?N f p)")
    case None
    then show ?thesis using read by (subst repair_from.simps) simp
  next
    case (Some a)
    have "repair_step n h (slot ?N f p) = Some h"
      by (rule repair_step_stays [OF assms(1-3) p Some]) (use assms(4) p Some in \<open>auto simp: probed_def\<close>)
    then have "repair_from n h (slot ?N f st) (slot ?N f p) =
      (if slot ?N f (Suc p) = slot ?N f st then Some h else repair_from n h (slot ?N f st) (slot ?N f (Suc p)))"
      using read Some by (subst repair_from.simps) (simp add: next_slot_slot)
    then show ?thesis
      using Suc.hyps(1) [of "Suc p"] Suc.hyps(2) Suc.prems by (cases "Suc p = st") auto
  qed
qed

lemma repair_from_ok:
  assumes "hash h = hf" and "hash_wf n valid h" and "f < slots h" and "p < slots h" and "st < p"
    and "holed (slots h) (hash_home h) f (view h) g p"
  shows "\<exists>h'. repair_from n h (slot (slots h) f st) (slot (slots h) f p) = Some h' \<and> tab_moved n valid key h h' \<and>
    probed (slots h) (hash_home h) f (view h')"
  using assms
proof (induction "slots h - p" arbitrary: h p g)
  case 0
  then show ?case by simp
next
  case (Suc m)
  let ?N = "slots h"
  have i: "slot ?N f p < ?N" using Suc.prems(3) by simp
  note read = slot_read [OF Suc.prems(2) i]
  show ?case
  proof (cases "view h (slot ?N f p)")
    case None
    then have "repair_from n h (slot ?N f st) (slot ?N f p) = Some h"
      using read by (subst repair_from.simps) simp
    then show ?thesis using tab_moved_refl [OF Suc.prems(2)] holed_stop [OF Suc.prems(6) None] by blast
  next
    case (Some a)
    obtain h1 g1 where h1: "repair_step n h (slot ?N f p) = Some h1" "tab_moved n valid key h h1"
      "holed ?N (hash_home h) f (view h1) g1 (Suc p)"
      using repair_step_ok [OF Suc.prems(1-4) Suc.prems(6) Some] by blast
    have h1N: "slots h1 = ?N" "hash h1 = hf" "hash_wf n valid h1" "hash_home h1 = hash_home h"
      using h1(2) Suc.prems(1) tab_moved_home [OF h1(2)] by (simp_all add: tab_moved_def)
    have step: "repair_from n h (slot ?N f st) (slot ?N f p) =
      (if slot ?N f (Suc p) = slot ?N f st then Some h1 else repair_from n h1 (slot ?N f st) (slot ?N f (Suc p)))"
      using read Some h1(1) next_slot_slot [of h1 f p] h1N(1) by (subst repair_from.simps) simp
    show ?thesis
    proof (cases "Suc p = ?N")
      case True
      then have pr: "probed ?N (hash_home h) f (view h1)" using holed_end h1(3) by metis
      have "repair_from n h (slot ?N f st) (slot ?N f p) = Some h1"
        using step True repair_idle [of h1 f 0 st] h1N pr Suc.prems(3-5) by (cases "st = 0") auto
      with h1(2) pr show ?thesis by blast
    next
      case False
      then have lt: "Suc p < ?N" using Suc.prems(4) by simp
      then have "slot ?N f (Suc p) \<noteq> slot ?N f st" using Suc.prems(3,5) by (simp add: slot_inject)
      then show ?thesis
        using step Suc.hyps(1) [of h1 "Suc p" g1] Suc.hyps(2) h1 h1N lt Suc.prems(3,5) tab_moved_trans [OF h1(2)]
        by fastforce
    qed
  qed
qed

lemma repair_after_clear:
  assumes "hash h = hf" and "hash_wf n valid h" and "f < slots h" and "i < slots h"
    and "view h = v(i := None)" and "probed (slots h) (hash_home h) f v"
  shows "\<exists>h'. repair_from n h i (next_slot h i) = Some h' \<and> tab_moved n valid key h h' \<and>
    probed (slots h) (hash_home h) f (view h')"
proof -
  let ?N = "slots h"
  define st where "st = pos ?N f i"
  have st: "st < ?N" "slot ?N f st = i" using assms(3,4) by (simp_all add: st_def)
  have hol: "holed ?N (hash_home h) f (view h) st (Suc st)"
    using holed_start [OF assms(6,3) st(1)] assms(5) st(2) by simp
  have nxt: "next_slot h i = slot ?N f (Suc st)" using next_slot_slot [of h f st] st(2) by simp
  show ?thesis
  proof (cases "Suc st = ?N")
    case True
    then have pr: "probed ?N (hash_home h) f (view h)" using hol holed_end by metis
    have "repair_from n h i (next_slot h i) = Some h"
    proof (cases "st = 0")
      case True
      then have "next_slot h i = i" using nxt st(2) \<open>Suc st = ?N\<close> by (metis slot_wrap)
      then show ?thesis
        using slot_read [OF assms(2,4)] assms(5) by (subst repair_from.simps) simp
    next
      case False
      then show ?thesis
        using repair_idle [OF assms(1-3) pr, of 0 st] nxt st \<open>Suc st = ?N\<close> by (metis neq0_conv slot_wrap)
    qed
    then show ?thesis using pr tab_moved_refl [OF assms(2)] by blast
  next
    case False
    then show ?thesis
      using repair_from_ok [OF assms(1-3) _ _ hol, of st] nxt st by auto
  qed
qed

lemma delete_ok:
  assumes "ok h" and "valid e"
  shows "\<exists>h'. hash_delete n h e = Some (h', hash_map key h (key e) \<noteq> None) \<and> ok h' \<and> capacity h' = capacity h \<and>
    hash_map key h' = (hash_map key h)(key e := None)"
proof -
  note o = okD [OF assms(1)]
  let ?N = "slots h"
  obtain r where r: "hash_find h e = Some r" "case r of None \<Rightarrow> hash_map key h (key e) = None
     | Some i \<Rightarrow> i < slots h \<and> view h i \<noteq> None \<and> hash_map key h (key e) = view h i"
    using find_ok [OF assms] by blast
  then have probe: "find_probe h e (hash_home h e) (hash_home h e) = Some r"
    by (simp add: hash_find_def hash_slot_home [OF o(1,3) assms(2)])
  note del = hash_delete_def hash_slot_home [OF o(1,3) assms(2)] probe
  show ?thesis
  proof (cases r)
    case None
    with r assms(1) show ?thesis by (simp add: del fun_upd_idem)
  next
    case (Some i)
    with r(2) obtain b where b: "i < ?N" "view h i = Some b" "hash_map key h (key e) = Some b" by auto
    then have kb: "key b = key e" unfolding hash_map_def ring_map_Some_iff [OF o(5)] by blast
    obtain h1 where h1: "clear_elem n h i = Some h1" "slot_update n valid h i None h1"
      using clear_elem_ok [OF o(3) b(1)] by blast
    define h2 where "h2 = h1\<lparr>elem_cnt := elem_cnt h1 - 1\<rparr>"
    obtain f where f: "f < ?N" "probed ?N (hash_home h) f (view h)" using o(7) by blast
    have h2: "hash h2 = hf" "hash_wf n valid h2" "slots h2 = ?N" "hash_home h2 = hash_home h"
      "view h2 = (view h)(i := None)" "comp h2 = cf" "capacity h2 = capacity h"
      using h1(2) o(1,2) slot_update_home [OF h1(2)] by (simp_all add: h2_def slot_update_def)
    obtain h3 where h3: "repair_from n h2 i (next_slot h2 i) = Some h3" "tab_moved n valid key h2 h3"
      "probed ?N (hash_home h) f (view h3)"
      using repair_after_clear [OF h2(1,2), of f i "view h"] f b(1) h2 by auto
    have "hash_delete n h e = Some (h3, True)"
      using Some h1(1) h3(1) by (simp add: del h2_def next_slot_def)
    moreover have cnt: "Suc (filled ?N (view h2)) = unat (elem_cnt h)"
      using filled_remove [where v = "view h", OF b(1,2)] h2(5) o(6) by simp
    then have "elem_cnt h \<noteq> 0" by auto
    then have "unat (elem_cnt h2) = filled ?N (view h2)"
      using cnt h1(2) unat_minus_one [of "elem_cnt h"] by (simp add: h2_def slot_update_def)
    then have "ok h3"
      using h3 h2 f(1) ring_remove(1) [OF o(5) b(1,2)] tab_moved_home [OF h3(2)]
      by (auto simp: hash_tab_ok_def hash_inv_def tab_moved_def rearranged_def)
    moreover have "hash_map key h3 = (hash_map key h)(key e := None)"
      using rearranged_map [of ?N key "view h2" "view h3"] h3(2) ring_remove [OF o(5) b(1,2)] h2 kb
      by (simp add: hash_map_def tab_moved_def)
    moreover have "capacity h3 = capacity h" using h3(2) h2(7) by (simp add: tab_moved_def)
    ultimately show ?thesis using b(3) by simp
  qed
qed

end


section \<open>Initialisation\<close>

lemma clear_from_ok:
  assumes "hash_wf n valid h"
  shows "\<exists>h'. clear_from n h i = Some h' \<and> hash_wf n valid h' \<and> capacity h' = capacity h \<and> hash h' = hash h \<and>
    comp h' = comp h \<and> (\<forall>j. view h' j = (if i \<le> j \<and> j < slots h then None else view h j))"
  using assms
proof (induction "slots h - i" arbitrary: h i)
  case 0
  then show ?case by (subst clear_from.simps) auto
next
  case (Suc m)
  then have i: "i < slots h" "m = slots h - Suc i" by simp_all
  obtain h1 where h1: "clear_elem n h i = Some h1" "slot_update n valid h i None h1"
    using clear_elem_ok [OF Suc.prems i(1)] by blast
  then have c: "capacity h1 = capacity h" "hash_wf n valid h1" by (simp_all add: slot_update_def)
  obtain h' where "clear_from n h1 (Suc i) = Some h'" "hash_wf n valid h'" "capacity h' = capacity h"
    "hash h' = hash h" "comp h' = comp h"
    "\<forall>j. view h' j = (if Suc i \<le> j \<and> j < slots h then None else view h1 j)"
    using Suc.hyps(1) [of h1 "Suc i"] i(2) c h1(2) by (auto simp: slot_update_def)
  moreover have "view h1 = (view h)(i := None)" using h1(2) by (simp add: slot_update_def)
  ultimately show ?case using i h1(1) by (subst clear_from.simps) (auto split: if_splits)
qed

lemma ring_map_empty: "(\<And>i. i < N \<Longrightarrow> v i = None) \<Longrightarrow> ring_map N key v = Map.empty"
  by (rule ring_map_eqI) (auto simp: keys_distinct_def)

context keyed_hash
begin

lemma clear_ok:
  assumes "hash_wf n (\<lambda>_. True) h" and "hash h = hf" and "comp h = cf"
  shows "\<exists>h'. hash_clear n h = Some h' \<and> ok h' \<and> capacity h' = capacity h \<and> hash_map key h' = Map.empty \<and> elem_cnt h' = 0"
proof -
  obtain h' where h': "clear_from n h 0 = Some h'" "hash_wf n (\<lambda>_. True) h'" "capacity h' = capacity h"
    "hash h' = hash h" "comp h' = comp h" "\<forall>j. view h' j = (if j < slots h then None else view h j)"
    using clear_from_ok [OF assms(1), of 0] by auto
  then have empty: "\<And>j. j < slots h \<Longrightarrow> view h' j = None" by simp
  then have wf: "hash_wf n valid h'" using h'(2,3) unfolding hash_wf_def view_def by (metis option.distinct(1))
  have N: "0 < slots h" using assms(1) by (simp add: hash_wf_def)
  have "filled (slots h) (view h') = 0" using empty by (simp add: filled_def)
  moreover have "keys_distinct (slots h) key (view h')" using empty by (simp add: keys_distinct_def)
  moreover have "probed (slots h) (hash_home h') 0 (view h')" using empty N by (simp add: probed_def)
  ultimately have "ok (h'\<lparr>elem_cnt := 0\<rparr>)"
    using h' wf assms N by (auto simp: hash_tab_ok_def hash_inv_def)
  moreover have "hash_map key h' = Map.empty" using empty h'(3) by (simp add: hash_map_def ring_map_empty)
  ultimately show ?thesis using h' by (simp add: hash_clear_def)
qed

lemma init_ok:
  assumes "0 < N" and "length (buckets h) = unat N" and "length (occupied h) = unat N"
    and "\<forall>b \<in> set (buckets h). length (elem b) = n"
  shows "\<exists>h'. hash_init n N h hf cf ax = Some (h', True) \<and> ok h' \<and> capacity h' = N \<and> hash_map key h' = Map.empty"
proof -
  let ?h = "h\<lparr>capacity := N, hash := hf, comp := cf, aux := ax\<rparr>"
  have "hash_wf n (\<lambda>_. True) ?h" using assms by (simp add: hash_wf_def word_less_nat_alt)
  from clear_ok [OF this] obtain h' where "hash_clear n ?h = Some h'" "ok h'" "capacity h' = N"
    "hash_map key h' = Map.empty" "elem_cnt h' = 0" by auto
  then show ?thesis by (simp add: hash_init_def)
qed

text \<open>The size the table reports is the number of keys.\<close>

lemma size_ok: "ok h \<Longrightarrow> unat (hash_size h) = card (dom (hash_map key h)) \<and> card (dom (hash_map key h)) \<le> slots h \<and>
    finite (dom (hash_map key h))"
  using okD(5,6) [of h] filled_card_dom [of "slots h" key "view h"] filled_le [of "slots h" "view h"]
  by (simp add: hash_size_def hash_map_def)

text \<open>Only the key of the argument matters to a search.\<close>

lemma find_key_only:
  assumes "ok h" and "valid a" and "valid b" and "key a = key b"
  shows "hash_find h a = hash_find h b"
proof -
  note o = okD [OF assms(1)]
  have same: "hash_home h a = hash_home h b" by (rule home_of_key [OF o(1) assms(2-4)])
  show ?thesis
    using find_probe_walk [OF o(2,3) assms(2) home_less [OF assms(1), of a] o(4), unfolded same]
      find_probe_walk [OF o(2,3) assms(3) home_less [OF assms(1), of b] o(4)] assms(4)
      home_less [OF assms(1), of b]
    by (simp add: hash_find_def hash_slot_home [OF o(1,3)] assms(2,3) same)
qed

end

end
