(* ===== verification/Hash_Pool_Correct.thy ===== *)
theory Hash_Pool_Correct
  imports Hash_Pool Hash_Table_Correct Ip_Cursor
begin

text \<open>
  Correctness of the HASHMAP backend.  Both tables are interpretations of \<open>keyed_hash\<close>: the lease
  table with the first six bytes of an element as the key, the address set with all four.
  \<open>hash_pool_inv\<close> says that the two tables agree (the set holds exactly the leased addresses) and
  \<open>hash_leases\<close> is the lease map; the contract \<open>lease_server\<close> is interpreted at the end.
\<close>

section \<open>The two tables\<close>

definition mac_of :: "hash_elem \<Rightarrow> u8 list" where
  "mac_of e = take 6 (elem e)"

definition ip_of :: "hash_elem \<Rightarrow> u32" where
  "ip_of e = le_word (take 4 (drop 6 (elem e)))"

definition expire_of :: "hash_elem \<Rightarrow> u32" where
  "expire_of e = le_word (take 4 (drop 10 (elem e)))"

lemma fnv_from_take:
  "i + k \<le> length bs \<Longrightarrow>
   fnv_from bs h i k = Some (foldl (\<lambda>h b. (h XOR ucast b) * 16777619) h (take k (drop i bs)))"
proof (induction k arbitrary: i h)
  case (Suc k)
  then have "drop i bs = bs ! i # drop (Suc i) bs" by (simp add: Cons_nth_drop_Suc)
  with Suc show ?case by (simp add: access_simps)
qed simp

lemma comp_from_take:
  "i + k \<le> length as \<Longrightarrow> i + k \<le> length bs \<Longrightarrow>
   \<exists>d. comp_from as bs i k = Some d \<and> (d = 0 \<longleftrightarrow> take k (drop i as) = take k (drop i bs))"
proof (induction k arbitrary: i)
  case (Suc k)
  then have "drop i as = as ! i # drop (Suc i) as" "drop i bs = bs ! i # drop (Suc i) bs"
    by (simp_all add: Cons_nth_drop_Suc)
  with Suc.IH [of "Suc i"] Suc.prems show ?case
    by (auto simp: access_simps word_uint_eq_iff)
qed simp

interpretation macs: keyed_hash HASH_ELEM_MAX "\<lambda>e. length (elem e) = HASH_ELEM_MAX" dhcp_mac_hash dhcp_mac_comp mac_of
proof (unfold_locales, assumption)
  fix e :: hash_elem and x assume "length (elem e) = HASH_ELEM_MAX"
  then show "\<exists>w. dhcp_mac_hash e x = Some w"
    by (simp add: dhcp_mac_hash_def fnv_from_take HASH_ELEM_MAX_def)
next
  fix a b :: hash_elem and x
  assume "length (elem a) = HASH_ELEM_MAX" "length (elem b) = HASH_ELEM_MAX" "mac_of a = mac_of b"
  then show "dhcp_mac_hash a x = dhcp_mac_hash b x"
    by (simp add: dhcp_mac_hash_def fnv_from_take HASH_ELEM_MAX_def mac_of_def)
next
  fix a b :: hash_elem and x
  assume "length (elem a) = HASH_ELEM_MAX" "length (elem b) = HASH_ELEM_MAX"
  then show "\<exists>d. dhcp_mac_comp a b x = Some d \<and> (d = 0 \<longleftrightarrow> mac_of a = mac_of b)"
    using comp_from_take [of 0 6 "elem a" "elem b"] by (simp add: dhcp_mac_comp_def HASH_ELEM_MAX_def mac_of_def)
qed

interpretation ips: keyed_hash HASH_ELEM_IP_SIZE "\<lambda>e. length (elem e) = HASH_ELEM_IP_SIZE" dhcp_ip_hash dhcp_ip_comp elem
proof (unfold_locales, assumption)
  fix e :: hash_elem and x assume "length (elem e) = HASH_ELEM_IP_SIZE"
  then show "\<exists>w. dhcp_ip_hash e x = Some w"
    by (simp add: dhcp_ip_hash_def fnv_from_take HASH_ELEM_IP_SIZE_def)
next
  fix a b :: hash_elem and x
  assume "length (elem a) = HASH_ELEM_IP_SIZE" "length (elem b) = HASH_ELEM_IP_SIZE" "elem a = elem b"
  then show "dhcp_ip_hash a x = dhcp_ip_hash b x" by (simp add: dhcp_ip_hash_def)
next
  fix a b :: hash_elem and x
  assume "length (elem a) = HASH_ELEM_IP_SIZE" "length (elem b) = HASH_ELEM_IP_SIZE"
  then show "\<exists>d. dhcp_ip_comp a b x = Some d \<and> (d = 0 \<longleftrightarrow> elem a = elem b)"
    using comp_from_take [of 0 4 "elem a" "elem b"] by (simp add: dhcp_ip_comp_def HASH_ELEM_IP_SIZE_def)
qed

section \<open>Invariant and lease map\<close>

definition hash_leases :: "dhcp_hashpool_t \<Rightarrow> lease_map" where
  "hash_leases p k = map_option (\<lambda>e. (ip_of e, expire_of e)) (hash_map mac_of (leases p) k)"

text \<open>The addresses in \<open>ip_set\<close>, whose elements are their bytes.\<close>

definition set_ips :: "dhcp_hashpool_t \<Rightarrow> u32 set" where
  "set_ips p = {ip. hash_map elem (ip_set p) (le_bytes ip) \<noteq> None}"

definition hash_pool_inv :: "u32 \<Rightarrow> u32 \<Rightarrow> dhcp_hashpool_t \<Rightarrow> bool" where
  "hash_pool_inv lo hi p \<longleftrightarrow> macs.ok (leases p) \<and> ips.ok (ip_set p) \<and>
     unat (capacity (leases p)) = HASH_N \<and> unat (capacity (ip_set p)) = HASH_N \<and>
     unat (max_leases p) \<le> HASH_N \<and> card (dom (hash_leases p)) \<le> unat (max_leases p) \<and>
     (\<forall>k1 k2 ip e1 e2. hash_leases p k1 = Some (ip, e1) \<longrightarrow> hash_leases p k2 = Some (ip, e2) \<longrightarrow> k1 = k2) \<and>
     set_ips p = leased_ips (hash_leases p) \<and>
     (\<forall>ip \<in> leased_ips (hash_leases p). lo \<le> ip \<and> ip \<le> hi) \<and>
     lo \<le> next_ip p \<and> next_ip p \<le> hi"


section \<open>Elements\<close>

lemma le_bytes_le_word: "length bs = 4 \<Longrightarrow> le_bytes (le_word bs) = bs"
proof -
  assume "length bs = 4"
  then obtain a b c d where bs: "bs = [a, b, c, d]" by (auto simp: length_Suc_conv numeral_eq_Suc)
  show ?thesis
    unfolding bs le_bytes_def le_word.simps list.inject
    by (intro conjI bit_word_eqI) (auto simp: bit_simps dest: bit_imp_le_length)
qed

lemma lease_fields:
  assumes "length (elem e) = HASH_ELEM_MAX"
  shows "elem_mac_address e = Some (mac_of e)" and "elem_ip_address e = Some (ip_of e)"
    and "elem_expire_time e = Some (expire_of e)" and "elem_ip_bytes e = Some (le_bytes (ip_of e))"
  using assms
  by (simp_all add: elem_mac_address_def elem_ip_address_def elem_expire_time_def elem_ip_bytes_def rd_bytes_def
      HASH_ELEM_MAX_def mac_of_def ip_of_def expire_of_def le_bytes_le_word)

lemma mac_elem_ok:
  assumes "6 \<le> length mac"
  obtains e where "mac_elem mac = Some e" and "length (elem e) = HASH_ELEM_MAX" and "mac_of e = mac_key mac"
  using assms that [of "\<lparr>elem = take 6 mac @ drop 6 (replicate HASH_ELEM_MAX 0), elem_size = 6\<rparr>"]
  by (simp add: mac_elem_def kmemcpy_def HASH_ELEM_MAX_def mac_of_def)

lemma ip_elem_ok: "ip_elem (le_bytes ip) = Some \<lparr>elem = le_bytes ip, elem_size = 4\<rparr>"
  by (simp add: ip_elem_def kmemcpy_def HASH_ELEM_IP_SIZE_def)

lemma new_lease_ok:
  assumes "6 \<le> length mac"
  obtains e where "new_lease mac ip x = Some e" and "length (elem e) = HASH_ELEM_MAX"
    and "mac_of e = mac_key mac" and "ip_of e = ip" and "expire_of e = x"
  using assms that [of "\<lparr>elem = take 6 mac @ le_bytes ip @ le_bytes x, elem_size = of_nat HASH_ELEM_MAX\<rparr>"]
  by (simp add: new_lease_def kmemcpy_def HASH_ELEM_MAX_def mac_of_def ip_of_def expire_of_def)

text \<open>Elements of the lease table are 14 bytes long and found under their own key.\<close>

lemma macs_map_Some:
  assumes "macs.ok h" and "hash_map mac_of h k = Some e"
  shows "length (elem e) = HASH_ELEM_MAX" and "mac_of e = k" and "length k = 6"
proof -
  obtain i where i: "i < slots h" "view h i = Some e" "mac_of e = k"
    using assms(2) unfolding hash_map_def ring_map_Some_iff [OF macs.okD(5) [OF assms(1)]] by blast
  show "length (elem e) = HASH_ELEM_MAX" by (rule macs.view_valid [OF macs.okD(3) [OF assms(1)] i(1,2)])
  with i(3) show "mac_of e = k" "length k = 6" by (auto simp: mac_of_def HASH_ELEM_MAX_def)
qed

lemma hash_leases_Some_iff:
  "hash_leases p k = Some (ip, x) \<longleftrightarrow> (\<exists>e. hash_map mac_of (leases p) k = Some e \<and> ip_of e = ip \<and> expire_of e = x)"
  by (auto simp: hash_leases_def)

lemma hash_leases_None_iff: "hash_leases p k = None \<longleftrightarrow> hash_map mac_of (leases p) k = None"
  by (simp add: hash_leases_def)

lemma dom_hash_leases: "dom (hash_leases p) = dom (hash_map mac_of (leases p))"
  using hash_leases_None_iff by (auto simp: dom_def)

lemma hash_leases_put:
  "hash_map mac_of (leases p') = (hash_map mac_of (leases p))(k \<mapsto> e) \<Longrightarrow>
   hash_leases p' = (hash_leases p)(k \<mapsto> (ip_of e, expire_of e))"
  by (auto simp: hash_leases_def fun_eq_iff)

lemma hash_leases_remove:
  "hash_map mac_of (leases p') = (hash_map mac_of (leases p))(k := None) \<Longrightarrow>
   hash_leases p' = (hash_leases p)(k := None)"
  by (auto simp: hash_leases_def fun_eq_iff)

lemma hash_leases_cong: "leases p' = leases p \<Longrightarrow> hash_leases p' = hash_leases p"
  by (simp add: hash_leases_def fun_eq_iff)

text \<open>The address set holds one element per address.\<close>

lemma ips_map_length:
  assumes "ips.ok h" and "hash_map elem h k = Some e"
  shows "length k = 4"
proof -
  obtain i where "i < slots h" "view h i = Some e" "elem e = k"
    using assms(2) unfolding hash_map_def ring_map_Some_iff [OF ips.okD(5) [OF assms(1)]] by blast
  with ips.view_valid [OF ips.okD(3) [OF assms(1)], of i e] show ?thesis by (simp add: HASH_ELEM_IP_SIZE_def)
qed

lemma card_ip_set:
  assumes "ips.ok (ip_set p)"
  shows "card (dom (hash_map elem (ip_set p))) = card (set_ips p)"
proof -
  have "dom (hash_map elem (ip_set p)) = le_bytes ` set_ips p"
    using ips_map_length [OF assms] le_bytes_le_word
    by (auto simp: set_ips_def dom_def image_iff) metis
  moreover have "inj_on le_bytes (set_ips p)" by (simp add: inj_on_def)
  ultimately show ?thesis by (simp add: card_image)
qed

lemma set_ips_put:
  "hash_map elem (ip_set p') = (hash_map elem (ip_set p))(le_bytes ip \<mapsto> e) \<Longrightarrow> set_ips p' = insert ip (set_ips p)"
  by (auto simp: set_ips_def)

lemma set_ips_remove:
  "hash_map elem (ip_set p') = (hash_map elem (ip_set p))(le_bytes ip := None) \<Longrightarrow> set_ips p' = set_ips p - {ip}"
  by (auto simp: set_ips_def)

section \<open>Invariant lemmas\<close>

lemma hash_pool_invD:
  assumes "hash_pool_inv lo hi p"
  shows "macs.ok (leases p)" and "ips.ok (ip_set p)" and "slots (leases p) = HASH_N" and "slots (ip_set p) = HASH_N"
    and "unat (max_leases p) \<le> HASH_N" and "card (dom (hash_leases p)) \<le> unat (max_leases p)"
    and "set_ips p = leased_ips (hash_leases p)" and "lo \<le> next_ip p" and "next_ip p \<le> hi"
    and "unat (hash_size_mac (leases p)) = card (dom (hash_leases p))" and "finite (dom (hash_leases p))"
    and "hash_leases p k1 = Some (ip, e1) \<Longrightarrow> hash_leases p k2 = Some (ip, e2) \<Longrightarrow> k1 = k2"
    and "hash_leases p k1 = Some (ip, e1) \<Longrightarrow> lo \<le> ip \<and> ip \<le> hi"
  using assms macs.size_ok [of "leases p"]
  by (auto simp: hash_pool_inv_def hash_mac_defs dom_hash_leases leased_ips_iff)

text \<open>The clients and the addresses of an injective lease map.\<close>

lemma card_leased_ips:
  assumes "\<And>k1 k2 ip e1 e2. L k1 = Some (ip, e1) \<Longrightarrow> L k2 = Some (ip, e2) \<Longrightarrow> k1 = k2" and "finite (dom L)"
  shows "card (leased_ips L) = card (dom L)"
proof -
  have "leased_ips L = (\<lambda>k. fst (the (L k))) ` dom L"
    by (force simp: leased_ips_iff image_iff dom_def)
  moreover have "inj_on (\<lambda>k. fst (the (L k))) (dom L)"
    using assms(1) by (force simp: inj_on_def dom_def)
  ultimately show ?thesis by (simp add: card_image)
qed

lemma leased_ips_put:
  assumes "L k = None"
  shows "leased_ips (L(k \<mapsto> (ip, x))) = insert ip (leased_ips L)"
  using assms by (auto simp: leased_ips_iff split: if_splits) (metis option.distinct(1))+

lemma leased_ips_renew:
  assumes "L k = Some (ip, e)"
  shows "leased_ips (L(k \<mapsto> (ip, x))) = leased_ips L"
proof -
  have "(\<exists>j e. (L(k \<mapsto> (ip, x))) j = Some (a, e)) \<longleftrightarrow> (\<exists>j e. L j = Some (a, e))" for a
    using assms by (metis (no_types, lifting) fun_upd_apply option.inject prod.inject)
  then show ?thesis by (auto simp: leased_ips_iff)
qed

lemma leased_ips_remove:
  assumes "\<And>k1 k2 ip e1 e2. L k1 = Some (ip, e1) \<Longrightarrow> L k2 = Some (ip, e2) \<Longrightarrow> k1 = k2" and "L k = Some (ip, e)"
  shows "leased_ips (L(k := None)) = leased_ips L - {ip}"
  using assms by (auto simp: leased_ips_iff split: if_splits) (metis option.inject prod.inject)+


section \<open>Releasing a lease\<close>

text \<open>The pair of deletions of \<open>dhcp_hashpool_cleanup_expire_lease\<close> and \<open>dhcp_hashpool_decline_lease\<close>.\<close>

lemma drop_lease:
  assumes inv: "hash_pool_inv lo hi p" and lease: "hash_leases p k = Some (ip, x)"
    and key: "length (elem e) = HASH_ELEM_MAX" "mac_of e = k"
  obtains ls ia r1 r2 where "hash_delete_mac (leases p) e = Some (ls, r1)"
    and "hash_delete_ip (ip_set p) \<lparr>elem = le_bytes ip, elem_size = 4\<rparr> = Some (ia, r2)"
    and "hash_pool_inv lo hi (p\<lparr>leases := ls, ip_set := ia\<rparr>)"
    and "hash_leases (p\<lparr>leases := ls, ip_set := ia\<rparr>) = (hash_leases p)(k := None)"
proof -
  note D = hash_pool_invD [OF inv]
  obtain ls r1 where ls: "hash_delete_mac (leases p) e = Some (ls, r1)" "macs.ok ls" "capacity ls = capacity (leases p)"
    "hash_map mac_of ls = (hash_map mac_of (leases p))(k := None)"
    using macs.delete_ok [OF D(1) key(1)] key(2) by (auto simp: hash_mac_defs)
  obtain ia r2 where ia: "hash_delete_ip (ip_set p) \<lparr>elem = le_bytes ip, elem_size = 4\<rparr> = Some (ia, r2)" "ips.ok ia"
    "capacity ia = capacity (ip_set p)" "hash_map elem ia = (hash_map elem (ip_set p))(le_bytes ip := None)"
    using ips.delete_ok [OF D(2), of "\<lparr>elem = le_bytes ip, elem_size = 4\<rparr>"]
    by (auto simp: hash_ip_defs HASH_ELEM_IP_SIZE_def)
  let ?p = "p\<lparr>leases := ls, ip_set := ia\<rparr>"
  have L: "hash_leases ?p = (hash_leases p)(k := None)" by (rule hash_leases_remove) (simp add: ls)
  have S: "set_ips ?p = set_ips p - {ip}" by (rule set_ips_remove) (simp add: ia)
  have R: "leased_ips ((hash_leases p)(k := None)) = leased_ips (hash_leases p) - {ip}"
    by (rule leased_ips_remove [where L = "hash_leases p", OF D(12) lease])
  have "card (dom (hash_leases ?p)) \<le> card (dom (hash_leases p))"
    using D(11) by (simp add: L card_mono)
  then have "hash_pool_inv lo hi ?p"
    using inv ls ia S R unfolding hash_pool_inv_def L by (auto simp: fun_upd_apply)
  with ls(1) ia(1) L that show thesis by blast
qed

lemma find_lease_ok:
  assumes inv: "hash_pool_inv lo hi p" and "6 \<le> length mac"
  obtains (None) "dhcp_hashpool_find_lease p mac = Some None" and "hash_leases p (mac_key mac) = None"
  | (Some) i e where "dhcp_hashpool_find_lease p mac = Some (Some i)" and "i < slots (leases p)"
      and "view (leases p) i = Some e" and "rd (buckets (leases p)) i = Some e"
      and "hash_leases p (mac_key mac) = Some (ip_of e, expire_of e)"
      and "length (elem e) = HASH_ELEM_MAX" and "mac_of e = mac_key mac"
proof -
  note D = hash_pool_invD [OF inv]
  obtain key where key: "mac_elem mac = Some key" "length (elem key) = HASH_ELEM_MAX" "mac_of key = mac_key mac"
    using mac_elem_ok [OF assms(2)] by blast
  obtain r where r: "hash_find (leases p) key = Some r" "case r of None \<Rightarrow> hash_map mac_of (leases p) (mac_of key) = None
     | Some i \<Rightarrow> i < slots (leases p) \<and> view (leases p) i \<noteq> None \<and> hash_map mac_of (leases p) (mac_of key) = view (leases p) i"
    using macs.find_ok [OF D(1) key(2)] by blast
  then have find: "dhcp_hashpool_find_lease p mac = Some r"
    by (simp add: dhcp_hashpool_find_lease_def key hash_mac_defs)
  show thesis
  proof (cases r)
    case None
    with r(2) find key(3) that(1) show thesis by (simp add: hash_leases_None_iff)
  next
    case (Some i)
    then obtain e where e: "i < slots (leases p)" "view (leases p) i = Some e"
      "hash_map mac_of (leases p) (mac_key mac) = Some e" using r(2) key(3) by auto
    note read = macs.slot_read [OF macs.okD(3) [OF D(1)] e(1)]
    have "rd (buckets (leases p)) i = Some e" using read(2) read(4) [OF e(2)] by simp
    moreover have "hash_leases p (mac_key mac) = Some (ip_of e, expire_of e)" using e(3) by (simp add: hash_leases_def)
    ultimately show thesis
      using that(2) [of i e] find Some e macs_map_Some [OF D(1) e(3)] by blast
  qed
qed

lemma hash_decline_lease_ok:
  assumes "hash_pool_inv lo hi p" and "6 \<le> length mac"
  shows "\<exists>p'. dhcp_hashpool_decline_lease p mac = Some p' \<and> hash_pool_inv lo hi p' \<and>
    max_leases p' = max_leases p \<and> hash_leases p' = (hash_leases p)(mac_key mac := None)"
proof -
  obtain key where key: "mac_elem mac = Some key" "length (elem key) = HASH_ELEM_MAX" "mac_of key = mac_key mac"
    using mac_elem_ok [OF assms(2)] by blast
  show ?thesis
  proof (cases rule: find_lease_ok [OF assms])
    case 1
    then have "hash_find_mac (leases p) key = Some None" by (simp add: dhcp_hashpool_find_lease_def key)
    with 1 assms(1) key show ?thesis by (auto simp: dhcp_hashpool_decline_lease_def fun_upd_idem)
  next
    case (2 i e)
    then have f: "hash_find_mac (leases p) key = Some (Some i)" by (simp add: dhcp_hashpool_find_lease_def key)
    obtain ls ia r1 r2 where "hash_delete_mac (leases p) key = Some (ls, r1)"
      "hash_delete_ip (ip_set p) \<lparr>elem = le_bytes (ip_of e), elem_size = 4\<rparr> = Some (ia, r2)"
      "hash_pool_inv lo hi (p\<lparr>leases := ls, ip_set := ia\<rparr>)"
      "hash_leases (p\<lparr>leases := ls, ip_set := ia\<rparr>) = (hash_leases p)(mac_key mac := None)"
      by (rule drop_lease [OF assms(1) 2(5) key(2,3)])
    moreover from this have "dhcp_hashpool_decline_lease p mac = Some (p\<lparr>leases := ls, ip_set := ia\<rparr>)"
      using f 2 key(1) by (simp add: dhcp_hashpool_decline_lease_def lease_fields ip_elem_ok)
    ultimately show ?thesis by auto
  qed
qed

section \<open>The clean-up\<close>

text \<open>What the first loop collects: expired leases of different clients.\<close>

definition expired_list :: "u32 \<Rightarrow> lease_map \<Rightarrow> (u8 list \<times> u8 list) list \<Rightarrow> bool" where
  "expired_list t L es \<longleftrightarrow> distinct (map fst es) \<and>
     (\<forall>(m, a) \<in> set es. \<exists>ip x. L m = Some (ip, x) \<and> a = le_bytes ip \<and> x \<le> t \<and> length m = 6)"

lemma collect_expired_entry:
  assumes "hash_pool_inv lo hi p" and "i < HASH_N" and "view (leases p) i = Some e" and "length acc < 32"
  shows "collect_expired (leases p) t i acc =
    (if expire_of e \<le> t then collect_expired (leases p) t (Suc i) (acc @ [(mac_of e, le_bytes (ip_of e))])
     else collect_expired (leases p) t (Suc i) acc)"
proof -
  note O = macs.okD [OF hash_pool_invD(1) [OF assms(1)]]
  have i: "i < slots (leases p)" using assms(2) hash_pool_invD(3) [OF assms(1)] by simp
  note read = macs.slot_read [OF O(3) i] and len = macs.view_valid [OF O(3) i assms(3)]
  show ?thesis
    using assms(2-4) read(1,2,3) read(4) [OF assms(3)] by (subst collect_expired.simps) (simp add: lease_fields [OF len])
qed

lemma expired_list_snoc:
  assumes "hash_pool_inv lo hi p" and "i < HASH_N" and "view (leases p) i = Some e" and "expire_of e \<le> t"
    and "\<forall>y \<in> set acc. \<exists>j < i. \<exists>e. view (leases p) j = Some e \<and> mac_of e = fst y"
    and "expired_list t (hash_leases p) acc"
  shows "expired_list t (hash_leases p) (acc @ [(mac_of e, le_bytes (ip_of e))])"
proof -
  note O = macs.okD [OF hash_pool_invD(1) [OF assms(1)]]
  have i: "i < slots (leases p)" using assms(2) hash_pool_invD(3) [OF assms(1)] by simp
  note len = macs.view_valid [OF O(3) i assms(3)]
  have le: "hash_leases p (mac_of e) = Some (ip_of e, expire_of e)"
    using ring_map_slot [OF O(5) i assms(3)] by (simp add: hash_leases_def hash_map_def)
  have "mac_of e \<noteq> fst y" if y: "y \<in> set acc" for y
  proof
    assume same: "mac_of e = fst y"
    obtain j e' where "j < i" "view (leases p) j = Some e'" "mac_of e' = fst y" using assms(5) y by blast
    with keys_distinctD [OF O(5) i _ assms(3), of j e'] same i show False by simp
  qed
  then show ?thesis using assms(4,6) le len by (auto simp: expired_list_def mac_of_def HASH_ELEM_MAX_def)
qed

lemma collect_expired_ok:
  assumes "hash_pool_inv lo hi p"
    and "\<forall>y \<in> set acc. \<exists>j < i. \<exists>e. view (leases p) j = Some e \<and> mac_of e = fst y"
    and "expired_list t (hash_leases p) acc" and "i \<le> HASH_N"
  shows "\<exists>es. collect_expired (leases p) t i acc = Some es \<and> expired_list t (hash_leases p) es"
  using assms(2-4)
proof (induction "HASH_N - i" arbitrary: i acc)
  case 0
  then show ?case by (subst collect_expired.simps) auto
next
  case (Suc m)
  note D = hash_pool_invD [OF assms(1)] and O = macs.okD [OF hash_pool_invD(1) [OF assms(1)]]
  have i: "i < HASH_N" "m = HASH_N - Suc i" "i < slots (leases p)" using Suc.hyps(2) D(3) by simp_all
  note read = macs.slot_read [OF O(3) i(3)]
  have weak: "\<forall>y \<in> set acc. \<exists>j < Suc i. \<exists>e. view (leases p) j = Some e \<and> mac_of e = fst y"
    using Suc.prems(1) by (meson less_SucI)
  have skip: "\<exists>es. collect_expired (leases p) t (Suc i) acc = Some es \<and> expired_list t (hash_leases p) es"
    using Suc.hyps(1) [OF i(2) weak Suc.prems(2)] i(1) by simp
  show ?case
  proof (cases "length acc < 32")
    case False
    with Suc.prems(2) show ?thesis by (subst collect_expired.simps) simp
  next
    case True
    show ?thesis
    proof (cases "view (leases p) i")
      case None
      with True i(1) read skip show ?thesis by (subst collect_expired.simps) simp
    next
      case (Some e)
      note step = collect_expired_entry [OF assms(1) i(1) Some True]
      show ?thesis
      proof (cases "expire_of e \<le> t")
        case False
        with step skip show ?thesis by simp
      next
        case exp: True
        let ?acc = "acc @ [(mac_of e, le_bytes (ip_of e))]"
        have "expired_list t (hash_leases p) ?acc" by (rule expired_list_snoc [OF assms(1) i(1) Some exp Suc.prems(1,2)])
        moreover have "\<forall>y \<in> set ?acc. \<exists>j < Suc i. \<exists>e. view (leases p) j = Some e \<and> mac_of e = fst y"
          using weak Some by auto
        ultimately show ?thesis using step exp Suc.hyps(1) [OF i(2)] i(1) by simp
      qed
    qed
  qed
qed

lemma delete_leases_ok:
  assumes "hash_pool_inv lo hi p" and "expired_list t (hash_leases p) es"
  shows "\<exists>p'. delete_leases p es = Some p' \<and> hash_pool_inv lo hi p' \<and> max_leases p' = max_leases p \<and>
    only_expired t (hash_leases p) (hash_leases p')"
  using assms
proof (induction es arbitrary: p)
  case Nil
  then show ?case by simp
next
  case (Cons ma es)
  then obtain m ip x where ma: "ma = (m, le_bytes ip)" "hash_leases p m = Some (ip, x)" "x \<le> t" "length m = 6"
    by (cases ma) (auto simp: expired_list_def)
  obtain key where key: "mac_elem m = Some key" "length (elem key) = HASH_ELEM_MAX" "mac_of key = m"
    using mac_elem_ok [of m] ma(4) by auto
  obtain ls ia r1 r2 where del: "hash_delete_mac (leases p) key = Some (ls, r1)"
    "hash_delete_ip (ip_set p) \<lparr>elem = le_bytes ip, elem_size = 4\<rparr> = Some (ia, r2)"
    and inv: "hash_pool_inv lo hi (p\<lparr>leases := ls, ip_set := ia\<rparr>)"
    and L: "hash_leases (p\<lparr>leases := ls, ip_set := ia\<rparr>) = (hash_leases p)(m := None)"
    by (rule drop_lease [OF Cons.prems(1) ma(2) key(2,3)])
  have "expired_list t (hash_leases (p\<lparr>leases := ls, ip_set := ia\<rparr>)) es"
    using Cons.prems(2) unfolding L by (force simp: expired_list_def ma(1))
  from Cons.IH [OF inv this] obtain p' where "delete_leases (p\<lparr>leases := ls, ip_set := ia\<rparr>) es = Some p'"
    "hash_pool_inv lo hi p'" "max_leases p' = max_leases p" "only_expired t ((hash_leases p)(m := None)) (hash_leases p')"
    unfolding L by (auto simp del: fun_upd_apply)
  moreover have "only_expired t (hash_leases p) ((hash_leases p)(m := None))"
    using ma(2,3) by (simp add: only_expired_def)
  ultimately show ?case
    using del key(1) by (auto simp: ma(1) ip_elem_ok intro: only_expired_trans)
qed

lemma hash_cleanup_if_full:
  assumes "hash_pool_inv lo hi p"
  obtains p' where "(if unat (hash_size_mac (leases p)) \<ge> unat (max_leases p)
      then dhcp_hashpool_cleanup_expire_lease p t else Some p) = Some p'"
    and "hash_pool_inv lo hi p'" and "max_leases p' = max_leases p"
    and "cleaned t (unat (max_leases p)) (hash_leases p) (hash_leases p')"
proof (cases "unat (hash_size_mac (leases p)) \<ge> unat (max_leases p)")
  case True
  obtain es where es: "collect_expired (leases p) t 0 [] = Some es" "expired_list t (hash_leases p) es"
    using collect_expired_ok [OF assms, of "[]" 0 t] by (auto simp: expired_list_def)
  obtain p' where p': "delete_leases p es = Some p'" "hash_pool_inv lo hi p'" "max_leases p' = max_leases p"
    "only_expired t (hash_leases p) (hash_leases p')"
    using delete_leases_ok [OF assms es(2)] by blast
  have "unat (max_leases p) \<le> card (dom (hash_leases p))" using True hash_pool_invD(10) [OF assms] by simp
  with True es(1) p' that [of p'] show thesis by (simp add: dhcp_hashpool_cleanup_expire_lease_def cleaned_def)
next
  case False
  with that [of p] assms show thesis by (simp add: cleaned_def)
qed


section \<open>Offering an address\<close>

lemma find_ip_ok:
  assumes "ips.ok (ip_set p)"
  obtains r where "hash_find_ip (ip_set p) \<lparr>elem = le_bytes ip, elem_size = 4\<rparr> = Some r" and "r = None \<longleftrightarrow> ip \<notin> set_ips p"
proof -
  have "length (elem \<lparr>elem = le_bytes ip, elem_size = 4\<rparr>) = HASH_ELEM_IP_SIZE" by (simp add: HASH_ELEM_IP_SIZE_def)
  from ips.find_ok [OF assms this, unfolded hash_elem.select_convs] obtain r where
    "hash_find_ip (ip_set p) \<lparr>elem = le_bytes ip, elem_size = 4\<rparr> = Some r"
    "case r of None \<Rightarrow> hash_map elem (ip_set p) (le_bytes ip) = None
      | Some i \<Rightarrow> i < slots (ip_set p) \<and> view (ip_set p) i \<noteq> None \<and>
          hash_map elem (ip_set p) (le_bytes ip) = view (ip_set p) i"
    unfolding hash_ip_defs by blast
  then show thesis using that [of r] by (cases r) (auto simp: set_ips_def)
qed

lemma set_ips_cursor [simp]: "set_ips (p\<lparr>next_ip := c\<rparr>) = set_ips p"
  by (simp add: set_ips_def)

lemma hash_leases_cursor [simp]: "hash_leases (p\<lparr>next_ip := c\<rparr>) = hash_leases p"
  by (rule hash_leases_cong) simp

lemma hash_next_free_ip_scan:
  assumes "ips.ok (ip_set p)"
  shows "hash_next_free_ip p ps rs k =
    (case scan_ips (\<lambda>ip. ip \<in> set_ips p) ps rs (next_ip p) k of (c, ip) \<Rightarrow> Some (p\<lparr>next_ip := c\<rparr>, ip))"
  using assms
proof (induction k arbitrary: p)
  case 0
  then show ?case by simp
next
  case (Suc k)
  let ?p = "p\<lparr>next_ip := cursor_next ps rs (next_ip p)\<rparr>"
  have ok: "ips.ok (ip_set ?p)" using Suc.prems by simp
  obtain r where "hash_find_ip (ip_set p) \<lparr>elem = le_bytes (next_ip p), elem_size = 4\<rparr> = Some r"
    "r = None \<longleftrightarrow> next_ip p \<notin> set_ips p"
    by (rule find_ip_ok [OF Suc.prems])
  then show ?case
    using Suc.IH [OF ok] by (auto simp: cursor_next_def [symmetric] ip_elem_ok Let_def split: prod.splits)
qed

lemma hash_find_available_ok:
  assumes "hash_pool_inv lo hi p" and "0 < lo" and "6 \<le> length mac"
  shows "\<exists>p' ip. dhcp_hashpool_find_available_ip p lo hi mac t = Some (p', ip) \<and> hash_pool_inv lo hi p' \<and>
    max_leases p' = max_leases p \<and> cleaned t (unat (max_leases p)) (hash_leases p) (hash_leases p') \<and>
    offer_spec (unat (max_leases p)) lo hi (hash_leases p') (mac_key mac) ip"
proof -
  obtain p1 where p1: "(if unat (hash_size_mac (leases p)) \<ge> unat (max_leases p)
      then dhcp_hashpool_cleanup_expire_lease p t else Some p) = Some p1"
    "hash_pool_inv lo hi p1" "max_leases p1 = max_leases p"
    "cleaned t (unat (max_leases p)) (hash_leases p) (hash_leases p1)"
    by (rule hash_cleanup_if_full [OF assms(1)])
  note D = hash_pool_invD [OF p1(2)]
  show ?thesis
  proof (cases rule: find_lease_ok [OF p1(2) assms(3)])
    case (2 i e)
    then have "dhcp_hashpool_find_available_ip p lo hi mac t = Some (p1, ip_of e)"
      using p1(1) by (simp add: dhcp_hashpool_find_available_ip_def lease_fields)
    then show ?thesis using p1 2 by (auto simp: offer_spec_def)
  next
    case 1
    show ?thesis
    proof (cases "unat (max_leases p1) \<le> unat (hash_size_mac (leases p1))")
      case True
      then have "dhcp_hashpool_find_available_ip p lo hi mac t = Some (p1, 0)"
        using p1(1) 1 by (simp add: dhcp_hashpool_find_available_ip_def)
      with p1 1 True D(10) show ?thesis by (auto simp: offer_spec_def)
    next
      case False
      obtain c ip where scan: "scan_ips (\<lambda>ip. ip \<in> set_ips p1) lo (hi - lo + 1) (next_ip p1) (unat (hi - lo + 1)) = (c, ip)"
        by force
      note complete = scan_ips_complete [OF assms(2) D(8,9) scan]
      have "dhcp_hashpool_find_available_ip p lo hi mac t = Some (p1\<lparr>next_ip := c\<rparr>, ip)"
        using p1(1) 1 False scan
        by (simp add: dhcp_hashpool_find_available_ip_def hash_next_free_ip_scan [OF D(2)] Let_def)
      moreover have "hash_pool_inv lo hi (p1\<lparr>next_ip := c\<rparr>)"
        using p1(2) complete(1) by (simp add: hash_pool_inv_def)
      moreover have "offer_spec (unat (max_leases p)) lo hi (hash_leases p1) (mac_key mac) ip"
        using 1 complete(2) D(7,10) False p1(3) by (auto simp: offer_spec_def split: if_splits)
      ultimately show ?thesis using p1 by auto
    qed
  qed
qed

section \<open>Allocating a lease\<close>

lemma set_expire_ok:
  assumes inv: "hash_pool_inv lo hi p" and i: "i < slots (leases p)" "view (leases p) i = Some e"
    "rd (buckets (leases p)) i = Some e" and len: "length (elem e) = HASH_ELEM_MAX"
    and lease: "hash_leases p (mac_of e) = Some (ip_of e, expire_of e)"
  obtains ls where "set_expire_time (leases p) i v = Some ls" and "hash_pool_inv lo hi (p\<lparr>leases := ls\<rparr>)"
    and "hash_leases (p\<lparr>leases := ls\<rparr>) = (hash_leases p)(mac_of e \<mapsto> (ip_of e, v))"
proof -
  note D = hash_pool_invD [OF inv]
  define e' where "e' = e\<lparr>elem := take 10 (elem e) @ le_bytes v\<rparr>"
  have e': "length (elem e') = HASH_ELEM_MAX" "mac_of e' = mac_of e" "ip_of e' = ip_of e" "expire_of e' = v"
    using len by (simp_all add: e'_def mac_of_def ip_of_def expire_of_def HASH_ELEM_MAX_def drop_take)
  let ?ls = "(leases p)\<lparr>buckets := (buckets (leases p))[i := e']\<rparr>"
  have "i < length (buckets (leases p))" using i(3) by (simp add: rd_eq_Some_iff)
  then have set: "set_expire_time (leases p) i v = Some ?ls"
    using i(3) len by (simp add: set_expire_time_def kmemcpy_def HASH_ELEM_MAX_def access_simps e'_def)
  have "slot_update HASH_ELEM_MAX (\<lambda>e. length (elem e) = HASH_ELEM_MAX) (leases p) i (Some e') ?ls"
    by (rule replace_at_ok [OF macs.okD(3) [OF D(1)] i(1) _ e'(1) e'(1)]) (simp add: i(2))
  from macs.put_ok [OF D(1) e'(1) i(1,2) e'(2) [symmetric] this] have
    put: "macs.ok ?ls" "hash_map mac_of ?ls = (hash_map mac_of (leases p))(mac_of e \<mapsto> e')"
    using e'(2) by simp_all
  let ?p = "p\<lparr>leases := ?ls\<rparr>"
  have L: "hash_leases ?p = (hash_leases p)(mac_of e \<mapsto> (ip_of e, v))"
    using hash_leases_put [of ?p p "mac_of e" e'] put(2) e'(3,4) by simp
  have ips: "leased_ips (hash_leases ?p) = leased_ips (hash_leases p)"
    unfolding L by (rule leased_ips_renew [where L = "hash_leases p", OF lease])
  have dom: "dom (hash_leases ?p) = dom (hash_leases p)" using lease by (auto simp: L)
  have inj: "\<And>k1 k2 ip e1 e2. hash_leases ?p k1 = Some (ip, e1) \<Longrightarrow> hash_leases ?p k2 = Some (ip, e2) \<Longrightarrow> k1 = k2"
    unfolding L using D(12) lease by (auto split: if_splits)
  have "set_ips ?p = set_ips p" by (simp add: set_ips_def)
  then have "hash_pool_inv lo hi ?p"
    using inv put(1) ips dom inj unfolding hash_pool_inv_def by auto
  with set L that show thesis by blast
qed

lemma new_client_ok:
  assumes inv: "hash_pool_inv lo hi p" and mac: "6 \<le> length mac" and range: "lo \<le> ip" "ip \<le> hi"
    and none: "hash_leases p (mac_key mac) = None" "ip \<notin> leased_ips (hash_leases p)"
    and room: "card (dom (hash_leases p)) < unat (max_leases p)"
  obtains e ls ia where "new_lease mac ip x = Some e" and "hash_insert_mac (leases p) e = Some (ls, True)"
    and "hash_insert_ip (ip_set p) \<lparr>elem = le_bytes ip, elem_size = 4\<rparr> = Some (ia, True)"
    and "hash_pool_inv lo hi (p\<lparr>leases := ls, ip_set := ia\<rparr>)"
    and "hash_leases (p\<lparr>leases := ls, ip_set := ia\<rparr>) = (hash_leases p)(mac_key mac \<mapsto> (ip, x))"
proof -
  note D = hash_pool_invD [OF inv]
  obtain e where e: "new_lease mac ip x = Some e" "length (elem e) = HASH_ELEM_MAX" "mac_of e = mac_key mac"
    "ip_of e = ip" "expire_of e = x"
    by (rule new_lease_ok [OF mac])
  have "card (dom (hash_map mac_of (leases p))) \<noteq> slots (leases p)"
    using room D(3,5) by (simp add: dom_hash_leases)
  with macs.insert_ok [OF D(1) e(2)] obtain ls where ls: "hash_insert_mac (leases p) e = Some (ls, True)" "macs.ok ls"
    "capacity ls = capacity (leases p)" "hash_map mac_of ls = (hash_map mac_of (leases p))(mac_key mac \<mapsto> e)"
    using e(3) by (auto simp: hash_mac_defs)
  let ?k = "\<lparr>elem = le_bytes ip, elem_size = 4\<rparr> :: hash_elem"
  have "card (leased_ips (hash_leases p)) = card (dom (hash_leases p))"
    by (rule card_leased_ips [where L = "hash_leases p", OF D(12,11)])
  then have "card (dom (hash_map elem (ip_set p))) \<noteq> slots (ip_set p)"
    using card_ip_set [OF D(2)] D(4,5,7) room by simp
  with ips.insert_ok [OF D(2), of ?k] obtain ia where ia: "hash_insert_ip (ip_set p) ?k = Some (ia, True)" "ips.ok ia"
    "capacity ia = capacity (ip_set p)" "hash_map elem ia = (hash_map elem (ip_set p))(le_bytes ip \<mapsto> ?k)"
    by (auto simp: hash_ip_defs HASH_ELEM_IP_SIZE_def)
  let ?p = "p\<lparr>leases := ls, ip_set := ia\<rparr>"
  have L: "hash_leases ?p = (hash_leases p)(mac_key mac \<mapsto> (ip, x))"
    using hash_leases_put [of ?p p "mac_key mac" e] ls(4) e(4,5) by simp
  have S: "set_ips ?p = insert ip (set_ips p)" by (rule set_ips_put) (simp add: ia(4))
  have R: "leased_ips (hash_leases ?p) = insert ip (leased_ips (hash_leases p))"
    unfolding L by (rule leased_ips_put [where L = "hash_leases p", OF none(1)])
  have card: "card (dom (hash_leases ?p)) \<le> unat (max_leases p)"
    using room none(1) D(11) by (simp add: L card_insert_if)
  have inj: "\<And>k1 k2 a e1 e2. hash_leases ?p k1 = Some (a, e1) \<Longrightarrow> hash_leases ?p k2 = Some (a, e2) \<Longrightarrow> k1 = k2"
    unfolding L using D(12) none(2) by (auto simp: leased_ips_iff split: if_splits)
  have "hash_pool_inv lo hi ?p"
    using inv ls ia S R card inj range unfolding hash_pool_inv_def by auto
  with e(1) ls(1) ia(1) L that show thesis by blast
qed

lemma hash_alloc_ok:
  assumes "hash_pool_inv lo hi p" and "6 \<le> length mac" and "lo \<le> ip" and "ip \<le> hi"
  shows "\<exists>p' ok L. dhcp_hashpool_alloc_lease p ip mac lt t = Some (p', ok) \<and> hash_pool_inv lo hi p' \<and>
    max_leases p' = max_leases p \<and> cleaned t (unat (max_leases p)) (hash_leases p) L \<and>
    (hash_leases p', ok) = alloc_spec (unat (max_leases p)) L ip (mac_key mac) (t + lt)"
proof -
  obtain p1 where p1: "(if unat (hash_size_mac (leases p)) \<ge> unat (max_leases p)
      then dhcp_hashpool_cleanup_expire_lease p t else Some p) = Some p1"
    "hash_pool_inv lo hi p1" "max_leases p1 = max_leases p"
    "cleaned t (unat (max_leases p)) (hash_leases p) (hash_leases p1)"
    by (rule hash_cleanup_if_full [OF assms(1)])
  note D = hash_pool_invD [OF p1(2)] and alloc = dhcp_hashpool_alloc_lease_def p1(1)
  have "\<exists>p' ok. dhcp_hashpool_alloc_lease p ip mac lt t = Some (p', ok) \<and> hash_pool_inv lo hi p' \<and>
    max_leases p' = max_leases p1 \<and>
    (hash_leases p', ok) = alloc_spec (unat (max_leases p1)) (hash_leases p1) ip (mac_key mac) (t + lt)"
  proof (cases rule: find_lease_ok [OF p1(2) assms(2)])
    case (2 i e)
    have lease: "hash_leases p1 (mac_of e) = Some (ip_of e, expire_of e)" using 2(5,7) by simp
    obtain ls where "set_expire_time (leases p1) i (t + lt) = Some ls" "hash_pool_inv lo hi (p1\<lparr>leases := ls\<rparr>)"
      "hash_leases (p1\<lparr>leases := ls\<rparr>) = (hash_leases p1)(mac_of e \<mapsto> (ip_of e, t + lt))"
      by (rule set_expire_ok [OF p1(2) 2(2-4,6) lease])
    then show ?thesis using 2 p1(2) by (auto simp: alloc alloc_spec_def lease_fields [OF 2(6)])
  next
    case 1
    obtain r where r: "hash_find_ip (ip_set p1) \<lparr>elem = le_bytes ip, elem_size = 4\<rparr> = Some r"
      "r = None \<longleftrightarrow> ip \<notin> leased_ips (hash_leases p1)"
      using find_ip_ok [OF D(2), of ip] D(7) by metis
    show ?thesis
    proof (cases "r \<noteq> None \<or> unat (max_leases p1) \<le> card (dom (hash_leases p1))")
      case True
      then show ?thesis using 1 r p1(2) D(10) by (auto simp: alloc ip_elem_ok alloc_spec_def)
    next
      case False
      then have free: "ip \<notin> leased_ips (hash_leases p1)" "card (dom (hash_leases p1)) < unat (max_leases p1)"
        using r by auto
      obtain e ls ia where new: "new_lease mac ip (t + lt) = Some e" "hash_insert_mac (leases p1) e = Some (ls, True)"
        "hash_insert_ip (ip_set p1) \<lparr>elem = le_bytes ip, elem_size = 4\<rparr> = Some (ia, True)"
        "hash_pool_inv lo hi (p1\<lparr>leases := ls, ip_set := ia\<rparr>)"
        "hash_leases (p1\<lparr>leases := ls, ip_set := ia\<rparr>) = (hash_leases p1)(mac_key mac \<mapsto> (ip, t + lt))"
        by (rule new_client_ok [OF p1(2) assms(2-4) 1(2) free])
      have "dhcp_hashpool_alloc_lease p ip mac lt t = Some (p1\<lparr>leases := ls, ip_set := ia\<rparr>, True)"
        using 1 r new False D(10) by (simp add: alloc ip_elem_ok Let_def)
      with new(4,5) free 1(2) show ?thesis by (auto simp: alloc_spec_def)
    qed
  qed
  with p1 show ?thesis by metis
qed


section \<open>Initialisation\<close>

text \<open>The memory of a table before \<open>hash_init\<close>: arrays of the declared sizes, with any content.\<close>

definition hash_memory :: "nat \<Rightarrow> hash_tab \<Rightarrow> bool" where
  "hash_memory n h \<longleftrightarrow> length (buckets h) = HASH_N \<and> length (occupied h) = HASH_N \<and>
     (\<forall>b \<in> set (buckets h). length (elem b) = n)"

lemma HASH_N_word [simp]: "unat (of_nat HASH_N :: u32) = HASH_N" "0 < (of_nat HASH_N :: u32)"
  "unat (of_nat HASH_N :: u16) = HASH_N"
  by (simp_all add: HASH_N_def)

lemma hashpool_init_ok:
  assumes "hash_memory HASH_ELEM_MAX (leases p)" and "hash_memory HASH_ELEM_IP_SIZE (ip_set p)" and "lo \<le> hi"
  shows "\<exists>p'. dhcp_hashpool_init p lo maxl = Some p' \<and> hash_pool_inv lo hi p' \<and> hash_leases p' = Map.empty \<and>
    unat (max_leases p') = min HASH_N (unat maxl)"
proof -
  obtain ls where ls: "hash_init_mac (leases p) dhcp_mac_hash dhcp_mac_comp 0 = Some (ls, True)" "macs.ok ls"
    "capacity ls = of_nat HASH_N" "hash_map mac_of ls = Map.empty"
    using macs.init_ok [of "of_nat HASH_N" "leases p" 0] assms(1) by (auto simp: hash_mac_defs hash_memory_def)
  obtain ia where ia: "hash_init_ip (ip_set p) dhcp_ip_hash dhcp_ip_comp 0 = Some (ia, True)" "ips.ok ia"
    "capacity ia = of_nat HASH_N" "hash_map elem ia = Map.empty"
    using ips.init_ok [of "of_nat HASH_N" "ip_set p" 0] assms(2) by (auto simp: hash_ip_defs hash_memory_def)
  let ?m = "if HASH_N < unat maxl then of_nat HASH_N else maxl"
  let ?p = "p\<lparr>leases := ls, ip_set := ia, next_ip := lo, max_leases := ?m\<rparr>"
  have init: "dhcp_hashpool_init p lo maxl = Some ?p" using ls(1) ia(1) by (simp add: dhcp_hashpool_init_def)
  have L: "hash_leases ?p = Map.empty" using ls(4) by (simp add: hash_leases_def fun_eq_iff)
  have "set_ips ?p = {}" using ia(4) by (simp add: set_ips_def)
  then have "hash_pool_inv lo hi ?p"
    using ls ia assms(3) unfolding hash_pool_inv_def L by (auto simp: leased_ips_iff)
  with init L show ?thesis by auto
qed

section \<open>The contract\<close>

abbreviation hash_server_inv :: "hash_server \<Rightarrow> bool" where
  "hash_server_inv \<equiv> pool_server_inv hash_pool_inv"

interpretation hsh: lease_pool hash_pool_inv dhcp_hashpool_find_available_ip dhcp_hashpool_alloc_lease
  dhcp_hashpool_decline_lease hash_leases "\<lambda>p. unat (max_leases p)"
proof unfold_locales
  show "hash_pool_inv lo hi p \<Longrightarrow> hash_leases p k1 = Some (ip, e1) \<Longrightarrow> hash_leases p k2 = Some (ip, e2) \<Longrightarrow> k1 = k2"
    for lo hi p k1 k2 ip e1 e2
    by (rule hash_pool_invD(12))
  show "hash_pool_inv lo hi p \<Longrightarrow> hash_leases p k = Some (ip, e) \<Longrightarrow> lo \<le> ip \<and> ip \<le> hi" for lo hi p k ip e
    by (rule hash_pool_invD(13))
  show "hash_pool_inv lo hi p \<Longrightarrow> finite (dom (hash_leases p)) \<and> card (dom (hash_leases p)) \<le> unat (max_leases p)"
    for lo hi p
    using hash_pool_invD(6,11) by blast
  show "hash_pool_inv lo hi p \<Longrightarrow> 0 < lo \<Longrightarrow> 6 \<le> length mac \<Longrightarrow>
    \<exists>p' ip. dhcp_hashpool_find_available_ip p lo hi mac t = Some (p', ip) \<and> hash_pool_inv lo hi p' \<and>
      unat (max_leases p') = unat (max_leases p) \<and> cleaned t (unat (max_leases p)) (hash_leases p) (hash_leases p') \<and>
      offer_spec (unat (max_leases p)) lo hi (hash_leases p') (mac_key mac) ip" for lo hi p mac t
    using hash_find_available_ok by metis
  show "hash_pool_inv lo hi p \<Longrightarrow> 6 \<le> length mac \<Longrightarrow> lo \<le> ip \<Longrightarrow> ip \<le> hi \<Longrightarrow>
    \<exists>p' ok L. dhcp_hashpool_alloc_lease p ip mac lt t = Some (p', ok) \<and> hash_pool_inv lo hi p' \<and>
      unat (max_leases p') = unat (max_leases p) \<and> cleaned t (unat (max_leases p)) (hash_leases p) L \<and>
      (hash_leases p', ok) = alloc_spec (unat (max_leases p)) L ip (mac_key mac) (t + lt)" for lo hi p mac ip lt t
    using hash_alloc_ok by metis
  show "hash_pool_inv lo hi p \<Longrightarrow> 6 \<le> length mac \<Longrightarrow>
    \<exists>p'. dhcp_hashpool_decline_lease p mac = Some p' \<and> hash_pool_inv lo hi p' \<and>
      unat (max_leases p') = unat (max_leases p) \<and> hash_leases p' = (hash_leases p)(mac_key mac := None)" for lo hi p mac
    using hash_decline_lease_ok by metis
qed

end
