(* ===== verification/Hash_Server.thy ===== *)
theory Hash_Server
  imports Hash_Pool_Correct Samples
begin

text \<open>
  What the hash table and the HASHMAP server promise, as statements about the C routines: the
  operations of \<open>ds-lib/hash.c\<close> refine those of a finite map, for every capacity and every pair of
  functions that satisfies \<open>keyed_hash\<close>, and \<open>dhcp_process_message_hashmap\<close> has the properties of the
  contract \<open>lease_server\<close>.
\<close>

section \<open>Sample states\<close>

definition blank_elem :: "nat \<Rightarrow> hash_elem" where
  "blank_elem n = \<lparr>elem = replicate n 0, elem_size = 0\<rparr>"

definition sample_memory :: "nat \<Rightarrow> nat \<Rightarrow> hash_tab" where
  "sample_memory n N = \<lparr>buckets = replicate N (blank_elem n), occupied = replicate N 7, elem_cnt = 9, capacity = 0,
     hash = dhcp_mac_hash, comp = dhcp_mac_comp, aux = 0\<rparr>"

definition sample_hash_server :: hash_server where
  "sample_hash_server = \<lparr>config = sample_config, pool = \<lparr>leases = sample_memory HASH_ELEM_MAX HASH_N,
     ip_set = sample_memory HASH_ELEM_IP_SIZE HASH_N, next_ip = 0, max_leases = 0\<rparr>\<rparr>"

lemma sample_memory_ok: "hash_memory n (sample_memory n HASH_N)"
  by (simp add: hash_memory_def sample_memory_def blank_elem_def)

definition sample_elem :: "u8 \<Rightarrow> hash_elem" where
  "sample_elem m = \<lparr>elem = m # replicate 13 0, elem_size = 14\<rparr>"

text \<open>A small table of two slots that holds one element.\<close>

lemma sample_table:
  obtains h where "macs.ok h" and "slots h = 2"
    and "hash_map mac_of h = [mac_of (sample_elem 1) \<mapsto> sample_elem 1]"
proof -
  have len: "length (elem (sample_elem 1)) = HASH_ELEM_MAX" by (simp add: sample_elem_def HASH_ELEM_MAX_def)
  obtain h0 where h0: "macs.ok h0" "capacity h0 = 2" "hash_map mac_of h0 = Map.empty"
    using macs.init_ok [of 2 "sample_memory HASH_ELEM_MAX 2" 0] by (auto simp: sample_memory_def blank_elem_def)
  have "card (dom (hash_map mac_of h0)) \<noteq> slots h0" by (simp add: h0)
  with macs.insert_ok [OF h0(1) len] h0(2,3) that show thesis by auto
qed

text \<open>A server with one lease.\<close>

lemma sample_hash_init:
  obtains s where "dhcp_init_server_hashmap sample_hash_server sample_config 2 = Some s" and "hash_server_inv s"
    and "config s = sample_config" and "hash_leases (pool s) = Map.empty" and "unat (max_leases (pool s)) = 2"
proof -
  have mem: "hash_memory HASH_ELEM_MAX (leases (pool sample_hash_server))"
    "hash_memory HASH_ELEM_IP_SIZE (ip_set (pool sample_hash_server))"
    using sample_memory_ok by (simp_all add: sample_hash_server_def)
  from hashpool_init_ok [OF this, of "pool_start sample_config" "pool_end sample_config" 2] obtain p where
    "dhcp_hashpool_init (pool sample_hash_server) (pool_start sample_config) 2 = Some p"
    "hash_pool_inv (pool_start sample_config) (pool_end sample_config) p" "hash_leases p = Map.empty"
    "unat (max_leases p) = 2" by (auto simp: HASH_N_def)
  then show thesis
    using that [of "sample_hash_server\<lparr>config := sample_config, pool := p\<rparr>"]
    by (simp add: dhcp_init_server_hashmap_def pool_server_inv_def)
qed

lemma sample_hash_leased:
  obtains s where "hash_server_inv s" and "config s = sample_config" and "unat (max_leases (pool s)) = 2"
    and "hash_leases (pool s) = [[2, 0, 0, 0, 0, 1] \<mapsto> (0x0A00000A, 3600)]"
proof -
  obtain s0 where s0: "hash_server_inv s0" "config s0 = sample_config" "hash_leases (pool s0) = Map.empty"
    "unat (max_leases (pool s0)) = 2" by (rule sample_hash_init)
  obtain s1 ok where s1: "hash_commit s0 0x0A00000A (sample_chaddr 1) 0 = Some (s1, ok)" "hash_server_inv s1"
    using hsh.srv.commit_ok [OF s0(1), of "sample_chaddr 1" "0x0A00000A" 0] by auto
  from hsh.srv.commit_leases [OF s0(1) _ s1(1)] s0(2-4) have
    "config s1 = sample_config" "unat (max_leases (pool s1)) = 2"
    "hash_leases (pool s1) = [[2, 0, 0, 0, 0, 1] \<mapsto> (0x0A00000A, 3600)]"
    by (auto simp: cleaned_def alloc_spec_def leased_ips_def)
  with s1(2) that show thesis by blast
qed

section \<open>The hash table refines a map\<close>

text \<open>
  C15. Deletion.  \<open>hash_delete\<close> returns, reports whether the key was present, and leaves a table that
  satisfies the invariant and stands for the map without the key: the loop that moves later
  entries forward loses none of them, also when the table was full.
\<close>

theorem hash_delete_refines:
  assumes "keyed_hash n valid hf cf key" and "hash_tab_ok n valid hf cf key h" and "valid e"
  shows "\<exists>h'. hash_delete n h e = Some (h', hash_map key h (key e) \<noteq> None) \<and> hash_tab_ok n valid hf cf key h' \<and>
    hash_map key h' = (hash_map key h)(key e := None)"
  using keyed_hash.delete_ok [OF assms] by blast

theorem hash_delete_refines_witness:
  "\<exists>h h'. hash_map mac_of h = [mac_of (sample_elem 1) \<mapsto> sample_elem 1] \<and>
    hash_delete 14 h (sample_elem 1) = Some (h', True) \<and> hash_map mac_of h' = Map.empty"
proof -
  have len: "length (elem (sample_elem 1)) = HASH_ELEM_MAX" by (simp add: sample_elem_def HASH_ELEM_MAX_def)
  obtain h where h: "macs.ok h" "hash_map mac_of h = [mac_of (sample_elem 1) \<mapsto> sample_elem 1]"
    by (rule sample_table)
  from hash_delete_refines [OF macs.keyed_hash_axioms h(1) len] h(2) show ?thesis
    by (auto simp: HASH_ELEM_MAX_def)
qed

text \<open>
  C16. Insertion.  \<open>hash_insert\<close> fails exactly when the table is full (also for a key that it has)
  and then changes nothing; otherwise the new table stands for the map with the key updated.
\<close>

theorem hash_insert_refines:
  assumes "keyed_hash n valid hf cf key" and "hash_tab_ok n valid hf cf key h" and "valid e"
  shows "\<exists>h' r. hash_insert n h e = Some (h', r) \<and> hash_tab_ok n valid hf cf key h' \<and>
    (if card (dom (hash_map key h)) = unat (capacity h) then \<not> r \<and> h' = h
     else r \<and> hash_map key h' = (hash_map key h)(key e \<mapsto> e))"
  using keyed_hash.insert_ok [OF assms] by blast

theorem hash_insert_refines_witness:
  "\<exists>h h'. unat (capacity h) = 2 \<and> hash_map mac_of h = [mac_of (sample_elem 1) \<mapsto> sample_elem 1] \<and>
    hash_insert 14 h (sample_elem 2) = Some (h', True) \<and>
    hash_map mac_of h' = [mac_of (sample_elem 1) \<mapsto> sample_elem 1, mac_of (sample_elem 2) \<mapsto> sample_elem 2]"
proof -
  have len: "length (elem (sample_elem 2)) = HASH_ELEM_MAX" by (simp add: sample_elem_def HASH_ELEM_MAX_def)
  obtain h where h: "macs.ok h" "slots h = 2" "hash_map mac_of h = [mac_of (sample_elem 1) \<mapsto> sample_elem 1]"
    by (rule sample_table)
  from hash_insert_refines [OF macs.keyed_hash_axioms h(1) len] h(2,3) show ?thesis
    by (auto simp: HASH_ELEM_MAX_def)
qed

text \<open>
  Search.  \<open>hash_find\<close> ends, stays inside the arrays and returns a pointer to the element that
  the map has under the key, or the null pointer when it has none.
\<close>

theorem hash_find_refines:
  assumes "keyed_hash n valid hf cf key" and "hash_tab_ok n valid hf cf key h" and "valid e"
  shows "\<exists>r. hash_find h e = Some r \<and>
    map_option (\<lambda>i. buckets h ! i) r = hash_map key h (key e)"
proof -
  obtain r where r: "hash_find h e = Some r" "case r of None \<Rightarrow> hash_map key h (key e) = None
     | Some i \<Rightarrow> i < slots h \<and> view h i \<noteq> None \<and> hash_map key h (key e) = view h i"
    using keyed_hash.find_ok [OF assms] by blast
  then show ?thesis by (cases r) (auto simp: view_def split: if_splits)
qed

section \<open>The server\<close>

text \<open>
  C17. One request to the HASHMAP server.  On a request with a well-formed option field
  \<open>dhcp_process_message_hashmap\<close> returns, keeps the two tables consistent, and sends the message that
  the item-level specification decides, with an address of the pool.
\<close>

theorem hash_server_refines:
  assumes "hash_server_inv s" and "wf_request request is"
  shows "\<exists>s' m r. dhcp_process_message_hashmap s request response t = Some (s', m) \<and> hash_server_inv s' \<and>
    outcome hash_offer hash_commit hash_decline s is (chaddr request) t = Some (s', r) \<and>
    realises request (config s') response r m \<and>
    (\<forall>ip. r = Offer ip \<or> r = Ack ip \<longrightarrow> pool_start (config s') \<le> ip \<and> ip \<le> pool_end (config s'))"
  unfolding process_hashmap_is_serve by (rule hsh.srv.serve_ok [OF assms])

theorem hash_server_refines_witness:
  "\<exists>s s' m. hash_leases (pool s) = [[2, 0, 0, 0, 0, 1] \<mapsto> (0x0A00000A, 3600)] \<and>
    dhcp_process_message_hashmap s (sample_request 2 discover_items) zero_message 5 = Some (s', m) \<and> hash_server_inv s'"
proof -
  obtain s where s: "hash_server_inv s" "hash_leases (pool s) = [[2, 0, 0, 0, 0, 1] \<mapsto> (0x0A00000A, 3600)]"
    by (rule sample_hash_leased)
  from hash_server_refines [OF s(1) sample_items_wf(1), of 2 zero_message 5] s(2) show ?thesis by blast
qed

text \<open>
  C18. No address is leased twice.  From the state that \<open>dhcp_init_server_hashmap\<close> builds in any
  memory, every sequence of well-formed requests is answered, and afterwards no two clients hold
  the same address and at most \<open>max_leases\<close> clients hold one.
\<close>

theorem hash_run_unique:
  assumes "hash_memory HASH_ELEM_MAX (leases (pool m))" and "hash_memory HASH_ELEM_IP_SIZE (ip_set (pool m))"
    and "0 < pool_start c" and "pool_start c \<le> pool_end c"
    and "\<forall>(request, t) \<in> set rs. \<exists>is. wf_request request is"
  shows "\<exists>s0 s ms. dhcp_init_server_hashmap m c maxl = Some s0 \<and>
    serve_run dhcp_process_message_hashmap s0 rs = Some (s, ms) \<and> length ms = length rs \<and>
    (\<forall>k1 k2 ip e1 e2. hash_leases (pool s) k1 = Some (ip, e1) \<and> hash_leases (pool s) k2 = Some (ip, e2) \<longrightarrow> k1 = k2) \<and>
    card (dom (hash_leases (pool s))) \<le> unat (max_leases (pool s))"
proof -
  obtain p where p: "dhcp_hashpool_init (pool m) (pool_start c) maxl = Some p" "hash_pool_inv (pool_start c) (pool_end c) p"
    using hashpool_init_ok [OF assms(1,2,4)] by blast
  let ?s0 = "m\<lparr>config := c, pool := p\<rparr>"
  have init: "dhcp_init_server_hashmap m c maxl = Some ?s0" and inv: "hash_server_inv ?s0"
    using p assms(3) by (simp_all add: dhcp_init_server_hashmap_def pool_server_inv_def)
  obtain s ms where "serve_run dhcp_process_message_hashmap ?s0 rs = Some (s, ms)"
    "hash_server_inv s" "length ms = length rs"
    using hsh.srv.serve_run_ok [OF inv assms(5)] unfolding process_hashmap_is_serve by blast
  with init hsh.srv.unique_ip [of s] hsh.srv.finite_leases [of s] show ?thesis by blast
qed

theorem hash_run_unique_witness:
  "\<exists>s0 s ms. dhcp_init_server_hashmap sample_hash_server sample_config 2 = Some s0 \<and>
    serve_run dhcp_process_message_hashmap s0
      [(sample_request 1 discover_items, 0), (sample_request 1 (request_items 0x0A00000A), 1)] = Some (s, ms) \<and>
    length ms = 2"
proof -
  let ?rs = "[(sample_request 1 discover_items, 0), (sample_request 1 (request_items 0x0A00000A), 1)]"
  have "hash_memory HASH_ELEM_MAX (leases (pool sample_hash_server))"
    "hash_memory HASH_ELEM_IP_SIZE (ip_set (pool sample_hash_server))"
    using sample_memory_ok by (simp_all add: sample_hash_server_def)
  from hash_run_unique [OF this, of sample_config ?rs 2] obtain s0 s ms where
    "dhcp_init_server_hashmap sample_hash_server sample_config 2 = Some s0"
    "serve_run dhcp_process_message_hashmap s0 ?rs = Some (s, ms)" "length ms = length ?rs" by auto
  then show ?thesis by auto
qed

text \<open>
  The DORA exchange and the lifetime of a lease.  With the HASHMAP backend too, the REQUEST for
  the address just offered is acknowledged and recorded, and the lease is then kept whatever
  requests other clients send before it expires.
\<close>

theorem hash_handshake:
  assumes "hash_server_inv s" and "wf_request rq1 is1" and "wf_request rq2 is2"
    and "item_lookup is1 DHCP_OPT_MESSAGE_TYPE = Some [DHCP_DISCOVER]"
    and "dhcp_process_message_hashmap s rq1 zero_message t1 = Some (s1, m1)"
    and "dhcp_get_message_type m1 = Some DHCP_OFFER"
    and "item_lookup is2 DHCP_OPT_MESSAGE_TYPE = Some [DHCP_REQUEST]"
    and "item_lookup is2 DHCP_OPT_REQUESTED_IP = Some (be_bytes (yiaddr m1))" and "chaddr rq2 = chaddr rq1"
    and "\<forall>(request, t) \<in> set rs. (\<exists>is. wf_request request is) \<and>
      mac_key (chaddr request) \<noteq> mac_key (chaddr rq1) \<and> t < t2 + lease_time (config s)"
  shows "\<exists>s2 m2 s3 ms. dhcp_process_message_hashmap s1 rq2 zero_message t2 = Some (s2, m2) \<and>
    dhcp_get_message_type m2 = Some DHCP_ACK \<and> yiaddr m2 = yiaddr m1 \<and>
    serve_run dhcp_process_message_hashmap s2 rs = Some (s3, ms) \<and>
    hash_leases (pool s3) (mac_key (chaddr rq1)) = Some (yiaddr m1, t2 + lease_time (config s))"
proof -
  note serve = process_hashmap_is_serve
  obtain s2 m2 where s2: "dhcp_process_message_hashmap s1 rq2 zero_message t2 = Some (s2, m2)"
    "dhcp_get_message_type m2 = Some DHCP_ACK" "yiaddr m2 = yiaddr m1"
    "hash_leases (pool s2) (mac_key (chaddr rq1)) = Some (yiaddr m1, t2 + lease_time (config s))"
    using hsh.srv.handshake_messages [OF assms(1-4) _ assms(6-9)] assms(5) unfolding serve by blast
  have inv1: "hash_server_inv s1"
    using hsh.srv.serve_ok [OF assms(1,2), of zero_message t1] assms(5) unfolding serve by auto
  then have inv2: "hash_server_inv s2"
    using hsh.srv.serve_ok [OF inv1 assms(3), of zero_message t2] s2(1) unfolding serve by auto
  have "\<forall>(request, t) \<in> set rs. \<exists>is. wf_request request is" using assms(10) by auto
  then obtain s3 ms where "serve_run dhcp_process_message_hashmap s2 rs = Some (s3, ms)"
    using hsh.srv.serve_run_ok [OF inv2] unfolding serve by blast
  with s2 hsh.srv.serve_run_keeps_lease [OF inv2 assms(10) s2(4)] show ?thesis unfolding serve by blast
qed

lemma sample_hash_offer:
  assumes "hash_server_inv s" and "config s = sample_config" and "unat (max_leases (pool s)) = 2"
    and "hash_leases (pool s) = [[2, 0, 0, 0, 0, 1] \<mapsto> (0x0A00000A, 3600)]"
  shows "\<exists>s1 m1. dhcp_process_message_hashmap s (sample_request 2 discover_items) zero_message 5 = Some (s1, m1) \<and>
    dhcp_get_message_type m1 = Some DHCP_OFFER"
proof -
  have len: "length (sample_chaddr 2) = 16" by simp
  obtain s1 ip where o: "hash_offer s (sample_chaddr 2) 5 = Some (s1, ip)"
    using hsh.srv.offer_ok [OF assms(1) len, of 5] by blast
  have "ip \<noteq> 0"
  proof
    assume "ip = 0"
    with hsh.srv.offer_leases [OF assms(1) len o] assms(2-4) have
      "\<forall>a. 0x0A00000A \<le> a \<and> a \<le> (0x0A00000B :: u32) \<longrightarrow> a = 0x0A00000A"
      by (auto simp: cleaned_def offer_spec_def leased_ips_def split: if_splits)
    then show False by (auto dest: spec [of _ "0x0A00000B"])
  qed
  then have "outcome hash_offer hash_commit hash_decline s discover_items (chaddr (sample_request 2 discover_items)) 5 =
      Some (s1, Offer ip)"
    using o by (simp add: outcome_def)
  from serve_refines_outcome [OF sample_items_wf(1) this, of zero_message] show ?thesis
    unfolding process_hashmap_is_serve by (auto dest: dhcp_get_message_type_items)
qed

theorem hash_handshake_witness:
  "\<exists>s s1 m1 s2 m2. hash_leases (pool s) = [[2, 0, 0, 0, 0, 1] \<mapsto> (0x0A00000A, 3600)] \<and>
    dhcp_process_message_hashmap s (sample_request 2 discover_items) zero_message 5 = Some (s1, m1) \<and>
    dhcp_process_message_hashmap s1 (sample_request 2 (request_items (yiaddr m1))) zero_message 6 = Some (s2, m2) \<and>
    dhcp_get_message_type m2 = Some DHCP_ACK"
proof -
  obtain s where s: "hash_server_inv s" "config s = sample_config" "unat (max_leases (pool s)) = 2"
    "hash_leases (pool s) = [[2, 0, 0, 0, 0, 1] \<mapsto> (0x0A00000A, 3600)]" by (rule sample_hash_leased)
  obtain s1 m1 where m1: "dhcp_process_message_hashmap s (sample_request 2 discover_items) zero_message 5 = Some (s1, m1)"
    "dhcp_get_message_type m1 = Some DHCP_OFFER"
    using sample_hash_offer [OF s] by blast
  from hash_handshake [OF s(1) sample_items_wf(1) sample_items_wf(2) [of 2 "yiaddr m1"] _ m1,
      of "[(sample_request 1 discover_items, 7)]" 6] s m1(1)
  show ?thesis by auto
qed

end
