(* ===== verification/Grant_Server.thy ===== *)
theory Grant_Server
  imports Dhcp_Serve
begin

text \<open>
  The contract of the backends without per-client leases (the two bitmap pools and NPRC).  They
  keep a set of addresses that are not available; an address is granted at most once until its
  window is recycled.  \<open>unavail\<close> is that set, \<open>live s T\<close> says that no window of \<open>s\<close> ends before
  time \<open>T\<close>, and \<open>span\<close> is the length of a window, so that a window opened at \<open>t\<close> is still open at
  \<open>T\<close> when \<open>T < t + span\<close>.
\<close>

text \<open>These backends do not handle DECLINE: the message falls into the default case.\<close>

definition no_decline :: "'p dhcp_server_t \<Rightarrow> u8 list \<Rightarrow> 'p dhcp_server_t option" where
  "no_decline s mac = Some s"

text \<open>The addresses that a sequence of replies acknowledges.\<close>

fun acked_ips :: "dhcp_message_t list \<Rightarrow> u32 list" where
  "acked_ips [] = []"
| "acked_ips (m # ms) =
     (if dhcp_get_message_type m = Some DHCP_ACK then yiaddr m # acked_ips ms else acked_ips ms)"

text \<open>The addresses that it offers.\<close>

fun offered_ips :: "dhcp_message_t list \<Rightarrow> u32 list" where
  "offered_ips [] = []"
| "offered_ips (m # ms) =
     (if dhcp_get_message_type m = Some DHCP_OFFER then yiaddr m # offered_ips ms else offered_ips ms)"

lemma realises_message_type:
  assumes "realises request c zero_message r m"
  shows "dhcp_get_message_type m =
    (case r of NoReply \<Rightarrow> None | Offer _ \<Rightarrow> Some DHCP_OFFER | Ack _ \<Rightarrow> Some DHCP_ACK | Nak \<Rightarrow> Some DHCP_NAK)"
  using assms dhcp_get_message_type_blank [of zero_message]
  by (cases r) (auto dest!: dhcp_get_message_type_items)

lemma realises_acked:
  assumes "realises request c zero_message r m"
  shows "acked_ips (m # ms) = (case r of Ack ip \<Rightarrow> ip # acked_ips ms | _ \<Rightarrow> acked_ips ms)"
  using realises_message_type [OF assms] assms by (cases r) (auto simp: msg_type_defs)

lemma realises_offered:
  assumes "realises request c zero_message r m"
  shows "offered_ips (m # ms) = (case r of Offer ip \<Rightarrow> ip # offered_ips ms | _ \<Rightarrow> offered_ips ms)"
  using realises_message_type [OF assms] assms by (cases r) (auto simp: msg_type_defs)

locale grant_server = address_server inv offer commit decline
  for inv :: "'p dhcp_server_t \<Rightarrow> bool"
    and offer :: "'p dhcp_server_t \<Rightarrow> u8 list \<Rightarrow> u32 \<Rightarrow> ('p dhcp_server_t \<times> u32) option"
    and commit :: "'p dhcp_server_t \<Rightarrow> u32 \<Rightarrow> u8 list \<Rightarrow> u32 \<Rightarrow> ('p dhcp_server_t \<times> bool) option"
    and decline :: "'p dhcp_server_t \<Rightarrow> u8 list \<Rightarrow> 'p dhcp_server_t option" +
  fixes unavail :: "'p dhcp_server_t \<Rightarrow> u32 set" and live :: "'p dhcp_server_t \<Rightarrow> u32 \<Rightarrow> bool" and span :: "'p dhcp_server_t \<Rightarrow> u32"
  assumes offer_grants: "inv s \<Longrightarrow> length mac = 16 \<Longrightarrow> offer s mac t = Some (s', ip) \<Longrightarrow>
      live s T \<Longrightarrow> t \<le> T \<Longrightarrow> T < t + span s \<Longrightarrow>
      live s' T \<and> unavail s \<subseteq> unavail s' \<and> span s' = span s"
    and offer_available: "inv s \<Longrightarrow> length mac = 16 \<Longrightarrow> offer s mac t = Some (s', ip) \<Longrightarrow> ip \<noteq> 0 \<Longrightarrow>
      ip \<notin> unavail s'"
    and offer_then_commit: "inv s \<Longrightarrow> length mac = 16 \<Longrightarrow> offer s mac t = Some (s', ip) \<Longrightarrow> ip \<noteq> 0 \<Longrightarrow>
      \<exists>s''. commit s' ip mac t' = Some (s'', True)"
    and commit_grants: "inv s \<Longrightarrow> length mac = 16 \<Longrightarrow> commit s ip mac t = Some (s', ok) \<Longrightarrow>
      (live s T \<longrightarrow> live s' T) \<and> span s' = span s \<and>
      unavail s \<subseteq> unavail s' \<and> (ok \<longrightarrow> ip \<notin> unavail s \<and> ip \<in> unavail s')"
    and decline_grants: "inv s \<Longrightarrow> length mac = 16 \<Longrightarrow> decline s mac = Some s' \<Longrightarrow> s' = s"
begin

lemma outcome_grants:
  assumes "inv s" and "length mac = 16" and "outcome offer commit decline s is mac t = Some (s', r)"
    and "live s T" and "t \<le> T" and "T < t + span s"
  shows "live s' T \<and> span s' = span s \<and> unavail s \<subseteq> unavail s' \<and>
    (\<forall>ip. r = Ack ip \<longrightarrow> ip \<notin> unavail s \<and> ip \<in> unavail s')"
proof (cases rule: outcome_cases [of offer commit decline s "is" mac t])
  case none
  with assms show ?thesis by simp
next
  case offer
  with assms(3) obtain ip where "offer s mac t = Some (s', ip)" "r = (if ip \<noteq> 0 then Offer ip else NoReply)"
    by (auto simp: bind_eq_Some_iff)
  with offer_grants [OF assms(1,2) _ assms(4-6)] show ?thesis by (auto split: if_splits)
next
  case (commit ip)
  with assms(3) obtain ok where "commit s ip mac t = Some (s', ok)" "r = (if ok then Ack ip else Nak)"
    by (auto simp: bind_eq_Some_iff)
  with commit_grants [OF assms(1,2), of ip t s' ok T] assms(4) show ?thesis by (auto split: if_splits)
next
  case decline
  with assms(3) have "decline s mac = Some s'" "r = NoReply" by (auto simp: bind_eq_Some_iff)
  with decline_grants [OF assms(1,2)] assms(4) show ?thesis by auto
qed

text \<open>The DORA exchange: an offered address is granted to the REQUEST that follows, and not again.\<close>

lemma grant_handshake:
  assumes inv: "inv s" and wf1: "wf_request rq1 is1" and wf2: "wf_request rq2 is2"
    and disc: "item_lookup is1 DHCP_OPT_MESSAGE_TYPE = Some [DHCP_DISCOVER]"
    and offered: "serve offer commit decline s rq1 zero_message t1 = Some (s1, m1)"
      "dhcp_get_message_type m1 = Some DHCP_OFFER"
    and req: "item_lookup is2 DHCP_OPT_MESSAGE_TYPE = Some [DHCP_REQUEST]"
      "item_lookup is2 DHCP_OPT_REQUESTED_IP = Some (be_bytes (yiaddr m1))" "chaddr rq2 = chaddr rq1"
  shows "\<exists>s2 m2. serve offer commit decline s1 rq2 zero_message t2 = Some (s2, m2) \<and>
    dhcp_get_message_type m2 = Some DHCP_ACK \<and> yiaddr m2 = yiaddr m1 \<and>
    yiaddr m1 \<notin> unavail s1 \<and> yiaddr m1 \<in> unavail s2"
proof -
  have ch: "length (chaddr rq1) = 16" using wf1 by (simp add: wf_request_def)
  obtain s2 m2 where m2: "inv s1" "commit s1 (yiaddr m1) (chaddr rq1) t2 = Some (s2, True)"
    "serve offer commit decline s1 rq2 zero_message t2 = Some (s2, m2)"
    "dhcp_get_message_type m2 = Some DHCP_ACK" "yiaddr m2 = yiaddr m1"
    using offer_ack_messages [OF assms, of t2] offer_then_commit [OF inv ch] by blast
  with commit_grants [OF m2(1) ch m2(2)] show ?thesis by blast
qed

text \<open>Within a window, no address is acknowledged twice, whatever the clients send.\<close>

lemma run_grants_once:
  assumes "inv s" and "live s T"
    and "\<forall>(request, t) \<in> set rs. (\<exists>is. wf_request request is) \<and> t \<le> T \<and> T < t + span s"
    and "serve_run (serve offer commit decline) s rs = Some (s', ms)"
  shows "distinct (acked_ips ms) \<and> set (acked_ips ms) \<inter> unavail s = {} \<and>
    set (acked_ips ms) \<subseteq> unavail s'"
proof -
  have "distinct (acked_ips ms) \<and> set (acked_ips ms) \<inter> unavail s = {} \<and>
      set (acked_ips ms) \<subseteq> unavail s' \<and> unavail s \<subseteq> unavail s'"
    using assms
  proof (induction rs arbitrary: s ms)
    case Nil
    then show ?case by simp
  next
    case (Cons q rs)
    obtain request t where q: "q = (request, t)" by (cases q)
    obtain "is" where wf: "wf_request request is" and t: "t \<le> T" "T < t + span s"
      using Cons.prems(3) q by auto
    obtain s1 m ms' where step: "serve offer commit decline s request zero_message t = Some (s1, m)"
      and rest: "serve_run (serve offer commit decline) s1 rs = Some (s', ms')" and ms: "ms = m # ms'"
      using Cons.prems(4) q by (auto simp: bind_eq_Some_iff)
    obtain r where r: "outcome offer commit decline s is (chaddr request) t = Some (s1, r)" "inv s1"
      "realises request (config s1) zero_message r m"
      using serve_ok [OF Cons.prems(1) wf, of zero_message t] step by auto
    have "length (chaddr request) = 16" using wf by (simp add: wf_request_def)
    note g = outcome_grants [OF Cons.prems(1) this r(1) Cons.prems(2) t]
    have "distinct (acked_ips ms') \<and> set (acked_ips ms') \<inter> unavail s1 = {} \<and>
      set (acked_ips ms') \<subseteq> unavail s' \<and> unavail s1 \<subseteq> unavail s'"
      using Cons.IH [OF r(2) _ _ rest] g Cons.prems(3) by auto
    with g show ?case unfolding ms realises_acked [OF r(3)] by (cases r) auto
  qed
  then show ?thesis by blast
qed

end

end
