(* ===== verification/Bitmap_Ops.thy ===== *)
theory Bitmap_Ops
  imports Prelude
begin

text \<open>
  The bitmaps of \<open>dhcp-lib/dhcp_bitmap_ops.h\<close> and \<open>dhcp-lib/dhcp_bitmap_ops.c\<close>: an array of 32-bit words
  where bit \<open>i\<close> stands for the address at offset \<open>i\<close> of a range.  \<open>bm_bit\<close> is the abstract view, the
  lemmas show that the operations set, clear and test one bit of it and stay inside the array.
\<close>

record dhcp_bmrange_t =
  ips :: "u32 list"
  expire_time :: u32

definition dhcp_bm_set :: "u32 list \<Rightarrow> u32 \<Rightarrow> u32 list option" where
  "dhcp_bm_set bm b = do {
     w \<leftarrow> rd bm (unat (drop_bit 5 b));
     wr bm (unat (drop_bit 5 b)) (w OR push_bit (unat (b AND 31)) 1)
   }"

definition dhcp_bm_clear :: "u32 list \<Rightarrow> u32 \<Rightarrow> u32 list option" where
  "dhcp_bm_clear bm b = do {
     w \<leftarrow> rd bm (unat (drop_bit 5 b));
     wr bm (unat (drop_bit 5 b)) (w AND NOT (push_bit (unat (b AND 31)) 1))
   }"

definition dhcp_bm_used :: "u32 list \<Rightarrow> u32 \<Rightarrow> u32 \<Rightarrow> bool option" where
  "dhcp_bm_used bm b range_size =
     (if b \<ge> range_size then Some True
      else do {
        w \<leftarrow> rd bm (unat (drop_bit 5 b));
        Some (drop_bit (unat (b AND 31)) w AND 1 \<noteq> 0)
      })"

definition dhcp_bm_counter_to_ip :: "u32 \<Rightarrow> u32 \<Rightarrow> u32" where
  "dhcp_bm_counter_to_ip range_start counter = range_start + counter"

definition dhcp_bm_range_full :: "u32 \<Rightarrow> u32 \<Rightarrow> bool" where
  "dhcp_bm_range_full counter range_size \<longleftrightarrow> counter \<ge> range_size"

text \<open>\<open>kmemset (ips, 0, ((range_size + 31u) / 32u) * sizeof (uint32_t))\<close>.\<close>

definition bm_wipe :: "u32 list \<Rightarrow> u32 \<Rightarrow> u32 list option" where
  "bm_wipe bm range_size = kmemset bm 0 0 (unat ((range_size + 31) div 32))"

section \<open>The abstract bitmap\<close>

definition bm_bit :: "u32 list \<Rightarrow> nat \<Rightarrow> bool" where
  "bm_bit bm i \<longleftrightarrow> bit (bm ! (i div 32)) (i mod 32)"

lemma bm_index:
  "unat (drop_bit 5 b) = unat b div 32" "unat (b AND 31) = unat b mod 32" for b :: u32
proof -
  show "unat (drop_bit 5 b) = unat b div 32" by (simp add: drop_bit_eq_div unat_div)
  have "(31 :: u32) = mask 5" by (simp add: mask_eq_exp_minus_1)
  then have "b AND 31 = take_bit 5 b" by (simp add: take_bit_eq_mask)
  then show "unat (b AND 31) = unat b mod 32" by (simp add: take_bit_eq_mod unat_mod)
qed

lemma div_mod_same: "i div 32 = j div 32 \<Longrightarrow> i mod 32 = j mod 32 \<longleftrightarrow> i = j" for i j :: nat
  by (metis div_mult_mod_eq)

lemma bm_set_ok:
  assumes "unat b < 32 * length bm"
  shows "\<exists>bm'. dhcp_bm_set bm b = Some bm' \<and> length bm' = length bm \<and>
    (\<forall>i < 32 * length bm. bm_bit bm' i \<longleftrightarrow> i = unat b \<or> bm_bit bm i)"
proof -
  let ?k = "unat b div 32"
  let ?bm = "bm[?k := bm ! ?k OR push_bit (unat b mod 32) 1]"
  have k: "?k < length bm" using assms by (simp add: less_mult_imp_div_less mult.commute)
  have "dhcp_bm_set bm b = Some ?bm" using k by (simp add: dhcp_bm_set_def bm_index access_simps)
  moreover have "bm_bit ?bm i \<longleftrightarrow> i = unat b \<or> bm_bit bm i" if "i < 32 * length bm" for i
    using k that div_mod_same [of i "unat b"]
    by (cases "i div 32 = ?k") (auto simp: bm_bit_def bit_simps nth_list_update)
  ultimately show ?thesis by simp
qed

lemma bm_clear_ok:
  assumes "unat b < 32 * length bm"
  shows "\<exists>bm'. dhcp_bm_clear bm b = Some bm' \<and> length bm' = length bm \<and>
    (\<forall>i < 32 * length bm. bm_bit bm' i \<longleftrightarrow> i \<noteq> unat b \<and> bm_bit bm i)"
proof -
  let ?k = "unat b div 32"
  let ?bm = "bm[?k := bm ! ?k AND NOT (push_bit (unat b mod 32) 1)]"
  have k: "?k < length bm" using assms by (simp add: less_mult_imp_div_less mult.commute)
  have "dhcp_bm_clear bm b = Some ?bm" using k by (simp add: dhcp_bm_clear_def bm_index access_simps)
  moreover have "bm_bit ?bm i \<longleftrightarrow> i \<noteq> unat b \<and> bm_bit bm i" if "i < 32 * length bm" for i
    using k that div_mod_same [of i "unat b"]
    by (cases "i div 32 = ?k") (auto simp: bm_bit_def bit_simps nth_list_update)
  ultimately show ?thesis by simp
qed

lemma and_1_bit: "drop_bit n w AND 1 \<noteq> 0 \<longleftrightarrow> bit w n" for w :: u32
  by (simp add: and_one_eq bit_iff_odd_drop_bit odd_iff_mod_2_eq_one)

lemma bm_used_ok:
  assumes "unat b < unat n \<longrightarrow> unat b < 32 * length bm"
  shows "dhcp_bm_used bm b n = Some (unat n \<le> unat b \<or> bm_bit bm (unat b))"
proof (cases "n \<le> b")
  case True
  then show ?thesis by (simp add: dhcp_bm_used_def word_le_nat_alt)
next
  case False
  then have "unat b div 32 < length bm"
    using assms by (simp add: word_le_nat_alt less_mult_imp_div_less mult.commute)
  then show ?thesis
    using False by (simp add: dhcp_bm_used_def bm_index access_simps and_1_bit bm_bit_def word_le_nat_alt)
qed

lemma bm_wipe_ok:
  assumes "unat n + 31 < 2 ^ 32" and "unat n \<le> 32 * length bm"
  shows "\<exists>bm'. bm_wipe bm n = Some bm' \<and> length bm' = length bm \<and> (\<forall>i < unat n. \<not> bm_bit bm' i)"
proof -
  have "unat (n + 31) = unat n + 31" using assms(1) by (subst unat_plus_if_size) (simp add: word_size)
  then have words: "unat ((n + 31) div 32) = (unat n + 31) div 32" by (simp add: unat_div)
  let ?w = "(unat n + 31) div 32"
  have "?w \<le> length bm" using assms(2) by simp
  then have "bm_wipe bm n = Some (replicate ?w 0 @ drop ?w bm)"
    by (simp add: bm_wipe_def words kmemset_def)
  moreover have "\<not> bm_bit (replicate ?w 0 @ drop ?w bm) i" if "i < unat n" for i
  proof -
    have "i div 32 < ?w" using that by simp
    then show ?thesis by (simp add: bm_bit_def nth_append)
  qed
  ultimately show ?thesis using \<open>?w \<le> length bm\<close> by simp
qed

end
