(* ===== verification/Bitmap_Var.thy ===== *)
theory Bitmap_Var
  imports Grant_Server Bitmap_Ops
begin

text \<open>
  The BMVAR backend: \<open>dhcp-lib/dhcp_bitmap_vartime.h\<close>, \<open>dhcp-lib/dhcp_bitmap_vartime.c\<close> and the entry
  points \<open>dhcp_init_server_bmvar\<close>, \<open>dhcp_process_message_bmvar\<close> of \<open>dhcp-lib/dhcp_server.c\<close>.  One
  range of addresses that is handed out in order and recycled as a whole when its window ends;
  the lease time of an ACK is what is left of the window.

  The range that \<open>pool->range\<close> points to is reached through the pool only and is part of the record.
  The fields \<open>pool_start\<close> and \<open>lease_time\<close> of the pool have the prefix \<open>var_\<close>, because the
  configuration has fields of these names.
\<close>

section \<open>Model\<close>

record dhcp_bmpool_var_t =
  var_pool_start :: u32
  var_lease_time :: u32
  counter :: u32
  range :: dhcp_bmrange_t
  range_size :: u32

definition dhcp_bmpool_var_recycle :: "dhcp_bmpool_var_t \<Rightarrow> dhcp_bmpool_var_t option" where
  "dhcp_bmpool_var_recycle p = do {
     bm \<leftarrow> bm_wipe (ips (range p)) (range_size p);
     Some (p\<lparr>range := \<lparr>ips = bm, expire_time = 0\<rparr>, counter := 0\<rparr>)
   }"

definition dhcp_bmpool_var_init ::
  "dhcp_bmpool_var_t \<Rightarrow> u32 \<Rightarrow> u32 \<Rightarrow> dhcp_bmrange_t \<Rightarrow> u32 \<Rightarrow> dhcp_bmpool_var_t option" where
  "dhcp_bmpool_var_init p ps lt r rs =
     dhcp_bmpool_var_recycle (p\<lparr>var_pool_start := ps, var_lease_time := lt, range := r, range_size := rs\<rparr>)"

text \<open>The loop of \<open>dhcp_bmpool_var_peek\<close>; the second argument is \<open>candidate\<close>.\<close>

function var_scan :: "dhcp_bmpool_var_t \<Rightarrow> u32 \<Rightarrow> (dhcp_bmpool_var_t \<times> u32) option" where
  "var_scan p candidate =
     (if counter p < range_size p then do {
        let candidate = dhcp_bm_counter_to_ip (var_pool_start p) (counter p);
        let p = p\<lparr>counter := counter p + 1\<rparr>;
        u \<leftarrow> dhcp_bm_used (ips (range p)) (candidate - var_pool_start p) (range_size p);
        if \<not> u then Some (p, candidate) else var_scan p candidate
      }
      else Some (p, candidate))"
  by pat_completeness auto
termination
proof (relation "measure (\<lambda>(p, c). unat (range_size p) - unat (counter p))", simp, simp)
  fix p :: dhcp_bmpool_var_t assume "counter p < range_size p"
  then have lt: "unat (counter p) < unat (range_size p)" by (simp add: word_less_nat_alt)
  then have "unat (counter p + 1) = unat (counter p) + 1"
    using unat_less_pow [of "range_size p"] by (intro unat_plus_one) simp
  with lt show "unat (range_size p) - unat (counter p + 1) < unat (range_size p) - unat (counter p)" by simp
qed

declare var_scan.simps [simp del]

text \<open>What follows the recycling in \<open>dhcp_bmpool_var_peek\<close>.\<close>

definition var_next :: "dhcp_bmpool_var_t \<Rightarrow> u32 \<Rightarrow> (dhcp_bmpool_var_t \<times> u32) option" where
  "var_next p cur_time =
     (if expire_time (range p) > 0 \<and> dhcp_bm_range_full (counter p) (range_size p) then Some (p, 0)
      else do {
        let p = (if expire_time (range p) = 0
                 then p\<lparr>range := (range p)\<lparr>expire_time := cur_time + var_lease_time p\<rparr>\<rparr> else p);
        (p, candidate) \<leftarrow> var_scan p 0;
        if candidate = 0 then Some (p, 0)
        else do {
          u \<leftarrow> dhcp_bm_used (ips (range p)) (candidate - var_pool_start p) (range_size p);
          Some (p, if u then 0 else candidate)
        }
      })"

definition dhcp_bmpool_var_peek :: "dhcp_bmpool_var_t \<Rightarrow> u32 \<Rightarrow> (dhcp_bmpool_var_t \<times> u32) option" where
  "dhcp_bmpool_var_peek p cur_time = do {
     p \<leftarrow> (if expire_time (range p) > 0 \<and> expire_time (range p) \<le> cur_time
          then dhcp_bmpool_var_recycle p else Some p);
     var_next p cur_time
   }"

definition dhcp_bmpool_var_commit_ip :: "dhcp_bmpool_var_t \<Rightarrow> u32 \<Rightarrow> (dhcp_bmpool_var_t \<times> bool) option" where
  "dhcp_bmpool_var_commit_ip p ip =
     (if ip < var_pool_start p \<or> ip \<ge> var_pool_start p + range_size p then Some (p, False)
      else do {
        u \<leftarrow> dhcp_bm_used (ips (range p)) (ip - var_pool_start p) (range_size p);
        if u then Some (p, False)
        else do {
          bm \<leftarrow> dhcp_bm_set (ips (range p)) (ip - var_pool_start p);
          Some (p\<lparr>range := (range p)\<lparr>ips := bm\<rparr>\<rparr>, True)
        }
      })"

type_synonym bmvar_server = "dhcp_bmpool_var_t dhcp_server_t"

definition dhcp_init_server_bmvar ::
  "bmvar_server \<Rightarrow> dhcp_config_t \<Rightarrow> dhcp_bmrange_t \<Rightarrow> u32 \<Rightarrow> bmvar_server option" where
  "dhcp_init_server_bmvar s c r rs = do {
     p \<leftarrow> dhcp_bmpool_var_init (pool s) (pool_start c) (lease_time c) r rs;
     Some (s\<lparr>config := c, pool := p\<rparr>)
   }"

definition dhcp_process_message_bmvar ::
  "bmvar_server \<Rightarrow> dhcp_message_t \<Rightarrow> dhcp_message_t \<Rightarrow> u32 \<Rightarrow> (bmvar_server \<times> dhcp_message_t) option" where
  "dhcp_process_message_bmvar server request response cur_time = do {
     msg_type \<leftarrow> dhcp_get_message_type request;
     if msg_type = DHCP_DISCOVER then do {
       (p, offered_ip) \<leftarrow> dhcp_bmpool_var_peek (pool server) cur_time;
       let server = server\<lparr>pool := p\<rparr>;
       if offered_ip \<noteq> 0 then do {
         m \<leftarrow> dhcp_build_offer server request offered_ip;
         Some (server, m)
       }
       else Some (server, response)
     }
     else if msg_type = DHCP_REQUEST then do {
       req_opt \<leftarrow> dhcp_get_option request DHCP_OPT_REQUESTED_IP;
       case req_opt of
         None \<Rightarrow> Some (server, response)
       | Some (ptr, len) \<Rightarrow>
           if len = 4 then do {
             ip \<leftarrow> requested_ip (options request) ptr;
             if ip \<ge> pool_start (config server) \<and> ip \<le> pool_end (config server) then do {
               (p, ok) \<leftarrow> dhcp_bmpool_var_commit_ip (pool server) ip;
               let server = server\<lparr>pool := p\<rparr>;
               if ok then do {
                 let server = server\<lparr>config := (config server)\<lparr>lease_time := expire_time (range p) - cur_time\<rparr>\<rparr>;
                 m \<leftarrow> dhcp_build_ack server request ip;
                 Some (server, m)
               }
               else do {
                 m \<leftarrow> dhcp_build_nak request;
                 Some (server, m)
               }
             }
             else do {
               m \<leftarrow> dhcp_build_nak request;
               Some (server, m)
             }
           }
           else Some (server, response)
     }
     else Some (server, response)
   }"

text \<open>Its operations; a DECLINE falls into the default case and changes nothing.\<close>

definition bmvar_offer :: "bmvar_server \<Rightarrow> u8 list \<Rightarrow> u32 \<Rightarrow> (bmvar_server \<times> u32) option" where
  "bmvar_offer s mac t = do {
     (p, ip) \<leftarrow> dhcp_bmpool_var_peek (pool s) t;
     Some (s\<lparr>pool := p\<rparr>, ip)
   }"

definition bmvar_commit :: "bmvar_server \<Rightarrow> u32 \<Rightarrow> u8 list \<Rightarrow> u32 \<Rightarrow> (bmvar_server \<times> bool) option" where
  "bmvar_commit s ip mac t =
     (if pool_start (config s) \<le> ip \<and> ip \<le> pool_end (config s) then do {
        (p, ok) \<leftarrow> dhcp_bmpool_var_commit_ip (pool s) ip;
        Some (if ok then s\<lparr>pool := p, config := (config s)\<lparr>lease_time := expire_time (range p) - t\<rparr>\<rparr>
              else s\<lparr>pool := p\<rparr>, ok)
      }
      else Some (s, False))"

lemma process_bmvar_is_serve: "dhcp_process_message_bmvar = serve bmvar_offer bmvar_commit no_decline"
proof (intro ext)
  fix s request response t
  show "dhcp_process_message_bmvar s request response t = serve bmvar_offer bmvar_commit no_decline s request response t"
    unfolding dhcp_process_message_bmvar_def serve_def bmvar_offer_def bmvar_commit_def no_decline_def
    by (auto simp: Let_def split_def msg_type_defs intro!: Option.bind_cong split: option.split)
qed

end
