(* ===== verification/Message_Properties.thy ===== *)
theory Message_Properties
  imports Samples
begin

text \<open>
  Properties of the option field and of the reply builders of \<open>dhcp-lib/dhcp_server.c\<close>, stated on
  the C routines: what \<open>dhcp_get_option\<close> finds after \<open>dhcp_add_option\<close>, what a client reads out
  of the replies, and the byte order of addresses.
\<close>

lemma item_lookup_append:
  "item_lookup (is @ js) c = (case item_lookup is c of Some d \<Rightarrow> Some d | None \<Rightarrow> item_lookup js c)"
  by (induction "is" c rule: item_lookup.induct) auto

text \<open>What \<open>dhcp_get_option\<close> and the bytes it points to say: the payload of an option, if present.\<close>

definition option_payload :: "dhcp_message_t \<Rightarrow> u8 \<Rightarrow> u8 list option option" where
  "option_payload m c = do {
     r \<leftarrow> dhcp_get_option m c;
     case r of
       None \<Rightarrow> Some None
     | Some (p, len) \<Rightarrow>
         if p + unat len \<le> length (options m) then Some (Some (take (unat len) (drop p (options m)))) else None
   }"

lemma option_payload_items:
  assumes "represents (options m) is" and "c \<noteq> DHCP_OPT_PAD"
  shows "option_payload m c = Some (item_lookup is c)"
proof (cases "item_lookup is c")
  case None
  with dhcp_get_option_None [OF assms] show ?thesis by (simp add: option_payload_def)
next
  case (Some d)
  obtain p where "dhcp_get_option m c = Some (Some (p, of_nat (length d)))" "length d < 256"
    "p + length d < OPTIONS_LEN" "take (length d) (drop p (options m)) = d"
    using dhcp_get_option_Some [OF assms Some] by blast
  with represents_length [OF assms(1)] Some show ?thesis
    by (simp add: option_payload_def unat_of_nat)
qed

lemma holds_items_snoc: "holds_items os (is @ [i]) \<Longrightarrow> represents os (is @ [i])"
  by (auto simp: holds_items_def)

text \<open>
  C13. Adding an option, then reading options.  If the field holds a sequence of items and there
  is room, \<open>dhcp_add_option\<close> stays in bounds, \<open>dhcp_get_option\<close> then finds the new option with
  exactly its payload (when the code was not present before), and finds every other option as
  before.
\<close>

theorem add_then_get_option:
  assumes "holds_items (options m) is" and "item_ok (Opt c d)" and "length d = unat len"
    and "length (encode_items is) + 2 + length d + 1 \<le> OPTIONS_LEN" and "item_lookup is c = None"
  shows "\<exists>m'. dhcp_add_option m c len (Some d) = Some m' \<and> option_payload m' c = Some (Some d) \<and>
    (\<forall>c'. c' \<noteq> c \<and> c' \<noteq> DHCP_OPT_PAD \<longrightarrow> option_payload m' c' = Some (item_lookup is c'))"
proof -
  obtain os where os: "dhcp_add_option m c len (Some d) = Some (m\<lparr>options := os\<rparr>)"
    and h: "holds_items os (is @ [Opt c d])"
    using dhcp_add_option_append [OF assms(1-4)] by blast
  have "option_payload (m\<lparr>options := os\<rparr>) c' = Some (item_lookup (is @ [Opt c d]) c')" if "c' \<noteq> DHCP_OPT_PAD" for c'
    using option_payload_items [of "m\<lparr>options := os\<rparr>"] holds_items_snoc [OF h] that by simp
  with os assms(2,5) show ?thesis
    by (auto simp: item_lookup_append split: option.split)
qed

theorem add_then_get_option_witness:
  "\<exists>m'. dhcp_add_option zero_message DHCP_OPT_LEASE_TIME 4 (Some [0, 0, 14, 16]) = Some m' \<and>
     option_payload m' DHCP_OPT_LEASE_TIME = Some (Some [0, 0, 14, 16])"
  using add_then_get_option [of zero_message "[]" DHCP_OPT_LEASE_TIME "[0, 0, 14, 16]" 4]
  by (auto simp: holds_items_def OPTIONS_LEN_def)

text \<open>
  A full field is left alone.  When the option does not fit, \<open>dhcp_add_option\<close> neither leaves
  the array nor changes an option that is there.
\<close>

theorem add_option_full:
  assumes "holds_items (options m) is" and "OPTIONS_LEN < length (encode_items is) + 2 + unat len + 1"
    and "c' \<noteq> DHCP_OPT_PAD"
  shows "\<exists>m'. dhcp_add_option m c len data = Some m' \<and> option_payload m' c' = Some (item_lookup is c')"
proof -
  obtain os where "dhcp_add_option m c len data = Some (m\<lparr>options := os\<rparr>)" "represents os is"
    using dhcp_add_option_full [OF assms(1,2)] by blast
  with option_payload_items [of "m\<lparr>options := os\<rparr>" "is" c'] assms(3) show ?thesis by simp
qed

text \<open>
  What a client reads from an ACK.  \<open>dhcp_build_ack\<close> returns a message with the header fields
  of the request and, in the option field, the message type, the server identifier, the subnet
  mask, the router, the name server and the lease time of the configuration, in network order.
\<close>

theorem build_ack_readable:
  assumes "length (chaddr request) = 16"
  shows "\<exists>m. dhcp_build_ack server request ip = Some m \<and> reply_header request m \<and> yiaddr m = ip \<and>
    dhcp_get_message_type m = Some DHCP_ACK \<and>
    option_payload m DHCP_OPT_SERVER_ID = Some (Some (be_bytes (server_ip (config server)))) \<and>
    option_payload m DHCP_OPT_SUBNET_MASK = Some (Some (be_bytes (subnet_mask (config server)))) \<and>
    option_payload m DHCP_OPT_ROUTER = Some (Some (be_bytes (gateway_ip (config server)))) \<and>
    option_payload m DHCP_OPT_DNS_SERVER = Some (Some (be_bytes (dns_ip (config server)))) \<and>
    option_payload m DHCP_OPT_LEASE_TIME = Some (Some (be_bytes (lease_time (config server))))"
proof -
  obtain m where m: "dhcp_build_ack server request ip = Some m" "reply_header request m" "yiaddr m = ip"
    "represents (options m) (reply_items (config server) DHCP_ACK)"
    using dhcp_build_ack_ok [OF assms] by blast
  then show ?thesis
    using dhcp_get_message_type_items [OF m(4)] option_payload_items [OF m(4)] by auto
qed

text \<open>
  Byte order.  \<open>uint32_to_ip\<close> and \<open>ip_to_uint32\<close> are inverse to each other in both directions.
\<close>

theorem ip_byte_order_roundtrip:
  "(case uint32_to_ip ip of (a, b, c, d) \<Rightarrow> ip_to_uint32 a b c d) = ip \<and>
   uint32_to_ip (ip_to_uint32 a b c d) = (a, b, c, d)"
  by (simp add: ip_to_uint32_uint32_to_ip uint32_to_ip_ip_to_uint32)

text \<open>
  C14. An option field without an END code.  When padding and options fill the 308 bytes to the last
  one, \<open>dhcp_get_option\<close> still finds every option that is there.  For one that is not there it reads
  out of bounds, because the loop reads \<open>*ptr\<close> before it compares \<open>ptr\<close> with the end of the array; and
  it reads exactly one byte too far: if that byte exists, the function returns the null pointer,
  whatever the byte is.
\<close>

theorem unterminated_field_overread:
  assumes "options m = encode_items is" and "list_all item_ok is" and "length (encode_items is) = OPTIONS_LEN"
    and "c \<noteq> DHCP_OPT_PAD"
  shows "case item_lookup is c of
      Some d \<Rightarrow> option_payload m c = Some (Some d)
    | None \<Rightarrow> dhcp_get_option m c = None \<and> (\<forall>b. dhcp_get_option (m\<lparr>options := options m @ [b]\<rparr>) c = Some None)"
proof -
  note S = get_option_from_filled [OF assms(2,4), of "[]", simplified, OF assms(3)]
  show ?thesis
  proof (cases "item_lookup is c")
    case None
    have "get_option_from (encode_items is) c OPTIONS_LEN = None"
      by (subst get_option_from.simps) (simp add: rd_def assms(3))
    moreover have "get_option_from (encode_items is @ [b]) c OPTIONS_LEN = Some None" for b
      by (subst get_option_from.simps) (simp add: rd_def assms(3) nth_append)
    ultimately show ?thesis using S [of "[]"] S [of "[_]"] None assms(1) by (simp add: dhcp_get_option_def)
  next
    case (Some d)
    with S [of "[]"] obtain p where "get_option_from (encode_items is) c 0 = Some (Some (p, of_nat (length d)))" "length d < 256"
      "p + length d \<le> OPTIONS_LEN" "take (length d) (drop p (encode_items is)) = d" by auto
    with Some assms(1,3) show ?thesis by (simp add: option_payload_def dhcp_get_option_def unat_of_nat)
  qed
qed

theorem unterminated_field_overread_witness:
  "dhcp_get_option zero_message DHCP_OPT_MESSAGE_TYPE = None \<and>
   dhcp_get_option (zero_message\<lparr>options := options zero_message @ [7]\<rparr>) DHCP_OPT_MESSAGE_TYPE = Some None"
proof -
  have pad: "encode_items (replicate n Pad) = replicate n 0" "item_lookup (replicate n Pad) c = None" for n c
    by (induction n) (simp_all add: opt_code_defs)
  have "options zero_message = encode_items (replicate OPTIONS_LEN Pad)" by (simp add: pad zero_message_def)
  from unterminated_field_overread [OF this, of DHCP_OPT_MESSAGE_TYPE] show ?thesis by (simp add: pad list_all_length)
qed

end
