(* ===== verification/Bitmap_Var_Correct.thy ===== *)
theory Bitmap_Var_Correct
  imports Bitmap_Var Message_Properties
begin

text \<open>
  Correctness of the BMVAR backend: the invariant of the pool, the behaviour of the three
  operations on the set of granted addresses, and the interpretation of \<open>grant_server\<close>.
\<close>

section \<open>Invariant\<close>

definition var_inv :: "dhcp_bmpool_var_t \<Rightarrow> bool" where
  "var_inv p \<longleftrightarrow> 0 < var_pool_start p \<and> unat (var_pool_start p) + unat (range_size p) < 2 ^ 32 \<and>
     unat (range_size p) + 31 < 2 ^ 32 \<and> unat (range_size p) \<le> 32 * length (ips (range p)) \<and>
     counter p \<le> range_size p"

definition var_has :: "dhcp_bmpool_var_t \<Rightarrow> u32 \<Rightarrow> bool" where
  "var_has p ip \<longleftrightarrow> var_pool_start p \<le> ip \<and> unat ip < unat (var_pool_start p) + unat (range_size p)"

definition var_unavail :: "dhcp_bmpool_var_t \<Rightarrow> u32 set" where
  "var_unavail p = {ip. var_has p ip \<and> bm_bit (ips (range p)) (unat (ip - var_pool_start p))}"

definition var_live :: "dhcp_bmpool_var_t \<Rightarrow> u32 \<Rightarrow> bool" where
  "var_live p T \<longleftrightarrow> expire_time (range p) = 0 \<or> T < expire_time (range p)"

definition same_range :: "dhcp_bmpool_var_t \<Rightarrow> dhcp_bmpool_var_t \<Rightarrow> bool" where
  "same_range p p' \<longleftrightarrow> var_pool_start p' = var_pool_start p \<and> range_size p' = range_size p \<and>
     var_lease_time p' = var_lease_time p"

lemma var_has_offset: "var_has p ip \<Longrightarrow> unat (ip - var_pool_start p) < unat (range_size p)"
  using unat_sub [of "var_pool_start p" ip] by (auto simp: var_has_def word_le_nat_alt)

lemma var_has_counter:
  assumes "var_inv p" and "c < range_size p"
  shows "var_has p (var_pool_start p + c)" and "var_pool_start p + c \<noteq> 0"
proof -
  have c: "unat c < unat (range_size p)" using assms(2) by (simp add: word_less_nat_alt)
  have s: "unat (var_pool_start p + c) = unat (var_pool_start p) + unat c"
    by (subst unat_plus_if_size) (use assms(1) c in \<open>auto simp: var_inv_def word_size\<close>)
  then show "var_has p (var_pool_start p + c)" using c by (simp add: var_has_def word_le_nat_alt)
  have "0 < unat (var_pool_start p)" using assms(1) by (simp add: var_inv_def word_less_nat_alt)
  with s show "var_pool_start p + c \<noteq> 0" by auto
qed

lemma var_used_ok:
  assumes "var_inv p" and "var_has p ip"
  shows "dhcp_bm_used (ips (range p)) (ip - var_pool_start p) (range_size p) = Some (ip \<in> var_unavail p)"
  using bm_used_ok [of "ip - var_pool_start p" "range_size p" "ips (range p)"] var_has_offset [OF assms(2)] assms
  by (auto simp: var_inv_def var_unavail_def)

section \<open>Operations\<close>

lemma var_recycle_ok:
  assumes "var_inv p"
  obtains p' where "dhcp_bmpool_var_recycle p = Some p'" and "var_inv p'" and "same_range p p'"
    and "var_unavail p' = {}" and "expire_time (range p') = 0"
proof -
  obtain bm where bm: "bm_wipe (ips (range p)) (range_size p) = Some bm" "length bm = length (ips (range p))"
    "\<forall>i < unat (range_size p). \<not> bm_bit bm i"
    using bm_wipe_ok [of "range_size p" "ips (range p)"] assms by (auto simp: var_inv_def)
  let ?p = "p\<lparr>range := \<lparr>ips = bm, expire_time = 0\<rparr>, counter := 0\<rparr>"
  have "var_unavail ?p = {}" using bm(3) var_has_offset [of ?p] by (auto simp: var_unavail_def)
  then show thesis
    using that [of ?p] bm assms by (simp add: dhcp_bmpool_var_recycle_def var_inv_def same_range_def)
qed

lemma var_scan_ok:
  assumes "var_inv p" and "c = 0 \<or> var_has p c"
  shows "\<exists>k c'. var_scan p c = Some (p\<lparr>counter := k\<rparr>, c') \<and> k \<le> range_size p \<and> (c' = 0 \<or> var_has p c')"
  using assms
proof (induction p c rule: var_scan.induct)
  case (1 p c)
  show ?case
  proof (cases "counter p < range_size p")
    case False
    then show ?thesis using 1(2,3)
      by (subst var_scan.simps) (auto simp: var_inv_def intro!: exI [of _ "counter p"])
  next
    case True
    let ?c = "var_pool_start p + counter p" and ?p = "p\<lparr>counter := counter p + 1\<rparr>"
    have "unat (counter p) < unat (range_size p)" using True by (simp add: word_less_nat_alt)
    then have le: "counter p + 1 \<le> range_size p"
      using unat_less_pow [of "range_size p"] by (subst word_le_nat_alt, subst unat_plus_one) simp_all
    have inv: "var_inv ?p" using 1(2) le by (simp add: var_inv_def)
    note has = var_has_counter [OF 1(2) True]
    have used: "dhcp_bm_used (ips (range p)) (counter p) (range_size p) = Some (?c \<in> var_unavail p)"
      using var_used_ok [OF 1(2) has(1)] by simp
    have "\<exists>k c'. var_scan ?p ?c = Some (?p\<lparr>counter := k\<rparr>, c') \<and> k \<le> range_size ?p \<and> (c' = 0 \<or> var_has ?p c')"
      if "?c \<in> var_unavail p"
      using "1.IH" [OF True, of ?c ?p True] inv has used that by (simp add: dhcp_bm_counter_to_ip_def var_has_def)
    then show ?thesis
      using True used has(1) le
      by (subst var_scan.simps) (auto simp: Let_def dhcp_bm_counter_to_ip_def var_has_def)
  qed
qed

lemma var_next_ok:
  assumes inv: "var_inv p"
  shows "\<exists>p' ip. var_next p t = Some (p', ip) \<and> var_inv p' \<and> same_range p p' \<and> ips (range p') = ips (range p) \<and>
    expire_time (range p') = (if expire_time (range p) = 0 then t + var_lease_time p else expire_time (range p)) \<and>
    (ip \<noteq> 0 \<longrightarrow> var_has p' ip \<and> ip \<notin> var_unavail p')"
proof (cases "expire_time (range p) > 0 \<and> dhcp_bm_range_full (counter p) (range_size p)")
  case True
  with inv show ?thesis by (auto simp: var_next_def same_range_def)
next
  case False
  define q where "q = (if expire_time (range p) = 0
    then p\<lparr>range := (range p)\<lparr>expire_time := t + var_lease_time p\<rparr>\<rparr> else p)"
  have q: "var_inv q" "same_range p q" "ips (range q) = ips (range p)"
    "expire_time (range q) = (if expire_time (range p) = 0 then t + var_lease_time p else expire_time (range p))"
    using inv by (simp_all add: q_def var_inv_def same_range_def)
  obtain k c where scan: "var_scan q 0 = Some (q\<lparr>counter := k\<rparr>, c)" "k \<le> range_size q" "c = 0 \<or> var_has q c"
    using var_scan_ok [OF q(1), of 0] by auto
  let ?q = "q\<lparr>counter := k\<rparr>"
  have inv': "var_inv ?q" using q(1) scan(2) by (simp add: var_inv_def)
  have has: "var_has ?q c" if "c \<noteq> 0" using scan(3) that by (simp add: var_has_def)
  have used: "dhcp_bm_used (ips (range q)) (c - var_pool_start q) (range_size q) = Some (c \<in> var_unavail ?q)"
    if "c \<noteq> 0" using var_used_ok [OF inv' has [OF that]] by simp
  show ?thesis
    unfolding var_next_def if_not_P [OF False] Let_def q_def [symmetric]
    using scan(1) q inv' has used
    by (cases "c = 0") (auto simp: same_range_def)
qed

lemma var_peek_ok:
  assumes "var_inv p"
  shows "\<exists>p' ip. dhcp_bmpool_var_peek p t = Some (p', ip) \<and> var_inv p' \<and> same_range p p' \<and>
    (ip \<noteq> 0 \<longrightarrow> var_has p' ip \<and> ip \<notin> var_unavail p') \<and>
    (\<not> (0 < expire_time (range p) \<and> expire_time (range p) \<le> t) \<longrightarrow> ips (range p') = ips (range p) \<and>
      expire_time (range p') = (if expire_time (range p) = 0 then t + var_lease_time p else expire_time (range p)))"
proof (cases "expire_time (range p) > 0 \<and> expire_time (range p) \<le> t")
  case True
  obtain q where q: "dhcp_bmpool_var_recycle p = Some q" "var_inv q" "same_range p q"
    by (rule var_recycle_ok [OF assms])
  have "dhcp_bmpool_var_peek p t = var_next q t" using True q(1) by (simp add: dhcp_bmpool_var_peek_def)
  with var_next_ok [OF q(2), of t] q(3) True show ?thesis by (auto simp: same_range_def)
next
  case False
  then have "dhcp_bmpool_var_peek p t = var_next p t" by (auto simp: dhcp_bmpool_var_peek_def)
  with var_next_ok [OF assms, of t] show ?thesis by auto
qed

lemma var_commit_ok:
  assumes inv: "var_inv p"
  obtains p' ok where "dhcp_bmpool_var_commit_ip p ip = Some (p', ok)" and "var_inv p'" and "same_range p p'"
    and "expire_time (range p') = expire_time (range p)"
    and "ok \<longleftrightarrow> var_has p ip \<and> ip \<notin> var_unavail p"
    and "var_unavail p' = (if ok then insert ip (var_unavail p) else var_unavail p)"
proof -
  have bound: "unat (var_pool_start p + range_size p) = unat (var_pool_start p) + unat (range_size p)"
    by (subst unat_plus_if_size) (use inv in \<open>auto simp: var_inv_def word_size\<close>)
  have guard: "ip < var_pool_start p \<or> ip \<ge> var_pool_start p + range_size p \<longleftrightarrow> \<not> var_has p ip"
    using bound by (auto simp: var_has_def word_less_nat_alt word_le_nat_alt)
  show thesis
  proof (cases "var_has p ip \<and> ip \<notin> var_unavail p")
    case False
    then have "dhcp_bmpool_var_commit_ip p ip = Some (p, False)"
      using var_used_ok [OF inv, of ip] by (auto simp: dhcp_bmpool_var_commit_ip_def guard)
    with that [of p False] inv False show thesis by (simp add: same_range_def)
  next
    case True
    have off: "unat (ip - var_pool_start p) < 32 * length (ips (range p))"
      using var_has_offset True inv by (fastforce simp: var_inv_def)
    obtain bm where bm: "dhcp_bm_set (ips (range p)) (ip - var_pool_start p) = Some bm"
      "length bm = length (ips (range p))"
      "\<forall>i < 32 * length (ips (range p)). bm_bit bm i \<longleftrightarrow> i = unat (ip - var_pool_start p) \<or> bm_bit (ips (range p)) i"
      using bm_set_ok [OF off] by blast
    let ?p = "p\<lparr>range := (range p)\<lparr>ips := bm\<rparr>\<rparr>"
    have run: "dhcp_bmpool_var_commit_ip p ip = Some (?p, True)"
      using True var_used_ok [OF inv, of ip] bm(1) by (simp add: dhcp_bmpool_var_commit_ip_def guard)
    have "x \<in> var_unavail ?p \<longleftrightarrow> x = ip \<or> x \<in> var_unavail p" for x
    proof (cases "var_has p x")
      case has: True
      then have "unat (x - var_pool_start p) < 32 * length (ips (range p))"
        using var_has_offset inv by (fastforce simp: var_inv_def)
      moreover have "unat (x - var_pool_start p) = unat (ip - var_pool_start p) \<longleftrightarrow> x = ip"
        by (metis diff_add_cancel word_unat_eq_iff)
      ultimately show ?thesis using has True bm(3) by (auto simp: var_unavail_def var_has_def)
    next
      case False
      then show ?thesis using True by (auto simp: var_unavail_def var_has_def)
    qed
    then have "var_unavail ?p = insert ip (var_unavail p)" by blast
    with that [of ?p True] run inv bm(2) True show thesis by (simp add: var_inv_def same_range_def)
  qed
qed

section \<open>The contract\<close>

definition var_server_inv :: "bmvar_server \<Rightarrow> bool" where
  "var_server_inv s \<longleftrightarrow> var_inv (pool s) \<and> pool_start (config s) = var_pool_start (pool s) \<and>
     unat (var_pool_start (pool s)) + unat (range_size (pool s)) \<le> unat (pool_end (config s)) + 1"

lemma var_has_range: "var_server_inv s \<Longrightarrow> var_has (pool s) ip \<Longrightarrow> pool_start (config s) \<le> ip \<and> ip \<le> pool_end (config s)"
  by (auto simp: var_server_inv_def var_has_def word_le_nat_alt)

lemma bmvar_offer_ok:
  assumes "var_server_inv s"
  shows "\<exists>s' ip. bmvar_offer s mac t = Some (s', ip) \<and> var_server_inv s' \<and> config s' = config s \<and>
    var_lease_time (pool s') = var_lease_time (pool s) \<and>
    (ip \<noteq> 0 \<longrightarrow> var_has (pool s') ip \<and> ip \<notin> var_unavail (pool s')) \<and>
    (\<not> (0 < expire_time (range (pool s)) \<and> expire_time (range (pool s)) \<le> t) \<longrightarrow>
      var_unavail (pool s') = var_unavail (pool s) \<and>
      expire_time (range (pool s')) = (if expire_time (range (pool s)) = 0 then t + var_lease_time (pool s)
        else expire_time (range (pool s))))"
proof -
  have inv: "var_inv (pool s)" using assms by (simp add: var_server_inv_def)
  obtain p ip where p: "dhcp_bmpool_var_peek (pool s) t = Some (p, ip)" "var_inv p" "same_range (pool s) p"
    "ip \<noteq> 0 \<longrightarrow> var_has p ip \<and> ip \<notin> var_unavail p"
    "\<not> (0 < expire_time (range (pool s)) \<and> expire_time (range (pool s)) \<le> t) \<longrightarrow> ips (range p) = ips (range (pool s)) \<and>
      expire_time (range p) = (if expire_time (range (pool s)) = 0 then t + var_lease_time (pool s)
        else expire_time (range (pool s)))"
    using var_peek_ok [OF inv, of t] by blast
  have "var_unavail p = var_unavail (pool s)" if "ips (range p) = ips (range (pool s))"
    using p(3) that by (simp add: var_unavail_def var_has_def same_range_def)
  with p assms show ?thesis
    by (simp add: bmvar_offer_def var_server_inv_def same_range_def)
qed

lemma bmvar_commit_ok:
  assumes "var_server_inv s"
  obtains s' ok where "bmvar_commit s ip mac t = Some (s', ok)" and "var_server_inv s'"
    and "var_lease_time (pool s') = var_lease_time (pool s)"
    and "expire_time (range (pool s')) = expire_time (range (pool s))"
    and "ok \<longleftrightarrow> var_has (pool s) ip \<and> ip \<notin> var_unavail (pool s)"
    and "var_unavail (pool s') = (if ok then insert ip (var_unavail (pool s)) else var_unavail (pool s))"
    and "config s' = (if ok then (config s)\<lparr>lease_time := expire_time (range (pool s)) - t\<rparr> else config s)"
    and "pool_start (config s') = pool_start (config s)" and "pool_end (config s') = pool_end (config s)"
proof (cases "pool_start (config s) \<le> ip \<and> ip \<le> pool_end (config s)")
  case False
  then have "\<not> var_has (pool s) ip" using var_has_range [OF assms] by blast
  moreover have "bmvar_commit s ip mac t = Some (s, False)" using False by (auto simp: bmvar_commit_def)
  ultimately show thesis using that [of s False] assms by simp
next
  case True
  have inv: "var_inv (pool s)" using assms by (simp add: var_server_inv_def)
  obtain p ok where p: "dhcp_bmpool_var_commit_ip (pool s) ip = Some (p, ok)" "var_inv p" "same_range (pool s) p"
    "expire_time (range p) = expire_time (range (pool s))" "ok \<longleftrightarrow> var_has (pool s) ip \<and> ip \<notin> var_unavail (pool s)"
    "var_unavail p = (if ok then insert ip (var_unavail (pool s)) else var_unavail (pool s))"
    by (rule var_commit_ok [OF inv])
  let ?s = "if ok then s\<lparr>pool := p, config := (config s)\<lparr>lease_time := expire_time (range p) - t\<rparr>\<rparr> else s\<lparr>pool := p\<rparr>"
  have "bmvar_commit s ip mac t = Some (?s, ok)" using True p(1) by (simp add: bmvar_commit_def)
  with that [of ?s ok] p assms show thesis by (auto simp: var_server_inv_def same_range_def)
qed

interpretation bmv: grant_server var_server_inv bmvar_offer bmvar_commit no_decline
  "\<lambda>s. var_unavail (pool s)" "\<lambda>s. var_live (pool s)" "\<lambda>s. var_lease_time (pool s)"
proof unfold_locales
  fix s s' :: bmvar_server and mac :: "u8 list" and t T ip :: u32 and ok
  assume inv: "var_server_inv s"
  obtain s1 a where o: "bmvar_offer s mac t = Some (s1, a)" "var_server_inv s1" "config s1 = config s"
    "var_lease_time (pool s1) = var_lease_time (pool s)"
    "a \<noteq> 0 \<longrightarrow> var_has (pool s1) a \<and> a \<notin> var_unavail (pool s1)"
    "\<not> (0 < expire_time (range (pool s)) \<and> expire_time (range (pool s)) \<le> t) \<longrightarrow>
      var_unavail (pool s1) = var_unavail (pool s) \<and>
      expire_time (range (pool s1)) = (if expire_time (range (pool s)) = 0 then t + var_lease_time (pool s)
        else expire_time (range (pool s)))"
    using bmvar_offer_ok [OF inv, of mac t] by blast
  obtain s2 r where c: "bmvar_commit s ip mac t = Some (s2, r)" "var_server_inv s2"
    "var_lease_time (pool s2) = var_lease_time (pool s)" "expire_time (range (pool s2)) = expire_time (range (pool s))"
    "r \<longleftrightarrow> var_has (pool s) ip \<and> ip \<notin> var_unavail (pool s)"
    "var_unavail (pool s2) = (if r then insert ip (var_unavail (pool s)) else var_unavail (pool s))"
    "pool_start (config s2) = pool_start (config s)" "pool_end (config s2) = pool_end (config s)"
    by (rule bmvar_commit_ok [OF inv])
  show "\<exists>s' ip. bmvar_offer s mac t = Some (s', ip) \<and> var_server_inv s' \<and>
      (ip \<noteq> 0 \<longrightarrow> pool_start (config s') \<le> ip \<and> ip \<le> pool_end (config s'))"
    using o var_has_range [OF o(2)] by blast
  show "\<exists>s' ok. bmvar_commit s ip mac t = Some (s', ok) \<and> var_server_inv s' \<and>
      (ok \<longrightarrow> pool_start (config s') \<le> ip \<and> ip \<le> pool_end (config s'))"
    using c var_has_range [OF inv] by auto
  show "\<exists>s'. no_decline s mac = Some s' \<and> var_server_inv s'" using inv by (simp add: no_decline_def)
  show "bmvar_offer s mac t = Some (s', ip) \<Longrightarrow> var_live (pool s) T \<Longrightarrow> t \<le> T \<Longrightarrow> T < t + var_lease_time (pool s) \<Longrightarrow>
      var_live (pool s') T \<and> var_unavail (pool s) \<subseteq> var_unavail (pool s') \<and>
      var_lease_time (pool s') = var_lease_time (pool s)"
    using o by (auto simp: var_live_def split: if_splits)
  show "bmvar_offer s mac t = Some (s', ip) \<Longrightarrow> ip \<noteq> 0 \<Longrightarrow> ip \<notin> var_unavail (pool s')"
    using o by simp
  show "\<exists>s''. bmvar_commit s' ip mac T = Some (s'', True)" if "bmvar_offer s mac t = Some (s', ip)" "ip \<noteq> 0"
  proof -
    have s': "var_server_inv s'" "var_has (pool s') ip \<and> ip \<notin> var_unavail (pool s')" using o that by auto
    show ?thesis by (rule bmvar_commit_ok [OF s'(1), of ip mac T]) (use s'(2) in auto)
  qed
  show "bmvar_commit s ip mac t = Some (s', ok) \<Longrightarrow>
      (var_live (pool s) T \<longrightarrow> var_live (pool s') T) \<and> var_lease_time (pool s') = var_lease_time (pool s) \<and>
      var_unavail (pool s) \<subseteq> var_unavail (pool s') \<and> (ok \<longrightarrow> ip \<notin> var_unavail (pool s) \<and> ip \<in> var_unavail (pool s'))"
    using c by (auto simp: var_live_def split: if_splits)
  show "no_decline s mac = Some s' \<Longrightarrow> s' = s" by (simp add: no_decline_def)
qed


section \<open>Properties\<close>

lemma bmvar_init_ok:
  assumes "0 < pool_start c" and "unat (pool_start c) + unat rs < 2 ^ 32" and "unat rs + 31 < 2 ^ 32"
    and "unat rs \<le> 32 * length (ips r)" and "unat (pool_start c) + unat rs \<le> unat (pool_end c) + 1"
  shows "\<exists>s0. dhcp_init_server_bmvar m c r rs = Some s0 \<and> var_server_inv s0 \<and> config s0 = c \<and>
    var_unavail (pool s0) = {} \<and> expire_time (range (pool s0)) = 0 \<and> var_lease_time (pool s0) = lease_time c"
proof -
  let ?p = "(pool m)\<lparr>var_pool_start := pool_start c, var_lease_time := lease_time c, range := r, range_size := rs, counter := 0\<rparr>"
  have inv: "var_inv ?p" using assms by (simp add: var_inv_def)
  obtain p where p: "dhcp_bmpool_var_recycle ?p = Some p" "var_inv p" "same_range ?p p" "var_unavail p = {}"
    "expire_time (range p) = 0"
    by (rule var_recycle_ok [OF inv])
  have "dhcp_bmpool_var_init (pool m) (pool_start c) (lease_time c) r rs = Some p"
    using p(1) by (simp add: dhcp_bmpool_var_init_def dhcp_bmpool_var_recycle_def)
  then show ?thesis
    using p(2-5) assms(5) by (simp add: dhcp_init_server_bmvar_def var_server_inv_def same_range_def)
qed

definition sample_var :: bmvar_server where
  "sample_var = \<lparr>config = sample_config, pool = \<lparr>var_pool_start = 0x0A00000A, var_lease_time = 3600, counter = 1,
     range = \<lparr>ips = [0], expire_time = 3600\<rparr>, range_size = 2\<rparr>\<rparr>"

lemma sample_var_inv [simp]: "var_server_inv sample_var"
  by (simp add: var_server_inv_def var_inv_def sample_var_def)

text \<open>
  C19. One request to the BMVAR server.  On a request with a well-formed option field
  \<open>dhcp_process_message_bmvar\<close> returns, keeps the invariant and sends the message that the
  specification decides; an offered or acknowledged address lies in the pool.
\<close>

theorem bmvar_server_refines:
  assumes "var_server_inv s" and "wf_request request is"
  shows "\<exists>s' m r. dhcp_process_message_bmvar s request response t = Some (s', m) \<and> var_server_inv s' \<and>
    outcome bmvar_offer bmvar_commit no_decline s is (chaddr request) t = Some (s', r) \<and>
    realises request (config s') response r m \<and>
    (\<forall>ip. r = Offer ip \<or> r = Ack ip \<longrightarrow> pool_start (config s') \<le> ip \<and> ip \<le> pool_end (config s'))"
  unfolding process_bmvar_is_serve by (rule bmv.serve_ok [OF assms])

theorem bmvar_server_refines_witness:
  "\<exists>s' m. dhcp_process_message_bmvar sample_var (sample_request 1 discover_items) zero_message 5 = Some (s', m) \<and>
    var_server_inv s'"
  using bmvar_server_refines [OF sample_var_inv sample_items_wf(1), of 1 zero_message 5] by blast

text \<open>
  C20. No address is granted twice in a window.  From the state that \<open>dhcp_init_server_bmvar\<close> builds,
  in every sequence of requests that falls into one lease time, the acknowledged addresses are
  pairwise different, whatever the clients ask for.
\<close>

theorem bmvar_grants_once:
  assumes "0 < pool_start c" and "unat (pool_start c) + unat rs < 2 ^ 32" and "unat rs + 31 < 2 ^ 32"
    and "unat rs \<le> 32 * length (ips r)" and "unat (pool_start c) + unat rs \<le> unat (pool_end c) + 1"
    and "\<forall>(request, t) \<in> set qs. (\<exists>is. wf_request request is) \<and> t \<le> T \<and> T < t + lease_time c"
  shows "\<exists>s0 s ms. dhcp_init_server_bmvar m c r rs = Some s0 \<and>
    serve_run dhcp_process_message_bmvar s0 qs = Some (s, ms) \<and> length ms = length qs \<and> distinct (acked_ips ms)"
proof -
  obtain s0 where s0: "dhcp_init_server_bmvar m c r rs = Some s0" "var_server_inv s0"
    "expire_time (range (pool s0)) = 0" "var_lease_time (pool s0) = lease_time c"
    using bmvar_init_ok [OF assms(1-5)] by blast
  have live: "var_live (pool s0) T" using s0(3) by (simp add: var_live_def)
  have "\<forall>(request, t) \<in> set qs. \<exists>is. wf_request request is" using assms(6) by auto
  then obtain s ms where run: "serve_run dhcp_process_message_bmvar s0 qs = Some (s, ms)" "length ms = length qs"
    using bmv.serve_run_ok [OF s0(2)] unfolding process_bmvar_is_serve by blast
  then have "distinct (acked_ips ms)"
    using bmv.run_grants_once [OF s0(2) live, of qs s ms] assms(6) s0(4) unfolding process_bmvar_is_serve by auto
  with s0(1) run show ?thesis by blast
qed

theorem bmvar_grants_once_witness:
  "\<exists>s0 s ms. dhcp_init_server_bmvar sample_var sample_config \<lparr>ips = [7], expire_time = 9\<rparr> 2 = Some s0 \<and>
    serve_run dhcp_process_message_bmvar s0 [(sample_request 1 (request_items 0x0A00000A), 1),
      (sample_request 2 (request_items 0x0A00000A), 2)] = Some (s, ms) \<and> distinct (acked_ips ms)"
  using bmvar_grants_once [of sample_config 2 "\<lparr>ips = [7], expire_time = 9\<rparr>"
      "[(sample_request 1 (request_items 0x0A00000A), 1), (sample_request 2 (request_items 0x0A00000A), 2)]" 5 sample_var]
  by (auto simp del: serve_run.simps)

lemma bmvar_ack_config:
  assumes "var_server_inv s" and "wf_request request is"
    and "dhcp_process_message_bmvar s request zero_message t = Some (s', m)"
    and "dhcp_get_message_type m = Some DHCP_ACK"
  shows "represents (options m) (reply_items (config s') DHCP_ACK) \<and>
    lease_time (config s') = expire_time (range (pool s)) - t"
proof -
  obtain r where r: "outcome bmvar_offer bmvar_commit no_decline s is (chaddr request) t = Some (s', r)"
    "realises request (config s') zero_message r m"
    using bmv.serve_ok [OF assms(1,2), of zero_message t] assms(3) unfolding process_bmvar_is_serve by auto
  obtain ip where ip: "r = Ack ip"
    using realises_message_type [OF r(2)] assms(4) by (cases r) (auto simp: msg_type_defs)
  obtain ip' where c: "bmvar_commit s ip' (chaddr request) t = Some (s', True)"
    using r(1) ip
    by (cases rule: outcome_cases [of bmvar_offer bmvar_commit no_decline s "is" "chaddr request" t])
       (auto simp: bind_eq_Some_iff no_decline_def split: if_splits)
  have "lease_time (config s') = expire_time (range (pool s)) - t"
    by (rule bmvar_commit_ok [OF assms(1), of ip' "chaddr request" t]) (use c in auto)
  with r(2) ip show ?thesis by simp
qed

text \<open>
  The lease time in an ACK.  A client whose REQUEST is acknowledged at time \<open>t\<close> is told the lease
  time \<open>expire_time - t\<close>, computed in 32 bits: while the window is open the lease ends exactly with the
  window.
\<close>

lemma bmvar_ack_lease_time:
  assumes "var_server_inv s" and "wf_request request is"
    and "dhcp_process_message_bmvar s request zero_message t = Some (s', m)"
    and "dhcp_get_message_type m = Some DHCP_ACK"
  shows "option_payload m DHCP_OPT_LEASE_TIME = Some (Some (be_bytes (expire_time (range (pool s)) - t)))"
  using bmvar_ack_config [OF assms] option_payload_items [of m "reply_items (config s') DHCP_ACK" DHCP_OPT_LEASE_TIME]
  by simp

text \<open>A difference of times in 32 bits.\<close>

lemma unat_time_left: "unat (e - t) = (if t \<le> e then unat e - unat t else 2 ^ 32 - (unat t - unat e))" for e t :: u32
proof (cases "t \<le> e")
  case False
  then have "unat e < unat t" by (simp add: word_le_nat_alt)
  with False show ?thesis by (simp add: unat_sub_if_size word_size word_le_nat_alt)
qed (simp add: unat_sub)

text \<open>
  C21. The lease time of an ACK, also after the window has ended.  A well-formed REQUEST for an
  address of the range whose bit is clear is acknowledged at every time \<open>t\<close>, since
  \<open>dhcp_bmpool_var_commit_ip\<close> does not look at the expiry time.  While the window is open the lease
  ends with the window; \<open>n\<close> seconds after its end the client is given a lease of \<open>2\<^sup>3\<^sup>2 - n\<close> seconds.
\<close>

theorem bmvar_late_request_wraps:
  assumes "var_server_inv s" and "wf_request request is" and "item_lookup is DHCP_OPT_MESSAGE_TYPE = Some [DHCP_REQUEST]"
    and "item_lookup is DHCP_OPT_REQUESTED_IP = Some (be_bytes ip)" and "var_has (pool s) ip" and "ip \<notin> var_unavail (pool s)"
  shows "\<exists>s' m lt. dhcp_process_message_bmvar s request zero_message t = Some (s', m) \<and>
    dhcp_get_message_type m = Some DHCP_ACK \<and> yiaddr m = ip \<and> option_payload m DHCP_OPT_LEASE_TIME = Some (Some (be_bytes lt)) \<and>
    (t \<le> expire_time (range (pool s)) \<longrightarrow> unat lt = unat (expire_time (range (pool s))) - unat t) \<and>
    (expire_time (range (pool s)) < t \<longrightarrow> unat lt = 2 ^ 32 - (unat t - unat (expire_time (range (pool s)))))"
proof -
  obtain s' where c: "bmvar_commit s ip (chaddr request) t = Some (s', True)"
    by (rule bmvar_commit_ok [OF assms(1), of ip "chaddr request" t]) (use assms(5,6) in auto)
  then have "outcome bmvar_offer bmvar_commit no_decline s is (chaddr request) t = Some (s', Ack ip)"
    by (simp add: outcome_if_request [OF assms(3,4)])
  from serve_refines_outcome [OF assms(2) this, of zero_message] obtain m where
    m: "dhcp_process_message_bmvar s request zero_message t = Some (s', m)" "realises request (config s') zero_message (Ack ip) m"
    unfolding process_bmvar_is_serve by blast
  have type: "dhcp_get_message_type m = Some DHCP_ACK" using realises_message_type [OF m(2)] by simp
  show ?thesis
    using m type bmvar_ack_lease_time [OF assms(1,2) m(1) type] unat_time_left [of "expire_time (range (pool s))" t] by auto
qed

text \<open>One second after the end of the window.\<close>

theorem bmvar_late_request_wraps_witness:
  "\<exists>s' m lt. dhcp_process_message_bmvar sample_var (sample_request 1 (request_items 0x0A00000A)) zero_message 3601 = Some (s', m) \<and>
    dhcp_get_message_type m = Some DHCP_ACK \<and> option_payload m DHCP_OPT_LEASE_TIME = Some (Some (be_bytes lt)) \<and> unat lt = 2 ^ 32 - 1"
proof -
  have e: "expire_time (range (pool sample_var)) = 3600" by (simp add: sample_var_def)
  have "var_has (pool sample_var) 0x0A00000A" "0x0A00000A \<notin> var_unavail (pool sample_var)"
    by (simp_all add: var_has_def var_unavail_def sample_var_def bm_bit_def)
  from bmvar_late_request_wraps [OF sample_var_inv sample_items_wf(2) sample_items_lookup(2,3) this, of 1 3601]
  show ?thesis unfolding e by auto
qed

end
