(* ===== verification/Bitmap_Uni.thy ===== *)
theory Bitmap_Uni
  imports Grant_Server Bitmap_Ops
begin

text \<open>
  The BMUNI backend: \<open>dhcp-lib/dhcp_bitmap_unitime.h\<close>, \<open>dhcp-lib/dhcp_bitmap_unitime.c\<close> and the entry
  points \<open>dhcp_init_server_bmuni\<close>, \<open>dhcp_process_message_bmuni\<close> of \<open>dhcp-lib/dhcp_server.c\<close>.  The
  pool is cut into ranges; addresses are handed out from the current range, whose expiry time is
  set when its last address is offered, and the next range is taken over when it has no expiry
  time or its expiry time has passed.

  The array that \<open>pool->ranges\<close> points to is reached through the pool only and is part of the
  record.  Fields whose names the configuration or the BMVAR pool has too carry the prefix \<open>uni_\<close>.
\<close>

section \<open>Model\<close>

record dhcp_bmpool_uni_t =
  uni_pool_start :: u32
  uni_lease_time :: u32
  uni_counter :: u32
  ranges :: "dhcp_bmrange_t list"
  uni_range_size :: u32
  num_ranges :: u8
  cur_range :: u8

definition range_base :: "dhcp_bmpool_uni_t \<Rightarrow> u32" where
  "range_base p = uni_pool_start p + ucast (cur_range p) * uni_range_size p"

definition dhcp_bmpool_uni_ip_used :: "dhcp_bmpool_uni_t \<Rightarrow> u32 \<Rightarrow> bool option" where
  "dhcp_bmpool_uni_ip_used p ip = (
     let rbase = range_base p in
     if ip < rbase \<or> ip \<ge> rbase + uni_range_size p then Some True
     else do {
       r \<leftarrow> rd (ranges p) (unat (cur_range p));
       dhcp_bm_used (ips r) (ip - rbase) (uni_range_size p)
     })"

definition dhcp_bmpool_uni_recycle :: "dhcp_bmpool_uni_t \<Rightarrow> u32 \<Rightarrow> dhcp_bmpool_uni_t option" where
  "dhcp_bmpool_uni_recycle p range_idx =
     (if range_idx \<ge> ucast (num_ranges p) then Some p
      else do {
        r \<leftarrow> rd (ranges p) (unat range_idx);
        bm \<leftarrow> bm_wipe (ips r) (uni_range_size p);
        rs \<leftarrow> wr (ranges p) (unat range_idx) \<lparr>ips = bm, expire_time = 0\<rparr>;
        Some (p\<lparr>ranges := rs\<rparr>)
      })"

text \<open>The loop of \<open>dhcp_bmpool_uni_init\<close>.\<close>

function uni_init_ranges :: "u8 \<Rightarrow> u8 \<Rightarrow> dhcp_bmpool_uni_t \<Rightarrow> dhcp_bmpool_uni_t option" where
  "uni_init_ranges n i p =
     (if i < n then do {
        p \<leftarrow> dhcp_bmpool_uni_recycle p (ucast i);
        uni_init_ranges n (i + 1) p
      }
      else Some p)"
  by pat_completeness auto
termination
proof (relation "measure (\<lambda>(n, i, p). unat n - unat i)", simp, simp)
  fix n i :: u8 assume "i < n"
  then have lt: "unat i < unat n" by (simp add: word_less_nat_alt)
  then have "unat (i + 1) = unat i + 1" using unat_less_pow [of n] by (intro unat_plus_one) simp
  with lt show "unat n - unat (i + 1) < unat n - unat i" by simp
qed

declare uni_init_ranges.simps [simp del]

text \<open>\<open>counter\<close> is not written: it keeps the value that the memory of the server has.\<close>

definition dhcp_bmpool_uni_init ::
  "dhcp_bmpool_uni_t \<Rightarrow> u32 \<Rightarrow> u32 \<Rightarrow> dhcp_bmrange_t list \<Rightarrow> u32 \<Rightarrow> u8 \<Rightarrow> dhcp_bmpool_uni_t option" where
  "dhcp_bmpool_uni_init p ps lt rl rs n =
     uni_init_ranges n 0 (p\<lparr>uni_pool_start := ps, uni_lease_time := lt, ranges := rl, uni_range_size := rs,
       num_ranges := n, cur_range := 0\<rparr>)"

text \<open>The modulo of \<open>dhcp_bmpool_uni_peek\<close>, undefined for a pool without ranges.\<close>

definition uni_next_range :: "dhcp_bmpool_uni_t \<Rightarrow> u8 option" where
  "uni_next_range p =
     (if num_ranges p = 0 then None
      else Some (ucast ((ucast (cur_range p) + 1 :: u32) mod ucast (num_ranges p))))"

text \<open>The first part of \<open>dhcp_bmpool_uni_peek\<close>; \<open>False\<close> stands for the early return.\<close>

definition uni_advance :: "dhcp_bmpool_uni_t \<Rightarrow> u32 \<Rightarrow> (dhcp_bmpool_uni_t \<times> bool) option" where
  "uni_advance p cur_time =
     (if dhcp_bm_range_full (uni_counter p) (uni_range_size p) then do {
        next_range \<leftarrow> uni_next_range p;
        r \<leftarrow> rd (ranges p) (unat next_range);
        p \<leftarrow> (if expire_time r > 0 \<and> expire_time r \<le> cur_time
             then dhcp_bmpool_uni_recycle p (ucast next_range) else Some p);
        r \<leftarrow> rd (ranges p) (unat next_range);
        Some (if expire_time r = 0 then (p\<lparr>cur_range := next_range, uni_counter := 0\<rparr>, True) else (p, False))
      }
      else Some (p, True))"

text \<open>The loop of \<open>dhcp_bmpool_uni_peek\<close>.\<close>

function uni_scan :: "dhcp_bmpool_uni_t \<Rightarrow> u32 \<Rightarrow> u32 \<Rightarrow> (dhcp_bmpool_uni_t \<times> u32) option" where
  "uni_scan p rbase candidate =
     (if uni_counter p < uni_range_size p then do {
        let candidate = dhcp_bm_counter_to_ip rbase (uni_counter p);
        let p = p\<lparr>uni_counter := uni_counter p + 1\<rparr>;
        r \<leftarrow> rd (ranges p) (unat (cur_range p));
        u \<leftarrow> dhcp_bm_used (ips r) (candidate - rbase) (uni_range_size p);
        if \<not> u then Some (p, candidate) else uni_scan p rbase candidate
      }
      else Some (p, candidate))"
  by pat_completeness auto
termination
proof (relation "measure (\<lambda>(p, b, c). unat (uni_range_size p) - unat (uni_counter p))", simp, simp)
  fix p :: dhcp_bmpool_uni_t assume "uni_counter p < uni_range_size p"
  then have lt: "unat (uni_counter p) < unat (uni_range_size p)" by (simp add: word_less_nat_alt)
  then have "unat (uni_counter p + 1) = unat (uni_counter p) + 1"
    using unat_less_pow [of "uni_range_size p"] by (intro unat_plus_one) simp
  with lt show "unat (uni_range_size p) - unat (uni_counter p + 1) < unat (uni_range_size p) - unat (uni_counter p)"
    by simp
qed

declare uni_scan.simps [simp del]

text \<open>The last part of \<open>dhcp_bmpool_uni_peek\<close>: the expiry time of a range whose last address is offered.\<close>

definition uni_start_timer :: "dhcp_bmpool_uni_t \<Rightarrow> u32 \<Rightarrow> dhcp_bmpool_uni_t option" where
  "uni_start_timer p cur_time = do {
     r \<leftarrow> rd (ranges p) (unat (cur_range p));
     if expire_time r = 0 \<and> dhcp_bm_range_full (uni_counter p) (uni_range_size p) then do {
       rs \<leftarrow> wr (ranges p) (unat (cur_range p)) (r\<lparr>expire_time := cur_time + uni_lease_time p\<rparr>);
       Some (p\<lparr>ranges := rs\<rparr>)
     }
     else Some p
   }"

definition uni_pick :: "dhcp_bmpool_uni_t \<Rightarrow> u32 \<Rightarrow> (dhcp_bmpool_uni_t \<times> u32) option" where
  "uni_pick p cur_time = do {
     (p, candidate) \<leftarrow> uni_scan p (range_base p) 0;
     if candidate = 0 then Some (p, 0)
     else do {
       u \<leftarrow> dhcp_bmpool_uni_ip_used p candidate;
       if u then Some (p, 0)
       else do {
         p \<leftarrow> uni_start_timer p cur_time;
         Some (p, candidate)
       }
     }
   }"

definition dhcp_bmpool_uni_peek :: "dhcp_bmpool_uni_t \<Rightarrow> u32 \<Rightarrow> (dhcp_bmpool_uni_t \<times> u32) option" where
  "dhcp_bmpool_uni_peek p cur_time = do {
     (p, available) \<leftarrow> uni_advance p cur_time;
     if available then uni_pick p cur_time else Some (p, 0)
   }"

definition dhcp_bmpool_uni_commit_ip :: "dhcp_bmpool_uni_t \<Rightarrow> u32 \<Rightarrow> (dhcp_bmpool_uni_t \<times> bool) option" where
  "dhcp_bmpool_uni_commit_ip p ip = do {
     u \<leftarrow> dhcp_bmpool_uni_ip_used p ip;
     if u then Some (p, False)
     else do {
       r \<leftarrow> rd (ranges p) (unat (cur_range p));
       bm \<leftarrow> dhcp_bm_set (ips r) (ip - range_base p);
       rs \<leftarrow> wr (ranges p) (unat (cur_range p)) (r\<lparr>ips := bm\<rparr>);
       Some (p\<lparr>ranges := rs\<rparr>, True)
     }
   }"

section \<open>Server\<close>

type_synonym bmuni_server = "dhcp_bmpool_uni_t dhcp_server_t"

definition dhcp_init_server_bmuni ::
  "bmuni_server \<Rightarrow> dhcp_config_t \<Rightarrow> dhcp_bmrange_t list \<Rightarrow> u32 \<Rightarrow> u8 \<Rightarrow> bmuni_server option" where
  "dhcp_init_server_bmuni s c rl rs n = do {
     p \<leftarrow> dhcp_bmpool_uni_init (pool s) (pool_start c) (lease_time c) rl rs n;
     Some (s\<lparr>config := c, pool := p\<rparr>)
   }"

definition dhcp_process_message_bmuni ::
  "bmuni_server \<Rightarrow> dhcp_message_t \<Rightarrow> dhcp_message_t \<Rightarrow> u32 \<Rightarrow> (bmuni_server \<times> dhcp_message_t) option" where
  "dhcp_process_message_bmuni server request response cur_time = do {
     msg_type \<leftarrow> dhcp_get_message_type request;
     if msg_type = DHCP_DISCOVER then do {
       (p, offered_ip) \<leftarrow> dhcp_bmpool_uni_peek (pool server) cur_time;
       let server = server\<lparr>pool := p\<rparr>;
       if offered_ip \<noteq> 0 then do {
         m \<leftarrow> dhcp_build_offer server request offered_ip;
         Some (server, m)
       }
       else Some (server, response)
     }
     else if msg_type = DHCP_REQUEST then do {
       req_opt \<leftarrow> dhcp_get_option request DHCP_OPT_REQUESTED_IP;
       case req_opt of
         None \<Rightarrow> Some (server, response)
       | Some (ptr, len) \<Rightarrow>
           if len = 4 then do {
             ip \<leftarrow> requested_ip (options request) ptr;
             if ip \<ge> pool_start (config server) \<and> ip \<le> pool_end (config server) then do {
               (p, ok) \<leftarrow> dhcp_bmpool_uni_commit_ip (pool server) ip;
               let server = server\<lparr>pool := p\<rparr>;
               if ok then do {
                 m \<leftarrow> dhcp_build_ack server request ip;
                 Some (server, m)
               }
               else do {
                 m \<leftarrow> dhcp_build_nak request;
                 Some (server, m)
               }
             }
             else do {
               m \<leftarrow> dhcp_build_nak request;
               Some (server, m)
             }
           }
           else Some (server, response)
     }
     else Some (server, response)
   }"

text \<open>Its operations; a DECLINE falls into the default case and changes nothing.\<close>

definition bmuni_offer :: "bmuni_server \<Rightarrow> u8 list \<Rightarrow> u32 \<Rightarrow> (bmuni_server \<times> u32) option" where
  "bmuni_offer s mac t = do {
     (p, ip) \<leftarrow> dhcp_bmpool_uni_peek (pool s) t;
     Some (s\<lparr>pool := p\<rparr>, ip)
   }"

definition bmuni_commit :: "bmuni_server \<Rightarrow> u32 \<Rightarrow> u8 list \<Rightarrow> u32 \<Rightarrow> (bmuni_server \<times> bool) option" where
  "bmuni_commit s ip mac t =
     (if pool_start (config s) \<le> ip \<and> ip \<le> pool_end (config s) then do {
        (p, ok) \<leftarrow> dhcp_bmpool_uni_commit_ip (pool s) ip;
        Some (s\<lparr>pool := p\<rparr>, ok)
      }
      else Some (s, False))"

lemma process_bmuni_is_serve: "dhcp_process_message_bmuni = serve bmuni_offer bmuni_commit no_decline"
proof (intro ext)
  fix s request response t
  show "dhcp_process_message_bmuni s request response t = serve bmuni_offer bmuni_commit no_decline s request response t"
    unfolding dhcp_process_message_bmuni_def serve_def bmuni_offer_def bmuni_commit_def no_decline_def
    by (auto simp: Let_def split_def msg_type_defs intro!: Option.bind_cong split: option.split)
qed

end
