(* ===== verification/Bitmap_Uni_Correct.thy ===== *)
theory Bitmap_Uni_Correct
  imports Bitmap_Uni Message_Properties
begin

text \<open>
  Correctness of the BMUNI backend: the invariant of the pool, what \<open>peek\<close> and \<open>commit\<close> do to each
  range, the interpretation of \<open>grant_server\<close>, and a range that the pool never recycles.
\<close>

lemma unat_ucast_8_32: "unat (ucast b :: u32) = unat b" for b :: u8
  using unat_less_pow [of b] by (simp add: unsigned_ucast_eq take_bit_nat_eq_self)

section \<open>Invariant\<close>

definition uni_inv :: "dhcp_bmpool_uni_t \<Rightarrow> bool" where
  "uni_inv p \<longleftrightarrow> 0 < uni_pool_start p \<and>
     unat (uni_pool_start p) + unat (num_ranges p) * unat (uni_range_size p) < 2 ^ 32 \<and>
     unat (uni_range_size p) + 31 < 2 ^ 32 \<and> unat (cur_range p) < unat (num_ranges p) \<and>
     unat (num_ranges p) \<le> length (ranges p) \<and>
     (\<forall>k < unat (num_ranges p). unat (uni_range_size p) \<le> 32 * length (ips (ranges p ! k)))"

definition uni_first :: "dhcp_bmpool_uni_t \<Rightarrow> nat \<Rightarrow> nat" where
  "uni_first p k = unat (uni_pool_start p) + k * unat (uni_range_size p)"

definition uni_in :: "dhcp_bmpool_uni_t \<Rightarrow> nat \<Rightarrow> u32 \<Rightarrow> bool" where
  "uni_in p k ip \<longleftrightarrow> uni_first p k \<le> unat ip \<and> unat ip < uni_first p k + unat (uni_range_size p)"

definition uni_unavail :: "dhcp_bmpool_uni_t \<Rightarrow> u32 set" where
  "uni_unavail p = {ip. \<exists>k < unat (num_ranges p). uni_in p k ip \<and>
     bm_bit (ips (ranges p ! k)) (unat ip - uni_first p k)}"

definition uni_live :: "dhcp_bmpool_uni_t \<Rightarrow> u32 \<Rightarrow> bool" where
  "uni_live p T \<longleftrightarrow> (\<forall>k < unat (num_ranges p). expire_time (ranges p ! k) = 0 \<or> T < expire_time (ranges p ! k))"

definition same_pool :: "dhcp_bmpool_uni_t \<Rightarrow> dhcp_bmpool_uni_t \<Rightarrow> bool" where
  "same_pool p p' \<longleftrightarrow> uni_pool_start p' = uni_pool_start p \<and> uni_range_size p' = uni_range_size p \<and>
     uni_lease_time p' = uni_lease_time p \<and> num_ranges p' = num_ranges p"

lemma same_pool_trans: "same_pool p q \<Longrightarrow> same_pool q r \<Longrightarrow> same_pool p r"
  by (simp add: same_pool_def)

lemma uni_in_same: "same_pool p q \<Longrightarrow> uni_in q = uni_in p" "same_pool p q \<Longrightarrow> uni_first q = uni_first p"
  by (auto simp: same_pool_def uni_in_def uni_first_def fun_eq_iff)

lemma uni_first_bound:
  assumes "uni_inv p" and "k < unat (num_ranges p)"
  shows "uni_first p k + unat (uni_range_size p) < 2 ^ 32"
proof -
  have "(k + 1) * unat (uni_range_size p) \<le> unat (num_ranges p) * unat (uni_range_size p)"
    using assms(2) by (intro mult_le_mono1) simp
  with assms(1) show ?thesis by (simp add: uni_inv_def uni_first_def)
qed

lemma uni_in_unique:
  assumes "uni_in p k ip" and "uni_in p k' ip"
  shows "k = k'"
proof -
  have "k = (unat ip - unat (uni_pool_start p)) div unat (uni_range_size p)" if "uni_in p k ip" for k
  proof -
    let ?n = "unat (uni_range_size p)" and ?o = "unat ip - unat (uni_pool_start p)"
    have "k * ?n \<le> ?o" "?o < (k + 1) * ?n" using that by (auto simp: uni_in_def uni_first_def)
    then show ?thesis by (metis Suc_eq_plus1 div_nat_eqI mult.commute)
  qed
  with assms show ?thesis by metis
qed

lemma range_base_ok:
  assumes "uni_inv p"
  shows "unat (range_base p) = uni_first p (unat (cur_range p))"
proof -
  have cur: "unat (cur_range p) < unat (num_ranges p)" using assms by (simp add: uni_inv_def)
  have b: "unat (uni_pool_start p) + unat (cur_range p) * unat (uni_range_size p) < 2 ^ 32"
    using uni_first_bound [OF assms cur] by (simp add: uni_first_def)
  then have m: "unat (ucast (cur_range p) * uni_range_size p) = unat (cur_range p) * unat (uni_range_size p)"
    by (simp add: unat_word_ariths unat_ucast_8_32)
  with b show ?thesis by (simp add: range_base_def uni_first_def unat_word_ariths(1))
qed

lemma uni_guard:
  assumes "uni_inv p"
  shows "ip < range_base p \<or> ip \<ge> range_base p + uni_range_size p \<longleftrightarrow> \<not> uni_in p (unat (cur_range p)) ip"
    and "uni_in p (unat (cur_range p)) ip \<Longrightarrow> unat (ip - range_base p) = unat ip - uni_first p (unat (cur_range p))"
proof -
  let ?c = "unat (cur_range p)"
  have cur: "?c < unat (num_ranges p)" using assms by (simp add: uni_inv_def)
  note b = range_base_ok [OF assms]
  have e: "unat (range_base p + uni_range_size p) = uni_first p ?c + unat (uni_range_size p)"
    using uni_first_bound [OF assms cur] b by (simp add: unat_word_ariths(1))
  show "ip < range_base p \<or> ip \<ge> range_base p + uni_range_size p \<longleftrightarrow> \<not> uni_in p ?c ip"
    using b e by (auto simp: uni_in_def word_less_nat_alt word_le_nat_alt)
  show "unat (ip - range_base p) = unat ip - uni_first p ?c" if "uni_in p ?c ip"
    using unat_sub [of "range_base p" ip] that b by (simp add: uni_in_def word_le_nat_alt)
qed

lemma uni_cur:
  assumes "uni_inv p"
  shows "unat (cur_range p) < unat (num_ranges p)" and "unat (cur_range p) < length (ranges p)"
    and "unat (uni_range_size p) \<le> 32 * length (ips (ranges p ! unat (cur_range p)))"
  using assms by (auto simp: uni_inv_def)

lemma uni_bit_unavail:
  assumes "k < unat (num_ranges p)" and "uni_in p k ip"
  shows "ip \<in> uni_unavail p \<longleftrightarrow> bm_bit (ips (ranges p ! k)) (unat ip - uni_first p k)"
  using assms uni_in_unique [OF assms(2)] unfolding uni_unavail_def by blast

lemma uni_bm_used_ok:
  assumes "uni_inv p" and "uni_in p (unat (cur_range p)) ip"
  shows "dhcp_bm_used (ips (ranges p ! unat (cur_range p))) (ip - range_base p) (uni_range_size p) =
    Some (ip \<in> uni_unavail p)"
  using bm_used_ok [of "ip - range_base p" "uni_range_size p" "ips (ranges p ! unat (cur_range p))"]
    uni_guard(2) [OF assms] uni_cur [OF assms(1)] uni_bit_unavail [OF _ assms(2)] assms(2)
  by (auto simp: uni_in_def)

lemma uni_ip_used_ok:
  assumes "uni_inv p"
  shows "dhcp_bmpool_uni_ip_used p ip = Some (\<not> uni_in p (unat (cur_range p)) ip \<or> ip \<in> uni_unavail p)"
  using uni_guard(1) [OF assms, of ip] uni_bm_used_ok [OF assms, of ip] uni_cur(2) [OF assms]
  by (auto simp: dhcp_bmpool_uni_ip_used_def Let_def rd_Some)

text \<open>The invariant and the granted addresses depend on the ranges only through their bitmaps.\<close>

lemma uni_inv_ranges:
  assumes "uni_inv p" and "same_pool p p'" and "unat (cur_range p') < unat (num_ranges p)"
    and "length (ranges p') = length (ranges p)"
    and "\<forall>k < unat (num_ranges p). length (ips (ranges p' ! k)) = length (ips (ranges p ! k))"
  shows "uni_inv p'"
  using assms by (simp add: uni_inv_def same_pool_def)

lemma uni_unavail_ranges:
  assumes "same_pool p p'" and "\<forall>k < unat (num_ranges p). ips (ranges p' ! k) = ips (ranges p ! k)"
  shows "uni_unavail p' = uni_unavail p"
  using assms uni_in_same [OF assms(1)] unfolding uni_unavail_def same_pool_def by auto

section \<open>Operations\<close>

lemma uni_recycle_ok:
  fixes k :: u8
  assumes inv: "uni_inv p" and k: "unat k < unat (num_ranges p)"
  obtains bm where "dhcp_bmpool_uni_recycle p (ucast k) = Some (p\<lparr>ranges := (ranges p)[unat k := \<lparr>ips = bm, expire_time = 0\<rparr>]\<rparr>)"
    and "uni_inv (p\<lparr>ranges := (ranges p)[unat k := \<lparr>ips = bm, expire_time = 0\<rparr>]\<rparr>)"
    and "\<forall>i < unat (uni_range_size p). \<not> bm_bit bm i"
proof -
  have len: "unat k < length (ranges p)" "unat (uni_range_size p) + 31 < 2 ^ 32"
    "unat (uni_range_size p) \<le> 32 * length (ips (ranges p ! unat k))"
    using inv k by (auto simp: uni_inv_def)
  obtain bm where bm: "bm_wipe (ips (ranges p ! unat k)) (uni_range_size p) = Some bm"
    "length bm = length (ips (ranges p ! unat k))" "\<forall>i < unat (uni_range_size p). \<not> bm_bit bm i"
    using bm_wipe_ok [OF len(2,3)] by blast
  let ?p = "p\<lparr>ranges := (ranges p)[unat k := \<lparr>ips = bm, expire_time = 0\<rparr>]\<rparr>"
  have "uni_inv ?p"
    by (rule uni_inv_ranges [OF inv]) (use inv bm(2) in \<open>auto simp: same_pool_def uni_inv_def nth_update_if\<close>)
  moreover have "dhcp_bmpool_uni_recycle p (ucast k) = Some ?p"
    using len(1) bm(1) k
    by (simp add: dhcp_bmpool_uni_recycle_def word_le_nat_alt unat_ucast_8_32 access_simps)
  ultimately show thesis using that bm(3) by blast
qed

lemma uni_next_range_ok:
  assumes "uni_inv p"
  obtains n where "uni_next_range p = Some n" and "unat n = (unat (cur_range p) + 1) mod unat (num_ranges p)"
    and "unat n < unat (num_ranges p)"
proof -
  let ?c = "ucast (cur_range p) :: u32" and ?n = "ucast (num_ranges p) :: u32"
  have num: "0 < unat (num_ranges p)" using uni_cur(1) [OF assms] by simp
  have "unat (?c + 1) = unat (cur_range p) + 1"
    using unat_less_pow [of "cur_range p"] by (subst unat_plus_one) (simp_all add: unat_ucast_8_32)
  then have m: "unat ((?c + 1) mod ?n) = (unat (cur_range p) + 1) mod unat (num_ranges p)" (is "_ = ?m")
    by (simp add: unat_mod unat_ucast_8_32)
  have "?m < unat (num_ranges p)" using num by simp
  moreover from this have "?m < 2 ^ 8" using unat_less_pow [of "num_ranges p"] by simp
  then have "unat (ucast ((?c + 1) mod ?n) :: u8) = ?m"
    using m by (simp add: unsigned_ucast_eq take_bit_nat_eq_self)
  moreover have "uni_next_range p = Some (ucast ((?c + 1) mod ?n))" using num by (auto simp: uni_next_range_def)
  ultimately show thesis using that by metis
qed

text \<open>A range is left alone or it has expired and is recycled.\<close>

lemma uni_advance_ok:
  assumes inv: "uni_inv p"
  shows "\<exists>p' b. uni_advance p t = Some (p', b) \<and> uni_inv p' \<and> same_pool p p' \<and>
    (\<forall>k < unat (num_ranges p). ranges p' ! k = ranges p ! k \<or>
      0 < expire_time (ranges p ! k) \<and> expire_time (ranges p ! k) \<le> t)"
proof (cases "dhcp_bm_range_full (uni_counter p) (uni_range_size p)")
  case False
  then have "uni_advance p t = Some (p, True)" by (simp add: uni_advance_def)
  with inv show ?thesis by (auto simp: same_pool_def)
next
  case True
  obtain n where n: "uni_next_range p = Some n" "unat n < unat (num_ranges p)"
    by (rule uni_next_range_ok [OF inv])
  have len: "unat n < length (ranges p)" using n(2) inv by (simp add: uni_inv_def)
  let ?r = "ranges p ! unat n"
  have move: "uni_inv (q\<lparr>cur_range := n, uni_counter := 0\<rparr>)" if "uni_inv q" "num_ranges q = num_ranges p" for q
    using that n(2) by (simp add: uni_inv_def)
  show ?thesis
  proof (cases "0 < expire_time ?r \<and> expire_time ?r \<le> t")
    case expired: True
    obtain bm where bm: "dhcp_bmpool_uni_recycle p (ucast n) = Some (p\<lparr>ranges := (ranges p)[unat n := \<lparr>ips = bm, expire_time = 0\<rparr>]\<rparr>)"
      "uni_inv (p\<lparr>ranges := (ranges p)[unat n := \<lparr>ips = bm, expire_time = 0\<rparr>]\<rparr>)"
      by (rule uni_recycle_ok [OF inv n(2)])
    then show ?thesis
      using True n(1) len expired move [OF bm(2)]
      by (auto simp: uni_advance_def rd_Some same_pool_def nth_list_update)
  next
    case kept: False
    then show ?thesis
      using True n(1) len move [OF inv] inv
      by (auto simp: uni_advance_def rd_Some same_pool_def)
  qed
qed

lemma uni_in_counter:
  assumes "uni_inv p" and "c < uni_range_size p"
  shows "uni_in p (unat (cur_range p)) (range_base p + c)" and "range_base p + c \<noteq> 0"
proof -
  have c: "unat c < unat (uni_range_size p)" using assms(2) by (simp add: word_less_nat_alt)
  have s: "unat (range_base p + c) = uni_first p (unat (cur_range p)) + unat c"
    using uni_first_bound [OF assms(1) uni_cur(1) [OF assms(1)]] range_base_ok [OF assms(1)] c
    by (simp add: unat_word_ariths(1))
  then show "uni_in p (unat (cur_range p)) (range_base p + c)" using c by (simp add: uni_in_def)
  have "0 < uni_first p (unat (cur_range p))"
    using assms(1) by (simp add: uni_inv_def uni_first_def word_less_nat_alt)
  with s show "range_base p + c \<noteq> 0" by auto
qed

lemma uni_counter_irrelevant [simp]:
  "uni_inv (p\<lparr>uni_counter := k\<rparr>) = uni_inv p" "uni_in (p\<lparr>uni_counter := k\<rparr>) = uni_in p"
  "uni_unavail (p\<lparr>uni_counter := k\<rparr>) = uni_unavail p" "range_base (p\<lparr>uni_counter := k\<rparr>) = range_base p"
  by (auto simp: uni_inv_def uni_in_def uni_first_def uni_unavail_def range_base_def fun_eq_iff)

lemma uni_scan_ok:
  assumes "uni_inv p" and "c = 0 \<or> uni_in p (unat (cur_range p)) c" and "b = range_base p"
  shows "\<exists>k c'. uni_scan p b c = Some (p\<lparr>uni_counter := k\<rparr>, c') \<and> (c' = 0 \<or> uni_in p (unat (cur_range p)) c')"
  using assms
proof (induction p b c rule: uni_scan.induct)
  case (1 p b c)
  show ?case
  proof (cases "uni_counter p < uni_range_size p")
    case False
    then show ?thesis using 1(3)
      by (subst uni_scan.simps) (auto intro!: exI [of _ "uni_counter p"])
  next
    case True
    let ?c = "range_base p + uni_counter p" and ?p = "p\<lparr>uni_counter := uni_counter p + 1\<rparr>"
    note has = uni_in_counter [OF 1(2) True]
    have r: "rd (ranges p) (unat (cur_range p)) = Some (ranges p ! unat (cur_range p))"
      using uni_cur(2) [OF 1(2)] by (rule rd_Some)
    have used: "dhcp_bm_used (ips (ranges p ! unat (cur_range p))) (uni_counter p) (uni_range_size p) = Some (?c \<in> uni_unavail p)"
      using uni_bm_used_ok [OF 1(2) has(1)] by simp
    have "\<exists>k c'. uni_scan ?p b ?c = Some (?p\<lparr>uni_counter := k\<rparr>, c') \<and> (c' = 0 \<or> uni_in p (unat (cur_range p)) c')"
      if "?c \<in> uni_unavail p"
      using "1.IH" [OF True, of ?c ?p "ranges p ! unat (cur_range p)" True] 1(2,4) has used that r
      by (simp add: dhcp_bm_counter_to_ip_def)
    then show ?thesis
      using True used has(1) r 1(4)
      by (subst uni_scan.simps) (auto simp: Let_def dhcp_bm_counter_to_ip_def)
  qed
qed

lemma uni_start_timer_ok:
  assumes inv: "uni_inv p"
  shows "\<exists>p'. uni_start_timer p t = Some p' \<and> uni_inv p' \<and> same_pool p p' \<and> cur_range p' = cur_range p \<and>
    uni_unavail p' = uni_unavail p \<and>
    (\<forall>k < unat (num_ranges p). ranges p' ! k = ranges p ! k \<or> k = unat (cur_range p) \<and>
      expire_time (ranges p ! k) = 0 \<and> ranges p' ! k = (ranges p ! k)\<lparr>expire_time := t + uni_lease_time p\<rparr>)"
proof -
  let ?c = "unat (cur_range p)" and ?r = "ranges p ! unat (cur_range p)"
  note cur = uni_cur [OF inv]
  show ?thesis
  proof (cases "expire_time ?r = 0 \<and> dhcp_bm_range_full (uni_counter p) (uni_range_size p)")
    case False
    then have "uni_start_timer p t = Some p" using cur by (auto simp: uni_start_timer_def rd_Some)
    with inv show ?thesis by (simp add: same_pool_def)
  next
    case True
    let ?p = "p\<lparr>ranges := (ranges p)[?c := ?r\<lparr>expire_time := t + uni_lease_time p\<rparr>]\<rparr>"
    have run: "uni_start_timer p t = Some ?p"
      using True cur by (simp add: uni_start_timer_def access_simps)
    have same: "same_pool p ?p" by (simp add: same_pool_def)
    have "uni_inv ?p" by (rule uni_inv_ranges [OF inv same]) (use cur in \<open>auto simp: nth_update_if\<close>)
    moreover have "uni_unavail ?p = uni_unavail p"
      by (rule uni_unavail_ranges [OF same]) (auto simp: nth_update_if)
    ultimately show ?thesis using run same True cur by (auto simp: nth_update_if)
  qed
qed

lemma uni_pick_ok:
  assumes inv: "uni_inv p"
  shows "\<exists>p' ip. uni_pick p t = Some (p', ip) \<and> uni_inv p' \<and> same_pool p p' \<and> cur_range p' = cur_range p \<and>
    (ip \<noteq> 0 \<longrightarrow> uni_in p (unat (cur_range p)) ip \<and> ip \<notin> uni_unavail p \<and> ip \<notin> uni_unavail p') \<and>
    (\<forall>k < unat (num_ranges p). ranges p' ! k = ranges p ! k \<or> ip \<noteq> 0 \<and> k = unat (cur_range p) \<and>
      expire_time (ranges p ! k) = 0 \<and> ranges p' ! k = (ranges p ! k)\<lparr>expire_time := t + uni_lease_time p\<rparr>)"
proof -
  obtain n c where scan: "uni_scan p (range_base p) 0 = Some (p\<lparr>uni_counter := n\<rparr>, c)"
    "c = 0 \<or> uni_in p (unat (cur_range p)) c"
    using uni_scan_ok [OF inv, of 0 "range_base p"] by auto
  let ?p = "p\<lparr>uni_counter := n\<rparr>"
  have inv': "uni_inv ?p" using inv by simp
  note used = uni_ip_used_ok [OF inv', of c]
  show ?thesis
  proof (cases "c = 0 \<or> c \<in> uni_unavail p")
    case True
    then have "uni_pick p t = Some (?p, 0)" using scan used by (auto simp: uni_pick_def)
    with inv' show ?thesis by (simp add: same_pool_def)
  next
    case False
    obtain q where q: "uni_start_timer ?p t = Some q" "uni_inv q" "same_pool ?p q" "uni_unavail q = uni_unavail ?p"
      "cur_range q = cur_range p"
      "\<forall>k < unat (num_ranges p). ranges q ! k = ranges p ! k \<or> k = unat (cur_range p) \<and>
        expire_time (ranges p ! k) = 0 \<and> ranges q ! k = (ranges p ! k)\<lparr>expire_time := t + uni_lease_time p\<rparr>"
      using uni_start_timer_ok [OF inv', of t] by auto
    have "uni_pick p t = Some (q, c)" using False scan used q(1) by (auto simp: uni_pick_def)
    moreover have "same_pool p q" using q(3) by (simp add: same_pool_def)
    ultimately show ?thesis using False scan(2) q by auto
  qed
qed

text \<open>
  What \<open>peek\<close> does to a range: nothing, or the range has expired, or its timer is started, and
  then the range has a free address.
\<close>

definition peek_keeps :: "dhcp_bmpool_uni_t \<Rightarrow> u32 \<Rightarrow> dhcp_bmpool_uni_t \<Rightarrow> bool" where
  "peek_keeps p t p' \<longleftrightarrow> (\<forall>k < unat (num_ranges p). ranges p' ! k = ranges p ! k \<or>
     0 < expire_time (ranges p ! k) \<and> expire_time (ranges p ! k) \<le> t \<or>
     expire_time (ranges p ! k) = 0 \<and> ranges p' ! k = (ranges p ! k)\<lparr>expire_time := t + uni_lease_time p\<rparr> \<and>
       (\<exists>i < unat (uni_range_size p). \<not> bm_bit (ips (ranges p ! k)) i))"

lemma uni_peek_ok:
  assumes inv: "uni_inv p"
  shows "\<exists>p' ip. dhcp_bmpool_uni_peek p t = Some (p', ip) \<and> uni_inv p' \<and> same_pool p p' \<and>
    (ip \<noteq> 0 \<longrightarrow> ip \<notin> uni_unavail p' \<and> uni_in p' (unat (cur_range p')) ip) \<and> peek_keeps p t p'"
proof -
  obtain q b where adv: "uni_advance p t = Some (q, b)" "uni_inv q" "same_pool p q"
    "\<forall>k < unat (num_ranges p). ranges q ! k = ranges p ! k \<or>
      0 < expire_time (ranges p ! k) \<and> expire_time (ranges p ! k) \<le> t"
    using uni_advance_ok [OF inv, of t] by blast
  show ?thesis
  proof (cases b)
    case False
    with adv show ?thesis by (simp add: dhcp_bmpool_uni_peek_def peek_keeps_def) blast
  next
    case True
    obtain r ip where pick: "uni_pick q t = Some (r, ip)" "uni_inv r" "same_pool q r"
      "ip \<noteq> 0 \<longrightarrow> uni_in q (unat (cur_range q)) ip \<and> ip \<notin> uni_unavail q \<and> ip \<notin> uni_unavail r"
      "\<forall>k < unat (num_ranges q). ranges r ! k = ranges q ! k \<or> ip \<noteq> 0 \<and> k = unat (cur_range q) \<and>
        expire_time (ranges q ! k) = 0 \<and> ranges r ! k = (ranges q ! k)\<lparr>expire_time := t + uni_lease_time q\<rparr>"
      and cur: "cur_range r = cur_range q"
      using uni_pick_ok [OF adv(2), of t] by blast
    have free: "\<exists>i < unat (uni_range_size q). \<not> bm_bit (ips (ranges q ! unat (cur_range q))) i" if "ip \<noteq> 0"
    proof -
      have "uni_in q (unat (cur_range q)) ip" "ip \<notin> uni_unavail q" using pick(4) that by auto
      moreover from uni_bit_unavail [OF uni_cur(1) [OF adv(2)] this(1)] this
      have "\<not> bm_bit (ips (ranges q ! unat (cur_range q))) (unat ip - uni_first q (unat (cur_range q)))" by blast
      ultimately show ?thesis
        by (intro exI [of _ "unat ip - uni_first q (unat (cur_range q))"]) (auto simp: uni_in_def)
    qed
    have same: "uni_lease_time q = uni_lease_time p" "uni_range_size q = uni_range_size p" "num_ranges q = num_ranges p"
      using adv(3) by (simp_all add: same_pool_def)
    have keep: "peek_keeps p t r"
      unfolding peek_keeps_def using adv(4) pick(5) free unfolding same by metis
    have "dhcp_bmpool_uni_peek p t = Some (r, ip)" using True adv(1) pick(1) by (simp add: dhcp_bmpool_uni_peek_def)
    moreover have "uni_in r (unat (cur_range r)) ip" if "ip \<noteq> 0"
      using pick(4) uni_in_same(1) [OF pick(3)] that unfolding cur by auto
    ultimately show ?thesis using pick(2,4) same_pool_trans [OF adv(3) pick(3)] keep by blast
  qed
qed

lemma uni_commit_ok:
  assumes inv: "uni_inv p"
  shows "\<exists>p' ok. dhcp_bmpool_uni_commit_ip p ip = Some (p', ok) \<and> uni_inv p' \<and> same_pool p p' \<and>
    (ok \<longleftrightarrow> uni_in p (unat (cur_range p)) ip \<and> ip \<notin> uni_unavail p) \<and>
    uni_unavail p' = (if ok then insert ip (uni_unavail p) else uni_unavail p) \<and>
    (\<forall>k < unat (num_ranges p). expire_time (ranges p' ! k) = expire_time (ranges p ! k) \<and>
      (\<forall>i < unat (uni_range_size p). bm_bit (ips (ranges p ! k)) i \<longrightarrow> bm_bit (ips (ranges p' ! k)) i))"
proof (cases "uni_in p (unat (cur_range p)) ip \<and> ip \<notin> uni_unavail p")
  case False
  then have "dhcp_bmpool_uni_commit_ip p ip = Some (p, False)"
    using uni_ip_used_ok [OF inv, of ip] by (auto simp: dhcp_bmpool_uni_commit_ip_def)
  with False inv show ?thesis by (auto simp: same_pool_def)
next
  case True
  let ?c = "unat (cur_range p)"
  let ?o = "unat ip - uni_first p ?c" and ?r = "ranges p ! ?c"
  note cur = uni_cur [OF inv] and off = uni_guard(2) [OF inv, of ip]
  have o: "unat (ip - range_base p) = ?o" "?o < unat (uni_range_size p)" using off True by (auto simp: uni_in_def)
  then have "unat (ip - range_base p) < 32 * length (ips ?r)" using cur(3) by simp
  from bm_set_ok [OF this] obtain bm where bm: "dhcp_bm_set (ips ?r) (ip - range_base p) = Some bm"
    "length bm = length (ips ?r)" "\<forall>i < 32 * length (ips ?r). bm_bit bm i \<longleftrightarrow> i = ?o \<or> bm_bit (ips ?r) i"
    unfolding o by blast
  let ?p = "p\<lparr>ranges := (ranges p)[?c := ?r\<lparr>ips := bm\<rparr>]\<rparr>"
  have run: "dhcp_bmpool_uni_commit_ip p ip = Some (?p, True)"
    using True uni_ip_used_ok [OF inv, of ip] cur(2) bm(1)
    by (simp add: dhcp_bmpool_uni_commit_ip_def access_simps)
  have same: "same_pool p ?p" by (simp add: same_pool_def)
  have inv': "uni_inv ?p"
    by (rule uni_inv_ranges [OF inv same]) (use cur bm(2) in \<open>auto simp: nth_update_if\<close>)
  have bits: "bm_bit (ips (ranges ?p ! k)) i \<longleftrightarrow> k = ?c \<and> i = ?o \<or> bm_bit (ips (ranges p ! k)) i"
    if "i < unat (uni_range_size p)" for k i
    using that bm(3) cur by (auto simp: nth_update_if)
  have "x \<in> uni_unavail ?p \<longleftrightarrow> x = ip \<or> x \<in> uni_unavail p" for x
  proof (cases "\<exists>k < unat (num_ranges p). uni_in p k x")
    case in_range: True
    then obtain k where k: "k < unat (num_ranges p)" "uni_in p k x" by blast
    then have i: "unat x - uni_first p k < unat (uni_range_size p)" by (auto simp: uni_in_def)
    have "k = ?c \<and> unat x - uni_first p k = ?o \<longleftrightarrow> x = ip"
      using k(2) True uni_in_unique [OF k(2), of ?c] by (auto simp: uni_in_def word_unat_eq_iff)
    then show ?thesis
      using k uni_bit_unavail [OF k] uni_bit_unavail [of k ?p x] bits [OF i, of k] uni_in_same [OF same] by auto
  next
    case False
    then show ?thesis using True cur(1) uni_in_same [OF same] by (auto simp: uni_unavail_def)
  qed
  then have "uni_unavail ?p = insert ip (uni_unavail p)" by blast
  with run inv' same True bits show ?thesis by (auto simp: nth_update_if)
qed

lemma uni_init_ranges_ok:
  assumes "uni_inv p" and "num_ranges p = n"
  shows "\<exists>p'. uni_init_ranges n i p = Some p' \<and> uni_inv p' \<and> same_pool p p' \<and>
    (\<forall>k < unat n. if k < unat i then ranges p' ! k = ranges p ! k
      else expire_time (ranges p' ! k) = 0 \<and> (\<forall>j < unat (uni_range_size p). \<not> bm_bit (ips (ranges p' ! k)) j))"
  using assms
proof (induction n i p rule: uni_init_ranges.induct)
  case (1 n i p)
  show ?case
  proof (cases "i < n")
    case False
    then show ?thesis using 1(2) by (subst uni_init_ranges.simps) (auto simp: same_pool_def word_less_nat_alt)
  next
    case True
    have i: "unat i < unat (num_ranges p)" using True 1(3) by (simp add: word_less_nat_alt)
    obtain bm where bm: "dhcp_bmpool_uni_recycle p (ucast i) = Some (p\<lparr>ranges := (ranges p)[unat i := \<lparr>ips = bm, expire_time = 0\<rparr>]\<rparr>)"
      "uni_inv (p\<lparr>ranges := (ranges p)[unat i := \<lparr>ips = bm, expire_time = 0\<rparr>]\<rparr>)"
      "\<forall>j < unat (uni_range_size p). \<not> bm_bit bm j"
      by (rule uni_recycle_ok [OF 1(2) i])
    let ?p = "p\<lparr>ranges := (ranges p)[unat i := \<lparr>ips = bm, expire_time = 0\<rparr>]\<rparr>"
    have suc: "unat (i + 1) = unat i + 1"
      using i unat_less_pow [of "num_ranges p"] by (intro unat_plus_one) simp
    have len: "unat i < length (ranges p)" using i 1(2) by (simp add: uni_inv_def)
    have nr: "num_ranges ?p = n" using 1(3) by simp
    obtain p' where p': "uni_init_ranges n (i + 1) ?p = Some p'" "uni_inv p'" "same_pool ?p p'"
      "\<forall>k < unat n. if k < unat (i + 1) then ranges p' ! k = ranges ?p ! k
        else expire_time (ranges p' ! k) = 0 \<and> (\<forall>j < unat (uni_range_size ?p). \<not> bm_bit (ips (ranges p' ! k)) j)"
      using "1.IH" [OF True bm(1,2) nr] by blast
    have "uni_init_ranges n i p = Some p'" using True bm(1) p'(1) by (subst uni_init_ranges.simps) simp
    moreover have "same_pool p p'" using p'(3) by (simp add: same_pool_def)
    moreover have "if k < unat i then ranges p' ! k = ranges p ! k
      else expire_time (ranges p' ! k) = 0 \<and> (\<forall>j < unat (uni_range_size p). \<not> bm_bit (ips (ranges p' ! k)) j)"
      if "k < unat n" for k
      using p'(4) [rule_format, OF that] bm(3) len unfolding suc
      by (cases "k = unat i") (auto simp: nth_update_if split: if_splits)
    ultimately show ?thesis using p'(2) by blast
  qed
qed

section \<open>The contract\<close>

definition uni_server_inv :: "bmuni_server \<Rightarrow> bool" where
  "uni_server_inv s \<longleftrightarrow> uni_inv (pool s) \<and> pool_start (config s) = uni_pool_start (pool s) \<and>
     uni_first (pool s) (unat (num_ranges (pool s))) \<le> unat (pool_end (config s)) + 1"

lemma uni_in_pool:
  assumes "uni_server_inv s" and "k < unat (num_ranges (pool s))" and "uni_in (pool s) k ip"
  shows "pool_start (config s) \<le> ip \<and> ip \<le> pool_end (config s)"
proof -
  let ?n = "unat (uni_range_size (pool s))"
  have "(k + 1) * ?n \<le> unat (num_ranges (pool s)) * ?n" using assms(2) by (intro mult_le_mono1) simp
  with assms show ?thesis by (auto simp: uni_server_inv_def uni_in_def uni_first_def word_le_nat_alt)
qed

lemma uni_server_inv_pool:
  assumes "uni_server_inv s" and "uni_inv p" and "same_pool (pool s) p"
  shows "uni_server_inv (s\<lparr>pool := p\<rparr>)"
  using assms by (simp add: uni_server_inv_def same_pool_def uni_first_def)

lemma peek_keeps_live:
  assumes "peek_keeps p t p'" and "same_pool p p'" and "uni_live p T" and "t \<le> T" and "T < t + uni_lease_time p"
  shows "uni_live p' T \<and> uni_unavail p' = uni_unavail p"
proof -
  have r: "ips (ranges p' ! k) = ips (ranges p ! k) \<and> (expire_time (ranges p' ! k) = 0 \<or> T < expire_time (ranges p' ! k))"
    if k: "k < unat (num_ranges p)" for k
  proof -
    have "expire_time (ranges p ! k) = 0 \<or> T < expire_time (ranges p ! k)" using assms(3) k by (simp add: uni_live_def)
    moreover from this have "\<not> (0 < expire_time (ranges p ! k) \<and> expire_time (ranges p ! k) \<le> t)"
      using assms(4) by auto
    ultimately show ?thesis using assms(1,5) k unfolding peek_keeps_def by fastforce
  qed
  have "uni_live p' T" using r assms(2) by (simp add: uni_live_def same_pool_def)
  moreover have "uni_unavail p' = uni_unavail p" using r by (intro uni_unavail_ranges [OF assms(2)]) blast
  ultimately show ?thesis by blast
qed

lemma bmuni_offer_ok:
  assumes "uni_server_inv s"
  shows "\<exists>p ip. bmuni_offer s mac t = Some (s\<lparr>pool := p\<rparr>, ip) \<and> uni_server_inv (s\<lparr>pool := p\<rparr>) \<and> same_pool (pool s) p \<and>
    peek_keeps (pool s) t p \<and>
    (ip \<noteq> 0 \<longrightarrow> ip \<notin> uni_unavail p \<and> uni_in p (unat (cur_range p)) ip \<and>
      pool_start (config s) \<le> ip \<and> ip \<le> pool_end (config s))"
proof -
  have inv: "uni_inv (pool s)" using assms by (simp add: uni_server_inv_def)
  obtain p ip where p: "dhcp_bmpool_uni_peek (pool s) t = Some (p, ip)" "uni_inv p" "same_pool (pool s) p"
    "ip \<noteq> 0 \<longrightarrow> ip \<notin> uni_unavail p \<and> uni_in p (unat (cur_range p)) ip" "peek_keeps (pool s) t p"
    using uni_peek_ok [OF inv, of t] by blast
  have inv': "uni_server_inv (s\<lparr>pool := p\<rparr>)" by (rule uni_server_inv_pool [OF assms p(2,3)])
  have "bmuni_offer s mac t = Some (s\<lparr>pool := p\<rparr>, ip)" using p(1) by (simp add: bmuni_offer_def)
  then show ?thesis using p inv' uni_in_pool [OF inv', of "unat (cur_range p)" ip] uni_cur(1) [OF p(2)] by auto
qed

lemma bmuni_commit_ok:
  assumes "uni_server_inv s"
  shows "\<exists>p ok. bmuni_commit s ip mac t = Some (s\<lparr>pool := p\<rparr>, ok) \<and> uni_server_inv (s\<lparr>pool := p\<rparr>) \<and> same_pool (pool s) p \<and>
    (ok \<longleftrightarrow> uni_in (pool s) (unat (cur_range (pool s))) ip \<and> ip \<notin> uni_unavail (pool s)) \<and>
    uni_unavail p = (if ok then insert ip (uni_unavail (pool s)) else uni_unavail (pool s)) \<and>
    (ok \<longrightarrow> pool_start (config s) \<le> ip \<and> ip \<le> pool_end (config s)) \<and>
    (\<forall>k < unat (num_ranges (pool s)). expire_time (ranges p ! k) = expire_time (ranges (pool s) ! k) \<and>
      (\<forall>i < unat (uni_range_size (pool s)). bm_bit (ips (ranges (pool s) ! k)) i \<longrightarrow> bm_bit (ips (ranges p ! k)) i))"
proof -
  have inv: "uni_inv (pool s)" using assms by (simp add: uni_server_inv_def)
  have in_pool: "uni_in (pool s) (unat (cur_range (pool s))) ip \<Longrightarrow> pool_start (config s) \<le> ip \<and> ip \<le> pool_end (config s)"
    by (rule uni_in_pool [OF assms uni_cur(1) [OF inv]])
  show ?thesis
  proof (cases "pool_start (config s) \<le> ip \<and> ip \<le> pool_end (config s)")
    case False
    then have "bmuni_commit s ip mac t = Some (s\<lparr>pool := pool s\<rparr>, False)" by (auto simp: bmuni_commit_def)
    with False in_pool assms show ?thesis by (intro exI [of _ "pool s"] exI [of _ False]) (auto simp: same_pool_def)
  next
    case True
    obtain p ok where p: "dhcp_bmpool_uni_commit_ip (pool s) ip = Some (p, ok)" "uni_inv p" "same_pool (pool s) p"
      "ok \<longleftrightarrow> uni_in (pool s) (unat (cur_range (pool s))) ip \<and> ip \<notin> uni_unavail (pool s)"
      "uni_unavail p = (if ok then insert ip (uni_unavail (pool s)) else uni_unavail (pool s))"
      "\<forall>k < unat (num_ranges (pool s)). expire_time (ranges p ! k) = expire_time (ranges (pool s) ! k) \<and>
        (\<forall>i < unat (uni_range_size (pool s)). bm_bit (ips (ranges (pool s) ! k)) i \<longrightarrow> bm_bit (ips (ranges p ! k)) i)"
      using uni_commit_ok [OF inv, of ip] by blast
    have "bmuni_commit s ip mac t = Some (s\<lparr>pool := p\<rparr>, ok)" using True p(1) by (simp add: bmuni_commit_def)
    with True p uni_server_inv_pool [OF assms p(2,3)] show ?thesis by blast
  qed
qed

interpretation bmu: grant_server uni_server_inv bmuni_offer bmuni_commit no_decline
  "\<lambda>s. uni_unavail (pool s)" "\<lambda>s. uni_live (pool s)" "\<lambda>s. uni_lease_time (pool s)"
proof unfold_locales
  fix s s' :: bmuni_server and mac :: "u8 list" and t T ip :: u32 and ok
  assume inv: "uni_server_inv s"
  note o = bmuni_offer_ok [OF inv, of mac t] and c = bmuni_commit_ok [OF inv, of ip mac t]
  show "\<exists>s' ip. bmuni_offer s mac t = Some (s', ip) \<and> uni_server_inv s' \<and>
      (ip \<noteq> 0 \<longrightarrow> pool_start (config s') \<le> ip \<and> ip \<le> pool_end (config s'))"
    using o by force
  show "\<exists>s' ok. bmuni_commit s ip mac t = Some (s', ok) \<and> uni_server_inv s' \<and>
      (ok \<longrightarrow> pool_start (config s') \<le> ip \<and> ip \<le> pool_end (config s'))"
    using c by force
  show "\<exists>s'. no_decline s mac = Some s' \<and> uni_server_inv s'" using inv by (simp add: no_decline_def)
  show "bmuni_offer s mac t = Some (s', ip) \<Longrightarrow> uni_live (pool s) T \<Longrightarrow> t \<le> T \<Longrightarrow> T < t + uni_lease_time (pool s) \<Longrightarrow>
      uni_live (pool s') T \<and> uni_unavail (pool s) \<subseteq> uni_unavail (pool s') \<and>
      uni_lease_time (pool s') = uni_lease_time (pool s)"
    using o peek_keeps_live [of "pool s" t _ T] by (auto simp: same_pool_def)
  show "bmuni_offer s mac t = Some (s', ip) \<Longrightarrow> ip \<noteq> 0 \<Longrightarrow> ip \<notin> uni_unavail (pool s')" using o by auto
  show "bmuni_offer s mac t = Some (s', ip) \<Longrightarrow> ip \<noteq> 0 \<Longrightarrow> \<exists>s''. bmuni_commit s' ip mac T = Some (s'', True)"
    using o bmuni_commit_ok [of s' ip mac T] by auto
  show "bmuni_commit s ip mac t = Some (s', ok) \<Longrightarrow>
      (uni_live (pool s) T \<longrightarrow> uni_live (pool s') T) \<and> uni_lease_time (pool s') = uni_lease_time (pool s) \<and>
      uni_unavail (pool s) \<subseteq> uni_unavail (pool s') \<and> (ok \<longrightarrow> ip \<notin> uni_unavail (pool s) \<and> ip \<in> uni_unavail (pool s'))"
    using c by (auto simp: same_pool_def uni_live_def)
  show "no_decline s mac = Some s' \<Longrightarrow> s' = s" by (simp add: no_decline_def)
qed

section \<open>Ranges that are never recycled\<close>

text \<open>A range all of whose addresses are granted but whose timer has not been started.\<close>

definition leaked :: "dhcp_bmpool_uni_t \<Rightarrow> nat \<Rightarrow> bool" where
  "leaked p k \<longleftrightarrow> k < unat (num_ranges p) \<and> expire_time (ranges p ! k) = 0 \<and>
     (\<forall>i < unat (uni_range_size p). bm_bit (ips (ranges p ! k)) i)"

lemma leaked_peek: "leaked p k \<Longrightarrow> peek_keeps p t p' \<Longrightarrow> same_pool p p' \<Longrightarrow> leaked p' k"
  unfolding leaked_def peek_keeps_def same_pool_def by force

lemma leaked_unavail:
  assumes "leaked p k" and "uni_in p k ip"
  shows "ip \<in> uni_unavail p"
proof -
  have "unat ip - uni_first p k < unat (uni_range_size p)" using assms(2) by (auto simp: uni_in_def)
  then have "bm_bit (ips (ranges p ! k)) (unat ip - uni_first p k)" using assms(1) by (simp add: leaked_def)
  with uni_bit_unavail [OF _ assms(2)] assms(1) show ?thesis by (simp add: leaked_def)
qed

text \<open>The server keeps such a range as an invariant of its own.\<close>

interpretation leak: address_server "\<lambda>s. uni_server_inv s \<and> leaked (pool s) k" bmuni_offer bmuni_commit no_decline for k
proof unfold_locales
  fix s :: bmuni_server and mac :: "u8 list" and t ip :: u32
  assume inv: "uni_server_inv s \<and> leaked (pool s) k"
  note o = bmuni_offer_ok [of s mac t] and c = bmuni_commit_ok [of s ip mac t]
  show "\<exists>s' ip. bmuni_offer s mac t = Some (s', ip) \<and> (uni_server_inv s' \<and> leaked (pool s') k) \<and>
      (ip \<noteq> 0 \<longrightarrow> pool_start (config s') \<le> ip \<and> ip \<le> pool_end (config s'))"
    using o inv leaked_peek [of "pool s" k t] by force
  show "\<exists>s' ok. bmuni_commit s ip mac t = Some (s', ok) \<and> (uni_server_inv s' \<and> leaked (pool s') k) \<and>
      (ok \<longrightarrow> pool_start (config s') \<le> ip \<and> ip \<le> pool_end (config s'))"
    using c inv by (force simp: leaked_def same_pool_def)
  show "\<exists>s'. no_decline s mac = Some s' \<and> uni_server_inv s' \<and> leaked (pool s') k" using inv by (simp add: no_decline_def)
qed

section \<open>Properties\<close>

lemma uni_no_bits:
  assumes "\<forall>k < unat (num_ranges p). \<forall>j < unat (uni_range_size p). \<not> bm_bit (ips (ranges p ! k)) j"
  shows "uni_unavail p = {}"
proof -
  have "ip \<notin> uni_unavail p" for ip
  proof
    assume "ip \<in> uni_unavail p"
    then obtain k where k: "k < unat (num_ranges p)" "uni_in p k ip" "bm_bit (ips (ranges p ! k)) (unat ip - uni_first p k)"
      by (auto simp: uni_unavail_def)
    then have "unat ip - uni_first p k < unat (uni_range_size p)" by (auto simp: uni_in_def)
    with k assms show False by blast
  qed
  then show ?thesis by blast
qed

definition uni_config_ok :: "dhcp_config_t \<Rightarrow> dhcp_bmrange_t list \<Rightarrow> u32 \<Rightarrow> u8 \<Rightarrow> bool" where
  "uni_config_ok c rl rs n \<longleftrightarrow> 0 < pool_start c \<and> 0 < n \<and> unat rs + 31 < 2 ^ 32 \<and> unat n \<le> length rl \<and>
     unat (pool_start c) + unat n * unat rs < 2 ^ 32 \<and>
     unat (pool_start c) + unat n * unat rs \<le> unat (pool_end c) + 1 \<and>
     (\<forall>k < unat n. unat rs \<le> 32 * length (ips (rl ! k)))"

lemma bmuni_init_ok:
  assumes "uni_config_ok c rl rs n"
  shows "\<exists>s0. dhcp_init_server_bmuni m c rl rs n = Some s0 \<and> uni_server_inv s0 \<and> config s0 = c \<and>
    uni_unavail (pool s0) = {} \<and> uni_live (pool s0) T \<and> uni_lease_time (pool s0) = lease_time c"
proof -
  let ?p = "(pool m)\<lparr>uni_pool_start := pool_start c, uni_lease_time := lease_time c, ranges := rl, uni_range_size := rs,
       num_ranges := n, cur_range := 0\<rparr>"
  have inv: "uni_inv ?p" using assms by (auto simp: uni_config_ok_def uni_inv_def word_less_nat_alt)
  obtain p where p: "uni_init_ranges n 0 ?p = Some p" "uni_inv p" "same_pool ?p p"
    "\<forall>k < unat n. expire_time (ranges p ! k) = 0 \<and> (\<forall>j < unat rs. \<not> bm_bit (ips (ranges p ! k)) j)"
    using uni_init_ranges_ok [OF inv, of n 0] by auto
  have "uni_unavail p = {}" using p(3,4) by (intro uni_no_bits) (simp add: same_pool_def)
  moreover have "uni_live p T" using p(3,4) by (simp add: uni_live_def same_pool_def)
  moreover have "uni_server_inv (m\<lparr>config := c, pool := p\<rparr>)"
    using p(2,3) assms by (simp add: uni_server_inv_def same_pool_def uni_first_def uni_config_ok_def)
  ultimately show ?thesis
    using p(1,3) by (simp add: dhcp_init_server_bmuni_def dhcp_bmpool_uni_init_def same_pool_def)
qed

text \<open>A server with two ranges of one address each, whose counter has an arbitrary value.\<close>

definition sample_uni :: "u32 \<Rightarrow> u32 \<Rightarrow> bmuni_server" where
  "sample_uni n bits = \<lparr>config = sample_config, pool = \<lparr>uni_pool_start = 0x0A00000A, uni_lease_time = 3600, uni_counter = n,
     ranges = [\<lparr>ips = [bits], expire_time = 0\<rparr>, \<lparr>ips = [0], expire_time = 0\<rparr>], uni_range_size = 1, num_ranges = 2,
     cur_range = 0\<rparr>\<rparr>"

lemma sample_uni_inv [simp]: "uni_server_inv (sample_uni n bits)"
  by (auto simp: uni_server_inv_def uni_inv_def uni_first_def sample_uni_def less_2_cases_iff)

text \<open>
  C22. One request to the BMUNI server.  On a request with a well-formed option field
  \<open>dhcp_process_message_bmuni\<close> returns, keeps the invariant and sends the message that the
  specification decides; an offered or acknowledged address lies in the pool.
\<close>

theorem bmuni_server_refines:
  assumes "uni_server_inv s" and "wf_request request is"
  shows "\<exists>s' m r. dhcp_process_message_bmuni s request response t = Some (s', m) \<and> uni_server_inv s' \<and>
    outcome bmuni_offer bmuni_commit no_decline s is (chaddr request) t = Some (s', r) \<and>
    realises request (config s') response r m \<and>
    (\<forall>ip. r = Offer ip \<or> r = Ack ip \<longrightarrow> pool_start (config s') \<le> ip \<and> ip \<le> pool_end (config s'))"
  unfolding process_bmuni_is_serve by (rule bmu.serve_ok [OF assms])

theorem bmuni_server_refines_witness:
  "\<exists>s' m. dhcp_process_message_bmuni (sample_uni 0 0) (sample_request 1 discover_items) zero_message 5 = Some (s', m) \<and>
    uni_server_inv s'"
  using bmuni_server_refines [OF sample_uni_inv sample_items_wf(1), of 0 0 1 zero_message 5] by blast

text \<open>
  C23. No address is granted twice.  From the state that \<open>dhcp_init_server_bmuni\<close> builds, with any
  value in the counter that it does not initialise, in every sequence of requests that falls into
  one lease time the acknowledged addresses are pairwise different, whatever the clients ask for.
\<close>

theorem bmuni_grants_once:
  assumes "uni_config_ok c rl rs n"
    and "\<forall>(request, t) \<in> set qs. (\<exists>is. wf_request request is) \<and> t \<le> T \<and> T < t + lease_time c"
  shows "\<exists>s0 s ms. dhcp_init_server_bmuni m c rl rs n = Some s0 \<and>
    serve_run dhcp_process_message_bmuni s0 qs = Some (s, ms) \<and> length ms = length qs \<and> distinct (acked_ips ms)"
proof -
  obtain s0 where s0: "dhcp_init_server_bmuni m c rl rs n = Some s0" "uni_server_inv s0"
    "uni_live (pool s0) T" "uni_lease_time (pool s0) = lease_time c"
    using bmuni_init_ok [OF assms(1)] by blast
  have "\<forall>(request, t) \<in> set qs. \<exists>is. wf_request request is" using assms(2) by auto
  then obtain s ms where run: "serve_run dhcp_process_message_bmuni s0 qs = Some (s, ms)" "length ms = length qs"
    using bmu.serve_run_ok [OF s0(2)] unfolding process_bmuni_is_serve by blast
  then have "distinct (acked_ips ms)"
    using bmu.run_grants_once [OF s0(2,3), of qs s ms] assms(2) s0(4) unfolding process_bmuni_is_serve by auto
  with s0(1) run show ?thesis by blast
qed

theorem bmuni_grants_once_witness:
  "\<exists>s0 s ms. dhcp_init_server_bmuni (sample_uni 99 1) sample_config [\<lparr>ips = [7], expire_time = 9\<rparr>, \<lparr>ips = [3], expire_time = 8\<rparr>] 1 2 = Some s0 \<and>
    serve_run dhcp_process_message_bmuni s0 [(sample_request 1 (request_items 0x0A00000A), 1),
      (sample_request 2 (request_items 0x0A00000A), 2)] = Some (s, ms) \<and> distinct (acked_ips ms)"
proof -
  have "uni_config_ok sample_config [\<lparr>ips = [7], expire_time = 9\<rparr>, \<lparr>ips = [3], expire_time = 8\<rparr>] 1 2"
    by (auto simp: uni_config_ok_def less_2_cases_iff)
  from bmuni_grants_once [OF this, of
      "[(sample_request 1 (request_items 0x0A00000A), 1), (sample_request 2 (request_items 0x0A00000A), 2)]" 5 "sample_uni 99 1"]
  show ?thesis by (auto simp del: serve_run.simps)
qed

text \<open>
  C24. A range that is lost.  The timer of a range starts only when \<open>peek\<close> offers the last address of
  the range.  When clients are granted the last addresses without an offer (a REQUEST needs no
  DISCOVER), the range is full and its timer is not set: then, after every sequence of requests at
  any times, all its addresses are still taken, so the range is never recycled.
\<close>

theorem bmuni_range_lost:
  assumes "uni_server_inv s" and "leaked (pool s) k" and "\<forall>(request, t) \<in> set qs. \<exists>is. wf_request request is"
  shows "\<exists>s' ms. serve_run dhcp_process_message_bmuni s qs = Some (s', ms) \<and> leaked (pool s') k \<and>
    {ip. uni_in (pool s') k ip} \<subseteq> uni_unavail (pool s')"
proof -
  obtain s' ms where "serve_run dhcp_process_message_bmuni s qs = Some (s', ms)" "leaked (pool s') k"
    using leak.serve_run_ok [of s k qs] assms unfolding process_bmuni_is_serve by blast
  with leaked_unavail [of "pool s'" k] show ?thesis by blast
qed

theorem bmuni_range_lost_witness:
  "dhcp_bmpool_uni_commit_ip (pool (sample_uni 0 0)) 0x0A00000A = Some (pool (sample_uni 0 1), True) \<and>
    (\<exists>s' ms. serve_run dhcp_process_message_bmuni (sample_uni 0 1) [(sample_request 1 discover_items, 1000000000)] =
      Some (s', ms) \<and> leaked (pool s') 0)"
proof
  show "dhcp_bmpool_uni_commit_ip (pool (sample_uni 0 0)) 0x0A00000A = Some (pool (sample_uni 0 1), True)"
    by code_simp
  have "leaked (pool (sample_uni 0 1)) 0" by (simp add: leaked_def sample_uni_def bm_bit_def)
  moreover have "\<exists>is. wf_request (sample_request 1 discover_items) is" using sample_items_wf(1) by blast
  ultimately show "\<exists>s' ms. serve_run dhcp_process_message_bmuni (sample_uni 0 1) [(sample_request 1 discover_items, 1000000000)] =
      Some (s', ms) \<and> leaked (pool s') 0"
    using bmuni_range_lost [OF sample_uni_inv, of 0 1 0 "[(sample_request 1 discover_items, 1000000000)]"] by auto
qed

end
