(* ===== verification/Nprc.thy ===== *)
theory Nprc
  imports Grant_Server
begin

text \<open>
  The NPRC backend: \<open>dhcp-lib/dhcp_nprc.h\<close>, \<open>dhcp-lib/dhcp_nprc.c\<close> and the entry points
  \<open>dhcp_init_server_nprc\<close>, \<open>dhcp_process_message_nprc\<close> of \<open>dhcp-lib/dhcp_server.c\<close>.  A window over the
  offsets of the pool slides upwards: \<open>cache_base\<close> is its start, \<open>offer_next\<close> the number of offered
  addresses in it, and a bit of \<open>ack_bitmap\<close> tells that the address is granted.  There are no leases
  and no times.

  \<open>unsigned long\<close> has 32 bits on ARMv7 and 64 bits on AArch64; both are built, so the width is
  the type parameter \<open>'l\<close>.  The functions return an \<open>int\<close> that the callers convert back to
  \<open>unsigned int\<close>, which is the identity.
\<close>

section \<open>Model\<close>

record 'w dhcp_nprcpool_t =
  cache_base :: u32
  offer_next :: u8
  ack_bitmap :: 'w

definition BITMAP_SIZE :: "('l::len) word dhcp_nprcpool_t \<Rightarrow> nat" where
  "BITMAP_SIZE p = LENGTH('l)"

definition BITMAP_FLUSH :: "('l::len) word dhcp_nprcpool_t \<Rightarrow> nat" where
  "BITMAP_FLUSH p = BITMAP_SIZE p div 4"

definition nprc_flush :: "('l::len) word dhcp_nprcpool_t \<Rightarrow> 'l word dhcp_nprcpool_t" where
  "nprc_flush p = p\<lparr>ack_bitmap := drop_bit (BITMAP_FLUSH p) (ack_bitmap p),
     cache_base := cache_base p + of_nat (BITMAP_FLUSH p), offer_next := offer_next p - of_nat (BITMAP_FLUSH p)\<rparr>"

definition dhcp_nprc_find_available_ip ::
  "('l::len) word dhcp_nprcpool_t \<Rightarrow> u32 \<Rightarrow> u32 \<Rightarrow> 'l word dhcp_nprcpool_t \<times> u32" where
  "dhcp_nprc_find_available_ip p ps pe = (
     let p = (if unat (offer_next p) \<ge> BITMAP_SIZE p then nprc_flush p else p);
         offset = offer_next p;
         offered_ip = ps + cache_base p + ucast offset
     in if offered_ip > pe then (p, 0) else (p\<lparr>offer_next := offer_next p + 1\<rparr>, offered_ip))"

text \<open>The loop of \<open>dhcp_nprc_commit_ip\<close>.\<close>

function nprc_slide :: "('l::len) word dhcp_nprcpool_t \<Rightarrow> 'l word dhcp_nprcpool_t" where
  "nprc_slide p =
     (if ack_bitmap p AND 1 \<noteq> 0 \<and> offer_next p \<noteq> 0
      then nprc_slide (p\<lparr>ack_bitmap := drop_bit 1 (ack_bitmap p), cache_base := cache_base p + 1,
             offer_next := offer_next p - 1\<rparr>)
      else p)"
  by pat_completeness auto
termination
proof (relation "measure (\<lambda>p. unat (offer_next p))", simp, simp)
  fix p :: "('l::len) word dhcp_nprcpool_t" assume "ack_bitmap p AND 1 \<noteq> 0 \<and> offer_next p \<noteq> 0"
  then show "unat (offer_next p - 1) < unat (offer_next p)"
    by (simp add: unat_minus_one unat_gt_0)
qed

declare nprc_slide.simps [simp del]

definition dhcp_nprc_commit_ip ::
  "('l::len) word dhcp_nprcpool_t \<Rightarrow> u32 \<Rightarrow> u32 \<Rightarrow> u32 \<Rightarrow> 'l word dhcp_nprcpool_t \<times> bool" where
  "dhcp_nprc_commit_ip p ip ps pe = (
     let ip_lbound = ps + cache_base p;
         ip_ubound = ps + cache_base p + ucast (offer_next p) - 1;
         ip_ubound = (if ip_ubound > pe then pe else ip_ubound)
     in if ip \<ge> ip_lbound \<and> ip \<le> ip_ubound
        then let offset = ip - ps - cache_base p
             in if unat offset < BITMAP_SIZE p \<and> ack_bitmap p AND push_bit (unat offset) 1 = 0
                then (nprc_slide (p\<lparr>ack_bitmap := ack_bitmap p OR push_bit (unat offset) 1\<rparr>), True)
                else (p, False)
        else (p, False))"

section \<open>Server\<close>

type_synonym 'l nprc_server = "'l word dhcp_nprcpool_t dhcp_server_t"

definition dhcp_init_server_nprc :: "('l::len) nprc_server \<Rightarrow> dhcp_config_t \<Rightarrow> 'l nprc_server" where
  "dhcp_init_server_nprc s c =
     s\<lparr>config := c, pool := (pool s)\<lparr>offer_next := 0, cache_base := 0, ack_bitmap := 0\<rparr>\<rparr>"

definition dhcp_process_message_nprc ::
  "('l::len) nprc_server \<Rightarrow> dhcp_message_t \<Rightarrow> dhcp_message_t \<Rightarrow> ('l nprc_server \<times> dhcp_message_t) option" where
  "dhcp_process_message_nprc server request response = do {
     msg_type \<leftarrow> dhcp_get_message_type request;
     if msg_type = DHCP_DISCOVER then do {
       let (p, offered_ip) = dhcp_nprc_find_available_ip (pool server) (pool_start (config server)) (pool_end (config server));
       let server = server\<lparr>pool := p\<rparr>;
       if offered_ip \<noteq> 0 then do {
         m \<leftarrow> dhcp_build_offer server request offered_ip;
         Some (server, m)
       }
       else Some (server, response)
     }
     else if msg_type = DHCP_REQUEST then do {
       req_opt \<leftarrow> dhcp_get_option request DHCP_OPT_REQUESTED_IP;
       case req_opt of
         None \<Rightarrow> Some (server, response)
       | Some (ptr, len) \<Rightarrow>
           if len = 4 then do {
             ip \<leftarrow> requested_ip (options request) ptr;
             let (p, ok) = dhcp_nprc_commit_ip (pool server) ip (pool_start (config server)) (pool_end (config server));
             let server = server\<lparr>pool := p\<rparr>;
             if ok then do {
               m \<leftarrow> dhcp_build_ack server request ip;
               Some (server, m)
             }
             else do {
               m \<leftarrow> dhcp_build_nak request;
               Some (server, m)
             }
           }
           else Some (server, response)
     }
     else Some (server, response)
   }"

text \<open>Its operations, as functions of the server; a DECLINE falls into the default case.\<close>

definition nprc_offer :: "('l::len) nprc_server \<Rightarrow> u8 list \<Rightarrow> u32 \<Rightarrow> ('l nprc_server \<times> u32) option" where
  "nprc_offer s mac t =
     (let (p, ip) = dhcp_nprc_find_available_ip (pool s) (pool_start (config s)) (pool_end (config s))
      in Some (s\<lparr>pool := p\<rparr>, ip))"

definition nprc_commit :: "('l::len) nprc_server \<Rightarrow> u32 \<Rightarrow> u8 list \<Rightarrow> u32 \<Rightarrow> ('l nprc_server \<times> bool) option" where
  "nprc_commit s ip mac t =
     (let (p, ok) = dhcp_nprc_commit_ip (pool s) ip (pool_start (config s)) (pool_end (config s))
      in Some (s\<lparr>pool := p\<rparr>, ok))"

text \<open>\<open>dhcp_process_message_nprc\<close> in the shape of the other entry points, which get the time.\<close>

definition nprc_step ::
  "('l::len) nprc_server \<Rightarrow> dhcp_message_t \<Rightarrow> dhcp_message_t \<Rightarrow> u32 \<Rightarrow> ('l nprc_server \<times> dhcp_message_t) option" where
  "nprc_step s request response t = dhcp_process_message_nprc s request response"

lemma process_nprc_is_serve: "nprc_step = serve nprc_offer nprc_commit no_decline"
proof (intro ext)
  fix s :: "('l::len) nprc_server" and request response t
  show "nprc_step s request response t = serve nprc_offer nprc_commit no_decline s request response t"
    unfolding nprc_step_def dhcp_process_message_nprc_def serve_def nprc_offer_def nprc_commit_def no_decline_def
    by (auto simp: Let_def split_def msg_type_defs intro!: Option.bind_cong split: option.split)
qed

end
