(* ===== verification/Nprc_Correct.thy ===== *)
theory Nprc_Correct
  imports Nprc Message_Properties
begin

text \<open>
  Correctness of the NPRC backend.  The abstract state is the number of offered addresses
  \<open>nprc_next\<close> and the set \<open>nprc_granted\<close> of offsets that can no longer be granted: those below the
  window and those with a bit in it.  Offering takes the next address and never comes back to one;
  committing adds one offset to the set; sliding the window changes neither.
\<close>

section \<open>Invariant\<close>

definition nprc_next :: "('l::len) word dhcp_nprcpool_t \<Rightarrow> nat" where
  "nprc_next p = unat (cache_base p) + unat (offer_next p)"

definition nprc_granted :: "('l::len) word dhcp_nprcpool_t \<Rightarrow> nat set" where
  "nprc_granted p = {k. k < unat (cache_base p) \<or> unat (cache_base p) \<le> k \<and> bit (ack_bitmap p) (k - unat (cache_base p))}"

definition nprc_inv :: "nat \<Rightarrow> ('l::len) word dhcp_nprcpool_t \<Rightarrow> bool" where
  "nprc_inv n p \<longleftrightarrow> LENGTH('l) \<in> {32, 64} \<and> unat (offer_next p) \<le> LENGTH('l) \<and> nprc_next p \<le> n \<and> n < 2 ^ 32 \<and>
     (\<forall>i. bit (ack_bitmap p) i \<longrightarrow> i < unat (offer_next p))"

lemma nprc_granted_next: "nprc_inv n p \<Longrightarrow> k \<in> nprc_granted p \<Longrightarrow> k < nprc_next p"
  by (force simp: nprc_inv_def nprc_granted_def nprc_next_def)

lemma unat_of_nat_small: "k < 2 ^ LENGTH('w) \<Longrightarrow> unat (of_nat k :: 'w::len word) = k"
  by (simp add: unat_of_nat take_bit_nat_eq_self)

lemma and_push_bit_0:
  fixes w :: "'a::len word"
  assumes "k < LENGTH('a)"
  shows "w AND push_bit k 1 = 0 \<longleftrightarrow> \<not> bit w k"
proof
  assume "w AND push_bit k 1 = 0"
  then have "\<not> bit (w AND push_bit k 1) k" by simp
  with assms show "\<not> bit w k" by (simp add: bit_simps)
next
  assume "\<not> bit w k"
  then show "w AND push_bit k 1 = 0" by (intro bit_eqI) (auto simp: bit_simps)
qed

text \<open>Dropping the lowest \<open>f\<close> places of the window.\<close>

definition nprc_drop :: "nat \<Rightarrow> ('l::len) word dhcp_nprcpool_t \<Rightarrow> 'l word dhcp_nprcpool_t" where
  "nprc_drop f p = p\<lparr>ack_bitmap := drop_bit f (ack_bitmap p), cache_base := cache_base p + of_nat f,
     offer_next := offer_next p - of_nat f\<rparr>"

lemma nprc_drop_unat:
  assumes "nprc_inv n p" and "f \<le> unat (offer_next p)"
  shows "unat (cache_base (nprc_drop f p)) = unat (cache_base p) + f"
    and "unat (offer_next (nprc_drop f p)) = unat (offer_next p) - f"
proof -
  have f8: "unat (of_nat f :: u8) = f" and f32: "unat (of_nat f :: u32) = f"
    using assms(2) unat_less_pow [of "offer_next p"] by (auto intro!: unat_of_nat_small)
  have "unat (cache_base p) + f < 2 ^ 32" using assms by (simp add: nprc_inv_def nprc_next_def)
  then show "unat (cache_base (nprc_drop f p)) = unat (cache_base p) + f"
    using f32 by (simp add: nprc_drop_def unat_word_ariths(1))
  show "unat (offer_next (nprc_drop f p)) = unat (offer_next p) - f"
    using f8 assms(2) by (simp add: nprc_drop_def unat_sub word_le_nat_alt)
qed

lemma nprc_drop_ok:
  assumes "nprc_inv n p" and "f \<le> unat (offer_next p)"
  shows "nprc_inv n (nprc_drop f p)" and "nprc_next (nprc_drop f p) = nprc_next p"
    and "nprc_granted (nprc_drop f p) = nprc_granted p \<union> {unat (cache_base p) ..< unat (cache_base p) + f}"
proof -
  note u = nprc_drop_unat [OF assms]
  show n: "nprc_next (nprc_drop f p) = nprc_next p" using u assms(2) by (simp add: nprc_next_def)
  have b: "bit (ack_bitmap (nprc_drop f p)) i \<longleftrightarrow> bit (ack_bitmap p) (f + i)" for i
    by (simp add: nprc_drop_def bit_drop_bit_eq)
  have "i < unat (offer_next p) - f" if "bit (ack_bitmap p) (f + i)" for i
  proof -
    have "f + i < unat (offer_next p)" using assms(1) that by (simp add: nprc_inv_def)
    then show ?thesis by simp
  qed
  then show "nprc_inv n (nprc_drop f p)" using assms n u(2) b unfolding nprc_inv_def by auto
  show "nprc_granted (nprc_drop f p) = nprc_granted p \<union> {unat (cache_base p) ..< unat (cache_base p) + f}"
    unfolding nprc_granted_def u b by auto
qed

section \<open>Operations\<close>

lemma nprc_flush_drop: "nprc_flush p = nprc_drop (BITMAP_FLUSH p) p"
  by (simp add: nprc_flush_def nprc_drop_def)

lemma nprc_slide_ok:
  assumes "nprc_inv n p"
  shows "nprc_inv n (nprc_slide p) \<and> nprc_next (nprc_slide p) = nprc_next p \<and> nprc_granted (nprc_slide p) = nprc_granted p"
  using assms
proof (induction p rule: nprc_slide.induct)
  case (1 p)
  show ?case
  proof (cases "ack_bitmap p AND 1 \<noteq> 0 \<and> offer_next p \<noteq> 0")
    case False
    then have "nprc_slide p = p" by (subst nprc_slide.simps) auto
    with 1(2) show ?thesis by simp
  next
    case True
    have one: "1 \<le> unat (offer_next p)" using True by (simp add: unat_gt_0 Suc_le_eq)
    have "odd (ack_bitmap p)" using True by (auto simp: and_one_eq odd_iff_mod_2_eq_one)
    then have b: "bit (ack_bitmap p) 0" by (simp add: bit_0)
    have step: "nprc_slide p = nprc_slide (nprc_drop 1 p)"
      using True by (subst nprc_slide.simps) (simp add: nprc_drop_def)
    note d = nprc_drop_ok [OF 1(2) one]
    have "unat (cache_base p) \<in> nprc_granted p" using b by (simp add: nprc_granted_def)
    then have "nprc_granted (nprc_drop 1 p) = nprc_granted p" using d(3) by auto
    moreover have "nprc_inv n (nprc_slide (nprc_drop 1 p)) \<and> nprc_next (nprc_slide (nprc_drop 1 p)) = nprc_next (nprc_drop 1 p) \<and>
        nprc_granted (nprc_slide (nprc_drop 1 p)) = nprc_granted (nprc_drop 1 p)"
      using 1(1) [OF True] d(1) unfolding nprc_drop_def by simp
    ultimately show ?thesis using step d(2) by simp
  qed
qed

text \<open>The size of a pool.\<close>

definition nprc_pool_size :: "u32 \<Rightarrow> u32 \<Rightarrow> nat" where
  "nprc_pool_size ps pe = unat pe + 1 - unat ps"

definition nprc_room :: "u32 \<Rightarrow> u32 \<Rightarrow> bool" where
  "nprc_room ps pe \<longleftrightarrow> 0 < ps \<and> unat ps \<le> unat pe + 1 \<and> unat pe + 1 < 2 ^ 32"

lemma nprc_next_sum: "ps + cache_base p + ucast (offer_next p) = ps + of_nat (nprc_next p)"
  by (simp add: nprc_next_def)

lemma nprc_next_ip:
  assumes "nprc_inv (nprc_pool_size ps pe) p" and "nprc_room ps pe"
  shows "unat (ps + of_nat (nprc_next p)) = unat ps + nprc_next p"
proof -
  have u: "unat (of_nat (nprc_next p) :: u32) = nprc_next p"
    using assms(1) by (intro unat_of_nat_small) (simp add: nprc_inv_def)
  have "unat ps + nprc_next p \<le> unat pe + 1"
    using assms by (auto simp: nprc_inv_def nprc_pool_size_def nprc_room_def)
  then have "unat ps + nprc_next p < 2 ^ 32" using assms(2) by (simp add: nprc_room_def)
  with u show ?thesis by (simp add: unat_word_ariths(1))
qed

lemma nprc_find_ok:
  assumes inv: "nprc_inv (nprc_pool_size ps pe) p" and room: "nprc_room ps pe"
  shows "\<exists>p'. dhcp_nprc_find_available_ip p ps pe =
      (p', if nprc_next p < nprc_pool_size ps pe then ps + of_nat (nprc_next p) else 0) \<and>
    nprc_inv (nprc_pool_size ps pe) p' \<and> nprc_granted p \<subseteq> nprc_granted p' \<and>
    (nprc_next p < nprc_pool_size ps pe \<longrightarrow> nprc_next p \<notin> nprc_granted p') \<and>
    nprc_next p' = (if nprc_next p < nprc_pool_size ps pe then nprc_next p + 1 else nprc_next p)"
proof -
  let ?n = "nprc_pool_size ps pe"
  define q where "q = (if unat (offer_next p) \<ge> BITMAP_SIZE p then nprc_flush p else p)"
  have width: "LENGTH('a) \<in> {32, 64}" "unat (offer_next p) \<le> LENGTH('a)" using inv by (auto simp: nprc_inv_def)
  have flush: "BITMAP_FLUSH p \<le> unat (offer_next p)" "0 < BITMAP_FLUSH p" if "unat (offer_next p) \<ge> BITMAP_SIZE p"
    using that width by (auto simp: BITMAP_FLUSH_def BITMAP_SIZE_def)
  have q: "nprc_inv ?n q" "nprc_next q = nprc_next p" "nprc_granted p \<subseteq> nprc_granted q" "unat (offer_next q) < LENGTH('a)"
    using inv flush nprc_drop_ok [OF inv flush(1)] nprc_drop_unat [OF inv flush(1)] width(2)
    by (auto simp: q_def nprc_flush_drop BITMAP_SIZE_def)
  note sum = nprc_next_sum [of ps q] and ip = nprc_next_ip [OF q(1) room]
  have full: "ps + of_nat (nprc_next q) > pe \<longleftrightarrow> \<not> nprc_next q < ?n"
    using ip room by (auto simp: word_less_nat_alt nprc_pool_size_def nprc_room_def)
  let ?r = "if nprc_next q < ?n then q\<lparr>offer_next := offer_next q + 1\<rparr> else q"
  have run: "dhcp_nprc_find_available_ip p ps pe = (?r, if nprc_next q < ?n then ps + of_nat (nprc_next q) else 0)"
    using full unfolding dhcp_nprc_find_available_ip_def Let_def q_def [symmetric] sum by simp
  have suc: "unat (offer_next q + 1) = unat (offer_next q) + 1"
    using q(4) width by (intro unat_plus_one) auto
  have "nprc_granted ?r = nprc_granted q" by (simp add: nprc_granted_def)
  moreover have "nprc_next ?r = (if nprc_next q < ?n then nprc_next q + 1 else nprc_next q)"
    using suc by (simp add: nprc_next_def)
  moreover have "nprc_inv ?n ?r"
    using q(1,4) suc by (auto simp: nprc_inv_def nprc_next_def less_Suc_eq)
  moreover have "nprc_next p \<notin> nprc_granted q" using nprc_granted_next [OF q(1)] q(2) by auto
  ultimately show ?thesis using run q(2,3) by auto
qed

lemma nprc_commit_ok:
  assumes inv: "nprc_inv (nprc_pool_size ps pe) p" and room: "nprc_room ps pe"
  shows "\<exists>p' ok. dhcp_nprc_commit_ip p ip ps pe = (p', ok) \<and> nprc_inv (nprc_pool_size ps pe) p' \<and>
    nprc_next p' = nprc_next p \<and>
    (ok \<longleftrightarrow> ps \<le> ip \<and> unat (ip - ps) < nprc_next p \<and> unat (ip - ps) \<notin> nprc_granted p) \<and>
    nprc_granted p' = (if ok then insert (unat (ip - ps)) (nprc_granted p) else nprc_granted p)"
proof -
  let ?n = "nprc_pool_size ps pe" and ?lb = "ps + cache_base p"
  let ?ub = "?lb + ucast (offer_next p) - 1" and ?o = "ip - ps - cache_base p"
  define ub where "ub = (if ?ub > pe then pe else ?ub)"
  have next_le: "nprc_next p \<le> ?n" using inv by (simp add: nprc_inv_def)
  have top: "unat ps + ?n = unat pe + 1" "unat pe + 1 < 2 ^ 32" "0 < unat ps"
    using room by (auto simp: nprc_pool_size_def nprc_room_def word_less_nat_alt)
  have lb: "unat ?lb = unat ps + unat (cache_base p)"
    using next_le top by (simp add: unat_word_ariths(1) nprc_next_def)
  have stop: "unat (?lb + ucast (offer_next p)) = unat ps + nprc_next p"
    unfolding nprc_next_sum by (rule nprc_next_ip [OF inv room])
  then have "?lb + ucast (offer_next p) \<noteq> 0" using top(3) by auto
  then have ub: "unat ?ub = unat ps + nprc_next p - 1" using stop by (simp add: unat_minus_one)
  then have "ub = ?ub" using next_le top by (auto simp: ub_def word_less_nat_alt)
  then have range: "ip \<ge> ?lb \<and> ip \<le> ub \<longleftrightarrow> unat ps + unat (cache_base p) \<le> unat ip \<and> unat ip < unat ps + nprc_next p"
    using lb ub top(3) by (auto simp: word_le_nat_alt)
  show ?thesis
  proof (cases "ip \<ge> ?lb \<and> ip \<le> ub")
    case False
    then have run: "dhcp_nprc_commit_ip p ip ps pe = (p, False)"
      unfolding dhcp_nprc_commit_ip_def Let_def ub_def [symmetric] by simp
    have "unat (ip - ps) \<in> nprc_granted p" if "ps \<le> ip" "unat (ip - ps) < nprc_next p"
      using that False range unat_sub [of ps ip] by (auto simp: nprc_granted_def word_le_nat_alt)
    with run inv show ?thesis by auto
  next
    case True
    then have le: "ps \<le> ip" and r: "unat ps + unat (cache_base p) \<le> unat ip" "unat ip < unat ps + nprc_next p"
      using range by (auto simp: word_le_nat_alt)
    have o1: "unat (ip - ps) = unat ip - unat ps" using le by (simp add: unat_sub)
    have o: "unat ?o = unat (ip - ps) - unat (cache_base p)"
      using r o1 by (intro unat_sub) (simp add: word_le_nat_alt)
    have small: "unat ?o < unat (offer_next p)" using o o1 r by (simp add: nprc_next_def)
    then have size: "unat ?o < LENGTH('a)" using inv by (simp add: nprc_inv_def)
    have b: "ack_bitmap p AND push_bit (unat ?o) 1 = 0 \<longleftrightarrow> \<not> bit (ack_bitmap p) (unat ?o)"
      by (rule and_push_bit_0 [OF size])
    have g: "unat (ip - ps) \<in> nprc_granted p \<longleftrightarrow> bit (ack_bitmap p) (unat ?o)"
      using r o o1 by (auto simp: nprc_granted_def)
    let ?p = "p\<lparr>ack_bitmap := ack_bitmap p OR push_bit (unat ?o) 1\<rparr>"
    have run: "dhcp_nprc_commit_ip p ip ps pe = (if bit (ack_bitmap p) (unat ?o) then (p, False) else (nprc_slide ?p, True))"
      using True size b unfolding dhcp_nprc_commit_ip_def Let_def ub_def [symmetric] by (simp add: BITMAP_SIZE_def)
    have inv': "nprc_inv ?n ?p"
      using inv small by (auto simp: nprc_inv_def nprc_next_def bit_simps)
    have "nprc_granted ?p = insert (unat (ip - ps)) (nprc_granted p)"
      using r o o1 size by (auto simp: nprc_granted_def bit_simps)
    with nprc_slide_ok [OF inv'] run g le o1 r inv show ?thesis by (auto simp: nprc_next_def)
  qed
qed

section \<open>The contract\<close>

abbreviation nprc_size :: "('l::len) nprc_server \<Rightarrow> nat" where
  "nprc_size s \<equiv> nprc_pool_size (pool_start (config s)) (pool_end (config s))"

definition nprc_server_inv :: "('l::len) nprc_server \<Rightarrow> bool" where
  "nprc_server_inv s \<longleftrightarrow> nprc_room (pool_start (config s)) (pool_end (config s)) \<and> nprc_inv (nprc_size s) (pool s)"

definition nprc_unavail :: "('l::len) nprc_server \<Rightarrow> u32 set" where
  "nprc_unavail s = {ip. pool_start (config s) \<le> ip \<and> unat (ip - pool_start (config s)) \<in> nprc_granted (pool s)}"

lemma nprc_in_pool:
  assumes "nprc_server_inv s" and "pool_start (config s) \<le> ip" and "unat (ip - pool_start (config s)) < nprc_next (pool s)"
  shows "ip \<le> pool_end (config s)"
  using assms unat_sub [of "pool_start (config s)" ip]
  by (auto simp: nprc_server_inv_def nprc_inv_def nprc_pool_size_def nprc_room_def word_le_nat_alt)

lemma nprc_offer_ok:
  assumes "nprc_server_inv s"
  shows "\<exists>p. nprc_offer s mac t = Some (s\<lparr>pool := p\<rparr>,
      if nprc_next (pool s) < nprc_size s then pool_start (config s) + of_nat (nprc_next (pool s)) else 0) \<and>
    nprc_server_inv (s\<lparr>pool := p\<rparr>) \<and> nprc_unavail s \<subseteq> nprc_unavail (s\<lparr>pool := p\<rparr>) \<and>
    (nprc_next (pool s) < nprc_size s \<longrightarrow> nprc_next (pool s) \<notin> nprc_granted p) \<and>
    nprc_next p = (if nprc_next (pool s) < nprc_size s then nprc_next (pool s) + 1 else nprc_next (pool s))"
proof -
  have inv: "nprc_inv (nprc_size s) (pool s)" "nprc_room (pool_start (config s)) (pool_end (config s))"
    using assms by (auto simp: nprc_server_inv_def)
  from nprc_find_ok [OF this] show ?thesis
    using inv(2) by (auto simp: nprc_offer_def nprc_server_inv_def nprc_unavail_def)
qed

lemma nprc_server_commit_ok:
  assumes "nprc_server_inv s"
  shows "\<exists>p ok. nprc_commit s ip mac t = Some (s\<lparr>pool := p\<rparr>, ok) \<and> nprc_server_inv (s\<lparr>pool := p\<rparr>) \<and>
    nprc_next p = nprc_next (pool s) \<and>
    (ok \<longleftrightarrow> pool_start (config s) \<le> ip \<and> unat (ip - pool_start (config s)) < nprc_next (pool s) \<and> ip \<notin> nprc_unavail s) \<and>
    nprc_unavail (s\<lparr>pool := p\<rparr>) = (if ok then insert ip (nprc_unavail s) else nprc_unavail s)"
proof -
  let ?ps = "pool_start (config s)"
  have inv: "nprc_inv (nprc_size s) (pool s)" "nprc_room ?ps (pool_end (config s))"
    using assms by (auto simp: nprc_server_inv_def)
  obtain p ok where p: "dhcp_nprc_commit_ip (pool s) ip ?ps (pool_end (config s)) = (p, ok)" "nprc_inv (nprc_size s) p"
    "nprc_next p = nprc_next (pool s)"
    "ok \<longleftrightarrow> ?ps \<le> ip \<and> unat (ip - ?ps) < nprc_next (pool s) \<and> unat (ip - ?ps) \<notin> nprc_granted (pool s)"
    "nprc_granted p = (if ok then insert (unat (ip - ?ps)) (nprc_granted (pool s)) else nprc_granted (pool s))"
    using nprc_commit_ok [OF inv, of ip] by blast
  have "unat (x - ?ps) = unat (ip - ?ps) \<longleftrightarrow> x = ip" for x by (metis diff_add_cancel word_unat_eq_iff)
  then have "nprc_unavail (s\<lparr>pool := p\<rparr>) = (if ok then insert ip (nprc_unavail s) else nprc_unavail s)"
    using p(4,5) by (auto simp: nprc_unavail_def)
  moreover have "nprc_commit s ip mac t = Some (s\<lparr>pool := p\<rparr>, ok)" using p(1) by (simp add: nprc_commit_def)
  moreover have "nprc_server_inv (s\<lparr>pool := p\<rparr>)" using p(2) inv(2) by (simp add: nprc_server_inv_def)
  moreover have "unat (ip - ?ps) \<notin> nprc_granted (pool s) \<longleftrightarrow> ip \<notin> nprc_unavail s" if "?ps \<le> ip"
    using that by (simp add: nprc_unavail_def)
  ultimately show ?thesis using p(3,4) by blast
qed

lemma nprc_offered:
  assumes "nprc_server_inv s" and "nprc_offer s mac t = Some (s', ip)" and "ip \<noteq> 0"
  shows "nprc_server_inv s' \<and> config s' = config s \<and> pool_start (config s) \<le> ip \<and>
    unat (ip - pool_start (config s)) = nprc_next (pool s) \<and> nprc_next (pool s') = nprc_next (pool s) + 1 \<and>
    ip \<notin> nprc_unavail s'"
proof -
  let ?ps = "pool_start (config s)"
  obtain p where p: "nprc_next (pool s) < nprc_size s" "s' = s\<lparr>pool := p\<rparr>" "nprc_server_inv s'"
    "ip = ?ps + of_nat (nprc_next (pool s))" "nprc_next (pool s) \<notin> nprc_granted p" "nprc_next p = nprc_next (pool s) + 1"
    using nprc_offer_ok [OF assms(1), of mac t] assms(2,3) by (auto split: if_splits)
  have "unat ip = unat ?ps + nprc_next (pool s)"
    using nprc_next_ip assms(1) unfolding p(4) nprc_server_inv_def by blast
  then have "?ps \<le> ip" "unat (ip - ?ps) = nprc_next (pool s)"
    using unat_sub [of ?ps ip] by (auto simp: word_le_nat_alt)
  with p(2,3,5,6) show ?thesis by (auto simp: nprc_unavail_def)
qed

interpretation npr: grant_server nprc_server_inv nprc_offer nprc_commit no_decline
  nprc_unavail "\<lambda>_ _. True" "\<lambda>_. 1"
proof unfold_locales
  fix s s' :: "('l::len) nprc_server" and mac :: "u8 list" and t T ip :: u32 and ok
  assume inv: "nprc_server_inv s"
  note o = nprc_offer_ok [OF inv, of mac t] and c = nprc_server_commit_ok [OF inv, of ip mac t]
  show "\<exists>s' ip. nprc_offer s mac t = Some (s', ip) \<and> nprc_server_inv s' \<and>
      (ip \<noteq> 0 \<longrightarrow> pool_start (config s') \<le> ip \<and> ip \<le> pool_end (config s'))"
  proof -
    obtain s' ip where o': "nprc_offer s mac t = Some (s', ip)" "nprc_server_inv s'" using o by blast
    moreover have "pool_start (config s') \<le> ip \<and> ip \<le> pool_end (config s')" if "ip \<noteq> 0"
      using nprc_offered [OF inv o'(1) that] nprc_in_pool [OF o'(2)] by simp
    ultimately show ?thesis by blast
  qed
  show "\<exists>s' ok. nprc_commit s ip mac t = Some (s', ok) \<and> nprc_server_inv s' \<and>
      (ok \<longrightarrow> pool_start (config s') \<le> ip \<and> ip \<le> pool_end (config s'))"
    using c nprc_in_pool [OF inv, of ip] by force
  show "\<exists>s'. no_decline s mac = Some s' \<and> nprc_server_inv s'" using inv by (simp add: no_decline_def)
  show "nprc_offer s mac t = Some (s', ip) \<Longrightarrow> True \<and> nprc_unavail s \<subseteq> nprc_unavail s' \<and> (1 :: u32) = 1"
    using o by auto
  show "nprc_offer s mac t = Some (s', ip) \<Longrightarrow> ip \<noteq> 0 \<Longrightarrow> ip \<notin> nprc_unavail s'" using nprc_offered [OF inv] by blast
  show "\<exists>s''. nprc_commit s' ip mac T = Some (s'', True)" if "nprc_offer s mac t = Some (s', ip)" "ip \<noteq> 0"
  proof -
    note f = nprc_offered [OF inv that]
    obtain p r where r: "nprc_commit s' ip mac T = Some (s'\<lparr>pool := p\<rparr>, r)"
      "r \<longleftrightarrow> pool_start (config s') \<le> ip \<and> unat (ip - pool_start (config s')) < nprc_next (pool s') \<and> ip \<notin> nprc_unavail s'"
      using nprc_server_commit_ok [of s' ip mac T] f by blast
    have "r = True" using r(2) f by simp
    with r(1) show ?thesis by blast
  qed
  show "(True \<longrightarrow> True) \<and> (1 :: u32) = 1 \<and> nprc_unavail s \<subseteq> nprc_unavail s' \<and> (ok \<longrightarrow> ip \<notin> nprc_unavail s \<and> ip \<in> nprc_unavail s')"
    if "nprc_commit s ip mac t = Some (s', ok)"
  proof -
    obtain p r where r: "nprc_commit s ip mac t = Some (s\<lparr>pool := p\<rparr>, r)" "r \<longrightarrow> ip \<notin> nprc_unavail s"
      "nprc_unavail (s\<lparr>pool := p\<rparr>) = (if r then insert ip (nprc_unavail s) else nprc_unavail s)"
      using c by blast
    then have "s' = s\<lparr>pool := p\<rparr>" "ok = r" using that by simp_all
    with r(2,3) show ?thesis by (cases r) auto
  qed
  show "no_decline s mac = Some s' \<Longrightarrow> s' = s" by (simp add: no_decline_def)
qed

section \<open>Properties\<close>

lemma nprc_init_ok:
  fixes m :: "('l::len) nprc_server"
  assumes "nprc_room (pool_start c) (pool_end c)" and "LENGTH('l) \<in> {32, 64}"
  shows "nprc_server_inv (dhcp_init_server_nprc m c)" and "nprc_next (pool (dhcp_init_server_nprc m c)) = 0"
    and "config (dhcp_init_server_nprc m c) = c"
  using assms
  by (auto simp: dhcp_init_server_nprc_def nprc_server_inv_def nprc_inv_def nprc_next_def nprc_pool_size_def nprc_room_def
      word_less_nat_alt)

definition sample_nprc :: "64 nprc_server" where
  "sample_nprc = \<lparr>config = sample_config, pool = \<lparr>cache_base = 0, offer_next = 1, ack_bitmap = 0\<rparr>\<rparr>"

lemma sample_nprc_inv [simp]: "nprc_server_inv sample_nprc"
  by (simp add: nprc_server_inv_def nprc_inv_def nprc_next_def nprc_pool_size_def nprc_room_def sample_nprc_def)

text \<open>
  C26. One request to the NPRC server.  On a request with a well-formed option field
  \<open>dhcp_process_message_nprc\<close> returns, keeps the invariant and sends the message that the
  specification decides; an offered or acknowledged address lies in the pool.
\<close>

theorem nprc_server_refines:
  assumes "nprc_server_inv s" and "wf_request request is"
  shows "\<exists>s' m r. dhcp_process_message_nprc s request response = Some (s', m) \<and> nprc_server_inv s' \<and>
    outcome nprc_offer nprc_commit no_decline s is (chaddr request) 0 = Some (s', r) \<and>
    realises request (config s') response r m \<and>
    (\<forall>ip. r = Offer ip \<or> r = Ack ip \<longrightarrow> pool_start (config s') \<le> ip \<and> ip \<le> pool_end (config s'))"
  using npr.serve_ok [OF assms, of response 0]
  unfolding process_nprc_is_serve [symmetric] nprc_step_def .

theorem nprc_server_refines_witness:
  "\<exists>s' m. dhcp_process_message_nprc sample_nprc (sample_request 1 discover_items) zero_message = Some (s', m) \<and>
    nprc_server_inv s'"
  using nprc_server_refines [OF sample_nprc_inv sample_items_wf(1), of 1 zero_message] by blast

text \<open>
  C27. NPRC grants every address at most once.  From the state that \<open>dhcp_init_server_nprc\<close> builds, for
  both widths of \<open>unsigned long\<close>, in every sequence of requests the acknowledged addresses are
  pairwise different, whatever the clients ask for and however long the server runs.
\<close>

theorem nprc_grants_once:
  fixes m :: "('l::len) nprc_server"
  assumes "nprc_room (pool_start c) (pool_end c)" and "LENGTH('l) \<in> {32, 64}"
    and "\<forall>request \<in> set qs. \<exists>is. wf_request request is"
  shows "\<exists>s ms. serve_run nprc_step (dhcp_init_server_nprc m c) (map (\<lambda>q. (q, 0)) qs) = Some (s, ms) \<and>
    length ms = length qs \<and> distinct (acked_ips ms)"
proof -
  note inv = nprc_init_ok(1) [OF assms(1,2), of m]
  have wf: "\<forall>(request, t) \<in> set (map (\<lambda>q. (q, 0)) qs). \<exists>is. wf_request request is" using assms(3) by auto
  then obtain s ms where run: "serve_run nprc_step (dhcp_init_server_nprc m c) (map (\<lambda>q. (q, 0)) qs) = Some (s, ms)"
    "length ms = length qs"
    using npr.serve_run_ok [OF inv wf] unfolding process_nprc_is_serve by auto
  moreover have "distinct (acked_ips ms)"
    using npr.run_grants_once [OF inv, where T = 0 and rs = "map (\<lambda>q. (q, 0)) qs" and s' = s and ms = ms] assms(3) run(1)
    unfolding process_nprc_is_serve by auto
  ultimately show ?thesis by blast
qed

theorem nprc_grants_once_witness:
  "\<exists>s ms. serve_run nprc_step (dhcp_init_server_nprc sample_nprc sample_config)
      (map (\<lambda>q. (q, 0)) [sample_request 1 (request_items 0x0A00000A), sample_request 2 (request_items 0x0A00000A)]) =
      Some (s, ms) \<and> distinct (acked_ips ms)"
proof -
  have "nprc_room (pool_start sample_config) (pool_end sample_config)" by (simp add: nprc_room_def)
  from nprc_grants_once [OF this, of "[sample_request 1 (request_items 0x0A00000A), sample_request 2 (request_items 0x0A00000A)]" sample_nprc]
  show ?thesis by (auto simp del: serve_run.simps)
qed

lemma nprc_outcome_next:
  assumes inv: "nprc_server_inv s" and out: "outcome nprc_offer nprc_commit no_decline s is mac t = Some (s', r)"
  shows "config s' = config s \<and> nprc_next (pool s) \<le> nprc_next (pool s') \<and>
    (\<forall>ip. r = Offer ip \<longrightarrow> unat ip = unat (pool_start (config s)) + nprc_next (pool s) \<and> nprc_next (pool s') = nprc_next (pool s) + 1)"
proof (cases rule: outcome_cases [of nprc_offer nprc_commit no_decline s "is" mac t])
  case none
  with out show ?thesis by simp
next
  case offer
  with out obtain ip where o: "nprc_offer s mac t = Some (s', ip)" "r = (if ip \<noteq> 0 then Offer ip else NoReply)"
    by (auto simp: bind_eq_Some_iff)
  have keep: "config s' = config s \<and> nprc_next (pool s) \<le> nprc_next (pool s')"
    using nprc_offer_ok [OF inv, of mac t] o(1) by auto
  show ?thesis
  proof (cases "ip = 0")
    case False
    note f = nprc_offered [OF inv o(1) False]
    then have "unat ip = unat (pool_start (config s)) + nprc_next (pool s)"
      using unat_sub [of "pool_start (config s)" ip] by (simp add: word_le_nat_alt)
    with keep f o(2) False show ?thesis by simp
  qed (use keep o(2) in simp)
next
  case (commit ip)
  with out obtain ok where c: "nprc_commit s ip mac t = Some (s', ok)" "r = (if ok then Ack ip else Nak)"
    by (auto simp: bind_eq_Some_iff)
  obtain p where "s' = s\<lparr>pool := p\<rparr>" "nprc_next p = nprc_next (pool s)"
    using nprc_server_commit_ok [OF inv, of ip mac t] c(1) by force
  with c(2) show ?thesis by (simp split: if_splits)
next
  case decline
  with out show ?thesis by (auto simp: bind_eq_Some_iff no_decline_def)
qed

lemma nprc_run_offers:
  assumes "nprc_server_inv s" and "\<forall>(request, t) \<in> set rs. \<exists>is. wf_request request is"
    and "serve_run nprc_step s rs = Some (s', ms)"
  shows "sorted_wrt (<) (offered_ips ms) \<and>
    (\<forall>ip \<in> set (offered_ips ms). unat (pool_start (config s)) + nprc_next (pool s) \<le> unat ip)"
  using assms
proof (induction rs arbitrary: s ms)
  case Nil
  then show ?case by simp
next
  case (Cons q rs)
  obtain request t where q: "q = (request, t)" by (cases q)
  obtain "is" where wf: "wf_request request is" using Cons.prems(2) q by auto
  obtain s1 m ms' where step: "nprc_step s request zero_message t = Some (s1, m)"
    and rest: "serve_run nprc_step s1 rs = Some (s', ms')" and ms: "ms = m # ms'"
    using Cons.prems(3) q by (auto simp: bind_eq_Some_iff)
  obtain r where r: "outcome nprc_offer nprc_commit no_decline s is (chaddr request) t = Some (s1, r)" "nprc_server_inv s1"
    "realises request (config s1) zero_message r m"
    using npr.serve_ok [OF Cons.prems(1) wf, of zero_message t] step unfolding process_nprc_is_serve by auto
  note n = nprc_outcome_next [OF Cons.prems(1) r(1)]
  have later: "sorted_wrt (<) (offered_ips ms')"
    "\<forall>ip \<in> set (offered_ips ms'). unat (pool_start (config s1)) + nprc_next (pool s1) \<le> unat ip"
    using Cons.IH [OF r(2) _ rest] Cons.prems(2) by auto
  show ?case
  proof (cases r)
    case (Offer ip)
    then have "offered_ips ms = ip # offered_ips ms'" using realises_offered [OF r(3), of ms'] ms by simp
    moreover have "ip < x" "unat (pool_start (config s)) + nprc_next (pool s) \<le> unat x" if "x \<in> set (offered_ips ms')" for x
      using n Offer later(2) that by (force simp: word_less_nat_alt)+
    ultimately show ?thesis using n Offer later(1) by auto
  qed (use realises_offered [OF r(3), of ms'] ms n later in auto)
qed

text \<open>
  NPRC offers every address at most once: the offered addresses strictly increase from the start of
  the pool, also when the window is flushed and when clients do not follow up on their offers.  So a
  server hands out at most as many addresses as the pool has, and then stops offering.
\<close>

theorem nprc_offers_increase:
  fixes m :: "('l::len) nprc_server"
  assumes "nprc_room (pool_start c) (pool_end c)" and "LENGTH('l) \<in> {32, 64}"
    and "\<forall>request \<in> set qs. \<exists>is. wf_request request is"
    and "serve_run nprc_step (dhcp_init_server_nprc m c) (map (\<lambda>q. (q, 0)) qs) = Some (s, ms)"
  shows "sorted_wrt (<) (offered_ips ms) \<and> (\<forall>ip \<in> set (offered_ips ms). pool_start c \<le> ip)"
proof -
  note init = nprc_init_ok [OF assms(1,2), of m]
  have "\<forall>(request, t) \<in> set (map (\<lambda>q. (q, 0)) qs). \<exists>is. wf_request request is" using assms(3) by auto
  from nprc_run_offers [OF init(1) this assms(4)] show ?thesis using init(2,3) by (simp add: word_le_nat_alt)
qed

text \<open>
  The DORA exchange with NPRC: the REQUEST for the address that was just offered is
  acknowledged, and the address is then no longer available.
\<close>

theorem nprc_handshake:
  assumes "nprc_server_inv s" and "wf_request rq1 is1" and "wf_request rq2 is2"
    and "item_lookup is1 DHCP_OPT_MESSAGE_TYPE = Some [DHCP_DISCOVER]"
    and "dhcp_process_message_nprc s rq1 zero_message = Some (s1, m1)"
    and "dhcp_get_message_type m1 = Some DHCP_OFFER"
    and "item_lookup is2 DHCP_OPT_MESSAGE_TYPE = Some [DHCP_REQUEST]"
    and "item_lookup is2 DHCP_OPT_REQUESTED_IP = Some (be_bytes (yiaddr m1))" and "chaddr rq2 = chaddr rq1"
  shows "\<exists>s2 m2. dhcp_process_message_nprc s1 rq2 zero_message = Some (s2, m2) \<and>
    dhcp_get_message_type m2 = Some DHCP_ACK \<and> yiaddr m2 = yiaddr m1 \<and>
    yiaddr m1 \<notin> nprc_unavail s1 \<and> yiaddr m1 \<in> nprc_unavail s2"
proof -
  have "nprc_step s rq1 zero_message 0 = Some (s1, m1)" using assms(5) by (simp add: nprc_step_def)
  from npr.grant_handshake [OF assms(1-4) this [unfolded process_nprc_is_serve] assms(6-9), of 0] show ?thesis
    unfolding process_nprc_is_serve [symmetric] nprc_step_def .
qed

lemma sample_nprc_offer:
  "\<exists>s1 m1. dhcp_process_message_nprc sample_nprc (sample_request 1 discover_items) zero_message = Some (s1, m1) \<and>
    dhcp_get_message_type m1 = Some DHCP_OFFER"
proof -
  have "nprc_offer sample_nprc (sample_chaddr 1) 0 =
      Some (sample_nprc\<lparr>pool := \<lparr>cache_base = 0, offer_next = 2, ack_bitmap = 0\<rparr>\<rparr>, 0x0A00000B)" by code_simp
  then have "outcome nprc_offer nprc_commit no_decline sample_nprc discover_items (chaddr (sample_request 1 discover_items)) 0 =
      Some (sample_nprc\<lparr>pool := \<lparr>cache_base = 0, offer_next = 2, ack_bitmap = 0\<rparr>\<rparr>, Offer 0x0A00000B)"
    by (simp add: outcome_def)
  from serve_refines_outcome [OF sample_items_wf(1) this, of zero_message] show ?thesis
    unfolding process_nprc_is_serve [symmetric] nprc_step_def by (auto dest: dhcp_get_message_type_items)
qed

end
