(* ===== verification/Byte_Order.thy ===== *)
theory Byte_Order
  imports Prelude
begin

text \<open>
  Words in memory.  Every target of the repository (ARMv7 and AArch64 on the Raspberry Pi, the
  x86-64 host of the load generator) is little-endian: \<open>host_bytes\<close> are the bytes of a word as
  they lie in memory and \<open>host_word\<close> reads them back.  \<open>htons\<close> and \<open>htonl\<close> swap the bytes, so that
  what is stored is in network order.
\<close>

definition host_bytes :: "'w::len word \<Rightarrow> u8 list" where
  "host_bytes w = map (\<lambda>i. ucast (drop_bit (8 * i) w)) [0..<LENGTH('w) div 8]"

fun host_word :: "u8 list \<Rightarrow> 'w::len word" where
  "host_word [] = 0"
| "host_word (b # bs) = ucast b OR push_bit 8 (host_word bs)"

lemma length_host_bytes [simp]: "length (host_bytes (w :: 'w::len word)) = LENGTH('w) div 8"
  by (simp add: host_bytes_def)

lemma bit_host_word:
  "bit (host_word bs :: 'w::len word) n \<longleftrightarrow> n < LENGTH('w) \<and> n div 8 < length bs \<and> bit (bs ! (n div 8)) (n mod 8)"
proof (induction bs arbitrary: n)
  case Nil
  then show ?case by simp
next
  case (Cons b bs)
  show ?case
  proof (cases "n < 8")
    case True
    then show ?thesis by (auto simp: bit_simps)
  next
    case False
    then obtain m where m: "n = m + 8" by (metis add.commute le_Suc_ex not_less)
    have high: "\<not> bit (ucast b :: 'w word) (m + 8)"
      using bit_imp_le_length [of b "m + 8"] by (auto simp: bit_simps)
    have "(m + 8) div 8 = Suc (m div 8)" "(m + 8) mod 8 = m mod 8" by simp_all
    then show ?thesis using high Cons.IH [of m] by (auto simp: m bit_simps)
  qed
qed

lemma host_word_bytes [simp]:
  fixes w :: "'w::len word"
  assumes "LENGTH('w) mod 8 = 0"
  shows "host_word (host_bytes w) = w"
proof (rule bit_word_eqI)
  fix n assume n: "n < LENGTH('w)"
  obtain k where "LENGTH('w) = k * 8" using assms by (auto simp: mod_eq_0_iff_dvd elim: dvdE)
  then have "n div 8 < LENGTH('w) div 8" using n by (simp add: less_mult_imp_div_less)
  then show "bit (host_word (host_bytes w) :: 'w word) n = bit w n"
    using n by (auto simp: bit_host_word host_bytes_def bit_simps)
qed

lemma host_bytes_inject:
  fixes v w :: "'w::len word"
  assumes "LENGTH('w) mod 8 = 0"
  shows "host_bytes v = host_bytes w \<longleftrightarrow> v = w"
  by (metis host_word_bytes [OF assms])

text \<open>The byte swaps of \<open>arpa/inet.h\<close> on a little-endian host; \<open>ntohs\<close> and \<open>ntohl\<close> are the same functions.\<close>

definition htons :: "u16 \<Rightarrow> u16" where
  "htons w = host_word (rev (host_bytes w))"

definition htonl :: "u32 \<Rightarrow> u32" where
  "htonl w = host_word (rev (host_bytes w))"

abbreviation ntohl :: "u32 \<Rightarrow> u32" where "ntohl \<equiv> htonl"

lemma host_bytes_word:
  assumes "length bs = LENGTH('w) div 8" and "LENGTH('w) mod 8 = 0"
  shows "host_bytes (host_word bs :: 'w::len word) = bs"
proof (rule nth_equalityI)
  show "length (host_bytes (host_word bs :: 'w word)) = length bs" using assms(1) by simp
  fix i assume "i < length (host_bytes (host_word bs :: 'w word))"
  then have i: "i < LENGTH('w) div 8" by simp
  show "host_bytes (host_word bs :: 'w word) ! i = bs ! i"
  proof (rule bit_word_eqI)
    fix n assume "n < LENGTH(8)"
    then have n: "n < 8" by simp
    have "8 * i + n < LENGTH('w)" using i n by simp
    then show "bit (host_bytes (host_word bs :: 'w word) ! i) n = bit (bs ! i) n"
      using i n assms(1) by (auto simp: host_bytes_def bit_simps bit_host_word)
  qed
qed

lemma host_bytes_htons: "host_bytes (htons w) = rev (host_bytes w)"
  by (simp add: htons_def host_bytes_word)

lemma host_bytes_htonl: "host_bytes (htonl w) = rev (host_bytes w)"
  by (simp add: htonl_def host_bytes_word)

lemma htons_htons [simp]: "htons (htons w) = w"
  by (simp add: htons_def host_bytes_word)

lemma htonl_htonl [simp]: "htonl (htonl w) = w"
  by (simp add: htonl_def host_bytes_word)

lemma htons_inject [simp]: "htons v = htons w \<longleftrightarrow> v = w"
  by (metis htons_htons)

lemma htonl_inject [simp]: "htonl v = htonl w \<longleftrightarrow> v = w"
  by (metis htonl_htonl)

end
