(* ===== verification/Cqueue.thy ===== *)
theory Cqueue
  imports Byte_Order
begin

text \<open>
  The circular byte queue: \<open>ds-lib/cqueue.h\<close>, \<open>ds-lib/cqueue.c\<close> and the copy of it in
  \<open>bench-live/lib\<close>, which adds \<open>cq_push64\<close> and \<open>cq_pop64\<close>.  The two copies differ in \<open>CQ_N\<close> only: it is
  the \<open>int\<close> 256 in \<open>ds-lib\<close> and the \<open>size_t\<close> \<open>4096 * 8 * sizeof (void *)\<close> in \<open>bench-live\<close>, so that the
  modulo is computed in 32 and in 64 bits.  The model has the value \<open>N\<close> of \<open>CQ_N\<close> as a parameter, of
  the width in which the expression is computed.

  The out-parameter of a C function is an argument of the model (the old value) and a component
  of the result (the new value).  Reading or writing outside \<open>c_buf\<close> or outside the caller's buffer
  is \<^const>\<open>None\<close>.
\<close>

section \<open>Model\<close>

record cq_t =
  c_buf :: "u8 list"
  fence :: u32
  head :: u32
  tail :: u32

definition cq_empty :: "cq_t \<Rightarrow> bool" where
  "cq_empty cq \<longleftrightarrow> head cq = tail cq"

definition cq_full :: "'n::len word \<Rightarrow> cq_t \<Rightarrow> bool" where
  "cq_full N cq \<longleftrightarrow> ucast (head cq + 1) mod N = ucast (tail cq)"

definition cq_nelem :: "'n::len word \<Rightarrow> cq_t \<Rightarrow> u32" where
  "cq_nelem N cq = ucast ((ucast (head cq - tail cq) + N) mod N)"

definition cq_nspace :: "'n::len word \<Rightarrow> cq_t \<Rightarrow> u32" where
  "cq_nspace N cq = ucast ((N - 1) - ucast (cq_nelem N cq))"

definition cq_pop :: "'n::len word \<Rightarrow> cq_t \<Rightarrow> u8 \<Rightarrow> (cq_t \<times> u8 \<times> bool) option" where
  "cq_pop N cq cqe =
     (if cq_empty cq then Some (cq, cqe, False)
      else do {
        let t = tail cq;
        cqe \<leftarrow> rd (c_buf cq) (unat t);
        Some (cq\<lparr>tail := ucast (ucast (t + 1) mod N)\<rparr>, cqe, True)
      })"

definition cq_push :: "'n::len word \<Rightarrow> cq_t \<Rightarrow> u8 \<Rightarrow> (cq_t \<times> bool) option" where
  "cq_push N cq cqe =
     (if cq_full N cq then Some (cq, False)
      else do {
        let h = head cq;
        buf \<leftarrow> wr (c_buf cq) (unat h) cqe;
        Some (cq\<lparr>c_buf := buf, head := ucast (ucast (h + 1) mod N)\<rparr>, True)
      })"

definition cq_peek :: "cq_t \<Rightarrow> u8 \<Rightarrow> (u8 \<times> bool) option" where
  "cq_peek cq cqe =
     (if cq_empty cq then Some (cqe, False)
      else do {
        cqe \<leftarrow> rd (c_buf cq) (unat (tail cq));
        Some (cqe, True)
      })"

text \<open>The loops of \<open>cq_pop_n\<close> and \<open>cq_push_n\<close>, from index \<open>i\<close> on, with the number of rounds left.\<close>

fun pop_from :: "'n::len word \<Rightarrow> cq_t \<Rightarrow> u8 list \<Rightarrow> nat \<Rightarrow> nat \<Rightarrow> (cq_t \<times> u8 list) option" where
  "pop_from N cq cqes i 0 = Some (cq, cqes)"
| "pop_from N cq cqes i (Suc k) = do {
     old \<leftarrow> rd cqes i;
     (cq, e, rc) \<leftarrow> cq_pop N cq old;
     cqes \<leftarrow> wr cqes i e;
     pop_from N cq cqes (i + 1) k
   }"

fun push_from :: "'n::len word \<Rightarrow> cq_t \<Rightarrow> u8 list \<Rightarrow> nat \<Rightarrow> nat \<Rightarrow> cq_t option" where
  "push_from N cq cqes i 0 = Some cq"
| "push_from N cq cqes i (Suc k) = do {
     e \<leftarrow> rd cqes i;
     (cq, rc) \<leftarrow> cq_push N cq e;
     push_from N cq cqes (i + 1) k
   }"

definition cq_pop_n :: "'n::len word \<Rightarrow> cq_t \<Rightarrow> u8 list \<Rightarrow> u32 \<Rightarrow> (cq_t \<times> u8 list \<times> bool) option" where
  "cq_pop_n N cq cqes n =
     (if cq_nelem N cq < n then Some (cq, cqes, False)
      else do {
        (cq, cqes) \<leftarrow> pop_from N cq cqes 0 (unat n);
        Some (cq, cqes, True)
      })"

definition cq_peek_n :: "'n::len word \<Rightarrow> cq_t \<Rightarrow> u8 list \<Rightarrow> u32 \<Rightarrow> (cq_t \<times> u8 list \<times> bool) option" where
  "cq_peek_n N cq cqes n =
     (if n > cq_nelem N cq then Some (cq, cqes, False)
      else do {
        let t = tail cq;
        (cq, cqes, rc) \<leftarrow> cq_pop_n N cq cqes n;
        Some (cq\<lparr>tail := t\<rparr>, cqes, rc)
      })"

definition cq_push_n :: "'n::len word \<Rightarrow> cq_t \<Rightarrow> u8 list \<Rightarrow> u32 \<Rightarrow> (cq_t \<times> bool) option" where
  "cq_push_n N cq cqes n =
     (if n \<le> 0 \<or> cq_nspace N cq < n then Some (cq, False)
      else do {
        cq \<leftarrow> push_from N cq cqes 0 (unat n);
        Some (cq, True)
      })"

text \<open>The macros \<open>cq_push_type\<close> and \<open>cq_pop_type\<close> on an object of an integer type.\<close>

definition cq_push_type :: "'n::len word \<Rightarrow> cq_t \<Rightarrow> 'w::len word \<Rightarrow> (cq_t \<times> bool) option" where
  "cq_push_type N cq x = cq_push_n N cq (host_bytes x) (of_nat (LENGTH('w) div 8))"

definition cq_pop_type :: "'n::len word \<Rightarrow> cq_t \<Rightarrow> 'w::len word \<Rightarrow> (cq_t \<times> 'w word \<times> bool) option" where
  "cq_pop_type N cq x = do {
     (cq, bs, rc) \<leftarrow> cq_pop_n N cq (host_bytes x) (of_nat (LENGTH('w) div 8));
     Some (cq, host_word bs, rc)
   }"

definition cq_push32 :: "'n::len word \<Rightarrow> cq_t \<Rightarrow> u32 \<Rightarrow> (cq_t \<times> bool) option" where
  "cq_push32 N cq x = cq_push_n N cq (host_bytes x) 4"

definition cq_pop32 :: "'n::len word \<Rightarrow> cq_t \<Rightarrow> u32 \<Rightarrow> (cq_t \<times> u32 \<times> bool) option" where
  "cq_pop32 N cq x = do {
     (cq, bs, rc) \<leftarrow> cq_pop_n N cq (host_bytes x) 4;
     Some (cq, host_word bs, rc)
   }"

definition cq_push64 :: "'n::len word \<Rightarrow> cq_t \<Rightarrow> u64 \<Rightarrow> (cq_t \<times> bool) option" where
  "cq_push64 N cq x = cq_push_n N cq (host_bytes x) 8"

definition cq_pop64 :: "'n::len word \<Rightarrow> cq_t \<Rightarrow> u64 \<Rightarrow> (cq_t \<times> u64 \<times> bool) option" where
  "cq_pop64 N cq x = do {
     (cq, bs, rc) \<leftarrow> cq_pop_n N cq (host_bytes x) 8;
     Some (cq, host_word bs, rc)
   }"

definition cq_ok :: "cq_t \<Rightarrow> bool" where
  "cq_ok cq \<longleftrightarrow> \<not> fence cq \<noteq> 0x12345678"

definition cq_init :: "'n::len word \<Rightarrow> cq_t \<Rightarrow> (cq_t \<times> bool) option" where
  "cq_init N cq = do {
     buf \<leftarrow> kmemset (c_buf cq) 0 0 (unat N);
     let cq = cq\<lparr>c_buf := buf, fence := 0x12345678, head := 0, tail := 0\<rparr>;
     if \<not> cq_empty cq \<or> cq_full N cq \<or> cq_nelem N cq \<noteq> 0 then Some (cq, False)
     else do {
       (cq, e, rc) \<leftarrow> cq_pop N cq 0x12;
       Some (cq, \<not> (rc \<or> e \<noteq> 0x12))
     }
   }"

text \<open>The two values of \<open>CQ_N\<close>.\<close>

definition CQ_N :: u32 where "CQ_N = 256"
definition BENCH_CQ_N :: u64 where "BENCH_CQ_N = 4096 * 8 * 8"

end
