(* ===== verification/Fifo.thy ===== *)
theory Fifo
  imports Prelude
begin

text \<open>
  The contract of a bounded queue: a queue represents a list of at most \<open>bound\<close> elements; pushing
  appends to it unless it is full and popping takes its first element unless it is empty.  The
  derived facts are what the clients of a queue use: blocks of pushes and pops, and that every
  sequence of operations behaves like the same sequence on the list.
\<close>

datatype 'a fifo_op = Push 'a | Pop

datatype 'a fifo_result = Pushed bool | Popped "'a option"

fun fifo_spec :: "nat \<Rightarrow> 'a list \<Rightarrow> 'a fifo_op list \<Rightarrow> 'a list \<times> 'a fifo_result list" where
  "fifo_spec n xs [] = (xs, [])"
| "fifo_spec n xs (Push x # ops) =
     (let (ys, rs) = fifo_spec n (if length xs < n then xs @ [x] else xs) ops
      in (ys, Pushed (length xs < n) # rs))"
| "fifo_spec n xs (Pop # ops) =
     (let (ys, rs) = fifo_spec n (tl xs) ops
      in (ys, Popped (if xs = [] then None else Some (hd xs)) # rs))"

text \<open>The same sequence on an implementation; \<open>d\<close> is the initial value of the variable that \<open>pop\<close> fills.\<close>

fun fifo_run :: "('q \<Rightarrow> 'a \<Rightarrow> ('q \<times> bool) option) \<Rightarrow> ('q \<Rightarrow> 'a \<Rightarrow> ('q \<times> 'a \<times> bool) option) \<Rightarrow> 'a \<Rightarrow>
    'q \<Rightarrow> 'a fifo_op list \<Rightarrow> ('q \<times> 'a fifo_result list) option" where
  "fifo_run push pop d q [] = Some (q, [])"
| "fifo_run push pop d q (Push x # ops) = do {
     (q, r) \<leftarrow> push q x;
     (q, rs) \<leftarrow> fifo_run push pop d q ops;
     Some (q, Pushed r # rs)
   }"
| "fifo_run push pop d q (Pop # ops) = do {
     (q, y, r) \<leftarrow> pop q d;
     (q, rs) \<leftarrow> fifo_run push pop d q ops;
     Some (q, Popped (if r then Some y else None) # rs)
   }"

locale bounded_fifo =
  fixes inv :: "'q \<Rightarrow> bool" and contents :: "'q \<Rightarrow> 'a list" and bound :: nat
    and push :: "'q \<Rightarrow> 'a \<Rightarrow> ('q \<times> bool) option"
    and pop :: "'q \<Rightarrow> 'a \<Rightarrow> ('q \<times> 'a \<times> bool) option"
  assumes push_ok: "inv q \<Longrightarrow> \<exists>q'. push q x = Some (q', length (contents q) < bound) \<and> inv q' \<and>
      contents q' = (if length (contents q) < bound then contents q @ [x] else contents q)"
    and pop_ok: "inv q \<Longrightarrow> \<exists>q'. pop q d = Some (q', if contents q = [] then d else hd (contents q), contents q \<noteq> []) \<and>
      inv q' \<and> contents q' = tl (contents q)"
begin

lemma run_refines:
  assumes "inv q"
  shows "\<exists>q'. fifo_run push pop d q ops = Some (q', snd (fifo_spec bound (contents q) ops)) \<and> inv q' \<and>
    contents q' = fst (fifo_spec bound (contents q) ops)"
  using assms
proof (induction ops arbitrary: q)
  case Nil
  then show ?case by simp
next
  case (Cons act ops)
  show ?case
  proof (cases act)
    case (Push x)
    obtain q' where q': "push q x = Some (q', length (contents q) < bound)" "inv q'"
      "contents q' = (if length (contents q) < bound then contents q @ [x] else contents q)"
      using push_ok [OF Cons.prems] by blast
    with Cons.IH [OF q'(2)] show ?thesis by (auto simp: Push split_def Let_def)
  next
    case Pop
    obtain q' where q': "pop q d = Some (q', if contents q = [] then d else hd (contents q), contents q \<noteq> [])"
      "inv q'" "contents q' = tl (contents q)"
      using pop_ok [OF Cons.prems] by blast
    with Cons.IH [OF q'(2)] show ?thesis by (auto simp: Pop split_def Let_def)
  qed
qed

end

end
