(* ===== verification/Cqueue_Correct.thy ===== *)
theory Cqueue_Correct
  imports Cqueue Fifo
begin

text \<open>
  Correctness of the circular queue for every \<open>CQ_N\<close> that divides \<open>2\<^sup>3\<^sup>2\<close>, in both widths: the list a
  queue represents, the interpretation of \<open>bounded_fifo\<close> with room for \<open>CQ_N - 1\<close> bytes, and the
  block operations.
\<close>

section \<open>Indices\<close>

definition ring_len :: "nat \<Rightarrow> nat \<Rightarrow> nat \<Rightarrow> nat" where
  "ring_len m h t = (h + m - t) mod m"

lemma ring_len_if: "h < m \<Longrightarrow> t < m \<Longrightarrow> ring_len m h t = (if t \<le> h then h - t else h + m - t)"
  by (auto simp: ring_len_def mod_if)

lemma Suc_mod_if: "i < m \<Longrightarrow> Suc i mod m = (if Suc i = m then 0 else Suc i)"
  by simp

lemma add_mod_if: "a < m \<Longrightarrow> b < m \<Longrightarrow> (a + b) mod m = (if a + b < m then a + b else a + b - m)" for a :: nat
  by (simp add: le_mod_geq)

lemma ring_len_less: "h < m \<Longrightarrow> t < m \<Longrightarrow> ring_len m h t < m"
  by (auto simp: ring_len_def)

lemma ring_len_0: "h < m \<Longrightarrow> t < m \<Longrightarrow> ring_len m h t = 0 \<longleftrightarrow> h = t"
  by (auto simp: ring_len_if)

lemma ring_len_full: "h < m \<Longrightarrow> t < m \<Longrightarrow> (h + 1) mod m = t \<longleftrightarrow> ring_len m h t = m - 1"
  by (simp add: ring_len_if Suc_mod_if) arith

lemma ring_len_push: "h < m \<Longrightarrow> t < m \<Longrightarrow> ring_len m h t < m - 1 \<Longrightarrow> ring_len m ((h + 1) mod m) t = ring_len m h t + 1"
  by (simp add: ring_len_if Suc_mod_if split: if_splits) arith+

lemma ring_len_pop: "h < m \<Longrightarrow> t < m \<Longrightarrow> h \<noteq> t \<Longrightarrow> ring_len m h ((t + 1) mod m) = ring_len m h t - 1"
  by (simp add: ring_len_if Suc_mod_if split: if_splits)

lemma ring_at_head: "h < m \<Longrightarrow> t < m \<Longrightarrow> (t + ring_len m h t) mod m = h"
  by (auto simp: ring_len_if)

lemma ring_not_head: "h < m \<Longrightarrow> t < m \<Longrightarrow> i < ring_len m h t \<Longrightarrow> (t + i) mod m \<noteq> h"
  using ring_len_less [of h m t] by (simp add: ring_len_if add_mod_if split: if_splits) arith+

section \<open>Invariant\<close>

definition cq_inv :: "'n::len word \<Rightarrow> cq_t \<Rightarrow> bool" where
  "cq_inv N cq \<longleftrightarrow> 32 \<le> LENGTH('n) \<and> 1 < unat N \<and> unat N < 2 ^ 32 \<and> unat N dvd 2 ^ 32 \<and>
     length (c_buf cq) = unat N \<and> unat (head cq) < unat N \<and> unat (tail cq) < unat N"

definition cq_len :: "'n::len word \<Rightarrow> cq_t \<Rightarrow> nat" where
  "cq_len N cq = ring_len (unat N) (unat (head cq)) (unat (tail cq))"

definition cq_list :: "'n::len word \<Rightarrow> cq_t \<Rightarrow> u8 list" where
  "cq_list N cq = map (\<lambda>i. c_buf cq ! ((unat (tail cq) + i) mod unat N)) [0..<cq_len N cq]"

lemma length_cq_list [simp]: "length (cq_list N cq) = cq_len N cq"
  by (simp add: cq_list_def)

lemma unat_ucast_up: "LENGTH('a) \<le> LENGTH('b) \<Longrightarrow> unat (ucast w :: 'b::len word) = unat w" for w :: "'a::len word"
  using less_le_trans [OF unat_less_pow [of w], of "2 ^ LENGTH('b)"]
  by (simp add: unsigned_ucast_eq take_bit_nat_eq_self)

lemma unat_ucast_small: "unat w < 2 ^ LENGTH('b) \<Longrightarrow> unat (ucast w :: 'b::len word) = unat w" for w :: "'a::len word"
  by (simp add: unsigned_ucast_eq take_bit_nat_eq_self)

lemma cq_succ:
  fixes N :: "'n::len word" and i :: u32
  assumes "32 \<le> LENGTH('n)" and "unat N < 2 ^ 32" and "unat i < unat N"
  shows "unat (ucast (i + 1) mod N) = (unat i + 1) mod unat N"
    and "unat (ucast (ucast (i + 1) mod N) :: u32) = (unat i + 1) mod unat N"
proof -
  have "unat (i + 1) = unat i + 1" using assms by (intro unat_plus_one) simp
  then show *: "unat (ucast (i + 1) mod N) = (unat i + 1) mod unat N"
    using assms(1) by (simp add: unat_mod unat_ucast_up)
  have "(unat i + 1) mod unat N < unat N" using assms(3) by (intro mod_less_divisor) simp
  then have "(unat i + 1) mod unat N < 2 ^ 32" using assms(2) by simp
  then show "unat (ucast (ucast (i + 1) mod N) :: u32) = (unat i + 1) mod unat N"
    using * by (simp add: unat_ucast_small)
qed

lemma unat_diff_32: "unat (a - b) = (unat a + 2 ^ 32 - unat b) mod 2 ^ 32" for a b :: u32
proof -
  have "unat b < 2 ^ 32" "unat a < 2 ^ 32" using unat_less_pow [of b] unat_less_pow [of a] by simp_all
  then show ?thesis by (auto simp: unat_sub_if' mod_if)
qed

lemma cq_nelem_ok:
  fixes N :: "'n::len word"
  assumes "cq_inv N cq"
  shows "unat (cq_nelem N cq) = cq_len N cq"
proof -
  let ?m = "unat N" and ?h = "unat (head cq)" and ?t = "unat (tail cq)"
  have i: "32 \<le> LENGTH('n)" "?m < 2 ^ 32" "?m dvd 2 ^ 32" "?h < ?m" "?t < ?m" using assms by (auto simp: cq_inv_def)
  have dvd: "?m dvd 2 ^ LENGTH('n)" using i(1,3) by (meson dvd_trans le_imp_power_dvd)
  let ?x = "unat (head cq - tail cq)"
  have "unat ((ucast (head cq - tail cq) + N) mod N) = ((?x + ?m) mod 2 ^ LENGTH('n)) mod ?m"
    using i(1) by (simp add: unat_mod unat_word_ariths(1) unat_ucast_up)
  also have "\<dots> = ?x mod ?m" using dvd by (simp add: mod_mod_cancel)
  also have "\<dots> = (?h + 2 ^ 32 - ?t) mod ?m" unfolding unat_diff_32 using i(3) by (simp add: mod_mod_cancel)
  also have "\<dots> = (?h + ?m - ?t) mod ?m"
  proof -
    obtain c where c: "2 ^ 32 = ?m * c" using i(3) by (elim dvdE)
    then have "0 < c" by (cases c) auto
    then obtain d where d: "c = d + 1" by (metis Suc_eq_plus1 gr0_implies_Suc)
    have "?h + 2 ^ 32 - ?t = (?h + ?m - ?t) + ?m * d" using i(5) unfolding c d by (simp add: algebra_simps)
    then show ?thesis by simp
  qed
  finally have *: "unat ((ucast (head cq - tail cq) + N) mod N) = cq_len N cq" by (simp add: cq_len_def ring_len_def)
  moreover have "cq_len N cq < 2 ^ 32" using ring_len_less [OF i(4,5)] i(2) by (simp add: cq_len_def)
  ultimately show ?thesis by (simp add: cq_nelem_def unat_ucast_small)
qed

lemma cq_nspace_ok:
  fixes N :: "'n::len word"
  assumes "cq_inv N cq"
  shows "unat (cq_nspace N cq) = unat N - 1 - cq_len N cq"
proof -
  have i: "32 \<le> LENGTH('n)" "unat N < 2 ^ 32" "1 < unat N" using assms by (auto simp: cq_inv_def)
  have "cq_len N cq < unat N" using assms ring_len_less by (auto simp: cq_inv_def cq_len_def)
  have "N \<noteq> 0" using i(3) by auto
  then have n1: "unat (N - 1) = unat N - 1" by (rule unat_minus_one)
  have "unat (ucast (cq_nelem N cq) :: 'n word) = cq_len N cq" using i(1) cq_nelem_ok [OF assms] by (simp add: unat_ucast_up)
  then have "unat ((N - 1) - ucast (cq_nelem N cq)) = unat N - 1 - cq_len N cq"
    using n1 \<open>cq_len N cq < unat N\<close> by (simp add: unat_sub word_le_nat_alt)
  then show ?thesis using i(2) by (simp add: cq_nspace_def unat_ucast_small)
qed

lemma cq_empty_ok: "cq_inv N cq \<Longrightarrow> cq_empty cq \<longleftrightarrow> cq_list N cq = []"
  using ring_len_0 [of "unat (head cq)" "unat N" "unat (tail cq)"]
  by (auto simp: cq_inv_def cq_empty_def cq_list_def cq_len_def word_unat_eq_iff)

lemma cq_full_ok:
  fixes N :: "'n::len word"
  assumes "cq_inv N cq"
  shows "cq_full N cq \<longleftrightarrow> cq_len N cq = unat N - 1"
proof -
  have i: "32 \<le> LENGTH('n)" "unat N < 2 ^ 32" "unat (head cq) < unat N" "unat (tail cq) < unat N"
    using assms by (auto simp: cq_inv_def)
  have "cq_full N cq \<longleftrightarrow> (unat (head cq) + 1) mod unat N = unat (tail cq)"
    using cq_succ(1) [OF i(1-3)] i(1) by (simp add: cq_full_def word_unat_eq_iff unat_ucast_up)
  with ring_len_full [OF i(3,4)] show ?thesis by (simp add: cq_len_def)
qed

section \<open>Push and pop\<close>

lemma cq_push_ok:
  fixes N :: "'n::len word"
  assumes inv: "cq_inv N cq"
  shows "\<exists>cq'. cq_push N cq x = Some (cq', length (cq_list N cq) < unat N - 1) \<and> cq_inv N cq' \<and>
    cq_list N cq' = (if length (cq_list N cq) < unat N - 1 then cq_list N cq @ [x] else cq_list N cq)"
proof (cases "cq_full N cq")
  case True
  then show ?thesis using inv cq_full_ok [OF inv] by (simp add: cq_push_def)
next
  case False
  let ?m = "unat N" and ?h = "unat (head cq)" and ?t = "unat (tail cq)"
  have i: "32 \<le> LENGTH('n)" "?m < 2 ^ 32" "?h < ?m" "?t < ?m" "length (c_buf cq) = ?m"
    using inv by (auto simp: cq_inv_def)
  have room: "cq_len N cq < ?m - 1"
    using False cq_full_ok [OF inv] ring_len_less [OF i(3,4)] by (simp add: cq_len_def)
  let ?cq = "cq\<lparr>c_buf := (c_buf cq)[?h := x], head := ucast (ucast (head cq + 1) mod N)\<rparr>"
  note h = cq_succ(2) [OF i(1-3)]
  have run: "cq_push N cq x = Some (?cq, True)" using False i(3,5) by (simp add: cq_push_def wr_Some Let_def)
  have inv': "cq_inv N ?cq" using inv h i(3) by (simp add: cq_inv_def)
  have len: "cq_len N ?cq = cq_len N cq + 1"
    using ring_len_push [OF i(3,4)] room h by (simp add: cq_len_def)
  have "c_buf ?cq ! ((?t + k) mod ?m) = (if k = cq_len N cq then x else c_buf cq ! ((?t + k) mod ?m))"
    if "k \<le> cq_len N cq" for k
    using that ring_at_head [OF i(3,4)] ring_not_head [OF i(3,4), of k] i(3,5) by (auto simp: cq_len_def)
  then have "cq_list N ?cq = cq_list N cq @ [x]" unfolding cq_list_def len by simp
  with run inv' room show ?thesis by simp
qed

lemma cq_list_first:
  assumes "cq_inv N cq" and "cq_list N cq \<noteq> []"
  shows "c_buf cq ! unat (tail cq) = hd (cq_list N cq)"
proof -
  have "0 < cq_len N cq" "unat (tail cq) < unat N" using assms by (auto simp: cq_list_def cq_inv_def)
  then show ?thesis by (simp add: cq_list_def hd_map upt_rec)
qed

lemma cq_pop_ok:
  fixes N :: "'n::len word"
  assumes inv: "cq_inv N cq"
  shows "\<exists>cq'. cq_pop N cq d = Some (cq', if cq_list N cq = [] then d else hd (cq_list N cq), cq_list N cq \<noteq> []) \<and>
    cq_inv N cq' \<and> cq_list N cq' = tl (cq_list N cq)"
proof (cases "cq_empty cq")
  case True
  then show ?thesis using inv cq_empty_ok [OF inv] by (simp add: cq_pop_def)
next
  case False
  let ?m = "unat N" and ?h = "unat (head cq)" and ?t = "unat (tail cq)"
  have i: "32 \<le> LENGTH('n)" "?m < 2 ^ 32" "?t < ?m" "?h < ?m" "length (c_buf cq) = ?m"
    using inv by (auto simp: cq_inv_def)
  have ne: "cq_list N cq \<noteq> []" "?h \<noteq> ?t"
    using False cq_empty_ok [OF inv] by (auto simp: cq_empty_def word_unat_eq_iff)
  let ?cq = "cq\<lparr>tail := ucast (ucast (tail cq + 1) mod N)\<rparr>"
  note t = cq_succ(2) [OF i(1-3)]
  have run: "cq_pop N cq d = Some (?cq, hd (cq_list N cq), True)"
    using False i(3,5) cq_list_first [OF inv ne(1)] by (simp add: cq_pop_def rd_Some Let_def)
  have inv': "cq_inv N ?cq" using inv t i(3) by (simp add: cq_inv_def)
  have len: "cq_len N ?cq = cq_len N cq - 1"
    using ring_len_pop [OF i(4,3) ne(2)] t by (simp add: cq_len_def)
  have "((?t + 1) mod ?m + k) mod ?m = (?t + Suc k) mod ?m" for k by (simp add: mod_add_left_eq)
  then have "cq_list N ?cq = map (\<lambda>k. c_buf cq ! ((?t + Suc k) mod ?m)) [0..<cq_len N cq - 1]"
    using t unfolding cq_list_def len by simp
  also have "\<dots> = tl (cq_list N cq)" 
  proof (rule nth_equalityI)
    fix k assume "k < length (map (\<lambda>k. c_buf cq ! ((?t + Suc k) mod ?m)) [0..<cq_len N cq - 1])"
    then have "Suc k < cq_len N cq" "k < cq_len N cq - Suc 0" by simp_all
    then show "map (\<lambda>k. c_buf cq ! ((?t + Suc k) mod ?m)) [0..<cq_len N cq - 1] ! k = tl (cq_list N cq) ! k"
      by (simp add: cq_list_def nth_tl)
  qed simp
  finally show ?thesis using run inv' ne by simp
qed

interpretation cqf: bounded_fifo "cq_inv N" "cq_list N" "unat N - 1" "cq_push N" "cq_pop N" for N :: "'n::len word"
  by unfold_locales (rule cq_push_ok, assumption, rule cq_pop_ok, assumption)

lemma cq_peek_ok:
  assumes "cq_inv N cq"
  shows "cq_peek cq d = Some (if cq_list N cq = [] then d else hd (cq_list N cq), cq_list N cq \<noteq> [])"
proof -
  have "unat (tail cq) < length (c_buf cq)" using assms by (auto simp: cq_inv_def)
  then show ?thesis
    using cq_empty_ok [OF assms] cq_list_first [OF assms] by (auto simp: cq_peek_def rd_Some)
qed

section \<open>Blocks\<close>

lemma push_from_ok:
  assumes "cq_inv N cq" and "cq_len N cq + k \<le> unat N - 1" and "i + k \<le> length cqes"
  shows "\<exists>cq'. push_from N cq cqes i k = Some cq' \<and> cq_inv N cq' \<and>
    cq_list N cq' = cq_list N cq @ take k (drop i cqes)"
  using assms
proof (induction k arbitrary: cq i)
  case 0
  then show ?case by simp
next
  case (Suc k)
  obtain cq' where cq': "cq_push N cq (cqes ! i) = Some (cq', True)" "cq_inv N cq'"
    "cq_list N cq' = cq_list N cq @ [cqes ! i]"
    using cq_push_ok [OF Suc.prems(1), of "cqes ! i"] Suc.prems(2) by auto
  have "cq_len N cq' = cq_len N cq + 1" using cq'(3) by (metis length_append_singleton length_cq_list Suc_eq_plus1)
  then obtain cq'' where "push_from N cq' cqes (i + 1) k = Some cq''" "cq_inv N cq''"
    "cq_list N cq'' = cq_list N cq' @ take k (drop (i + 1) cqes)"
    using Suc.IH [OF cq'(2), of "i + 1"] Suc.prems(2,3) by auto
  moreover have "take (Suc k) (drop i cqes) = cqes ! i # take k (drop (i + 1) cqes)"
    using Suc.prems(3) by (simp add: Cons_nth_drop_Suc [symmetric])
  ultimately show ?case using cq'(1,3) Suc.prems(3) by (simp add: rd_Some)
qed

lemma pop_from_ok:
  assumes "cq_inv N cq" and "k \<le> cq_len N cq" and "i + k \<le> length cqes"
  shows "\<exists>cq'. pop_from N cq cqes i k = Some (cq', take i cqes @ take k (cq_list N cq) @ drop (i + k) cqes) \<and>
    cq_inv N cq' \<and> cq_list N cq' = drop k (cq_list N cq) \<and> (\<exists>t. cq' = cq\<lparr>tail := t\<rparr>)"
  using assms
proof (induction k arbitrary: cq i cqes)
  case 0
  then show ?case by (auto intro!: exI [of _ "tail cq"])
next
  case (Suc k)
  have "0 < length (cq_list N cq)" using Suc.prems(2) by simp
  then have ne: "cq_list N cq \<noteq> []" by (rule length_greater_0_conv [THEN iffD1])
  let ?e = "hd (cq_list N cq)"
  obtain cq' where cq': "cq_pop N cq (cqes ! i) = Some (cq', ?e, True)" "cq_inv N cq'" "cq_list N cq' = tl (cq_list N cq)"
    using cq_pop_ok [OF Suc.prems(1), of "cqes ! i"] ne by auto
  have keep: "\<exists>t. cq' = cq\<lparr>tail := t\<rparr>" using cq'(1) by (auto simp: cq_pop_def bind_eq_Some_iff Let_def split: if_splits)
  have "cq_len N cq' = cq_len N cq - 1" using cq'(3) by (metis length_cq_list length_tl)
  then have k: "k \<le> cq_len N cq'" using Suc.prems(2) by simp
  obtain cq'' where q: "pop_from N cq' (cqes[i := ?e]) (i + 1) k =
      Some (cq'', take (i + 1) (cqes[i := ?e]) @ take k (cq_list N cq') @ drop (i + 1 + k) (cqes[i := ?e]))"
    "cq_inv N cq''" "cq_list N cq'' = drop k (cq_list N cq')" "\<exists>t. cq'' = cq'\<lparr>tail := t\<rparr>"
    using Suc.IH [OF cq'(2) k, of "i + 1" "cqes[i := ?e]"] Suc.prems(3) by auto
  have i: "i < length cqes" using Suc.prems(3) by simp
  have "take (i + 1) (cqes[i := ?e]) @ take k (cq_list N cq') @ drop (i + 1 + k) (cqes[i := ?e]) =
      take i cqes @ take (Suc k) (cq_list N cq) @ drop (i + Suc k) cqes"
    using i ne cq'(3) by (cases "cq_list N cq") (auto simp: take_Suc_conv_app_nth)
  then show ?case using cq'(1,3) i q keep ne by (auto simp: access_simps drop_Suc)
qed

text \<open>The block operations take or leave a whole block.\<close>

lemma cq_push_n_ok:
  assumes "cq_inv N cq" and "unat n \<le> length cqes"
  shows "\<exists>cq'. cq_push_n N cq cqes n = Some (cq', 0 < n \<and> cq_len N cq + unat n \<le> unat N - 1) \<and> cq_inv N cq' \<and>
    cq_list N cq' = (if 0 < n \<and> cq_len N cq + unat n \<le> unat N - 1 then cq_list N cq @ take (unat n) cqes else cq_list N cq)"
proof -
  have "cq_len N cq < unat N" using assms(1) ring_len_less by (auto simp: cq_inv_def cq_len_def)
  then have guard: "n \<le> 0 \<or> cq_nspace N cq < n \<longleftrightarrow> \<not> (0 < n \<and> cq_len N cq + unat n \<le> unat N - 1)"
    using cq_nspace_ok [OF assms(1)] by (auto simp: word_less_nat_alt word_le_nat_alt)
  show ?thesis
  proof (cases "0 < n \<and> cq_len N cq + unat n \<le> unat N - 1")
    case True
    with push_from_ok [OF assms(1), of "unat n" 0 cqes] assms(2) show ?thesis
      unfolding cq_push_n_def guard by auto
  next
    case False
    then have "cq_push_n N cq cqes n = Some (cq, False)" unfolding cq_push_n_def guard by simp
    with False assms(1) show ?thesis by (simp only: if_False) blast
  qed
qed

lemma cq_pop_n_ok:
  assumes "cq_inv N cq" and "unat n \<le> length cqes"
  shows "\<exists>cq'. cq_pop_n N cq cqes n = Some (cq',
      (if unat n \<le> cq_len N cq then take (unat n) (cq_list N cq) @ drop (unat n) cqes else cqes), unat n \<le> cq_len N cq) \<and>
    cq_inv N cq' \<and> cq_list N cq' = (if unat n \<le> cq_len N cq then drop (unat n) (cq_list N cq) else cq_list N cq) \<and>
    (\<exists>t. cq' = cq\<lparr>tail := t\<rparr>)"
proof (cases "unat n \<le> cq_len N cq")
  case True
  then have "\<not> cq_nelem N cq < n" using cq_nelem_ok [OF assms(1)] by (simp add: word_less_nat_alt)
  with True pop_from_ok [OF assms(1) True, of 0 cqes] assms(2) show ?thesis by (auto simp: cq_pop_n_def)
next
  case False
  then have "cq_nelem N cq < n" using cq_nelem_ok [OF assms(1)] by (simp add: word_less_nat_alt)
  with False assms(1) show ?thesis by (auto simp: cq_pop_n_def intro!: exI [of _ "tail cq"])
qed

lemma cq_peek_n_ok:
  assumes "cq_inv N cq" and "unat n \<le> length cqes"
  shows "cq_peek_n N cq cqes n = Some (cq,
      (if unat n \<le> cq_len N cq then take (unat n) (cq_list N cq) @ drop (unat n) cqes else cqes), unat n \<le> cq_len N cq)"
  using cq_pop_n_ok [OF assms] cq_nelem_ok [OF assms(1)]
  by (auto simp: cq_peek_n_def Let_def word_less_nat_alt)

lemma cq_init_ok:
  fixes N :: "'n::len word"
  assumes "32 \<le> LENGTH('n)" and "1 < unat N" and "unat N < 2 ^ 32" and "unat N dvd 2 ^ 32" and "length (c_buf cq) = unat N"
  shows "\<exists>cq'. cq_init N cq = Some (cq', True) \<and> cq_inv N cq' \<and> cq_list N cq' = [] \<and> cq_ok cq'"
proof -
  let ?cq = "cq\<lparr>c_buf := replicate (unat N) 0, fence := 0x12345678, head := 0, tail := 0\<rparr>"
  have inv: "cq_inv N ?cq" using assms by (simp add: cq_inv_def)
  have len: "cq_len N ?cq = 0" by (simp add: cq_len_def ring_len_def)
  then have "cq_list N ?cq = []" by (simp add: cq_list_def)
  moreover have "cq_init N cq = Some (?cq, True)"
    using assms(2,5) len cq_full_ok [OF inv] cq_nelem_ok [OF inv]
    by (auto simp: cq_init_def kmemset_def cq_empty_def cq_pop_def Let_def unat_eq_zero)
  ultimately show ?thesis using inv by (simp add: cq_ok_def)
qed

section \<open>Queues of words\<close>

text \<open>A queue that holds 64-bit objects only: \<open>cq_push64\<close> and \<open>cq_pop64\<close> make it a bounded queue of words.\<close>

function words8 :: "u8 list \<Rightarrow> u64 list" where
  "words8 bs = (if bs = [] then [] else host_word (take 8 bs) # words8 (drop 8 bs))"
  by pat_completeness auto
termination by (relation "measure length") auto

declare words8.simps [simp del]

lemma words8_Nil [simp]: "words8 [] = []"
  by (subst words8.simps) simp

lemma words8_append: "length bs mod 8 = 0 \<Longrightarrow> words8 (bs @ host_bytes (w :: u64)) = words8 bs @ [w]"
proof (induction bs rule: words8.induct)
  case (1 bs)
  show ?case
  proof (cases "bs = []")
    case True
    moreover have "length (host_bytes w) = 8" by simp
    moreover from this have "host_bytes w \<noteq> []" by fastforce
    ultimately show ?thesis by (subst words8.simps) simp
  next
    case False
    have "8 \<le> length bs" using 1(2) False by (cases "length bs < 8") auto
    moreover have "length (drop 8 bs) mod 8 = 0" using 1(2) calculation by (simp add: le_mod_geq)
    ultimately show ?thesis
      using 1(1) [OF False] False by (subst (1 2) words8.simps) simp
  qed
qed

lemma length_words8: "length bs mod 8 = 0 \<Longrightarrow> length (words8 bs) = length bs div 8"
proof (induction bs rule: words8.induct)
  case (1 bs)
  show ?case
  proof (cases "bs = []")
    case False
    have "8 \<le> length bs" using 1(2) False by (cases "length bs < 8") auto
    moreover have "length (drop 8 bs) mod 8 = 0" using 1(2) calculation by (simp add: le_mod_geq)
    ultimately show ?thesis using 1(1) [OF False] False by (subst words8.simps) (simp add: le_div_geq)
  qed simp
qed

definition cq64_inv :: "'n::len word \<Rightarrow> cq_t \<Rightarrow> bool" where
  "cq64_inv N cq \<longleftrightarrow> cq_inv N cq \<and> cq_len N cq mod 8 = 0"

definition cq64_list :: "'n::len word \<Rightarrow> cq_t \<Rightarrow> u64 list" where
  "cq64_list N cq = words8 (cq_list N cq)"

lemma block_room:
  fixes a m :: nat
  assumes "a mod 8 = 0"
  shows "a + 8 \<le> m \<longleftrightarrow> a div 8 < m div 8"
proof -
  have "a = 8 * (a div 8)" using assms by (metis add.right_neutral mult_div_mod_eq)
  moreover have "8 * k + 8 \<le> m \<longleftrightarrow> k < m div 8" for k by linarith
  ultimately show ?thesis by metis
qed

lemma cq_push64_ok:
  assumes "cq64_inv N cq"
  shows "\<exists>cq'. cq_push64 N cq x = Some (cq', length (cq64_list N cq) < (unat N - 1) div 8) \<and> cq64_inv N cq' \<and>
    cq64_list N cq' = (if length (cq64_list N cq) < (unat N - 1) div 8 then cq64_list N cq @ [x] else cq64_list N cq)"
proof -
  have inv: "cq_inv N cq" "length (cq_list N cq) mod 8 = 0" using assms by (auto simp: cq64_inv_def)
  have len: "length (cq64_list N cq) = cq_len N cq div 8" using length_words8 [OF inv(2)] by (simp add: cq64_list_def)
  have "cq_len N cq mod 8 = 0" using inv(2) by simp
  then have room: "cq_len N cq + 8 \<le> unat N - 1 \<longleftrightarrow> cq_len N cq div 8 < (unat N - 1) div 8"
    by (rule block_room)
  obtain cq' where cq': "cq_push_n N cq (host_bytes x) 8 = Some (cq', cq_len N cq div 8 < (unat N - 1) div 8)" "cq_inv N cq'"
    "cq_list N cq' = (if cq_len N cq div 8 < (unat N - 1) div 8 then cq_list N cq @ host_bytes x else cq_list N cq)"
    using cq_push_n_ok [OF inv(1), of 8 "host_bytes x"] room by auto
  have "length (cq_list N cq') mod 8 = 0" unfolding cq'(3) using inv(2) by (simp add: mod_add_right_eq)
  moreover have "cq64_list N cq' = (if cq_len N cq div 8 < (unat N - 1) div 8 then cq64_list N cq @ [x] else cq64_list N cq)"
    using cq'(3) words8_append [OF inv(2)] by (simp add: cq64_list_def)
  ultimately show ?thesis using cq'(1,2) unfolding len cq_push64_def cq64_inv_def by auto
qed

lemma cq_pop64_ok:
  assumes "cq64_inv N cq"
  shows "\<exists>cq'. cq_pop64 N cq d = Some (cq', if cq64_list N cq = [] then d else hd (cq64_list N cq), cq64_list N cq \<noteq> []) \<and>
    cq64_inv N cq' \<and> cq64_list N cq' = tl (cq64_list N cq)"
proof -
  have inv: "cq_inv N cq" "cq_len N cq mod 8 = 0" using assms by (auto simp: cq64_inv_def)
  have empty: "cq64_list N cq = [] \<longleftrightarrow> cq_list N cq = []" unfolding cq64_list_def by (subst words8.simps) simp
  have full: "8 \<le> cq_len N cq \<longleftrightarrow> cq_list N cq \<noteq> []"
    using inv(2) length_cq_list [of N cq] by (metis length_0_conv mod_less not_less zero_less_numeral length_greater_0_conv leD)
  obtain cq' where cq': "cq_pop_n N cq (host_bytes d) 8 = Some (cq',
      (if 8 \<le> cq_len N cq then take 8 (cq_list N cq) @ drop 8 (host_bytes d) else host_bytes d), 8 \<le> cq_len N cq)"
    "cq_inv N cq'" "cq_list N cq' = (if 8 \<le> cq_len N cq then drop 8 (cq_list N cq) else cq_list N cq)"
    using cq_pop_n_ok [OF inv(1), of 8 "host_bytes d"] by auto
  have "length (cq_list N cq') mod 8 = 0" unfolding cq'(3) using inv(2) le_mod_geq [of 8 "cq_len N cq"] by simp
  then have inv': "cq64_inv N cq'" using cq'(2) by (simp add: cq64_inv_def)
  show ?thesis
  proof (cases "cq_list N cq = []")
    case True
    then show ?thesis using cq' inv' empty full by (auto simp: cq_pop64_def cq64_list_def)
  next
    case False
    then have "cq64_list N cq = host_word (take 8 (cq_list N cq)) # cq64_list N cq'"
      using cq'(3) full unfolding cq64_list_def by (subst words8.simps) simp
    with False cq' inv' full show ?thesis by (auto simp: cq_pop64_def)
  qed
qed

interpretation cq64: bounded_fifo "cq64_inv N" "cq64_list N" "(unat N - 1) div 8" "cq_push64 N" "cq_pop64 N"
  for N :: "'n::len word"
  by unfold_locales (rule cq_push64_ok, assumption, rule cq_pop64_ok, assumption)

end
