(* ===== verification/Cqueue_Tests.thy ===== *)
theory Cqueue_Tests
  imports Cqueue_Correct
begin

text \<open>
  The test program \<open>ds-lib/cqueue-test.c\<close>, with \<open>N\<close> for \<open>CQ_N\<close>.  The counters \<open>test_run\<close> and
  \<open>test_passed\<close> are a pair; \<open>calloc\<close> returns zeroed memory; a failed \<open>assert\<close> is \<^const>\<open>None\<close>; the
  variables that a test passes uninitialised to a pop have an arbitrary value \<open>d\<close>; \<open>rand\<close> is the
  sequence of values that the random generator returns.  The output is left out.
\<close>

section \<open>Model\<close>

definition CHECK :: "bool \<Rightarrow> nat \<times> nat \<Rightarrow> nat \<times> nat" where
  "CHECK cond st = (fst st + 1, if cond then snd st + 1 else snd st)"

definition make_queue :: "'n::len word \<Rightarrow> cq_t option" where
  "make_queue N = do {
     (cq, rc) \<leftarrow> cq_init N \<lparr>c_buf = replicate (unat N) 0, fence = 0, head = 0, tail = 0\<rparr>;
     if rc then Some cq else None
   }"

definition test_init :: "'n::len word \<Rightarrow> nat \<times> nat \<Rightarrow> (nat \<times> nat) option" where
  "test_init N st = do {
     cq \<leftarrow> make_queue N;
     let st = CHECK (cq_ok cq) st;
     let st = CHECK (cq_empty cq) st;
     let st = CHECK (\<not> cq_full N cq) st;
     let st = CHECK (cq_nelem N cq = 0) st;
     let st = CHECK (ucast (cq_nspace N cq) = N - 1) st;
     Some st
   }"

definition test_push_pop_single :: "'n::len word \<Rightarrow> nat \<times> nat \<Rightarrow> (nat \<times> nat) option" where
  "test_push_pop_single N st = do {
     cq \<leftarrow> make_queue N;
     let val = 0xAB;
     (cq, rc) \<leftarrow> cq_push N cq val;
     let st = CHECK rc st;
     let st = CHECK (cq_nelem N cq = 1) st;
     let st = CHECK (\<not> cq_empty cq) st;
     (cq, out, rc) \<leftarrow> cq_pop N cq 0;
     let st = CHECK rc st;
     let st = CHECK (out = val) st;
     let st = CHECK (cq_empty cq) st;
     Some st
   }"

text \<open>A loop of pushes that ignores the results, over the values pushed.\<close>

fun push_loop :: "'n::len word \<Rightarrow> cq_t \<Rightarrow> u8 list \<Rightarrow> cq_t option" where
  "push_loop N cq [] = Some cq"
| "push_loop N cq (v # vs) = do {
     (cq, rc) \<leftarrow> cq_push N cq v;
     push_loop N cq vs
   }"

text \<open>A loop of pushes that stops at the first failure.\<close>

fun push_check :: "'n::len word \<Rightarrow> cq_t \<Rightarrow> u8 list \<Rightarrow> (cq_t \<times> bool) option" where
  "push_check N cq [] = Some (cq, True)"
| "push_check N cq (v # vs) = do {
     (cq, rc) \<leftarrow> cq_push N cq v;
     if \<not> rc then Some (cq, False) else push_check N cq vs
   }"

text \<open>A loop of pops that stops at the first value that is not the expected one.\<close>

fun pop_check :: "'n::len word \<Rightarrow> cq_t \<Rightarrow> u8 \<Rightarrow> u8 list \<Rightarrow> (cq_t \<times> bool) option" where
  "pop_check N cq d [] = Some (cq, True)"
| "pop_check N cq d (v # vs) = do {
     (cq, out, rc) \<leftarrow> cq_pop N cq d;
     if out \<noteq> v then Some (cq, False) else pop_check N cq d vs
   }"

fun pop_loop :: "'n::len word \<Rightarrow> cq_t \<Rightarrow> u8 \<Rightarrow> nat \<Rightarrow> cq_t option" where
  "pop_loop N cq d 0 = Some cq"
| "pop_loop N cq d (Suc k) = do {
     (cq, e, rc) \<leftarrow> cq_pop N cq d;
     pop_loop N cq d k
   }"

text \<open>The values \<open>(cqe_t)(i & 0xFF)\<close> for \<open>i < n\<close>.\<close>

definition low_bytes :: "nat \<Rightarrow> u8 list" where
  "low_bytes n = map (\<lambda>i. ucast ((of_nat i :: u32) AND 0xFF)) [0..<n]"

definition test_fifo_order :: "'n::len word \<Rightarrow> u8 \<Rightarrow> nat \<times> nat \<Rightarrow> (nat \<times> nat) option" where
  "test_fifo_order N d st = do {
     cq \<leftarrow> make_queue N;
     let n = unat (N - 1);
     cq \<leftarrow> push_loop N cq (low_bytes n);
     let st = CHECK (cq_full N cq) st;
     (cq, order_ok) \<leftarrow> pop_check N cq d (low_bytes n);
     let st = CHECK order_ok st;
     let st = CHECK (cq_empty cq) st;
     Some st
   }"

text \<open>\<open>while (!cq_full(cq)) cq_push(cq, 0xAA)\<close>.\<close>

partial_function (option) fill :: "'n::len word \<Rightarrow> cq_t \<Rightarrow> cq_t option" where
  "fill N cq =
     (if cq_full N cq then Some cq
      else do {
        (cq, rc) \<leftarrow> cq_push N cq 0xAA;
        fill N cq
      })"

definition test_boundary_failures :: "'n::len word \<Rightarrow> nat \<times> nat \<Rightarrow> (nat \<times> nat) option" where
  "test_boundary_failures N st = do {
     cq \<leftarrow> make_queue N;
     (cq, e, rc) \<leftarrow> cq_pop N cq 0x55;
     let st = CHECK (\<not> rc) st;
     let st = CHECK (e = 0x55) st;
     cq \<leftarrow> fill N cq;
     (cq, rc) \<leftarrow> cq_push N cq 0xBB;
     let st = CHECK (\<not> rc) st;
     let st = CHECK (ucast (cq_nelem N cq) = N - 1) st;
     Some st
   }"

definition test_peek :: "'n::len word \<Rightarrow> u8 \<Rightarrow> nat \<times> nat \<Rightarrow> (nat \<times> nat) option" where
  "test_peek N d st = do {
     cq \<leftarrow> make_queue N;
     cq \<leftarrow> push_loop N cq [0x11, 0x22];
     (p, rc) \<leftarrow> cq_peek cq 0;
     let st = CHECK rc st;
     let st = CHECK (p = 0x11) st;
     let st = CHECK (cq_nelem N cq = 2) st;
     (cq, out, rc) \<leftarrow> cq_pop N cq d;
     let st = CHECK (out = 0x11) st;
     Some st
   }"

definition test_push_pop_n :: "'n::len word \<Rightarrow> nat \<times> nat \<Rightarrow> (nat \<times> nat) option" where
  "test_push_pop_n N st = do {
     cq \<leftarrow> make_queue N;
     let src = [1, 2, 3, 4, 5, 6, 7, 8];
     let n = (if 8 > (ucast (N - 1) :: u32) then ucast (N - 1) else 8);
     (cq, rc) \<leftarrow> cq_push_n N cq src n;
     let st = CHECK rc st;
     let st = CHECK (cq_nelem N cq = n) st;
     (cq, dst, rc) \<leftarrow> cq_pop_n N cq (replicate 8 0) n;
     let st = CHECK rc st;
     c \<leftarrow> kmemcmp src dst (unat n);
     let st = CHECK (c = 0) st;
     let st = CHECK (cq_empty cq) st;
     (cq, rc) \<leftarrow> cq_push_n N cq src 0;
     let st = CHECK (\<not> rc) st;
     (cq, dst, rc) \<leftarrow> cq_pop_n N cq dst 1;
     let st = CHECK (\<not> rc) st;
     Some st
   }"

definition test_peek_n :: "'n::len word \<Rightarrow> u8 \<Rightarrow> nat \<times> nat \<Rightarrow> (nat \<times> nat) option" where
  "test_peek_n N d st = do {
     cq \<leftarrow> make_queue N;
     let src = [10, 20, 30, 40];
     (cq, rc) \<leftarrow> cq_push_n N cq src 4;
     (cq, peeked, rc) \<leftarrow> cq_peek_n N cq (replicate 4 0) 4;
     let st = CHECK rc st;
     c \<leftarrow> kmemcmp src peeked 4;
     let st = CHECK (c = 0) st;
     let st = CHECK (cq_nelem N cq = 4) st;
     (cq, tmp, rc) \<leftarrow> cq_peek_n N cq (replicate 8 d) 8;
     let st = CHECK (\<not> rc) st;
     Some st
   }"

definition test_wraparound :: "'n::len word \<Rightarrow> u8 \<Rightarrow> nat \<times> nat \<Rightarrow> (nat \<times> nat) option" where
  "test_wraparound N d st = do {
     cq \<leftarrow> make_queue N;
     let half = unat ((N - 1) div 2);
     cq \<leftarrow> push_loop N cq (map of_nat [0..<half]);
     cq \<leftarrow> pop_loop N cq d half;
     let n = unat (N - 1);
     (cq, ok) \<leftarrow> push_check N cq (low_bytes n);
     let st = CHECK ok st;
     (cq, ok) \<leftarrow> pop_check N cq d (low_bytes n);
     let st = CHECK ok st;
     let st = CHECK (cq_empty cq) st;
     Some st
   }"

definition test_push_pop32 :: "'n::len word \<Rightarrow> nat \<times> nat \<Rightarrow> (nat \<times> nat) option" where
  "test_push_pop32 N st = do {
     cq \<leftarrow> make_queue N;
     let x = 0xDEADBEEF;
     (cq, rc) \<leftarrow> cq_push32 N cq x;
     let st = CHECK rc st;
     let st = CHECK (cq_nelem N cq = 4) st;
     (cq, y, rc) \<leftarrow> cq_pop32 N cq 0;
     let st = CHECK rc st;
     let st = CHECK (y = x) st;
     let st = CHECK (cq_empty cq) st;
     Some st
   }"

definition test_push_pop_type :: "'n::len word \<Rightarrow> nat \<times> nat \<Rightarrow> (nat \<times> nat) option" where
  "test_push_pop_type N st = do {
     cq \<leftarrow> make_queue N;
     let x = (0xDEADBEEFDEADBEEF :: u64);
     (cq, rc) \<leftarrow> cq_push_type N cq x;
     let st = CHECK rc st;
     let st = CHECK (cq_nelem N cq = 8) st;
     (cq, y, rc) \<leftarrow> cq_pop_type N cq (0 :: u64);
     let st = CHECK rc st;
     let st = CHECK (y = x) st;
     let st = CHECK (cq_empty cq) st;
     Some st
   }"

text \<open>
  The loop of \<open>test_random_stress\<close>: \<open>k\<close> values of the generator have been used, the last argument is
  the number of rounds left, and the result is \<open>mismatch\<close>.
\<close>

record shadow_queue =
  shadow :: "u8 list"
  s_head :: u32
  s_tail :: u32
  s_n :: u32

fun stress_loop :: "'n::len word \<Rightarrow> (nat \<Rightarrow> u32) \<Rightarrow> u8 \<Rightarrow> nat \<Rightarrow> cq_t \<Rightarrow> shadow_queue \<Rightarrow> nat \<Rightarrow> bool option" where
  "stress_loop N rand d k cq s 0 = Some False"
| "stress_loop N rand d k cq s (Suc ops) = (
     let push = rand k AND 1 \<noteq> 0;
         capacity = ucast (N - 1)
     in if push \<and> s_n s < capacity then do {
          let v = ucast (rand (k + 1) AND 0xFF);
          sh \<leftarrow> wr (shadow s) (unat (s_head s mod 4096)) v;
          let s = s\<lparr>shadow := sh, s_head := s_head s + 1, s_n := s_n s + 1\<rparr>;
          (cq, rc) \<leftarrow> cq_push N cq v;
          if \<not> rc then Some True
          else if cq_nelem N cq \<noteq> s_n s then Some True
          else stress_loop N rand d (k + 2) cq s ops
        }
        else if \<not> push \<and> s_n s > 0 then do {
          expected \<leftarrow> rd (shadow s) (unat (s_tail s mod 4096));
          let s = s\<lparr>s_tail := s_tail s + 1, s_n := s_n s - 1\<rparr>;
          (cq, got, rc) \<leftarrow> cq_pop N cq d;
          if \<not> rc \<or> got \<noteq> expected then Some True
          else if cq_nelem N cq \<noteq> s_n s then Some True
          else stress_loop N rand d (k + 1) cq s ops
        }
        else if cq_nelem N cq \<noteq> s_n s then Some True
        else stress_loop N rand d (k + 1) cq s ops)"

definition test_random_stress :: "'n::len word \<Rightarrow> (nat \<Rightarrow> u32) \<Rightarrow> u8 \<Rightarrow> nat \<times> nat \<Rightarrow> (nat \<times> nat) option" where
  "test_random_stress N rand d st = do {
     cq \<leftarrow> make_queue N;
     mismatch \<leftarrow> stress_loop N rand d 0 cq \<lparr>shadow = replicate 4096 d, s_head = 0, s_tail = 0, s_n = 0\<rparr> 100000;
     Some (CHECK (\<not> mismatch) st)
   }"

text \<open>\<open>main\<close>; the result is the exit status.\<close>

definition cqueue_test_main :: "'n::len word \<Rightarrow> (nat \<Rightarrow> u32) \<Rightarrow> u8 \<Rightarrow> int option" where
  "cqueue_test_main N rand d = do {
     st \<leftarrow> test_init N (0, 0);
     st \<leftarrow> test_push_pop_single N st;
     st \<leftarrow> test_fifo_order N d st;
     st \<leftarrow> test_boundary_failures N st;
     st \<leftarrow> test_peek N d st;
     st \<leftarrow> test_push_pop_n N st;
     st \<leftarrow> test_peek_n N d st;
     st \<leftarrow> test_wraparound N d st;
     st \<leftarrow> test_push_pop32 N st;
     st \<leftarrow> test_push_pop_type N st;
     st \<leftarrow> test_random_stress N rand d st;
     Some (if snd st = fst st then 0 else 1)
   }"

section \<open>The tests pass\<close>

definition cq_size_ok :: "'n::len word \<Rightarrow> bool" where
  "cq_size_ok N \<longleftrightarrow> 32 \<le> LENGTH('n) \<and> 9 \<le> unat N \<and> unat N < 2 ^ 32 \<and> unat N dvd 2 ^ 32"

lemma CHECK_True [simp]: "CHECK True st = (fst st + 1, snd st + 1)"
  by (simp add: CHECK_def)

lemma make_queue_ok:
  assumes "cq_size_ok N"
  obtains cq where "make_queue N = Some cq" and "cq_inv N cq" and "cq_list N cq = []" and "cq_ok cq"
  using cq_init_ok [of N "\<lparr>c_buf = replicate (unat N) 0, fence = 0, head = 0, tail = 0\<rparr>"] assms
  by (auto simp: cq_size_ok_def make_queue_def)

lemma cq_push_room:
  assumes "cq_inv N cq" and "length (cq_list N cq) < unat N - 1"
  obtains cq' where "cq_push N cq x = Some (cq', True)" and "cq_inv N cq'" and "cq_list N cq' = cq_list N cq @ [x]"
  using cq_push_ok [OF assms(1), of x] assms(2) by auto

lemma cq_pop_some:
  assumes "cq_inv N cq" and "cq_list N cq = x # xs"
  obtains cq' where "cq_pop N cq d = Some (cq', x, True)" and "cq_inv N cq'" and "cq_list N cq' = xs"
  using cq_pop_ok [OF assms(1), of d] assms(2) by auto

lemma nelem_list: "cq_inv N cq \<Longrightarrow> unat (cq_nelem N cq) = length (cq_list N cq)"
  by (simp add: cq_nelem_ok)

lemma nelem_ucast:
  fixes N :: "'n::len word"
  assumes "cq_inv N cq"
  shows "ucast (cq_nelem N cq) = N - 1 \<longleftrightarrow> length (cq_list N cq) = unat N - 1"
proof -
  have "N \<noteq> 0" "32 \<le> LENGTH('n)" using assms by (auto simp: cq_inv_def)
  then show ?thesis
    using nelem_list [OF assms] by (simp add: word_unat_eq_iff unat_ucast_up unat_minus_one)
qed

lemma test_init_passes:
  assumes "cq_size_ok N"
  shows "test_init N st = Some (fst st + 5, snd st + 5)"
proof -
  obtain cq where cq: "make_queue N = Some cq" "cq_inv N cq" "cq_list N cq = []" "cq_ok cq"
    by (rule make_queue_ok [OF assms])
  have len: "cq_len N cq = 0" using length_cq_list [of N cq] unfolding cq(3) by simp
  have N: "N \<noteq> 0" "32 \<le> LENGTH('a)" using assms by (auto simp: cq_size_ok_def)
  have "ucast (cq_nspace N cq) = N - 1"
    using N len cq_nspace_ok [OF cq(2)] by (simp add: word_unat_eq_iff unat_ucast_up unat_minus_one)
  then show ?thesis
    using cq cq_empty_ok [OF cq(2)] cq_full_ok [OF cq(2)] cq_nelem_ok [OF cq(2)] len assms
    by (auto simp: test_init_def Let_def unat_eq_zero cq_size_ok_def)
qed

lemma test_push_pop_single_passes:
  assumes "cq_size_ok N"
  shows "test_push_pop_single N st = Some (fst st + 6, snd st + 6)"
proof -
  obtain cq where cq: "make_queue N = Some cq" "cq_inv N cq" "cq_list N cq = []"
    by (rule make_queue_ok [OF assms])
  have room: "length (cq_list N cq) < unat N - 1" using assms unfolding cq(3) by (auto simp: cq_size_ok_def)
  obtain cq1 where cq1: "cq_push N cq 0xAB = Some (cq1, True)" "cq_inv N cq1" "cq_list N cq1 = [0xAB]"
    by (rule cq_push_room [OF cq(2) room, of "0xAB"]) (use cq(3) in simp)
  obtain cq2 where cq2: "cq_pop N cq1 0 = Some (cq2, 0xAB, True)" "cq_inv N cq2" "cq_list N cq2 = []"
    by (rule cq_pop_some [OF cq1(2,3)])
  have "cq_nelem N cq1 = 1" using nelem_list [OF cq1(2)] by (simp add: word_unat_eq_iff cq1(3) del: length_cq_list)
  then show ?thesis
    using cq(1) cq1 cq2 cq_empty_ok [OF cq1(2)] cq_empty_ok [OF cq2(2)]
    by (simp add: test_push_pop_single_def Let_def)
qed

lemma push_loop_ok:
  assumes "cq_inv N cq" and "length (cq_list N cq) + length vs \<le> unat N - 1"
  shows "\<exists>cq'. push_loop N cq vs = Some cq' \<and> push_check N cq vs = Some (cq', True) \<and> cq_inv N cq' \<and>
    cq_list N cq' = cq_list N cq @ vs"
  using assms
proof (induction vs arbitrary: cq)
  case Nil
  then show ?case by simp
next
  case (Cons v vs)
  have room: "length (cq_list N cq) < unat N - 1" using Cons.prems(2) by simp
  obtain cq1 where cq1: "cq_push N cq v = Some (cq1, True)" "cq_inv N cq1" "cq_list N cq1 = cq_list N cq @ [v]"
    by (rule cq_push_room [OF Cons.prems(1) room])
  have "length (cq_list N cq1) + length vs \<le> unat N - 1" using Cons.prems(2) unfolding cq1(3) by simp
  from Cons.IH [OF cq1(2) this] cq1 show ?case by auto
qed

lemma pop_check_ok:
  assumes "cq_inv N cq" and "cq_list N cq = vs @ ws"
  shows "\<exists>cq'. pop_check N cq d vs = Some (cq', True) \<and> pop_loop N cq d (length vs) = Some cq' \<and> cq_inv N cq' \<and>
    cq_list N cq' = ws"
  using assms
proof (induction vs arbitrary: cq)
  case Nil
  then show ?case by simp
next
  case (Cons v vs)
  obtain cq1 where cq1: "cq_pop N cq d = Some (cq1, v, True)" "cq_inv N cq1" "cq_list N cq1 = vs @ ws"
    by (rule cq_pop_some [OF Cons.prems(1), of v "vs @ ws"]) (use Cons.prems(2) in simp_all)
  with Cons.IH [OF cq1(2,3)] show ?case by auto
qed

lemma length_low_bytes [simp]: "length (low_bytes n) = n"
  by (simp add: low_bytes_def)

lemma cq_full_list: "cq_inv N cq \<Longrightarrow> cq_full N cq \<longleftrightarrow> length (cq_list N cq) = unat N - 1"
  by (simp add: cq_full_ok)

lemma test_fifo_order_passes:
  assumes "cq_size_ok N"
  shows "test_fifo_order N d st = Some (fst st + 3, snd st + 3)"
proof -
  obtain cq where cq: "make_queue N = Some cq" "cq_inv N cq" "cq_list N cq = []"
    by (rule make_queue_ok [OF assms])
  have "N \<noteq> 0" using assms by (auto simp: cq_size_ok_def)
  then have n: "unat (N - 1) = unat N - 1" by (rule unat_minus_one)
  obtain cq1 where cq1: "push_loop N cq (low_bytes (unat N - 1)) = Some cq1" "cq_inv N cq1"
    "cq_list N cq1 = low_bytes (unat N - 1)"
    using push_loop_ok [OF cq(2), of "low_bytes (unat N - 1)"] unfolding cq(3) by auto
  obtain cq2 where cq2: "pop_check N cq1 d (low_bytes (unat N - 1)) = Some (cq2, True)" "cq_inv N cq2" "cq_list N cq2 = []"
    using pop_check_ok [OF cq1(2), of "low_bytes (unat N - 1)" "[]"] cq1(3) by auto
  have "cq_full N cq1" using cq_full_list [OF cq1(2)] unfolding cq1(3) by simp
  then show ?thesis
    using cq(1) cq1(1) cq2 cq_empty_ok [OF cq2(2)] by (simp add: test_fifo_order_def n Let_def)
qed

lemma fill_ok:
  assumes "cq_inv N cq"
  shows "\<exists>cq'. fill N cq = Some cq' \<and> cq_inv N cq' \<and> length (cq_list N cq') = unat N - 1"
  using assms
proof (induction "unat N - 1 - length (cq_list N cq)" arbitrary: cq rule: less_induct)
  case less
  have len: "length (cq_list N cq) < unat N"
    using less.prems ring_len_less by (auto simp: cq_inv_def cq_len_def)
  show ?case
  proof (cases "cq_full N cq")
    case True
    then show ?thesis using less.prems cq_full_list [OF less.prems] by (subst fill.simps) simp
  next
    case False
    then have room: "length (cq_list N cq) < unat N - 1" using cq_full_list [OF less.prems] len by simp
    obtain cq1 where cq1: "cq_push N cq 0xAA = Some (cq1, True)" "cq_inv N cq1" "cq_list N cq1 = cq_list N cq @ [0xAA]"
      by (rule cq_push_room [OF less.prems room])
    have "unat N - 1 - length (cq_list N cq1) < unat N - 1 - length (cq_list N cq)" using room unfolding cq1(3) by simp
    from less.hyps [OF this cq1(2)] cq1(1) False show ?thesis by (subst fill.simps) simp
  qed
qed

lemma test_boundary_failures_passes:
  assumes "cq_size_ok N"
  shows "test_boundary_failures N st = Some (fst st + 4, snd st + 4)"
proof -
  obtain cq where cq: "make_queue N = Some cq" "cq_inv N cq" "cq_list N cq = []"
    by (rule make_queue_ok [OF assms])
  obtain cq1 where cq1: "cq_pop N cq 0x55 = Some (cq1, 0x55, False)" "cq_inv N cq1"
    using cq_pop_ok [OF cq(2), of "0x55"] cq(3) by auto
  obtain cq2 where cq2: "fill N cq1 = Some cq2" "cq_inv N cq2" "length (cq_list N cq2) = unat N - 1"
    using fill_ok [OF cq1(2)] by blast
  obtain cq3 where cq3: "cq_push N cq2 0xBB = Some (cq3, False)" "cq_inv N cq3" "cq_list N cq3 = cq_list N cq2"
    using cq_push_ok [OF cq2(2), of "0xBB"] cq2(3) by auto
  have "ucast (cq_nelem N cq3) = N - 1" using nelem_ucast [OF cq3(2)] cq2(3) unfolding cq3(3) by simp
  then show ?thesis using cq(1) cq1(1) cq2(1) cq3(1) by (simp add: test_boundary_failures_def Let_def)
qed

lemma test_peek_passes:
  assumes "cq_size_ok N"
  shows "test_peek N d st = Some (fst st + 4, snd st + 4)"
proof -
  obtain cq where cq: "make_queue N = Some cq" "cq_inv N cq" "cq_list N cq = []"
    by (rule make_queue_ok [OF assms])
  have "length (cq_list N cq) + length [0x11, 0x22 :: u8] \<le> unat N - 1"
    using assms unfolding cq(3) by (auto simp: cq_size_ok_def)
  then obtain cq1 where cq1: "push_loop N cq [0x11, 0x22] = Some cq1" "cq_inv N cq1" "cq_list N cq1 = [0x11, 0x22]"
    using push_loop_ok [OF cq(2), of "[0x11, 0x22]"] unfolding cq(3) append_Nil by blast
  obtain cq2 where cq2: "cq_pop N cq1 d = Some (cq2, 0x11, True)"
    by (rule cq_pop_some [OF cq1(2,3)])
  have "cq_nelem N cq1 = 2" using nelem_list [OF cq1(2)] by (simp add: word_unat_eq_iff cq1(3) del: length_cq_list)
  then show ?thesis
    using cq(1) cq1 cq2 cq_peek_ok [OF cq1(2), of 0] by (simp add: test_peek_def Let_def del: push_loop.simps)
qed

lemma test_push_pop_n_passes:
  assumes "cq_size_ok N"
  shows "test_push_pop_n N st = Some (fst st + 7, snd st + 7)"
proof -
  let ?src = "[1, 2, 3, 4, 5, 6, 7, 8] :: u8 list"
  obtain cq where cq: "make_queue N = Some cq" "cq_inv N cq" "cq_list N cq = []"
    by (rule make_queue_ok [OF assms])
  have N: "9 \<le> unat N" "unat N < 2 ^ 32" using assms by (auto simp: cq_size_ok_def)
  then have "N \<noteq> 0" by auto
  then have "unat (ucast (N - 1) :: u32) = unat N - 1" using N(2) by (simp add: unat_ucast_small unat_minus_one)
  then have n: "(if 8 > (ucast (N - 1) :: u32) then ucast (N - 1) else 8) = (8 :: u32)"
    using N(1) by (auto simp: word_less_nat_alt word_unat_eq_iff)
  obtain cq1 where cq1: "cq_push_n N cq ?src 8 = Some (cq1, True)" "cq_inv N cq1" "cq_list N cq1 = ?src"
    using cq_push_n_ok [OF cq(2), of 8 ?src] N(1) cq(3) length_cq_list [of N cq] by auto
  have len1: "cq_len N cq1 = 8" using length_cq_list [of N cq1] unfolding cq1(3) by simp
  obtain cq2 where cq2: "cq_pop_n N cq1 (replicate 8 0) 8 = Some (cq2, ?src, True)" "cq_inv N cq2" "cq_list N cq2 = []"
    using cq_pop_n_ok [OF cq1(2), of 8 "replicate 8 0"] len1 cq1(3) by auto
  have len2: "cq_len N cq2 = 0" using length_cq_list [of N cq2] unfolding cq2(3) by simp
  obtain cq3 where cq3: "cq_push_n N cq2 ?src 0 = Some (cq3, False)" "cq_inv N cq3" "cq_list N cq3 = []"
    using cq_push_n_ok [OF cq2(2), of 0 ?src] cq2(3) by auto
  have len3: "cq_len N cq3 = 0" using length_cq_list [of N cq3] unfolding cq3(3) by simp
  obtain cq4 where cq4: "cq_pop_n N cq3 ?src 1 = Some (cq4, ?src, False)"
    using cq_pop_n_ok [OF cq3(2), of 1 ?src] len3 by auto
  have "cq_nelem N cq1 = 8" using cq_nelem_ok [OF cq1(2)] len1 by (simp add: word_unat_eq_iff)
  then show ?thesis
    unfolding test_push_pop_n_def Let_def n
    using cq(1) cq1(1) cq2(1) cq3(1) cq4 cq_empty_ok [OF cq2(2)] cq2(3) kmemcmp_eq_0_iff [of 8 ?src ?src] by simp
qed

lemma test_peek_n_passes:
  assumes "cq_size_ok N"
  shows "test_peek_n N d st = Some (fst st + 4, snd st + 4)"
proof -
  let ?src = "[10, 20, 30, 40] :: u8 list"
  obtain cq where cq: "make_queue N = Some cq" "cq_inv N cq" "cq_list N cq = []"
    by (rule make_queue_ok [OF assms])
  have N: "9 \<le> unat N" using assms by (auto simp: cq_size_ok_def)
  obtain cq1 where cq1: "cq_push_n N cq ?src 4 = Some (cq1, True)" "cq_inv N cq1" "cq_list N cq1 = ?src"
    using cq_push_n_ok [OF cq(2), of 4 ?src] N cq(3) length_cq_list [of N cq] by auto
  have len: "cq_len N cq1 = 4" using length_cq_list [of N cq1] unfolding cq1(3) by simp
  have p: "cq_peek_n N cq1 (replicate 4 0) 4 = Some (cq1, ?src, True)"
    "cq_peek_n N cq1 (replicate 8 d) 8 = Some (cq1, replicate 8 d, False)"
    using cq_peek_n_ok [OF cq1(2), of 4 "replicate 4 0"] cq_peek_n_ok [OF cq1(2), of 8 "replicate 8 d"] len cq1(3) by auto
  have "cq_nelem N cq1 = 4" using cq_nelem_ok [OF cq1(2)] len by (simp add: word_unat_eq_iff)
  then show ?thesis
    using cq(1) cq1(1) p kmemcmp_eq_0_iff [of 4 ?src ?src] by (simp add: test_peek_n_def Let_def)
qed

lemma test_wraparound_passes:
  assumes "cq_size_ok N"
  shows "test_wraparound N d st = Some (fst st + 3, snd st + 3)"
proof -
  obtain cq where cq: "make_queue N = Some cq" "cq_inv N cq" "cq_list N cq = []"
    by (rule make_queue_ok [OF assms])
  have "N \<noteq> 0" using assms by (auto simp: cq_size_ok_def)
  then have n: "unat (N - 1) = unat N - 1" by (rule unat_minus_one)
  then have half: "unat ((N - 1) div 2) \<le> unat N - 1" by (simp add: unat_div)
  define h where "h = unat ((N - 1) div 2)"
  obtain cq1 where cq1: "push_loop N cq (map of_nat [0..<h]) = Some cq1" "cq_inv N cq1" "cq_list N cq1 = map of_nat [0..<h]"
    using push_loop_ok [OF cq(2), of "map of_nat [0..<h]"] half unfolding cq(3) h_def by auto
  obtain cq2 where cq2: "pop_loop N cq1 d h = Some cq2" "cq_inv N cq2" "cq_list N cq2 = []"
    using pop_check_ok [OF cq1(2), of "map of_nat [0..<h]" "[]"] cq1(3) by auto
  obtain cq3 where cq3: "push_check N cq2 (low_bytes (unat N - 1)) = Some (cq3, True)" "cq_inv N cq3"
    "cq_list N cq3 = low_bytes (unat N - 1)"
    using push_loop_ok [OF cq2(2), of "low_bytes (unat N - 1)"] unfolding cq2(3) by auto
  obtain cq4 where cq4: "pop_check N cq3 d (low_bytes (unat N - 1)) = Some (cq4, True)" "cq_inv N cq4" "cq_list N cq4 = []"
    using pop_check_ok [OF cq3(2), of "low_bytes (unat N - 1)" "[]"] cq3(3) by auto
  show ?thesis
    using cq(1) cq1(1) cq2(1) cq3(1) cq4 cq_empty_ok [OF cq4(2)]
    by (simp add: test_wraparound_def n h_def [symmetric] Let_def)
qed

text \<open>A word that is pushed into an empty queue is popped unchanged.\<close>

lemma cq_word_roundtrip:
  fixes x d :: "'w::len word"
  assumes "cq_inv N cq" and "cq_list N cq = []" and "LENGTH('w) mod 8 = 0" and "unat n = LENGTH('w) div 8" and "0 < unat n"
    and "unat n < unat N"
  shows "\<exists>cq1 cq2. cq_push_n N cq (host_bytes x) n = Some (cq1, True) \<and> cq_inv N cq1 \<and> cq_nelem N cq1 = n \<and>
    cq_pop_n N cq1 (host_bytes d) n = Some (cq2, host_bytes x, True) \<and> cq_inv N cq2 \<and> cq_empty cq2"
proof -
  have len: "cq_len N cq = 0" using length_cq_list [of N cq] unfolding assms(2) by simp
  have "0 < n" using assms(5) by (simp add: word_less_nat_alt)
  then obtain cq1 where cq1: "cq_push_n N cq (host_bytes x) n = Some (cq1, True)" "cq_inv N cq1" "cq_list N cq1 = host_bytes x"
    using cq_push_n_ok [OF assms(1), of n "host_bytes x"] assms(2,4,6) len by auto
  have len1: "cq_len N cq1 = unat n" using length_cq_list [of N cq1] assms(4) unfolding cq1(3) by simp
  obtain cq2 where cq2: "cq_pop_n N cq1 (host_bytes d) n = Some (cq2, host_bytes x, True)" "cq_inv N cq2" "cq_list N cq2 = []"
    using cq_pop_n_ok [OF cq1(2), of n "host_bytes d"] len1 cq1(3) assms(4) by auto
  have "cq_nelem N cq1 = n" using cq_nelem_ok [OF cq1(2)] len1 by (simp add: word_unat_eq_iff)
  with cq1 cq2 cq_empty_ok [OF cq2(2)] show ?thesis by auto
qed

lemma test_push_pop32_passes:
  assumes "cq_size_ok N"
  shows "test_push_pop32 N st = Some (fst st + 5, snd st + 5)"
proof -
  obtain cq where cq: "make_queue N = Some cq" "cq_inv N cq" "cq_list N cq = []"
    by (rule make_queue_ok [OF assms])
  have "4 < unat N" using assms by (simp add: cq_size_ok_def)
  with cq_word_roundtrip [OF cq(2,3), of 4 "0xDEADBEEF :: u32" 0] cq(1) show ?thesis
    by (auto simp: test_push_pop32_def cq_push32_def cq_pop32_def Let_def)
qed

lemma test_push_pop_type_passes:
  assumes "cq_size_ok N"
  shows "test_push_pop_type N st = Some (fst st + 5, snd st + 5)"
proof -
  obtain cq where cq: "make_queue N = Some cq" "cq_inv N cq" "cq_list N cq = []"
    by (rule make_queue_ok [OF assms])
  have "8 < unat N" using assms by (simp add: cq_size_ok_def)
  with cq_word_roundtrip [OF cq(2,3), of 8 "0xDEADBEEFDEADBEEF :: u64" 0] cq(1) show ?thesis
    by (auto simp: test_push_pop_type_def cq_push_type_def cq_pop_type_def Let_def)
qed

text \<open>The queue holds what the shadow array holds between \<open>s_tail\<close> and \<open>s_head\<close>.\<close>

definition shadows :: "'n::len word \<Rightarrow> cq_t \<Rightarrow> shadow_queue \<Rightarrow> bool" where
  "shadows N cq s \<longleftrightarrow> cq_inv N cq \<and> length (shadow s) = 4096 \<and> s_head s = s_tail s + s_n s \<and>
     cq_list N cq = map (\<lambda>i. shadow s ! ((unat (s_tail s) + i) mod 4096)) [0..<unat (s_n s)]"

lemma unat_add_mod_4096: "unat (a + b) mod 4096 = (unat a + unat b) mod 4096" for a b :: u32
proof -
  have "(4096 :: nat) dvd 2 ^ 32" by simp
  then show ?thesis by (simp add: unat_word_ariths(1) mod_mod_cancel del: dvd_def)
qed

lemma unat_mod_4096: "unat (a mod 4096) = unat a mod 4096" for a :: u32
  by (simp add: unat_mod)

lemma shadows_nelem: "shadows N cq s \<Longrightarrow> cq_nelem N cq = s_n s"
  using nelem_list [of N cq] by (simp add: shadows_def word_unat_eq_iff del: length_cq_list)

lemma shadows_push:
  fixes N :: "'n::len word"
  assumes sh: "shadows N cq s" and size: "s_n s < 4096" and room: "s_n s < ucast (N - 1)"
  shows "\<exists>cq' sh. wr (shadow s) (unat (s_head s mod 4096)) v = Some sh \<and> cq_push N cq v = Some (cq', True) \<and>
    shadows N cq' (s\<lparr>shadow := sh, s_head := s_head s + 1, s_n := s_n s + 1\<rparr>)"
proof -
  have inv: "cq_inv N cq" and len: "length (shadow s) = 4096" and head: "s_head s = s_tail s + s_n s"
    and list: "cq_list N cq = map (\<lambda>i. shadow s ! ((unat (s_tail s) + i) mod 4096)) [0..<unat (s_n s)]"
    using sh by (auto simp: shadows_def)
  have "N \<noteq> 0" "unat N < 2 ^ 32" using inv by (auto simp: cq_inv_def)
  then have n: "unat (s_n s) < unat N - 1"
    using room by (simp add: word_less_nat_alt unat_ucast_small unat_minus_one)
  have small: "unat (s_n s) < 4096" using size by (simp add: word_less_nat_alt)
  then have suc: "unat (s_n s + 1) = unat (s_n s) + 1" by (intro unat_plus_one) simp
  have "length (cq_list N cq) < unat N - 1" using n unfolding list by simp
  then obtain cq' where cq': "cq_push N cq v = Some (cq', True)" "cq_inv N cq'" "cq_list N cq' = cq_list N cq @ [v]"
    by (rule cq_push_room [OF inv])
  let ?h = "unat (s_head s) mod 4096" and ?t = "unat (s_tail s)" and ?n = "unat (s_n s)"
  have h: "?h = (?t + ?n) mod 4096" unfolding head by (rule unat_add_mod_4096)
  have other: "(?t + i) mod 4096 \<noteq> ?h" if "i < ?n" for i
  proof
    assume "(?t + i) mod 4096 = ?h"
    then have "4096 dvd (?t + ?n) - (?t + i)" unfolding h by (metis dvd_minus_mod mod_eq_dvd_iff_nat nat_le_linear add_le_cancel_left less_imp_le_nat that)
    then have "4096 dvd ?n - i" by simp
    with that small show False by (auto dest: dvd_imp_le)
  qed
  let ?s = "s\<lparr>shadow := (shadow s)[?h := v], s_head := s_head s + 1, s_n := s_n s + 1\<rparr>"
  have at: "(shadow s)[?h := v] ! ((?t + i) mod 4096) = shadow s ! ((?t + i) mod 4096)" if "i < ?n" for i
    using other [OF that] by simp
  have last: "(shadow s)[?h := v] ! ((?t + ?n) mod 4096) = v" unfolding h [symmetric] using len by simp
  have "cq_list N cq' = map (\<lambda>i. (shadow s)[?h := v] ! ((?t + i) mod 4096)) [0..<?n + 1]"
    unfolding cq'(3) list using at last by simp
  then have "shadows N cq' ?s" using cq'(2) len head suc by (simp add: shadows_def)
  moreover have "wr (shadow s) (unat (s_head s mod 4096)) v = Some ((shadow s)[?h := v])"
    using len by (simp add: wr_Some unat_mod_4096)
  ultimately show ?thesis using cq'(1) by blast
qed

lemma shadows_pop:
  assumes sh: "shadows N cq s" and some: "s_n s > 0"
  shows "\<exists>cq' e. rd (shadow s) (unat (s_tail s mod 4096)) = Some e \<and> cq_pop N cq d = Some (cq', e, True) \<and>
    shadows N cq' (s\<lparr>s_tail := s_tail s + 1, s_n := s_n s - 1\<rparr>)"
proof -
  have inv: "cq_inv N cq" and len: "length (shadow s) = 4096" and head: "s_head s = s_tail s + s_n s"
    and list: "cq_list N cq = map (\<lambda>i. shadow s ! ((unat (s_tail s) + i) mod 4096)) [0..<unat (s_n s)]"
    using sh by (auto simp: shadows_def)
  let ?t = "unat (s_tail s)" and ?n = "unat (s_n s)"
  have n: "?n = Suc (?n - 1)" "unat (s_n s - 1) = ?n - 1"
    using some unat_minus_one [of "s_n s"] by (auto simp: word_less_nat_alt unat_gt_0)
  have "[0..<?n] = 0 # map Suc [0..<?n - 1]" by (subst n(1)) (simp only: upt_conv_Cons map_Suc_upt zero_less_Suc)
  then have "cq_list N cq = shadow s ! (?t mod 4096) # map (\<lambda>i. shadow s ! ((?t + Suc i) mod 4096)) [0..<?n - 1]"
    unfolding list by simp
  then obtain cq' where cq': "cq_pop N cq d = Some (cq', shadow s ! (?t mod 4096), True)" "cq_inv N cq'"
    "cq_list N cq' = map (\<lambda>i. shadow s ! ((?t + Suc i) mod 4096)) [0..<?n - 1]"
    by (rule cq_pop_some [OF inv])
  have "(unat (s_tail s + 1) + i) mod 4096 = (?t + Suc i) mod 4096" for i
  proof -
    have "(unat (s_tail s + 1) + i) mod 4096 = (unat (s_tail s + 1) mod 4096 + i) mod 4096" by (simp only: mod_add_left_eq)
    also have "\<dots> = ((?t + 1) mod 4096 + i) mod 4096" unfolding unat_add_mod_4096 by simp
    also have "\<dots> = (?t + Suc i) mod 4096" by (simp add: mod_add_left_eq)
    finally show ?thesis .
  qed
  then have "shadows N cq' (s\<lparr>s_tail := s_tail s + 1, s_n := s_n s - 1\<rparr>)"
    using cq'(2,3) len head n(2) by (simp add: shadows_def)
  moreover have "rd (shadow s) (unat (s_tail s mod 4096)) = Some (shadow s ! (?t mod 4096))"
    using len by (simp add: rd_Some unat_mod_4096)
  ultimately show ?thesis using cq'(1) by blast
qed

text \<open>The queue never holds more than the 4096 values that the shadow array has room for.\<close>

fun stress_fits :: "'n::len word \<Rightarrow> (nat \<Rightarrow> u32) \<Rightarrow> nat \<Rightarrow> u32 \<Rightarrow> nat \<Rightarrow> bool" where
  "stress_fits N rand k n 0 = True"
| "stress_fits N rand k n (Suc ops) = (
     let push = rand k AND 1 \<noteq> 0
     in if push \<and> n < ucast (N - 1) then n < 4096 \<and> stress_fits N rand (k + 2) (n + 1) ops
        else if \<not> push \<and> n > 0 then stress_fits N rand (k + 1) (n - 1) ops
        else stress_fits N rand (k + 1) n ops)"

lemma stress_fits_small:
  assumes "0 < unat N" and "unat N \<le> 4097"
  shows "stress_fits N rand k n ops"
proof (induction ops arbitrary: k n)
  case (Suc ops)
  have "N \<noteq> 0" using assms(1) by auto
  then have "unat (ucast (N - 1) :: u32) \<le> 4096"
    using assms(2) unat_minus_one [of N] by (simp add: unat_ucast_small)
  then have "n < 4096" if "n < (ucast (N - 1) :: u32)" using that by (simp add: word_less_nat_alt)
  with Suc show ?case by (auto simp: Let_def)
qed simp

lemma stress_loop_ok:
  assumes "shadows N cq s" and "stress_fits N rand k (s_n s) ops"
  shows "stress_loop N rand d k cq s ops = Some False"
  using assms
proof (induction ops arbitrary: k cq s)
  case 0
  then show ?case by simp
next
  case (Suc ops)
  let ?push = "rand k AND 1 \<noteq> 0"
  consider "?push" "s_n s < ucast (N - 1)" | "\<not> ?push" "s_n s > 0"
    | "\<not> (?push \<and> s_n s < ucast (N - 1))" "\<not> (\<not> ?push \<and> s_n s > 0)" by blast
  then show ?case
  proof cases
    case 1
    have small: "s_n s < 4096" using Suc.prems(2) 1 by (simp add: Let_def)
    obtain cq' sh where *: "wr (shadow s) (unat (s_head s mod 4096)) (ucast (rand (k + 1) AND 0xFF)) = Some sh"
      "cq_push N cq (ucast (rand (k + 1) AND 0xFF)) = Some (cq', True)"
      "shadows N cq' (s\<lparr>shadow := sh, s_head := s_head s + 1, s_n := s_n s + 1\<rparr>)"
      using shadows_push [OF Suc.prems(1) small 1(2)] by blast
    with 1 Suc.IH [OF *(3)] Suc.prems(2) shadows_nelem [OF *(3)] show ?thesis by (simp add: Let_def)
  next
    case 2
    obtain cq' e where *: "rd (shadow s) (unat (s_tail s mod 4096)) = Some e" "cq_pop N cq d = Some (cq', e, True)"
      "shadows N cq' (s\<lparr>s_tail := s_tail s + 1, s_n := s_n s - 1\<rparr>)"
      using shadows_pop [OF Suc.prems(1) 2(2)] by blast
    with 2 Suc.IH [OF *(3)] Suc.prems(2) shadows_nelem [OF *(3)] show ?thesis by (simp add: Let_def)
  next
    case 3
    with Suc.IH [OF Suc.prems(1)] Suc.prems(2) shadows_nelem [OF Suc.prems(1)] show ?thesis by (auto simp: Let_def)
  qed
qed

lemma test_random_stress_passes:
  assumes "cq_size_ok N" and "stress_fits N rand 0 0 100000"
  shows "test_random_stress N rand d st = Some (fst st + 1, snd st + 1)"
proof -
  obtain cq where cq: "make_queue N = Some cq" "cq_inv N cq" "cq_list N cq = []"
    by (rule make_queue_ok [OF assms(1)])
  then have "shadows N cq \<lparr>shadow = replicate 4096 d, s_head = 0, s_tail = 0, s_n = 0\<rparr>" by (simp add: shadows_def)
  from stress_loop_ok [OF this, of rand 0 100000 d] assms(2) cq(1) show ?thesis
    unfolding test_random_stress_def by (simp del: stress_loop.simps stress_fits.simps)
qed

lemma cqueue_test_main_passes:
  assumes "cq_size_ok N" and "stress_fits N rand 0 0 100000"
  shows "cqueue_test_main N rand d = Some 0"
  using assms
  by (simp add: cqueue_test_main_def test_init_passes test_push_pop_single_passes test_fifo_order_passes
      test_boundary_failures_passes test_peek_passes test_push_pop_n_passes test_peek_n_passes test_wraparound_passes
      test_push_pop32_passes test_push_pop_type_passes test_random_stress_passes)

section \<open>Properties\<close>

text \<open>
  C28. The circular queue is a bounded FIFO queue.  After \<open>cq_init\<close>, every sequence of \<open>cq_push\<close> and
  \<open>cq_pop\<close> returns what the same sequence returns on a list of at most \<open>CQ_N - 1\<close> bytes: nothing is
  lost, reordered or duplicated, also when the indices wrap around, a push fails exactly on a full
  queue and a pop exactly on an empty one, and no access leaves the buffer.
\<close>

theorem cq_refines_fifo:
  fixes N :: "'n::len word"
  assumes "32 \<le> LENGTH('n)" and "1 < unat N" and "unat N < 2 ^ 32" and "unat N dvd 2 ^ 32" and "length (c_buf cq) = unat N"
  shows "\<exists>cq0 cq'. cq_init N cq = Some (cq0, True) \<and>
    fifo_run (cq_push N) (cq_pop N) d cq0 ops = Some (cq', snd (fifo_spec (unat N - 1) [] ops)) \<and>
    cq_list N cq' = fst (fifo_spec (unat N - 1) [] ops)"
proof -
  obtain cq0 where cq0: "cq_init N cq = Some (cq0, True)" "cq_inv N cq0" "cq_list N cq0 = []"
    using cq_init_ok [OF assms] by blast
  with cqf.run_refines [OF cq0(2), of d ops] show ?thesis by auto
qed

theorem cq_refines_fifo_witness:
  "\<exists>cq0 cq'. cq_init CQ_N \<lparr>c_buf = replicate 256 7, fence = 0, head = 9, tail = 5\<rparr> = Some (cq0, True) \<and>
    fifo_run (cq_push CQ_N) (cq_pop CQ_N) 0 cq0 [Pop, Push 1, Push 2, Pop, Pop] =
      Some (cq', [Popped None, Pushed True, Pushed True, Popped (Some 1), Popped (Some 2)])"
  using cq_refines_fifo [of CQ_N "\<lparr>c_buf = replicate 256 7, fence = 0, head = 9, tail = 5\<rparr>" 0
      "[Pop, Push 1, Push 2, Pop, Pop]"]
  by (auto simp: CQ_N_def simp del: fifo_run.simps)

text \<open>
  The test program of the queue passes.  For every \<open>CQ_N\<close> from 9 to 4097 that divides \<open>2\<^sup>3\<^sup>2\<close>, every
  sequence of random numbers and every content of uninitialised variables, all checks of
  \<open>cqueue-test.c\<close> hold and \<open>main\<close> returns 0.  The upper bound is the size of the shadow array of the
  stress test.
\<close>

theorem cqueue_tests_pass:
  assumes "cq_size_ok N" and "unat N \<le> 4097"
  shows "cqueue_test_main N rand d = Some 0"
  by (rule cqueue_test_main_passes [OF assms(1) stress_fits_small]) (use assms in \<open>simp_all add: cq_size_ok_def\<close>)

end
