(* ===== verification/Wire_Headers.thy ===== *)
theory Wire_Headers
  imports Byte_Order
begin

text \<open>
  The packed header structures of a frame, which the server's adapter
  (\<open>circle/sample/06-ethernet-dhcp-lib/headers.h\<close>) and the load generator (\<open>bench-live/headers.h\<close>) declare
  alike, and their layout in memory: \<open>put\<close> lists the bytes of a structure in the order of its fields,
  \<open>get\<close> reads a structure from the bytes it is laid over.  Words lie in memory in host order.
\<close>

section \<open>The structures\<close>

record EthernetHdr =
  eth_dstMAC :: "u8 list"
  eth_srcMAC :: "u8 list"
  eth_etherType :: u16

record IPv4Hdr =
  ip_versionIhl :: u8
  ip_tos :: u8
  ip_totalLen :: u16
  ip_ident :: u16
  ip_flags :: u16
  ip_ttl :: u8
  ip_protocol :: u8
  ip_checksum :: u16
  ip_srcIP :: "u8 list"
  ip_dstIP :: "u8 list"

record UDPHdr =
  udp_srcPort :: u16
  udp_dstPort :: u16
  udp_totalLen :: u16
  udp_checksum :: u16

record DHCPHdr =
  dh_op :: u8
  dh_htype :: u8
  dh_hlen :: u8
  dh_hops :: u8
  dh_xid :: u32
  dh_secs :: u16
  dh_flags :: u16
  dh_ciaddr :: "u8 list"
  dh_yiaddr :: "u8 list"
  dh_siaddr :: "u8 list"
  dh_giaddr :: "u8 list"
  dh_chaddr :: "u8 list"
  dh_sname :: "u8 list"
  dh_file :: "u8 list"
  dh_magic :: u32

definition ETHER_LEN :: nat where "ETHER_LEN = 14"
definition IPv4_LEN :: nat where "IPv4_LEN = 20"
definition UDP_LEN :: nat where "UDP_LEN = 8"
definition DHCPHDR_LEN :: nat where "DHCPHDR_LEN = 240"
definition DHCP_OPTIONS_LEN :: nat where "DHCP_OPTIONS_LEN = 312"
definition DHCP_LEN :: nat where "DHCP_LEN = DHCPHDR_LEN + DHCP_OPTIONS_LEN"

lemmas hdr_len_defs = ETHER_LEN_def IPv4_LEN_def UDP_LEN_def DHCPHDR_LEN_def DHCP_OPTIONS_LEN_def DHCP_LEN_def

section \<open>Layout\<close>

abbreviation field :: "u8 list \<Rightarrow> nat \<Rightarrow> nat \<Rightarrow> u8 list" where
  "field bs off n \<equiv> take n (drop off bs)"

definition put_EthernetHdr :: "EthernetHdr \<Rightarrow> u8 list" where
  "put_EthernetHdr h = eth_dstMAC h @ eth_srcMAC h @ host_bytes (eth_etherType h)"

definition get_EthernetHdr :: "u8 list \<Rightarrow> EthernetHdr" where
  "get_EthernetHdr bs = \<lparr>eth_dstMAC = field bs 0 6, eth_srcMAC = field bs 6 6, eth_etherType = host_word (field bs 12 2)\<rparr>"

definition put_IPv4Hdr :: "IPv4Hdr \<Rightarrow> u8 list" where
  "put_IPv4Hdr h = [ip_versionIhl h, ip_tos h] @ host_bytes (ip_totalLen h) @ host_bytes (ip_ident h) @
     host_bytes (ip_flags h) @ [ip_ttl h, ip_protocol h] @ host_bytes (ip_checksum h) @ ip_srcIP h @ ip_dstIP h"

definition get_IPv4Hdr :: "u8 list \<Rightarrow> IPv4Hdr" where
  "get_IPv4Hdr bs = \<lparr>ip_versionIhl = bs ! 0, ip_tos = bs ! 1, ip_totalLen = host_word (field bs 2 2),
     ip_ident = host_word (field bs 4 2), ip_flags = host_word (field bs 6 2), ip_ttl = bs ! 8, ip_protocol = bs ! 9,
     ip_checksum = host_word (field bs 10 2), ip_srcIP = field bs 12 4, ip_dstIP = field bs 16 4\<rparr>"

definition put_UDPHdr :: "UDPHdr \<Rightarrow> u8 list" where
  "put_UDPHdr h = host_bytes (udp_srcPort h) @ host_bytes (udp_dstPort h) @ host_bytes (udp_totalLen h) @
     host_bytes (udp_checksum h)"

definition get_UDPHdr :: "u8 list \<Rightarrow> UDPHdr" where
  "get_UDPHdr bs = \<lparr>udp_srcPort = host_word (field bs 0 2), udp_dstPort = host_word (field bs 2 2),
     udp_totalLen = host_word (field bs 4 2), udp_checksum = host_word (field bs 6 2)\<rparr>"

definition put_DHCPHdr :: "DHCPHdr \<Rightarrow> u8 list" where
  "put_DHCPHdr h = [dh_op h, dh_htype h, dh_hlen h, dh_hops h] @ host_bytes (dh_xid h) @ host_bytes (dh_secs h) @
     host_bytes (dh_flags h) @ dh_ciaddr h @ dh_yiaddr h @ dh_siaddr h @ dh_giaddr h @ dh_chaddr h @ dh_sname h @
     dh_file h @ host_bytes (dh_magic h)"

definition get_DHCPHdr :: "u8 list \<Rightarrow> DHCPHdr" where
  "get_DHCPHdr bs = \<lparr>dh_op = bs ! 0, dh_htype = bs ! 1, dh_hlen = bs ! 2, dh_hops = bs ! 3,
     dh_xid = host_word (field bs 4 4), dh_secs = host_word (field bs 8 2), dh_flags = host_word (field bs 10 2),
     dh_ciaddr = field bs 12 4, dh_yiaddr = field bs 16 4, dh_siaddr = field bs 20 4, dh_giaddr = field bs 24 4,
     dh_chaddr = field bs 28 16, dh_sname = field bs 44 64, dh_file = field bs 108 128, dh_magic = host_word (field bs 236 4)\<rparr>"

lemmas hdr_defs = put_EthernetHdr_def get_EthernetHdr_def put_IPv4Hdr_def get_IPv4Hdr_def put_UDPHdr_def get_UDPHdr_def
  put_DHCPHdr_def get_DHCPHdr_def

text \<open>A header structure laid over the buffer at an offset.\<close>

definition rd_hdr :: "(u8 list \<Rightarrow> 'h) \<Rightarrow> nat \<Rightarrow> u8 list \<Rightarrow> nat \<Rightarrow> 'h option" where
  "rd_hdr get n buf off = map_option get (rd_bytes buf off n)"

text \<open>The zeroed structures.\<close>

definition zero_EthernetHdr :: EthernetHdr where
  "zero_EthernetHdr = \<lparr>eth_dstMAC = replicate 6 0, eth_srcMAC = replicate 6 0, eth_etherType = 0\<rparr>"

definition zero_IPv4Hdr :: IPv4Hdr where
  "zero_IPv4Hdr = \<lparr>ip_versionIhl = 0, ip_tos = 0, ip_totalLen = 0, ip_ident = 0, ip_flags = 0, ip_ttl = 0, ip_protocol = 0,
     ip_checksum = 0, ip_srcIP = replicate 4 0, ip_dstIP = replicate 4 0\<rparr>"

definition zero_UDPHdr :: UDPHdr where
  "zero_UDPHdr = \<lparr>udp_srcPort = 0, udp_dstPort = 0, udp_totalLen = 0, udp_checksum = 0\<rparr>"

definition zero_DHCPHdr :: DHCPHdr where
  "zero_DHCPHdr = \<lparr>dh_op = 0, dh_htype = 0, dh_hlen = 0, dh_hops = 0, dh_xid = 0, dh_secs = 0, dh_flags = 0,
     dh_ciaddr = replicate 4 0, dh_yiaddr = replicate 4 0, dh_siaddr = replicate 4 0, dh_giaddr = replicate 4 0,
     dh_chaddr = replicate 16 0, dh_sname = replicate 64 0, dh_file = replicate 128 0, dh_magic = 0\<rparr>"

lemmas zero_hdr_defs = zero_EthernetHdr_def zero_IPv4Hdr_def zero_UDPHdr_def zero_DHCPHdr_def

section \<open>Round trips\<close>

text \<open>The arrays of a structure have their declared sizes.\<close>

definition eth_ok :: "EthernetHdr \<Rightarrow> bool" where
  "eth_ok h \<longleftrightarrow> length (eth_dstMAC h) = 6 \<and> length (eth_srcMAC h) = 6"

definition ip_ok :: "IPv4Hdr \<Rightarrow> bool" where
  "ip_ok h \<longleftrightarrow> length (ip_srcIP h) = 4 \<and> length (ip_dstIP h) = 4"

definition dhcp_ok :: "DHCPHdr \<Rightarrow> bool" where
  "dhcp_ok h \<longleftrightarrow> length (dh_ciaddr h) = 4 \<and> length (dh_yiaddr h) = 4 \<and> length (dh_siaddr h) = 4 \<and>
     length (dh_giaddr h) = 4 \<and> length (dh_chaddr h) = 16 \<and> length (dh_sname h) = 64 \<and> length (dh_file h) = 128"

lemmas hdr_ok_defs = eth_ok_def ip_ok_def dhcp_ok_def

lemma length_put [simp]:
  "eth_ok e \<Longrightarrow> length (put_EthernetHdr e) = ETHER_LEN"
  "ip_ok i \<Longrightarrow> length (put_IPv4Hdr i) = IPv4_LEN"
  "length (put_UDPHdr u) = UDP_LEN"
  "dhcp_ok h \<Longrightarrow> length (put_DHCPHdr h) = DHCPHDR_LEN"
  by (simp_all add: hdr_defs hdr_len_defs hdr_ok_defs)

lemma zero_ok [simp]: "eth_ok zero_EthernetHdr" "ip_ok zero_IPv4Hdr" "dhcp_ok zero_DHCPHdr"
  by (simp_all add: hdr_ok_defs zero_hdr_defs)

lemma get_ok [simp]:
  "ETHER_LEN \<le> length bs \<Longrightarrow> eth_ok (get_EthernetHdr bs)"
  "IPv4_LEN \<le> length bs \<Longrightarrow> ip_ok (get_IPv4Hdr bs)"
  "DHCPHDR_LEN \<le> length bs \<Longrightarrow> dhcp_ok (get_DHCPHdr bs)"
  by (simp_all add: hdr_defs hdr_len_defs hdr_ok_defs)

lemma field_skip:
  "length xs \<le> off \<Longrightarrow> field (xs @ ys) off n = field ys (off - length xs) n"
  "length xs = n \<Longrightarrow> field (xs @ ys) 0 n = xs"
  by simp_all

lemma get_put_eth [simp]: "eth_ok h \<Longrightarrow> get_EthernetHdr (put_EthernetHdr h @ rest) = h"
  by (simp add: hdr_defs eth_ok_def)

lemma get_put_udp [simp]: "get_UDPHdr (put_UDPHdr h @ rest) = h"
  by (simp add: hdr_defs)

lemma get_put_ip [simp]: "ip_ok h \<Longrightarrow> get_IPv4Hdr (put_IPv4Hdr h @ rest) = h"
  by (simp add: hdr_defs ip_ok_def nth_append)

lemma get_put_dhcp [simp]: "dhcp_ok h \<Longrightarrow> get_DHCPHdr (put_DHCPHdr h @ rest) = h"
  by (simp add: hdr_defs dhcp_ok_def nth_append)

end
