(* ===== verification/Circle_Adapter.thy ===== *)
theory Circle_Adapter
  imports Wire_Headers Dhcp_Serve
begin

text \<open>
  The adapter between the wire and the library on the Raspberry Pi:
  \<open>circle/sample/06-ethernet-dhcp-lib/dhcp-server.cpp\<close> with \<open>mystring.cpp\<close> and \<open>headers.h\<close>.

  The class \<open>CDHCPServer\<close> is compiled for one lease mode; the process function of the mode is the
  argument \<open>process\<close> of the model, and the theory \<open>Circle_Modes\<close> applies it to the five functions of
  the library.  The tick counter \<open>CTimer::GetClockTicks\<close> is hardware; its value is the argument
  \<open>ticks\<close>.  Writes to the log change nothing and are left out.
\<close>

section \<open>Byte loops\<close>

text \<open>The loops of \<open>mystring.cpp\<close>, from index \<open>i\<close> with \<open>k\<close> rounds left.\<close>

fun memcpy_loop :: "u8 list \<Rightarrow> u8 list \<Rightarrow> nat \<Rightarrow> nat \<Rightarrow> u8 list option" where
  "memcpy_loop d s i 0 = Some d"
| "memcpy_loop d s i (Suc k) = do {
     b \<leftarrow> rd s i;
     d \<leftarrow> wr d i b;
     memcpy_loop d s (i + 1) k
   }"

definition my_memcpy :: "u8 list \<Rightarrow> u8 list \<Rightarrow> u32 \<Rightarrow> u8 list option" where
  "my_memcpy dest src n = memcpy_loop dest src 0 (unat n)"

fun memset_loop :: "u8 list \<Rightarrow> u8 \<Rightarrow> nat \<Rightarrow> nat \<Rightarrow> u8 list option" where
  "memset_loop p c i 0 = Some p"
| "memset_loop p c i (Suc k) = do {
     p \<leftarrow> wr p i c;
     memset_loop p c (i + 1) k
   }"

definition my_memset :: "u8 list \<Rightarrow> int \<Rightarrow> u32 \<Rightarrow> u8 list option" where
  "my_memset s c n = memset_loop s (word_of_int c) 0 (unat n)"

fun memcmp_loop :: "u8 list \<Rightarrow> u8 list \<Rightarrow> nat \<Rightarrow> nat \<Rightarrow> int option" where
  "memcmp_loop a b i 0 = Some 0"
| "memcmp_loop a b i (Suc k) = do {
     x \<leftarrow> rd a i;
     y \<leftarrow> rd b i;
     if x \<noteq> y then Some (uint x - uint y) else memcmp_loop a b (i + 1) k
   }"

definition my_memcmp :: "u8 list \<Rightarrow> u8 list \<Rightarrow> u32 \<Rightarrow> int option" where
  "my_memcmp s1 s2 n = memcmp_loop s1 s2 0 (unat n)"

text \<open>They are the block operations of the prelude.\<close>

lemma memcpy_loop_eq:
  "i + k \<le> length d \<Longrightarrow> i + k \<le> length s \<Longrightarrow> memcpy_loop d s i k = Some (take i d @ take k (drop i s) @ drop (i + k) d)"
proof (induction k arbitrary: d i)
  case 0
  then show ?case by simp
next
  case (Suc k)
  let ?d = "d[i := s ! i]"
  have s: "drop i s = s ! i # drop (Suc i) s" using Suc.prems by (simp add: Cons_nth_drop_Suc)
  have "take (Suc i) ?d = take i d @ [s ! i]" using Suc.prems by (simp add: take_Suc_conv_app_nth)
  moreover have "drop (Suc i + k) ?d = drop (i + Suc k) d" by simp
  ultimately show ?case
    using Suc.IH [of "Suc i" ?d] Suc.prems by (simp add: access_simps s)
qed

lemma memcpy_loop_None: "length d < i + k \<or> length s < i + k \<Longrightarrow> i \<le> length d \<Longrightarrow> i \<le> length s \<Longrightarrow> memcpy_loop d s i k = None"
proof (induction k arbitrary: d i)
  case 0
  then show ?case by simp
next
  case (Suc k)
  show ?case
  proof (cases "i < length d \<and> i < length s")
    case True
    with Suc.IH [of "d[i := s ! i]" "Suc i"] Suc.prems show ?thesis by (simp add: access_simps)
  next
    case False
    with Suc.prems show ?thesis by (cases "i < length s") (simp_all add: access_simps)
  qed
qed

lemma my_memcpy_eq: "my_memcpy d s n = kmemcpy d 0 s (unat n)"
  using memcpy_loop_eq [of 0 "unat n" d s] memcpy_loop_None [of d 0 "unat n" s]
  by (auto simp: my_memcpy_def kmemcpy_def not_le)

lemma memset_loop_eq:
  "i + k \<le> length p \<Longrightarrow> memset_loop p c i k = Some (take i p @ replicate k c @ drop (i + k) p)"
proof (induction k arbitrary: p i)
  case 0
  then show ?case by simp
next
  case (Suc k)
  let ?p = "p[i := c]"
  have "take (Suc i) ?p = take i p @ [c]" using Suc.prems by (simp add: take_Suc_conv_app_nth)
  then show ?case
    using Suc.IH [of "Suc i" ?p] Suc.prems by (simp add: access_simps)
qed

lemma my_memset_ok: "unat n \<le> length p \<Longrightarrow> my_memset p c n = kmemset p 0 (word_of_int c) (unat n)"
  by (simp add: my_memset_def memset_loop_eq kmemset_def)

section \<open>Words and addresses\<close>

definition BE32 :: "u32 \<Rightarrow> u32" where
  "BE32 x = (drop_bit 24 x AND 0xFF) OR (drop_bit 8 x AND 0xFF00) OR (push_bit 8 x AND 0xFF0000) OR (push_bit 24 x AND 0xFF000000)"

text \<open>The macro \<open>BE\<close> of \<open>circle/macros.h\<close>, on a 16-bit value.\<close>

definition BE :: "u16 \<Rightarrow> u16" where
  "BE v = drop_bit 8 (v AND 0xFF00) OR push_bit 8 (v AND 0x00FF)"

definition unpackIP :: "u8 list \<Rightarrow> u32 option" where
  "unpackIP p = do {
     a \<leftarrow> rd p 0;
     b \<leftarrow> rd p 1;
     c \<leftarrow> rd p 2;
     d \<leftarrow> rd p 3;
     Some (push_bit 24 (ucast a) OR push_bit 16 (ucast b) OR push_bit 8 (ucast c) OR ucast d)
   }"

definition packIP :: "u32 \<Rightarrow> u8 list \<Rightarrow> u8 list option" where
  "packIP ip p = do {
     p \<leftarrow> wr p 0 (ucast (drop_bit 24 ip AND 0xFF));
     p \<leftarrow> wr p 1 (ucast (drop_bit 16 ip AND 0xFF));
     p \<leftarrow> wr p 2 (ucast (drop_bit 8 ip AND 0xFF));
     wr p 3 (ucast (ip AND 0xFF))
   }"

section \<open>Conversion of messages\<close>

definition DHCP_FIXED_LEN :: u32 where "DHCP_FIXED_LEN = 240"

text \<open>The \<open>DHCPHdr\<close> of the adapter, which includes the option field.\<close>

record DHCPPkt =
  dp_hdr :: DHCPHdr
  dp_options :: "u8 list"

definition SIZEOF_DHCPPkt :: u32 where "SIZEOF_DHCPPkt = 552"

definition hdrToMsg :: "DHCPPkt \<Rightarrow> u32 \<Rightarrow> dhcp_message_t option" where
  "hdrToMsg pHdr nLength = do {
     let hdr = dp_hdr pHdr;
     let msg = zero_message;
     let msg = msg\<lparr>op := dh_op hdr, htype := dh_htype hdr, hlen := dh_hlen hdr, hops := dh_hops hdr,
       xid := dh_xid hdr, secs := dh_secs hdr, flags := dh_flags hdr\<rparr>;
     ci \<leftarrow> unpackIP (dh_ciaddr hdr);
     yi \<leftarrow> unpackIP (dh_yiaddr hdr);
     si \<leftarrow> unpackIP (dh_siaddr hdr);
     gi \<leftarrow> unpackIP (dh_giaddr hdr);
     ch \<leftarrow> my_memcpy (chaddr msg) (dh_chaddr hdr) 16;
     let msg = msg\<lparr>ciaddr := ci, yiaddr := yi, siaddr := si, giaddr := gi, chaddr := ch, magic_cookie := BE32 (dh_magic hdr)\<rparr>;
     let optLen = (if nLength > DHCP_FIXED_LEN then nLength - DHCP_FIXED_LEN else 0);
     let optLen = (if optLen > of_nat OPTIONS_LEN then of_nat OPTIONS_LEN else optLen);
     os \<leftarrow> my_memcpy (options msg) (dp_options pHdr) optLen;
     Some (msg\<lparr>options := os\<rparr>)
   }"

text \<open>The loop that looks for the END marker: the value of \<open>optLen\<close>.\<close>

fun opt_scan :: "u8 list \<Rightarrow> nat \<Rightarrow> nat \<Rightarrow> nat option" where
  "opt_scan opts i 0 = Some i"
| "opt_scan opts i (Suc k) = do {
     b \<leftarrow> rd opts i;
     if b = 0xFF then Some (i + 1) else opt_scan opts (i + 1) k
   }"

definition msgToHdr :: "dhcp_message_t \<Rightarrow> (DHCPPkt \<times> u32) option" where
  "msgToHdr msg = do {
     let hdr = zero_DHCPHdr;
     let hdr = hdr\<lparr>dh_op := op msg, dh_htype := htype msg, dh_hlen := hlen msg, dh_hops := hops msg,
       dh_xid := xid msg, dh_secs := secs msg, dh_flags := flags msg\<rparr>;
     ci \<leftarrow> packIP (ciaddr msg) (dh_ciaddr hdr);
     yi \<leftarrow> packIP (yiaddr msg) (dh_yiaddr hdr);
     si \<leftarrow> packIP (siaddr msg) (dh_siaddr hdr);
     gi \<leftarrow> packIP (giaddr msg) (dh_giaddr hdr);
     ch \<leftarrow> my_memcpy (dh_chaddr hdr) (chaddr msg) 16;
     let hdr = hdr\<lparr>dh_ciaddr := ci, dh_yiaddr := yi, dh_siaddr := si, dh_giaddr := gi, dh_chaddr := ch,
       dh_magic := BE32 (magic_cookie msg)\<rparr>;
     optLen \<leftarrow> opt_scan (options msg) 0 OPTIONS_LEN;
     os \<leftarrow> my_memcpy (replicate DHCP_OPTIONS_LEN 0) (options msg) (of_nat optLen);
     Some (\<lparr>dp_hdr = hdr, dp_options = os\<rparr>, DHCP_FIXED_LEN + of_nat optLen)
   }"

section \<open>Handlers\<close>

type_synonym 's process = "'s \<Rightarrow> dhcp_message_t \<Rightarrow> dhcp_message_t \<Rightarrow> u32 \<Rightarrow> ('s \<times> dhcp_message_t) option"

definition ts_in_sec :: "u32 \<Rightarrow> u32" where
  "ts_in_sec ticks = ticks div 1000000"

definition ProcessDHCPHdr :: "DHCPPkt \<Rightarrow> u32 \<Rightarrow> u8 option" where
  "ProcessDHCPHdr pDHCP nLength =
     (if nLength < DHCP_FIXED_LEN then Some 0
      else if BE32 (dh_magic (dp_hdr pDHCP)) \<noteq> DHCP_MAGIC_COOKIE then Some 0
      else do {
        msg \<leftarrow> hdrToMsg pDHCP nLength;
        dhcp_get_message_type msg
      })"

text \<open>The result is the new server, the response (when one is written) and the returned length.\<close>

definition CraftDHCPOffer :: "'s process \<Rightarrow> 's \<Rightarrow> DHCPPkt \<Rightarrow> u32 \<Rightarrow> ('s \<times> DHCPPkt option \<times> u32) option" where
  "CraftDHCPOffer process server pRequest ticks = do {
     req \<leftarrow> hdrToMsg pRequest SIZEOF_DHCPPkt;
     (server, resp) \<leftarrow> process server req zero_message (ts_in_sec ticks);
     if op resp = 0 then Some (server, None, 0)
     else do {
       (pResponse, len) \<leftarrow> msgToHdr resp;
       Some (server, Some pResponse, len)
     }
   }"

definition CraftDHCPAck :: "'s process \<Rightarrow> 's \<Rightarrow> DHCPPkt \<Rightarrow> u32 \<Rightarrow> u32 \<Rightarrow> ('s \<times> DHCPPkt option \<times> u32) option" where
  "CraftDHCPAck process server pRequest requestLen ticks = do {
     req \<leftarrow> hdrToMsg pRequest requestLen;
     (server, resp) \<leftarrow> process server req zero_message (ts_in_sec ticks);
     if op resp = 0 then Some (server, None, 0)
     else do {
       respType \<leftarrow> dhcp_get_message_type resp;
       (pResponse, len) \<leftarrow> msgToHdr resp;
       Some (server, Some pResponse, len)
     }
   }"

text \<open>Only the ARRAY and HASHMAP modes call the library on a DECLINE.\<close>

definition HandleDHCPDecline :: "bool \<Rightarrow> 's process \<Rightarrow> 's \<Rightarrow> DHCPPkt \<Rightarrow> u32 \<Rightarrow> 's option" where
  "HandleDHCPDecline array_or_hashmap process server pDHCP ticks = do {
     req \<leftarrow> hdrToMsg pDHCP SIZEOF_DHCPPkt;
     if array_or_hashmap then do {
       (server, resp) \<leftarrow> process server req zero_message (ts_in_sec ticks);
       Some server
     }
     else Some server
   }"

end
