(* ===== verification/Checksum.thy ===== *)
theory Checksum
  imports Wire_Headers
begin

text \<open>
  The Internet checksum, as \<open>ip_cksum\<close> of \<open>bench-live/frame.c\<close> and \<open>ipChecksum\<close> of
  \<open>circle/sample/06-ethernet-dhcp-lib/kernel.cpp\<close> compute it: the 16-bit words of the header, read in
  host order, are added in 32 bits, the carries are folded into the lower half, and the result is
  complemented.  Both compute the same function of the header, and a header that carries its
  checksum sums to zero.
\<close>

section \<open>Model\<close>

text \<open>The loop that adds the words, and the odd byte at the end.\<close>

fun add_words :: "u8 list \<Rightarrow> u32 \<Rightarrow> u32" where
  "add_words (a # b # bs) cksum = add_words bs (cksum + ucast (host_word [a, b] :: u16))"
| "add_words [a] cksum = cksum + ucast a"
| "add_words [] cksum = cksum"

text \<open>The loop that folds the carries.\<close>

lemma fold_carry_less:
  fixes c :: u32
  assumes "drop_bit 16 c \<noteq> 0"
  shows "unat c mod 65536 + unat c div 65536 < unat c"
    and "unat ((c AND 0xFFFF) + drop_bit 16 c) = unat c mod 65536 + unat c div 65536"
proof -
  have "(0xFFFF :: u32) = mask 16" by (simp add: mask_eq_exp_minus_1)
  then have low: "unat (c AND 0xFFFF) = unat c mod 65536"
    by (simp only: take_bit_eq_mask [symmetric]) (simp add: unsigned_take_bit_eq take_bit_eq_mod unat_mod)
  have high: "unat (drop_bit 16 c) = unat c div 65536" by (simp add: drop_bit_eq_div unat_div)
  have "0 < unat c div 65536" using assms high by (metis unat_gt_0)
  moreover have "unat c = unat c div 65536 * 65536 + unat c mod 65536" by simp
  ultimately show less: "unat c mod 65536 + unat c div 65536 < unat c" by linarith
  moreover have "unat c < 2 ^ 32" using unat_less_pow [of c] by simp
  ultimately have "unat c mod 65536 + unat c div 65536 < 2 ^ 32" by linarith
  then show "unat ((c AND 0xFFFF) + drop_bit 16 c) = unat c mod 65536 + unat c div 65536"
    using low high by (simp add: unat_word_ariths(1))
qed

function fold_carry :: "u32 \<Rightarrow> u32" where
  "fold_carry c = (if drop_bit 16 c \<noteq> 0 then fold_carry ((c AND 0xFFFF) + drop_bit 16 c) else c)"
  by pat_completeness auto
termination
  by (relation "measure unat") (auto simp: fold_carry_less(2) intro: fold_carry_less(1))

declare fold_carry.simps [simp del]

definition ip_cksum :: "u8 list \<Rightarrow> u16" where
  "ip_cksum bs = ucast (NOT (fold_carry (add_words bs 0)))"

text \<open>The loop of \<open>ipChecksum\<close> over the ten words of the header, from index \<open>i\<close>.\<close>

fun add_ptr :: "u8 list \<Rightarrow> nat \<Rightarrow> nat \<Rightarrow> u32 \<Rightarrow> u32" where
  "add_ptr bs i 0 s = s"
| "add_ptr bs i (Suc k) s = add_ptr bs (i + 1) k (s + ucast (host_word (field bs (2 * i) 2) :: u16))"

definition ipChecksum :: "IPv4Hdr \<Rightarrow> u16" where
  "ipChecksum ip = NOT (ucast (fold_carry (add_ptr (put_IPv4Hdr ip) 0 (IPv4_LEN div 2) 0)))"

section \<open>The two routines agree\<close>

lemma add_ptr_words: "length bs = 2 * k \<Longrightarrow> add_ptr (pre @ bs) (length pre div 2) k c = add_words bs c" if "even (length pre)"
  using that
proof (induction k arbitrary: pre bs c)
  case 0
  then show ?case by simp
next
  case (Suc k)
  then obtain a b bs' where bs: "bs = a # b # bs'" "length bs' = 2 * k"
    by (auto simp: length_Suc_conv)
  have len: "2 * (length pre div 2) = length pre" using Suc.prems(2) by simp
  have "length (pre @ [a, b]) div 2 = Suc (length pre div 2)" by simp
  with Suc.IH [of bs' "pre @ [a, b]"] Suc.prems(2) bs len show ?case by simp
qed

lemma ipChecksum_eq: "ip_ok ip \<Longrightarrow> ipChecksum ip = ip_cksum (put_IPv4Hdr ip)"
proof -
  assume "ip_ok ip"
  then have "length (put_IPv4Hdr ip) = 2 * (IPv4_LEN div 2)" by (simp add: IPv4_LEN_def)
  from add_ptr_words [of "[]", OF _ this] have
    "add_ptr (put_IPv4Hdr ip) 0 (IPv4_LEN div 2) 0 = add_words (put_IPv4Hdr ip) 0" by simp
  moreover have "NOT (ucast w :: u16) = ucast (NOT w)" for w :: u32
    by (rule bit_word_eqI) (auto simp: bit_simps)
  ultimately show ?thesis by (simp add: ipChecksum_def ip_cksum_def)
qed

section \<open>Verification of a checksum\<close>

text \<open>The sum as a natural number, and what folding does to it modulo \<open>2\<^sup>1\<^sup>6 - 1\<close>.\<close>

fun word_total :: "u8 list \<Rightarrow> nat" where
  "word_total (a # b # bs) = unat (host_word [a, b] :: u16) + word_total bs"
| "word_total [a] = unat a"
| "word_total [] = 0"

lemma word_total_bound: "word_total bs \<le> length bs * 2 ^ 15 + 2 ^ 15"
proof (induction bs rule: word_total.induct)
  case (1 a b bs)
  moreover have "unat (host_word [a, b] :: u16) < 2 ^ 16" using unat_less_pow [of "host_word [a, b] :: u16"] by simp
  ultimately show ?case by simp
next
  case (2 a)
  then show ?case using unat_less_pow [of a] by simp
qed simp

lemma unat_add_words: "unat c + word_total bs < 2 ^ 32 \<Longrightarrow> unat (add_words bs c) = unat c + word_total bs"
proof (induction bs c rule: add_words.induct)
  case (1 a b bs c)
  let ?w = "host_word [a, b] :: u16"
  have w: "unat (ucast ?w :: u32) = unat ?w" by (simp add: unsigned_ucast_eq take_bit_nat_eq_self unat_less_pow [THEN less_le_trans])
  then have "unat (c + ucast ?w) = unat c + unat ?w"
    using 1(2) by (simp add: unat_word_ariths(1))
  with 1 show ?case by simp
next
  case (2 a c)
  have "unat (ucast a :: u32) = unat a" by (simp add: unsigned_ucast_eq take_bit_nat_eq_self unat_less_pow [THEN less_le_trans])
  with 2 show ?case by (simp add: unat_word_ariths(1))
qed simp

lemma fold_carry_ok:
  "unat (fold_carry c) < 65536 \<and> unat (fold_carry c) mod 65535 = unat c mod 65535 \<and> (fold_carry c = 0 \<longleftrightarrow> c = 0)"
proof (induction c rule: fold_carry.induct)
  case (1 c)
  show ?case
  proof (cases "drop_bit 16 c = 0")
    case True
    then have "unat (drop_bit 16 c) = 0" by (simp only: unsigned_0)
    then have "unat c div 65536 = 0" by (simp add: drop_bit_eq_div unat_div)
    with True show ?thesis by (subst (1 2 3) fold_carry.simps) (simp add: div_eq_0_iff)
  next
    case False
    note F = fold_carry_less [OF False]
    have "unat c = unat c div 65536 * 65536 + unat c mod 65536" by simp
    then have "unat c = unat c div 65536 * 65535 + (unat c mod 65536 + unat c div 65536)" by simp
    then have "unat c mod 65535 = (unat c mod 65536 + unat c div 65536) mod 65535" by (metis mod_mult_self3)
    moreover have "(c AND 0xFFFF) + drop_bit 16 c \<noteq> 0" "c \<noteq> 0"
      using False F by (auto simp: unat_eq_zero [symmetric] simp del: unat_eq_zero)
    ultimately show ?thesis using 1 [OF False] F(2) False by (subst (1 2 3) fold_carry.simps) simp
  qed
qed

lemma unat_NOT_16: "unat (NOT x) = 65535 - unat x" for x :: u16
proof -
  have "NOT x = - 1 - x" by (simp add: not_eq_complement)
  moreover have "x \<le> - 1" by simp
  ultimately show ?thesis by (simp only: unat_sub) (simp add: unsigned_minus_1_eq_mask mask_eq_exp_minus_1)
qed

lemma ip_cksum_ok:
  assumes "word_total bs < 2 ^ 32"
  shows "unat (ip_cksum bs) = 65535 - unat (fold_carry (add_words bs 0))"
    and "unat (fold_carry (add_words bs 0)) mod 65535 = word_total bs mod 65535"
    and "unat (fold_carry (add_words bs 0)) \<le> 65535"
    and "unat (fold_carry (add_words bs 0)) = 0 \<longleftrightarrow> word_total bs = 0"
proof -
  let ?f = "fold_carry (add_words bs 0)"
  have S: "unat (add_words bs 0) = word_total bs" using unat_add_words [of 0 bs] assms by simp
  have F: "unat ?f < 65536" "unat ?f mod 65535 = word_total bs mod 65535" "?f = 0 \<longleftrightarrow> add_words bs 0 = 0"
    using fold_carry_ok [of "add_words bs 0"] S by auto
  then show "unat ?f mod 65535 = word_total bs mod 65535" "unat ?f \<le> 65535" by simp_all
  show "unat ?f = 0 \<longleftrightarrow> word_total bs = 0" using F(3) S by (metis unat_eq_zero)
  have "ucast (NOT ?f) = NOT (ucast ?f :: u16)" by (rule bit_word_eqI) (auto simp: bit_simps)
  moreover have "unat (ucast ?f :: u16) = unat ?f" using F(1) by (simp add: unsigned_ucast_eq take_bit_nat_eq_self)
  ultimately show "unat (ip_cksum bs) = 65535 - unat ?f"
    unfolding ip_cksum_def by (simp add: unat_NOT_16)
qed

lemma word_total_simps [simp]: "word_total (host_bytes (w :: u16) @ bs) = unat w + word_total bs"
proof -
  obtain x y where xy: "host_bytes w = [x, y]" by (auto simp: host_bytes_def upt_rec)
  moreover have "host_word (host_bytes w) = w" by simp
  ultimately have "host_word [x, y] = w" by simp
  with xy show ?thesis by (simp del: host_word.simps)
qed

lemma word_total_checksum:
  assumes "ip_ok h"
  shows "word_total (put_IPv4Hdr (h\<lparr>ip_checksum := c\<rparr>)) = word_total (put_IPv4Hdr (h\<lparr>ip_checksum := 0\<rparr>)) + unat c"
proof -
  have "word_total (put_IPv4Hdr (h\<lparr>ip_checksum := d\<rparr>)) = unat (host_word [ip_versionIhl h, ip_tos h] :: u16) +
      (unat (ip_totalLen h) + (unat (ip_ident h) + (unat (ip_flags h) + (unat (host_word [ip_ttl h, ip_protocol h] :: u16) +
      (unat d + word_total (ip_srcIP h @ ip_dstIP h))))))" for d
    by (simp add: put_IPv4Hdr_def del: host_word.simps)
  then show ?thesis by simp
qed

lemma word_total_pos: "ip_versionIhl h \<noteq> 0 \<Longrightarrow> 0 < word_total (put_IPv4Hdr h)"
proof -
  assume "ip_versionIhl h \<noteq> 0"
  moreover have "host_bytes (host_word [ip_versionIhl h, ip_tos h] :: u16) = [ip_versionIhl h, ip_tos h]"
    by (rule host_bytes_word) simp_all
  ultimately have "(host_word [ip_versionIhl h, ip_tos h] :: u16) \<noteq> 0" by (auto simp: host_bytes_def upt_rec)
  then show ?thesis by (simp add: put_IPv4Hdr_def unat_gt_0 del: host_word.simps)
qed

lemma checksum_verifies:
  assumes "ip_ok h" and "ip_versionIhl h \<noteq> 0"
  shows "ip_cksum (put_IPv4Hdr (h\<lparr>ip_checksum := ip_cksum (put_IPv4Hdr (h\<lparr>ip_checksum := 0\<rparr>))\<rparr>)) = 0"
proof -
  let ?b0 = "put_IPv4Hdr (h\<lparr>ip_checksum := 0\<rparr>)" and ?c = "ip_cksum (put_IPv4Hdr (h\<lparr>ip_checksum := 0\<rparr>))"
  let ?b1 = "put_IPv4Hdr (h\<lparr>ip_checksum := ?c\<rparr>)"
  let ?F0 = "unat (fold_carry (add_words ?b0 0))" and ?F1 = "unat (fold_carry (add_words ?b1 0))"
  have len: "length ?b0 = 20" "length ?b1 = 20" using assms(1) by (simp_all add: put_IPv4Hdr_def ip_ok_def)
  have small: "word_total ?b0 < 2 ^ 32" "word_total ?b1 < 2 ^ 32"
    using word_total_bound [of ?b0] word_total_bound [of ?b1] len by simp_all
  note C0 = ip_cksum_ok [OF small(1)] and C1 = ip_cksum_ok [OF small(2)]
  have T1: "word_total ?b1 = word_total ?b0 + (65535 - ?F0)" using word_total_checksum [OF assms(1), of ?c] C0(1) by simp
  have pos: "0 < word_total ?b1" using word_total_pos assms(2) by simp
  have "(word_total ?b0 + (65535 - ?F0)) mod 65535 = (?F0 + (65535 - ?F0)) mod 65535"
    by (rule mod_add_cong) (simp_all only: C0(2))
  then have "?F1 mod 65535 = 0" using C1(2) T1 C0(3) by simp
  moreover have "?F1 \<noteq> 0" using C1(4) pos by simp
  ultimately have "?F1 = 65535" using C1(3) by (cases "?F1 = 65535") auto
  then have "unat (ip_cksum ?b1) = 0" using C1(1) by simp
  then show ?thesis by (simp only: unat_eq_zero)
qed

end
