(* ===== verification/Kernel_Run.thy ===== *)
theory Kernel_Run
  imports Circle_Adapter Checksum
begin

text \<open>
  The receive loop of the server, \<open>CKernel::Run\<close> of \<open>circle/sample/06-ethernet-dhcp-lib/kernel.cpp\<close>.
  \<open>kernel_frame\<close> is one round of the loop for a received frame: \<open>FrameBuffer\<close> is the whole buffer of
  \<open>FRAME_BUFFER_SIZE\<close> bytes after \<open>ReceiveFrame\<close> (the driver writes the frame to its front, the rest is
  what was there before), \<open>mac\<close> the hardware address of the device and \<open>ticks\<close> the timer.  The result
  is the server and the frame that is passed to \<open>SendFrame\<close>, if any.  The response buffer is cleared
  at the start of each round, so its header structures start as the zeroed ones.
\<close>

definition FRAME_BUFFER_SIZE :: nat where "FRAME_BUFFER_SIZE = 1600"

text \<open>What both branches that answer do once the response is written: addresses, checksum, and the buffer to send.\<close>

definition finish_response :: "EthernetHdr \<Rightarrow> IPv4Hdr \<Rightarrow> UDPHdr \<Rightarrow> DHCPPkt \<Rightarrow> u8 list option" where
  "finish_response ethRes ipv4Res udpRes dhcpRes = do {
     src \<leftarrow> my_memcpy (ip_srcIP ipv4Res) (dh_siaddr (dp_hdr dhcpRes)) 4;
     dst \<leftarrow> my_memset (ip_dstIP ipv4Res) 0xFF 4;
     let ipv4Res = ipv4Res\<lparr>ip_srcIP := src, ip_dstIP := dst\<rparr>;
     let ipv4Res = ipv4Res\<lparr>ip_checksum := ipChecksum ipv4Res\<rparr>;
     Some (put_EthernetHdr ethRes @ put_IPv4Hdr ipv4Res @ put_UDPHdr udpRes @ put_DHCPHdr (dp_hdr dhcpRes) @ dp_options dhcpRes)
   }"

text \<open>The structure \<open>DHCPHdr\<close> of the adapter laid over a buffer.\<close>

definition rd_DHCPPkt :: "u8 list \<Rightarrow> nat \<Rightarrow> DHCPPkt option" where
  "rd_DHCPPkt buf off = do {
     hdr \<leftarrow> rd_hdr get_DHCPHdr DHCPHDR_LEN buf off;
     os \<leftarrow> rd_bytes buf (off + DHCPHDR_LEN) DHCP_OPTIONS_LEN;
     Some \<lparr>dp_hdr = hdr, dp_options = os\<rparr>
   }"

definition kernel_frame :: "bool \<Rightarrow> 's process \<Rightarrow> u8 list \<Rightarrow> 's \<Rightarrow> u8 list \<Rightarrow> u32 \<Rightarrow> ('s \<times> u8 list option) option" where
  "kernel_frame array_or_hashmap process mac serv FrameBuffer ticks = do {
     eth \<leftarrow> rd_hdr get_EthernetHdr ETHER_LEN FrameBuffer 0;
     src \<leftarrow> my_memcpy (eth_srcMAC zero_EthernetHdr) mac 6;
     dst \<leftarrow> my_memset (eth_dstMAC zero_EthernetHdr) 0xFF 6;
     let ethRes = zero_EthernetHdr\<lparr>eth_srcMAC := src, eth_dstMAC := dst, eth_etherType := eth_etherType eth\<rparr>;
     if eth_etherType eth = BE 0x800 then do {
       ipv4 \<leftarrow> rd_hdr get_IPv4Hdr IPv4_LEN FrameBuffer ETHER_LEN;
       let ipv4Res = zero_IPv4Hdr\<lparr>ip_versionIhl := 0x45, ip_tos := 0, ip_totalLen := BE (of_nat (IPv4_LEN + UDP_LEN + DHCP_LEN)),
         ip_ttl := 64, ip_protocol := 17, ip_checksum := 0\<rparr>;
       if ip_protocol ipv4 = 17 then do {
         udp \<leftarrow> rd_hdr get_UDPHdr UDP_LEN FrameBuffer (ETHER_LEN + IPv4_LEN);
         let udpRes = zero_UDPHdr\<lparr>udp_srcPort := BE 67, udp_dstPort := BE 68,
           udp_totalLen := BE (of_nat (UDP_LEN + DHCP_LEN)), udp_checksum := 0\<rparr>;
         if BE (udp_dstPort udp) = 67 then do {
           dhcp \<leftarrow> rd_DHCPPkt FrameBuffer (ETHER_LEN + IPv4_LEN + UDP_LEN);
           let DHCPRequestLen = ucast (BE (udp_totalLen udp)) - of_nat UDP_LEN;
           msgType \<leftarrow> ProcessDHCPHdr dhcp DHCPRequestLen;
           if msgType = DHCP_DISCOVER then do {
             (serv, dhcpRes, DHCPLen) \<leftarrow> CraftDHCPOffer process serv dhcp ticks;
             case dhcpRes of
               None \<Rightarrow> Some (serv, None)
             | Some r \<Rightarrow> if DHCPLen > 0 then do {
                   f \<leftarrow> finish_response ethRes ipv4Res udpRes r;
                   Some (serv, Some f)
                 }
                 else Some (serv, None)
           }
           else if msgType = DHCP_REQUEST then do {
             (serv, dhcpRes, DHCPLen) \<leftarrow> CraftDHCPAck process serv dhcp DHCPRequestLen ticks;
             case dhcpRes of
               None \<Rightarrow> Some (serv, None)
             | Some r \<Rightarrow> if DHCPLen > 0 then do {
                   f \<leftarrow> finish_response ethRes ipv4Res udpRes r;
                   Some (serv, Some f)
                 }
                 else Some (serv, None)
           }
           else if msgType = DHCP_DECLINE then do {
             serv \<leftarrow> HandleDHCPDecline array_or_hashmap process serv dhcp ticks;
             Some (serv, None)
           }
           else Some (serv, None)
         }
         else Some (serv, None)
       }
       else Some (serv, None)
     }
     else Some (serv, None)
   }"

text \<open>The loop over the frames that arrive, with the value of the timer at each; the frames it sends.\<close>

fun kernel_run :: "bool \<Rightarrow> 's process \<Rightarrow> u8 list \<Rightarrow> 's \<Rightarrow> (u8 list \<times> u32) list \<Rightarrow> ('s \<times> u8 list option list) option" where
  "kernel_run dec process mac serv [] = Some (serv, [])"
| "kernel_run dec process mac serv ((FrameBuffer, ticks) # fs) = do {
     (serv, f) \<leftarrow> kernel_frame dec process mac serv FrameBuffer ticks;
     (serv, rs) \<leftarrow> kernel_run dec process mac serv fs;
     Some (serv, f # rs)
   }"

end
