(* ===== verification/Frame.thy ===== *)
theory Frame
  imports Checksum
begin

text \<open>
  The frames of the load generator, \<open>bench-live/frame.h\<close> and \<open>bench-live/frame.c\<close>: building the frame of a
  client, parsing the frame of a server and reading its transaction id.

  The buffer is a list and \<open>buflen\<close> the number of its bytes that the function may touch; the callers
  pass sizes of arrays and results of \<open>recv\<close> that are not negative, so \<open>buflen\<close> is a natural number.
  A header pointer into the buffer is the structure laid over the bytes there; a store through it
  is a copy into the buffer.  The \<open>int\<close> transaction id of the C structures is its 32-bit word, and the
  enumeration \<open>dhcp_msg_type\<close> is the word of its underlying type, since the parser stores any byte in it.
\<close>

section \<open>Constants and metadata\<close>

definition OPT_PAD :: u8 where "OPT_PAD = 0"
definition OPT_SUBNET_MASK :: u8 where "OPT_SUBNET_MASK = 1"
definition OPT_REQUEST_IP :: u8 where "OPT_REQUEST_IP = 50"
definition OPT_LEASE_TIME :: u8 where "OPT_LEASE_TIME = 51"
definition OPT_MSG_TYPE :: u8 where "OPT_MSG_TYPE = 53"
definition OPT_SERVER_IP :: u8 where "OPT_SERVER_IP = 54"
definition OPT_END :: u8 where "OPT_END = 255"

lemmas frame_opt_defs = OPT_PAD_def OPT_SUBNET_MASK_def OPT_REQUEST_IP_def OPT_LEASE_TIME_def OPT_MSG_TYPE_def
  OPT_SERVER_IP_def OPT_END_def

definition MSG_UNKNOWN :: u32 where "MSG_UNKNOWN = 0"
definition MSG_DISCOVER :: u32 where "MSG_DISCOVER = 1"
definition MSG_OFFER :: u32 where "MSG_OFFER = 2"
definition MSG_REQUEST :: u32 where "MSG_REQUEST = 3"
definition MSG_ACK :: u32 where "MSG_ACK = 5"
definition MSG_NAK :: u32 where "MSG_NAK = 6"

lemmas frame_msg_defs = MSG_UNKNOWN_def MSG_DISCOVER_def MSG_OFFER_def MSG_REQUEST_def MSG_ACK_def MSG_NAK_def

record build_meta =
  bm_client_mac :: "u8 list"
  bm_requested_ip :: "u8 list"
  bm_server_ip :: "u8 list"
  bm_dhcp_type :: u32
  bm_xid :: u32

record parse_meta =
  pm_server_mac :: "u8 list"
  pm_offered_ip :: "u8 list"
  pm_server_ip :: "u8 list"
  pm_subnet_mask :: "u8 list"
  pm_dhcp_type :: u32
  pm_lease_time :: int
  pm_xid :: u32

definition MIN_RECV_LEN :: nat where "MIN_RECV_LEN = ETHER_LEN + IPv4_LEN + UDP_LEN + DHCPHDR_LEN"
definition MIN_SEND_LEN :: nat where "MIN_SEND_LEN = ETHER_LEN + IPv4_LEN + UDP_LEN + DHCP_LEN"

lemmas frame_len_defs = MIN_RECV_LEN_def MIN_SEND_LEN_def hdr_len_defs

section \<open>Building\<close>

definition build_frame :: "u8 list \<Rightarrow> nat \<Rightarrow> build_meta \<Rightarrow> (u8 list \<times> nat) option" where
  "build_frame buf buflen meta =
     (if buflen < MIN_SEND_LEN then Some (buf, 0)
      else do {
        buf \<leftarrow> kmemset buf 0 0 buflen;
        eth \<leftarrow> rd_hdr get_EthernetHdr ETHER_LEN buf 0;
        ip \<leftarrow> rd_hdr get_IPv4Hdr IPv4_LEN buf ETHER_LEN;
        udp \<leftarrow> rd_hdr get_UDPHdr UDP_LEN buf (ETHER_LEN + IPv4_LEN);
        hdr \<leftarrow> rd_hdr get_DHCPHdr DHCPHDR_LEN buf (ETHER_LEN + IPv4_LEN + UDP_LEN);

        dst \<leftarrow> kmemset (eth_dstMAC eth) 0 0xFF 6;
        src \<leftarrow> kmemcpy (eth_srcMAC eth) 0 (bm_client_mac meta) 6;
        let eth = eth\<lparr>eth_dstMAC := dst, eth_srcMAC := src, eth_etherType := htons 0x0800\<rparr>;

        sip \<leftarrow> kmemset (ip_srcIP ip) 0 0x00 4;
        dip \<leftarrow> kmemset (ip_dstIP ip) 0 0xFF 4;
        let udp_len = UDP_LEN + DHCP_LEN;
        let ip_len = IPv4_LEN + udp_len;
        let ip = ip\<lparr>ip_versionIhl := 0x45, ip_ttl := 64, ip_protocol := 17, ip_srcIP := sip, ip_dstIP := dip,
          ip_totalLen := htons (of_nat ip_len), ip_flags := htons 0x4000, ip_checksum := 0\<rparr>;
        let ip = ip\<lparr>ip_checksum := ip_cksum (put_IPv4Hdr ip)\<rparr>;

        let udp = udp\<lparr>udp_srcPort := htons 68, udp_dstPort := htons 67, udp_totalLen := htons (of_nat udp_len),
          udp_checksum := 0\<rparr>;

        ch \<leftarrow> kmemcpy (dh_chaddr hdr) 0 (bm_client_mac meta) 6;
        let hdr = hdr\<lparr>dh_op := 1, dh_htype := 1, dh_hlen := 6, dh_xid := htonl (bm_xid meta),
          dh_flags := htons 0x8000, dh_magic := htonl 0x63825363, dh_chaddr := ch\<rparr>;

        rip \<leftarrow> rd_bytes (bm_requested_ip meta) 0 4;
        srv \<leftarrow> rd_bytes (bm_server_ip meta) 0 4;
        let opt = [OPT_MSG_TYPE, 1, ucast (bm_dhcp_type meta)] @
          (if bm_dhcp_type meta = MSG_REQUEST then [OPT_REQUEST_IP, 4] @ rip @ [OPT_SERVER_IP, 4] @ srv else []) @ [OPT_END];

        buf \<leftarrow> kmemcpy buf 0 (put_EthernetHdr eth) ETHER_LEN;
        buf \<leftarrow> kmemcpy buf ETHER_LEN (put_IPv4Hdr ip) IPv4_LEN;
        buf \<leftarrow> kmemcpy buf (ETHER_LEN + IPv4_LEN) (put_UDPHdr udp) UDP_LEN;
        buf \<leftarrow> kmemcpy buf (ETHER_LEN + IPv4_LEN + UDP_LEN) (put_DHCPHdr hdr) DHCPHDR_LEN;
        buf \<leftarrow> kmemcpy buf MIN_RECV_LEN opt (length opt);
        Some (buf, MIN_SEND_LEN)
      })"

section \<open>Parsing\<close>

text \<open>The body of the switch: \<open>v\<close> are the \<open>opt_len\<close> bytes of the option.  Every branch advances by \<open>opt_len\<close>.\<close>

definition parse_option :: "parse_meta \<Rightarrow> u8 \<Rightarrow> u8 list \<Rightarrow> parse_meta" where
  "parse_option meta opt_type v =
     (if opt_type = OPT_MSG_TYPE then (if length v \<noteq> 1 then meta else meta\<lparr>pm_dhcp_type := ucast (v ! 0)\<rparr>)
      else if opt_type = OPT_SERVER_IP then (if length v \<noteq> 4 then meta else meta\<lparr>pm_server_ip := v\<rparr>)
      else if opt_type = OPT_LEASE_TIME then
        (if length v \<noteq> 4 then meta else meta\<lparr>pm_lease_time := sint (ntohl (host_word v))\<rparr>)
      else if opt_type = OPT_SUBNET_MASK then (if length v \<noteq> 4 then meta else meta\<lparr>pm_subnet_mask := v\<rparr>)
      else meta)"

function parse_options :: "u8 list \<Rightarrow> nat \<Rightarrow> nat \<Rightarrow> parse_meta \<Rightarrow> parse_meta option" where
  "parse_options dhcp_options opts_len opt_idx meta =
     (if opt_idx < opts_len then do {
        opt_type \<leftarrow> rd dhcp_options opt_idx;
        if opt_type = OPT_PAD then parse_options dhcp_options opts_len (opt_idx + 1) meta
        else if opt_type = OPT_END \<or> opt_idx + 1 \<ge> opts_len then Some meta
        else do {
          opt_len \<leftarrow> rd dhcp_options (opt_idx + 1);
          if opt_idx + 2 + unat opt_len > opts_len then Some meta
          else do {
            v \<leftarrow> rd_bytes dhcp_options (opt_idx + 2) (unat opt_len);
            parse_options dhcp_options opts_len (opt_idx + 2 + unat opt_len) (parse_option meta opt_type v)
          }
        }
      }
      else Some meta)"
  by pat_completeness auto
termination
  by (relation "measure (\<lambda>(os, n, i, m). n - i)") auto

declare parse_options.simps [simp del]

definition parse_frame :: "u8 list \<Rightarrow> nat \<Rightarrow> parse_meta \<Rightarrow> (u8 list \<times> parse_meta) option" where
  "parse_frame buf buflen meta = do {
     let meta = meta\<lparr>pm_dhcp_type := MSG_UNKNOWN, pm_lease_time := 0, pm_offered_ip := replicate 4 0,
       pm_server_ip := replicate 4 0, pm_subnet_mask := replicate 4 0, pm_server_mac := replicate 6 0\<rparr>;
     if buflen < MIN_RECV_LEN then Some (buf, meta)
     else do {
       eth \<leftarrow> rd_hdr get_EthernetHdr ETHER_LEN buf 0;
       ip \<leftarrow> rd_hdr get_IPv4Hdr IPv4_LEN buf ETHER_LEN;
       udp \<leftarrow> rd_hdr get_UDPHdr UDP_LEN buf (ETHER_LEN + IPv4_LEN);
       dhcp_hdr \<leftarrow> rd_hdr get_DHCPHdr DHCPHDR_LEN buf (ETHER_LEN + IPv4_LEN + UDP_LEN);
       if eth_etherType eth \<noteq> htons 0x0800 then Some (buf, meta)
       else do {
         let opts_len = buflen - MIN_RECV_LEN;
         let udp_len = UDP_LEN + DHCPHDR_LEN + opts_len;
         let ip_len = IPv4_LEN + udp_len;
         if ip_protocol ip \<noteq> 17 \<or> ip_totalLen ip \<noteq> htons (of_nat ip_len) then Some (buf, meta)
         else do {
           let reported_cksum = ip_checksum ip;
           buf \<leftarrow> kmemcpy buf (ETHER_LEN + 10) (host_bytes (0 :: u16)) 2;
           hdr \<leftarrow> rd_bytes buf ETHER_LEN IPv4_LEN;
           if reported_cksum \<noteq> ip_cksum hdr then Some (buf, meta)
           else if udp_srcPort udp \<noteq> htons 67 \<or> udp_dstPort udp \<noteq> htons 68 \<or>
             udp_totalLen udp \<noteq> htons (of_nat udp_len) then Some (buf, meta)
           else if dh_xid dhcp_hdr \<noteq> htonl (pm_xid meta) then Some (buf, meta)
           else do {
             let meta = meta\<lparr>pm_server_mac := eth_srcMAC eth, pm_server_ip := dh_siaddr dhcp_hdr,
               pm_offered_ip := dh_yiaddr dhcp_hdr\<rparr>;
             dhcp_options \<leftarrow> rd_bytes buf MIN_RECV_LEN opts_len;
             meta \<leftarrow> parse_options dhcp_options opts_len 0 meta;
             Some (buf, meta)
           }
         }
       }
     }
   }"

text \<open>\<open>parse_xid\<close>: the last component is the value stored in \<open>*xid\<close> when the result is 1.\<close>

definition parse_xid :: "u8 list \<Rightarrow> nat \<Rightarrow> (u8 list \<times> u32 option) option" where
  "parse_xid buf buflen =
     (if buflen < MIN_RECV_LEN then Some (buf, None)
      else do {
        eth \<leftarrow> rd_hdr get_EthernetHdr ETHER_LEN buf 0;
        ip \<leftarrow> rd_hdr get_IPv4Hdr IPv4_LEN buf ETHER_LEN;
        udp \<leftarrow> rd_hdr get_UDPHdr UDP_LEN buf (ETHER_LEN + IPv4_LEN);
        dhcp_hdr \<leftarrow> rd_hdr get_DHCPHdr DHCPHDR_LEN buf (ETHER_LEN + IPv4_LEN + UDP_LEN);
        if eth_etherType eth \<noteq> htons 0x0800 then Some (buf, None)
        else do {
          let opts_len = buflen - MIN_RECV_LEN;
          let udp_len = UDP_LEN + DHCPHDR_LEN + opts_len;
          let ip_len = IPv4_LEN + udp_len;
          if ip_protocol ip \<noteq> 17 \<or> ip_totalLen ip \<noteq> htons (of_nat ip_len) then Some (buf, None)
          else do {
            let reported_cksum = ip_checksum ip;
            buf \<leftarrow> kmemcpy buf (ETHER_LEN + 10) (host_bytes (0 :: u16)) 2;
            hdr \<leftarrow> rd_bytes buf ETHER_LEN IPv4_LEN;
            buf \<leftarrow> kmemcpy buf (ETHER_LEN + 10) (host_bytes reported_cksum) 2;
            if reported_cksum \<noteq> ip_cksum hdr then Some (buf, None)
            else if udp_srcPort udp \<noteq> htons 67 \<or> udp_dstPort udp \<noteq> htons 68 \<or>
              udp_totalLen udp \<noteq> htons (of_nat udp_len) then Some (buf, None)
            else Some (buf, Some (ntohl (dh_xid dhcp_hdr)))
          }
        }
      })"

end
