(* ===== verification/Frame_Correct.thy ===== *)
theory Frame_Correct
  imports Frame Dhcp_Options
begin

text \<open>
  What the frame routines of the load generator compute.  \<open>frame\<close> is a frame as a sequence of
  structures; building returns such a frame, and parsing one that passes the checks reads its
  fields and the options it carries.
\<close>

section \<open>Frames as sequences of structures\<close>

definition frame :: "EthernetHdr \<Rightarrow> IPv4Hdr \<Rightarrow> UDPHdr \<Rightarrow> DHCPHdr \<Rightarrow> u8 list \<Rightarrow> u8 list" where
  "frame eth ip udp hdr opts = put_EthernetHdr eth @ put_IPv4Hdr ip @ put_UDPHdr udp @ put_DHCPHdr hdr @ opts"

lemma length_frame [simp]:
  "eth_ok eth \<Longrightarrow> ip_ok ip \<Longrightarrow> dhcp_ok hdr \<Longrightarrow> length (frame eth ip udp hdr opts) = MIN_RECV_LEN + length opts"
  by (simp add: frame_def MIN_RECV_LEN_def)

text \<open>Reading a header, and replacing one, in a list of blocks.\<close>

lemma rd_bytes_skip: "rd_bytes (xs @ ys) (length xs + off) n = rd_bytes ys off n"
  by (simp add: rd_bytes_def)

lemma rd_bytes_here: "length xs = n \<Longrightarrow> rd_bytes (xs @ ys) 0 n = Some xs"
  by (simp add: rd_bytes_def)

lemma kmemcpy_skip: "kmemcpy (xs @ ys) (length xs + off) src n = map_option ((@) xs) (kmemcpy ys off src n)"
  by (simp add: kmemcpy_def)

lemma kmemcpy_here: "length xs = n \<Longrightarrow> length src = n \<Longrightarrow> kmemcpy (xs @ ys) 0 src n = Some (src @ ys)"
  by (simp add: kmemcpy_def)

lemma rd_frame:
  assumes "eth_ok eth" and "ip_ok ip" and "dhcp_ok hdr"
  shows "rd_hdr get_EthernetHdr ETHER_LEN (frame eth ip udp hdr opts) 0 = Some eth"
    and "rd_hdr get_IPv4Hdr IPv4_LEN (frame eth ip udp hdr opts) ETHER_LEN = Some ip"
    and "rd_hdr get_UDPHdr UDP_LEN (frame eth ip udp hdr opts) (ETHER_LEN + IPv4_LEN) = Some udp"
    and "rd_hdr get_DHCPHdr DHCPHDR_LEN (frame eth ip udp hdr opts) (ETHER_LEN + IPv4_LEN + UDP_LEN) = Some hdr"
    and "rd_bytes (frame eth ip udp hdr opts) ETHER_LEN IPv4_LEN = Some (put_IPv4Hdr ip)"
    and "n \<le> length opts \<Longrightarrow> rd_bytes (frame eth ip udp hdr opts) MIN_RECV_LEN n = Some (take n opts)"
proof -
  note len = length_put(1) [OF assms(1)] length_put(2) [OF assms(2)] length_put(4) [OF assms(3)]
  note g = get_put_eth [OF assms(1), of "[]"] get_put_ip [OF assms(2), of "[]"] get_put_dhcp [OF assms(3), of "[]"]
    get_put_udp [of udp "[]"]
  show "rd_hdr get_EthernetHdr ETHER_LEN (frame eth ip udp hdr opts) 0 = Some eth"
    using len g by (simp add: rd_hdr_def frame_def rd_bytes_here)
  show *: "rd_bytes (frame eth ip udp hdr opts) ETHER_LEN IPv4_LEN = Some (put_IPv4Hdr ip)"
    using len by (simp add: frame_def rd_bytes_def)
  then show "rd_hdr get_IPv4Hdr IPv4_LEN (frame eth ip udp hdr opts) ETHER_LEN = Some ip"
    using g by (simp add: rd_hdr_def)
  show "rd_hdr get_UDPHdr UDP_LEN (frame eth ip udp hdr opts) (ETHER_LEN + IPv4_LEN) = Some udp"
    using len g by (simp add: rd_hdr_def frame_def rd_bytes_def)
  show "rd_hdr get_DHCPHdr DHCPHDR_LEN (frame eth ip udp hdr opts) (ETHER_LEN + IPv4_LEN + UDP_LEN) = Some hdr"
    using len g by (simp add: rd_hdr_def frame_def rd_bytes_def)
  show "rd_bytes (frame eth ip udp hdr opts) MIN_RECV_LEN n = Some (take n opts)" if "n \<le> length opts"
    using len that by (simp add: frame_def rd_bytes_def MIN_RECV_LEN_def)
qed

lemma wr_frame:
  assumes "eth_ok eth" and "ip_ok ip" and "dhcp_ok hdr"
  shows "eth_ok eth' \<Longrightarrow> kmemcpy (frame eth ip udp hdr opts) 0 (put_EthernetHdr eth') ETHER_LEN = Some (frame eth' ip udp hdr opts)"
    and "ip_ok ip' \<Longrightarrow> kmemcpy (frame eth ip udp hdr opts) ETHER_LEN (put_IPv4Hdr ip') IPv4_LEN = Some (frame eth ip' udp hdr opts)"
    and "kmemcpy (frame eth ip udp hdr opts) (ETHER_LEN + IPv4_LEN) (put_UDPHdr udp') UDP_LEN = Some (frame eth ip udp' hdr opts)"
    and "dhcp_ok hdr' \<Longrightarrow> kmemcpy (frame eth ip udp hdr opts) (ETHER_LEN + IPv4_LEN + UDP_LEN) (put_DHCPHdr hdr') DHCPHDR_LEN =
      Some (frame eth ip udp hdr' opts)"
    and "n \<le> length opts \<Longrightarrow> n \<le> length os \<Longrightarrow> kmemcpy (frame eth ip udp hdr opts) MIN_RECV_LEN os n =
      Some (frame eth ip udp hdr (take n os @ drop n opts))"
    and "kmemcpy (frame eth ip udp hdr opts) (ETHER_LEN + 10) (host_bytes (c :: u16)) 2 =
      Some (frame eth (ip\<lparr>ip_checksum := c\<rparr>) udp hdr opts)"
proof -
  note len = length_put(1) [OF assms(1)] length_put(2) [OF assms(2)] length_put(4) [OF assms(3)]
  show "kmemcpy (frame eth ip udp hdr opts) 0 (put_EthernetHdr eth') ETHER_LEN = Some (frame eth' ip udp hdr opts)" if "eth_ok eth'"
    using len that by (simp add: frame_def kmemcpy_def)
  show "kmemcpy (frame eth ip udp hdr opts) ETHER_LEN (put_IPv4Hdr ip') IPv4_LEN = Some (frame eth ip' udp hdr opts)" if "ip_ok ip'"
    using len that by (simp add: frame_def kmemcpy_def)
  show "kmemcpy (frame eth ip udp hdr opts) (ETHER_LEN + IPv4_LEN) (put_UDPHdr udp') UDP_LEN = Some (frame eth ip udp' hdr opts)"
    using len by (simp add: frame_def kmemcpy_def)
  show "kmemcpy (frame eth ip udp hdr opts) (ETHER_LEN + IPv4_LEN + UDP_LEN) (put_DHCPHdr hdr') DHCPHDR_LEN =
      Some (frame eth ip udp hdr' opts)" if "dhcp_ok hdr'"
    using len that by (simp add: frame_def kmemcpy_def)
  show "kmemcpy (frame eth ip udp hdr opts) MIN_RECV_LEN os n = Some (frame eth ip udp hdr (take n os @ drop n opts))"
    if "n \<le> length opts" "n \<le> length os"
    using len that by (simp add: frame_def kmemcpy_def MIN_RECV_LEN_def)
  have l: "length (put_EthernetHdr eth) = 14" using len by (simp add: ETHER_LEN_def)
  show "kmemcpy (frame eth ip udp hdr opts) (ETHER_LEN + 10) (host_bytes c) 2 =
      Some (frame eth (ip\<lparr>ip_checksum := c\<rparr>) udp hdr opts)"
    using l by (simp add: frame_def kmemcpy_def ETHER_LEN_def put_IPv4Hdr_def)
qed

section \<open>Building\<close>

definition build_meta_ok :: "build_meta \<Rightarrow> bool" where
  "build_meta_ok m \<longleftrightarrow> length (bm_client_mac m) = 6 \<and> length (bm_requested_ip m) = 4 \<and> length (bm_server_ip m) = 4"

definition client_eth :: "build_meta \<Rightarrow> EthernetHdr" where
  "client_eth m = \<lparr>eth_dstMAC = replicate 6 0xFF, eth_srcMAC = bm_client_mac m, eth_etherType = htons 0x0800\<rparr>"

definition client_ip0 :: IPv4Hdr where
  "client_ip0 = zero_IPv4Hdr\<lparr>ip_versionIhl := 0x45, ip_totalLen := htons 580, ip_flags := htons 0x4000, ip_ttl := 64,
     ip_protocol := 17, ip_dstIP := replicate 4 0xFF\<rparr>"

definition client_ip :: IPv4Hdr where
  "client_ip = client_ip0\<lparr>ip_checksum := ip_cksum (put_IPv4Hdr client_ip0)\<rparr>"

definition client_udp :: UDPHdr where
  "client_udp = \<lparr>udp_srcPort = htons 68, udp_dstPort = htons 67, udp_totalLen = htons 560, udp_checksum = 0\<rparr>"

definition client_hdr :: "build_meta \<Rightarrow> DHCPHdr" where
  "client_hdr m = zero_DHCPHdr\<lparr>dh_op := 1, dh_htype := 1, dh_hlen := 6, dh_xid := htonl (bm_xid m), dh_flags := htons 0x8000,
     dh_chaddr := bm_client_mac m @ replicate 10 0, dh_magic := htonl 0x63825363\<rparr>"

definition client_items :: "build_meta \<Rightarrow> dhcp_item list" where
  "client_items m = Opt OPT_MSG_TYPE [ucast (bm_dhcp_type m)] #
     (if bm_dhcp_type m = MSG_REQUEST then [Opt OPT_REQUEST_IP (bm_requested_ip m), Opt OPT_SERVER_IP (bm_server_ip m)] else [])"

definition client_opts :: "build_meta \<Rightarrow> nat \<Rightarrow> u8 list" where
  "client_opts m n = encode_items (client_items m) @ OPT_END # replicate (n - 1 - length (encode_items (client_items m))) 0"

lemma client_hdrs_ok [simp]: "build_meta_ok m \<Longrightarrow> eth_ok (client_eth m)" "ip_ok client_ip" "ip_ok client_ip0"
  "build_meta_ok m \<Longrightarrow> dhcp_ok (client_hdr m)"
  by (simp_all add: build_meta_ok_def client_eth_def client_ip_def client_ip0_def client_hdr_def hdr_ok_defs zero_hdr_defs)

lemma length_client_items: "build_meta_ok m \<Longrightarrow> length (encode_items (client_items m)) \<le> 15"
  by (simp add: client_items_def build_meta_ok_def)

lemma length_client_opts: "build_meta_ok m \<Longrightarrow> 312 \<le> n \<Longrightarrow> length (client_opts m n) = n"
  using length_client_items [of m] by (simp add: client_opts_def)

lemma host_bytes_0 [simp]: "host_bytes (0 :: u16) = [0, 0]" "host_bytes (0 :: u32) = [0, 0, 0, 0]"
  by (simp_all add: host_bytes_def upt_rec)

lemma zero_frame: "frame zero_EthernetHdr zero_IPv4Hdr zero_UDPHdr zero_DHCPHdr (replicate n 0 @ rest) = replicate (MIN_RECV_LEN + n) 0 @ rest"
proof -
  have r: "put_EthernetHdr zero_EthernetHdr = replicate ETHER_LEN 0" "put_IPv4Hdr zero_IPv4Hdr = replicate IPv4_LEN 0"
    "put_UDPHdr zero_UDPHdr = replicate UDP_LEN 0" "put_DHCPHdr zero_DHCPHdr = replicate DHCPHDR_LEN 0"
    by (simp_all add: hdr_defs hdr_len_defs zero_hdr_defs numeral_eq_Suc)
  show ?thesis unfolding frame_def r MIN_RECV_LEN_def append_assoc [symmetric] replicate_add [symmetric] by (simp add: add.assoc)
qed

lemma build_frame_ok:
  assumes "build_meta_ok m" and "MIN_SEND_LEN \<le> n" and "n \<le> length buf"
  shows "build_frame buf n m = Some (frame (client_eth m) client_ip client_udp (client_hdr m)
    (client_opts m (n - MIN_RECV_LEN) @ drop n buf), MIN_SEND_LEN)"
proof -
  let ?k = "n - MIN_RECV_LEN" and ?z = "frame zero_EthernetHdr zero_IPv4Hdr zero_UDPHdr zero_DHCPHdr"
  have k: "n = MIN_RECV_LEN + ?k" "312 \<le> ?k" using assms(2) by (auto simp: frame_len_defs)
  have memset: "kmemset buf 0 0 n = Some (?z (replicate ?k 0 @ drop n buf))"
    unfolding zero_frame k(1) [symmetric] using assms(3) by (simp add: kmemset_def)
  let ?opt = "encode_items (client_items m) @ [OPT_END]"
  have opt: "[OPT_MSG_TYPE, 1, ucast (bm_dhcp_type m)] @ (if bm_dhcp_type m = MSG_REQUEST
      then [OPT_REQUEST_IP, 4] @ bm_requested_ip m @ [OPT_SERVER_IP, 4] @ bm_server_ip m else []) @ [OPT_END] = ?opt"
    using assms(1) by (simp add: client_items_def build_meta_ok_def)
  have l: "length ?opt \<le> ?k" using length_client_items [OF assms(1)] k(2) by simp
  have tail: "take (length ?opt) ?opt @ drop (length ?opt) (replicate ?k 0 @ drop n buf) = client_opts m ?k @ drop n buf"
    using l by (simp add: client_opts_def)
  have mem: "kmemset (eth_dstMAC zero_EthernetHdr) 0 0xFF 6 = Some (replicate 6 0xFF)"
      "kmemcpy (eth_srcMAC zero_EthernetHdr) 0 (bm_client_mac m) 6 = Some (bm_client_mac m)"
      "kmemset (ip_srcIP zero_IPv4Hdr) 0 0 4 = Some (replicate 4 0)" "kmemset (ip_dstIP zero_IPv4Hdr) 0 0xFF 4 = Some (replicate 4 0xFF)"
      "kmemcpy (dh_chaddr zero_DHCPHdr) 0 (bm_client_mac m) 6 = Some (bm_client_mac m @ replicate 10 0)"
      "rd_bytes (bm_requested_ip m) 0 4 = Some (bm_requested_ip m)" "rd_bytes (bm_server_ip m) 0 4 = Some (bm_server_ip m)"
    using assms(1) by (simp_all add: zero_hdr_defs kmemset_def kmemcpy_def rd_bytes_def build_meta_ok_def)
  have eth: "zero_EthernetHdr\<lparr>eth_dstMAC := replicate 6 0xFF, eth_srcMAC := bm_client_mac m, eth_etherType := htons 0x0800\<rparr> =
      client_eth m"
    by (simp add: client_eth_def zero_EthernetHdr_def)
  have ip: "zero_IPv4Hdr\<lparr>ip_versionIhl := 0x45, ip_ttl := 64, ip_protocol := 17, ip_srcIP := replicate 4 0,
      ip_dstIP := replicate 4 0xFF, ip_totalLen := htons 580, ip_flags := htons 0x4000, ip_checksum := 0\<rparr> = client_ip0"
    by (simp add: client_ip0_def zero_IPv4Hdr_def)
  have udp: "zero_UDPHdr\<lparr>udp_srcPort := htons 68, udp_dstPort := htons 67, udp_totalLen := htons 560, udp_checksum := 0\<rparr> = client_udp"
    by (simp add: client_udp_def zero_UDPHdr_def)
  have hdr: "zero_DHCPHdr\<lparr>dh_op := 1, dh_htype := 1, dh_hlen := 6, dh_xid := htonl (bm_xid m),
      dh_flags := htons 0x8000, dh_magic := htonl 0x63825363, dh_chaddr := bm_client_mac m @ replicate 10 0\<rparr> = client_hdr m"
    by (simp add: client_hdr_def)
  have lens: "UDP_LEN + DHCP_LEN = 560" "IPv4_LEN + 560 = 580" by (simp_all add: hdr_len_defs)
  note ok = client_hdrs_ok(1,4) [OF assms(1)] client_hdrs_ok(2)
  have "length ?opt \<le> length (replicate ?k 0 @ drop n buf)" using l by simp
  note last = wr_frame(5) [OF ok(1,3,2) this order.refl, unfolded tail]
  have "\<not> n < MIN_SEND_LEN" using assms(2) by simp
  then show ?thesis
    unfolding build_frame_def Let_def
    by (simp only: if_False memset bind.bind_lunit rd_frame(1-4) [OF zero_ok] mem eth ip udp hdr lens of_nat_numeral opt
        client_ip_def [symmetric] wr_frame(1) [OF zero_ok ok(1)] wr_frame(2) [OF ok(1) zero_ok(2,3) ok(3)]
        wr_frame(3) [OF ok(1,3) zero_ok(3)] wr_frame(4) [OF ok(1,3) zero_ok(3) ok(2)] last)
qed

section \<open>Parsing the options\<close>

text \<open>The effect of an item on the metadata; of two options with the same code the later one counts.\<close>

fun item_meta :: "parse_meta \<Rightarrow> dhcp_item \<Rightarrow> parse_meta" where
  "item_meta m Pad = m"
| "item_meta m (Opt c d) = parse_option m c d"

lemma parse_options_item:
  assumes "item_ok i" and "length (pre @ encode_item i) \<le> n" and "n \<le> length (pre @ encode_item i @ post)"
  shows "parse_options (pre @ encode_item i @ post) n (length pre) m =
    parse_options (pre @ encode_item i @ post) n (length (pre @ encode_item i)) (item_meta m i)"
proof (cases i)
  case Pad
  with assms show ?thesis
    by (subst parse_options.simps) (simp add: access_simps nth_append frame_opt_defs opt_code_defs)
next
  case (Opt c d)
  then have c: "c \<noteq> OPT_PAD" "c \<noteq> OPT_END" "length d < 256"
    using assms(1) by (auto simp: frame_opt_defs opt_code_defs)
  with Opt assms(2,3) show ?thesis
    by (subst parse_options.simps) (simp add: access_simps nth_append)
qed

lemma parse_options_items:
  assumes "list_all item_ok is" and "length (pre @ encode_items is) \<le> n" and "n \<le> length (pre @ encode_items is @ post)"
  shows "parse_options (pre @ encode_items is @ post) n (length pre) m =
    parse_options (pre @ encode_items is @ post) n (length (pre @ encode_items is)) (foldl item_meta m is)"
  using assms
proof (induction "is" arbitrary: pre m)
  case Nil
  then show ?case by simp
next
  case (Cons i js)
  have "parse_options (pre @ encode_item i @ encode_items js @ post) n (length pre) m =
      parse_options (pre @ encode_item i @ encode_items js @ post) n (length (pre @ encode_item i)) (item_meta m i)"
    using parse_options_item [of i pre n "encode_items js @ post" m] Cons.prems by simp
  also have "\<dots> = parse_options (pre @ encode_item i @ encode_items js @ post) n (length (pre @ encode_item i @ encode_items js))
      (foldl item_meta (item_meta m i) js)"
    using Cons.IH [of "pre @ encode_item i" "item_meta m i"] Cons.prems by simp
  finally show ?case by simp
qed

lemma parse_options_end:
  "n \<le> length (pre @ OPT_END # post) \<Longrightarrow> parse_options (pre @ OPT_END # post) n (length pre) m = Some m"
  by (subst parse_options.simps) (simp add: access_simps frame_opt_defs)

lemma parse_options_encoded:
  assumes "list_all item_ok is" and "length (encode_items is) < n" and "n \<le> length (encode_items is @ OPT_END # post)"
  shows "parse_options (encode_items is @ OPT_END # post) n 0 m = Some (foldl item_meta m is)"
  using parse_options_items [of "is" "[]" n "OPT_END # post" m] parse_options_end [of n "encode_items is" post] assms
  by simp

lemma parse_options_unterminated:
  assumes "list_all item_ok is" and "n = length (encode_items is)"
  shows "parse_options (encode_items is) n 0 m = Some (foldl item_meta m is)"
proof -
  have "parse_options (encode_items is) n n (foldl item_meta m is) = Some (foldl item_meta m is)"
    by (subst parse_options.simps) simp
  then show ?thesis using parse_options_items [of "is" "[]" n "[]" m] assms by simp
qed

text \<open>The parser never leaves the field, whatever its content.\<close>

lemma parse_options_total: "n \<le> length os \<Longrightarrow> \<exists>m'. parse_options os n i m = Some m'"
proof (induction os n i m rule: parse_options.induct)
  case (1 os n i m)
  show ?case
  proof (cases "i < n")
    case False
    then show ?thesis by (subst parse_options.simps) simp
  next
    case True
    then have t: "rd os i = Some (os ! i)" using 1(3) by (simp add: rd_def)
    consider "os ! i = OPT_PAD" | "os ! i \<noteq> OPT_PAD" "os ! i = OPT_END \<or> n \<le> i + 1"
      | "os ! i \<noteq> OPT_PAD" "\<not> (os ! i = OPT_END \<or> n \<le> i + 1)" by blast
    then show ?thesis
    proof cases
      case 1
      then show ?thesis using \<open>i < n\<close> t "1.IH"(1) [OF True t] "1.prems" by (subst parse_options.simps) simp
    next
      case 2
      then show ?thesis using True t by (subst parse_options.simps) auto
    next
      case 3
      then have l: "rd os (i + 1) = Some (os ! (i + 1))" using "1.prems" by (simp add: rd_def)
      show ?thesis
      proof (cases "n < i + 2 + unat (os ! (i + 1))")
        case True
        then show ?thesis using 3 t l \<open>i < n\<close> by (subst parse_options.simps) simp
      next
        case False
        then have v: "rd_bytes os (i + 2) (unat (os ! (i + 1))) = Some (field os (i + 2) (unat (os ! (i + 1))))"
          using "1.prems" by (simp add: rd_bytes_def)
        show ?thesis
          using "1.IH"(2) [OF True t 3 l False v "1.prems"] 3 t l v False True by (subst parse_options.simps) simp
      qed
    qed
  qed
qed

section \<open>Every buffer that is long enough is a frame\<close>

lemma field_join: "m = n + k \<Longrightarrow> field bs k n @ drop m bs = drop k bs"
  by (simp add: drop_drop [symmetric] del: drop_drop)

lemma field_last: "length bs = k + n \<Longrightarrow> field bs k n = drop k bs"
  by simp

lemma nth_join: "m = k + 1 \<Longrightarrow> k < length bs \<Longrightarrow> bs ! k # drop m bs = drop k bs"
  by (simp add: Cons_nth_drop_Suc)

lemma host_bytes_length:
  "length bs = 2 \<Longrightarrow> host_bytes (host_word bs :: u16) = bs" "length bs = 4 \<Longrightarrow> host_bytes (host_word bs :: u32) = bs"
  by (simp_all add: host_bytes_word)

lemma put_get:
  "length bs = ETHER_LEN \<Longrightarrow> put_EthernetHdr (get_EthernetHdr bs) = bs"
  "length bs = IPv4_LEN \<Longrightarrow> put_IPv4Hdr (get_IPv4Hdr bs) = bs"
  "length bs = UDP_LEN \<Longrightarrow> put_UDPHdr (get_UDPHdr bs) = bs"
  "length bs = DHCPHDR_LEN \<Longrightarrow> put_DHCPHdr (get_DHCPHdr bs) = bs"
  using field_join [of 6 6 0 bs] field_join [of 2 2 0 bs]
  by (simp_all add: hdr_defs hdr_len_defs host_bytes_length field_last field_join nth_join)

lemma frame_cases:
  assumes "MIN_RECV_LEN \<le> length buf"
  obtains eth ip udp hdr opts where "eth_ok eth" "ip_ok ip" "dhcp_ok hdr" "buf = frame eth ip udp hdr opts"
    "length buf = MIN_RECV_LEN + length opts"
proof -
  let ?e = "take ETHER_LEN buf" and ?i = "field buf ETHER_LEN IPv4_LEN" and ?u = "field buf (ETHER_LEN + IPv4_LEN) UDP_LEN"
    and ?h = "field buf (ETHER_LEN + IPv4_LEN + UDP_LEN) DHCPHDR_LEN"
  have len: "length ?e = ETHER_LEN" "length ?i = IPv4_LEN" "length ?u = UDP_LEN" "length ?h = DHCPHDR_LEN"
    using assms by (simp_all add: frame_len_defs)
  have "buf = ?e @ ?i @ ?u @ ?h @ drop MIN_RECV_LEN buf"
    by (simp add: frame_len_defs field_join)
  then have "buf = frame (get_EthernetHdr ?e) (get_IPv4Hdr ?i) (get_UDPHdr ?u) (get_DHCPHdr ?h) (drop MIN_RECV_LEN buf)"
    using put_get len by (simp add: frame_def)
  moreover have "eth_ok (get_EthernetHdr ?e)" "ip_ok (get_IPv4Hdr ?i)" "dhcp_ok (get_DHCPHdr ?h)"
    using len by simp_all
  moreover have "length buf = MIN_RECV_LEN + length (drop MIN_RECV_LEN buf)" using assms by simp
  ultimately show thesis using that by blast
qed

section \<open>Parsing a frame\<close>

text \<open>The checks that \<open>parse_frame\<close> and \<open>parse_xid\<close> share; \<open>n\<close> is the length of the option field.\<close>

definition reply_ok :: "EthernetHdr \<Rightarrow> IPv4Hdr \<Rightarrow> UDPHdr \<Rightarrow> nat \<Rightarrow> bool" where
  "reply_ok eth ip udp n \<longleftrightarrow> eth_etherType eth = htons 0x0800 \<and> ip_protocol ip = 17 \<and>
     ip_totalLen ip = htons (of_nat (IPv4_LEN + (UDP_LEN + DHCPHDR_LEN + n))) \<and>
     ip_checksum ip = ip_cksum (put_IPv4Hdr (ip\<lparr>ip_checksum := 0\<rparr>)) \<and>
     udp_srcPort udp = htons 67 \<and> udp_dstPort udp = htons 68 \<and> udp_totalLen udp = htons (of_nat (UDP_LEN + DHCPHDR_LEN + n))"

definition reset_meta :: "parse_meta \<Rightarrow> parse_meta" where
  "reset_meta m = m\<lparr>pm_dhcp_type := MSG_UNKNOWN, pm_lease_time := 0, pm_offered_ip := replicate 4 0,
     pm_server_ip := replicate 4 0, pm_subnet_mask := replicate 4 0, pm_server_mac := replicate 6 0\<rparr>"

definition header_meta :: "parse_meta \<Rightarrow> EthernetHdr \<Rightarrow> DHCPHdr \<Rightarrow> parse_meta" where
  "header_meta m eth hdr = (reset_meta m)\<lparr>pm_server_mac := eth_srcMAC eth, pm_server_ip := dh_siaddr hdr,
     pm_offered_ip := dh_yiaddr hdr\<rparr>"

lemma pm_xid_reset [simp]: "pm_xid (reset_meta m) = pm_xid m"
  by (simp add: reset_meta_def)

lemma ip_ok_checksum [simp]: "ip_ok (ip\<lparr>ip_checksum := c\<rparr>) = ip_ok ip"
  by (simp add: ip_ok_def)

lemma parse_frame_accepted:
  assumes "eth_ok eth" and "ip_ok ip" and "dhcp_ok hdr" and "n \<le> length opts"
    and "reply_ok eth ip udp n" and "dh_xid hdr = htonl (pm_xid m)"
    and "parse_options (take n opts) n 0 (header_meta m eth hdr) = Some m'"
  shows "parse_frame (frame eth ip udp hdr opts) (MIN_RECV_LEN + n) m =
    Some (frame eth (ip\<lparr>ip_checksum := 0\<rparr>) udp hdr opts, m')"
proof -
  have ip0: "ip_ok (ip\<lparr>ip_checksum := 0\<rparr>)" using assms(2) by simp
  have len: "\<not> MIN_RECV_LEN + n < MIN_RECV_LEN" "MIN_RECV_LEN + n - MIN_RECV_LEN = n" by simp_all
  note R = assms(5) [unfolded reply_ok_def]
  show ?thesis
    unfolding parse_frame_def reset_meta_def [symmetric] Let_def
    using R assms(6) assms(7) [unfolded header_meta_def]
    by (simp add: len rd_frame [OF assms(1-3)] wr_frame(6) [OF assms(1-3)] rd_frame(5,6) [OF assms(1) ip0 assms(3)] assms(4)
        del: host_bytes_0)
qed

lemma parse_frame_rejected:
  assumes "eth_ok eth" and "ip_ok ip" and "dhcp_ok hdr" and "n \<le> length opts"
    and "\<not> (reply_ok eth ip udp n \<and> dh_xid hdr = htonl (pm_xid m))"
  shows "\<exists>c. parse_frame (frame eth ip udp hdr opts) (MIN_RECV_LEN + n) m =
    Some (frame eth (ip\<lparr>ip_checksum := c\<rparr>) udp hdr opts, reset_meta m)"
proof -
  have ip0: "ip_ok (ip\<lparr>ip_checksum := 0\<rparr>)" using assms(2) by simp
  have len: "\<not> MIN_RECV_LEN + n < MIN_RECV_LEN" "MIN_RECV_LEN + n - MIN_RECV_LEN = n" by simp_all
  note f = rd_frame [OF assms(1-3)] wr_frame(6) [OF assms(1-3)] rd_frame(5,6) [OF assms(1) ip0 assms(3)]
  consider "eth_etherType eth \<noteq> htons 0x0800 \<or> ip_protocol ip \<noteq> 17 \<or>
      ip_totalLen ip \<noteq> htons (of_nat (IPv4_LEN + (UDP_LEN + DHCPHDR_LEN + n)))"
    | "eth_etherType eth = htons 0x0800" "ip_protocol ip = 17"
      "ip_totalLen ip = htons (of_nat (IPv4_LEN + (UDP_LEN + DHCPHDR_LEN + n)))" by blast
  then show ?thesis
  proof cases
    case 1
    then have "parse_frame (frame eth ip udp hdr opts) (MIN_RECV_LEN + n) m = Some (frame eth ip udp hdr opts, reset_meta m)"
      unfolding parse_frame_def reset_meta_def [symmetric] Let_def by (auto simp: len f)
    then show ?thesis by (intro exI [of _ "ip_checksum ip"]) simp
  next
    case 2
    then have "parse_frame (frame eth ip udp hdr opts) (MIN_RECV_LEN + n) m =
        Some (frame eth (ip\<lparr>ip_checksum := 0\<rparr>) udp hdr opts, reset_meta m)"
      using assms(5) unfolding parse_frame_def reset_meta_def [symmetric] Let_def reply_ok_def
      by (auto simp: len f simp del: host_bytes_0)
    then show ?thesis by blast
  qed
qed

lemma parse_xid_frame:
  assumes "eth_ok eth" and "ip_ok ip" and "dhcp_ok hdr" and "n \<le> length opts"
  shows "parse_xid (frame eth ip udp hdr opts) (MIN_RECV_LEN + n) =
    Some (frame eth ip udp hdr opts, if reply_ok eth ip udp n then Some (ntohl (dh_xid hdr)) else None)"
proof -
  have ip0: "ip_ok (ip\<lparr>ip_checksum := 0\<rparr>)" using assms(2) by simp
  have len: "\<not> MIN_RECV_LEN + n < MIN_RECV_LEN" "MIN_RECV_LEN + n - MIN_RECV_LEN = n" by simp_all
  show ?thesis
    unfolding parse_xid_def Let_def reply_ok_def
    by (simp add: len rd_frame [OF assms(1-3)] wr_frame(6) [OF assms(1-3)] rd_frame(5) [OF assms(1) ip0 assms(3)]
        wr_frame(6) [OF assms(1) ip0 assms(3)] del: host_bytes_0)
qed

text \<open>For any content of the buffer: both routines return, and \<open>parse_xid\<close> leaves the buffer as it was.\<close>

lemma parse_frame_total:
  assumes "n \<le> length buf"
  shows "\<exists>buf' m'. parse_frame buf n m = Some (buf', m') \<and> length buf' = length buf"
proof (cases "n < MIN_RECV_LEN")
  case True
  then show ?thesis by (simp add: parse_frame_def Let_def)
next
  case False
  then obtain k where k: "n = MIN_RECV_LEN + k" by (metis le_Suc_ex not_less)
  then have "MIN_RECV_LEN \<le> length buf" using assms by simp
  from frame_cases [OF this] obtain eth ip udp hdr opts where f: "eth_ok eth" "ip_ok ip" "dhcp_ok hdr" "buf = frame eth ip udp hdr opts"
    "length buf = MIN_RECV_LEN + length opts" by metis
  have ko: "k \<le> length opts" using k f(5) assms by simp
  show ?thesis
  proof (cases "reply_ok eth ip udp k \<and> dh_xid hdr = htonl (pm_xid m)")
    case True
    obtain m' where "parse_options (take k opts) k 0 (header_meta m eth hdr) = Some m'"
      using parse_options_total [of k "take k opts"] ko by auto
    with parse_frame_accepted [OF f(1-3) ko _ _ this] True f k show ?thesis by auto
  next
    case False
    from parse_frame_rejected [OF f(1-3) ko False] f k show ?thesis by auto
  qed
qed

lemma parse_xid_total:
  assumes "n \<le> length buf"
  shows "\<exists>r. parse_xid buf n = Some (buf, r)"
proof (cases "n < MIN_RECV_LEN")
  case True
  then show ?thesis by (simp add: parse_xid_def)
next
  case False
  then obtain k where k: "n = MIN_RECV_LEN + k" by (metis le_Suc_ex not_less)
  then have "MIN_RECV_LEN \<le> length buf" using assms by simp
  from frame_cases [OF this] obtain eth ip udp hdr opts where f: "eth_ok eth" "ip_ok ip" "dhcp_ok hdr" "buf = frame eth ip udp hdr opts"
    "length buf = MIN_RECV_LEN + length opts" by metis
  have ko: "k \<le> length opts" using k f(5) assms by simp
  from parse_xid_frame [OF f(1-3) ko] f(4) k show ?thesis by simp
qed

end
