(* ===== verification/Adapter_Correct.thy ===== *)
theory Adapter_Correct
  imports Circle_Adapter Frame_Correct
begin

text \<open>
  What the conversions of the adapter compute.  A packet becomes a message with the same fields
  and, within the length given, the same options; a message becomes a packet with the same fields
  whose option field stops at the first byte \<open>0xFF\<close>, wherever that byte occurs.
\<close>

section \<open>Words and addresses\<close>

lemma BE32_htonl: "BE32 x = htonl x"
proof (rule bit_word_eqI)
  fix n assume "n < LENGTH(32)"
  then have n: "n < 32" by simp
  have bits: "(0xFF :: u32) = mask 8" "(0xFF00 :: u32) = push_bit 8 (mask 8)" "(0xFF0000 :: u32) = push_bit 16 (mask 8)"
    "(0xFF000000 :: u32) = push_bit 24 (mask 8)"
    by (simp_all add: mask_eq_exp_minus_1 push_bit_eq_mult)
  have rev: "rev (host_bytes x) = [ucast (drop_bit 24 x), ucast (drop_bit 16 x), ucast (drop_bit 8 x), ucast x]"
    by (simp add: host_bytes_def upt_rec)
  consider "n < 8" | "8 \<le> n" "n < 16" | "16 \<le> n" "n < 24" | "24 \<le> n" "n < 32" using n by linarith
  then show "bit (BE32 x) n = bit (htonl x) n"
  proof cases
    case 1
    then show ?thesis unfolding BE32_def htonl_def rev bits by (auto simp: bit_simps)
  next
    case 2
    then have "n div 8 = 1" "n mod 8 = n - 8" by (auto simp: div_if mod_if)
    with 2 show ?thesis unfolding BE32_def htonl_def rev bits by (auto simp: bit_simps)
  next
    case 3
    then have "n div 8 = 2" "n mod 8 = n - 16" by (auto simp: div_if mod_if)
    with 3 show ?thesis unfolding BE32_def htonl_def rev bits by (auto simp: bit_simps)
  next
    case 4
    then have "n div 8 = 3" "n mod 8 = n - 24" by (auto simp: div_if mod_if)
    with 4 show ?thesis unfolding BE32_def htonl_def rev bits by (auto simp: bit_simps)
  qed
qed

lemma BE_htons: "BE x = htons x"
proof (rule bit_word_eqI)
  fix n assume "n < LENGTH(16)"
  then have n: "n < 16" by simp
  have bits: "(0xFF :: u16) = mask 8" "(0xFF00 :: u16) = push_bit 8 (mask 8)"
    by (simp_all add: mask_eq_exp_minus_1 push_bit_eq_mult)
  have rev: "rev (host_bytes x) = [ucast (drop_bit 8 x), ucast x]"
    by (simp add: host_bytes_def upt_rec)
  show "bit (BE x) n = bit (htons x) n"
    unfolding BE_def htons_def rev bits using n by (cases "n < 8") (auto simp: bit_simps)
qed

lemma unpackIP_bytes: "unpackIP [a, b, c, d] = Some (ip_to_uint32 a b c d)"
  by (simp add: unpackIP_def rd_def ip_to_uint32_def)

lemma unpackIP_be_bytes [simp]: "unpackIP (be_bytes ip) = Some ip"
proof -
  obtain a b c d where "be_bytes ip = [a, b, c, d]" by (cases "uint32_to_ip ip") (auto simp: be_bytes_def)
  then show ?thesis using be_bytes_inverse by (simp add: unpackIP_bytes)
qed

lemma unpackIP_ok: "length p = 4 \<Longrightarrow> \<exists>ip. unpackIP p = Some ip \<and> be_bytes ip = p"
proof -
  assume "length p = 4"
  then obtain a b c d where "p = [a, b, c, d]" by (auto simp: numeral_eq_Suc length_Suc_conv)
  then show ?thesis by (simp add: unpackIP_bytes be_bytes_ip_to_uint32)
qed

lemma packIP_ok: "length p = 4 \<Longrightarrow> packIP ip p = Some (be_bytes ip)"
proof -
  assume "length p = 4"
  then obtain a b c d where "p = [a, b, c, d]" by (auto simp: numeral_eq_Suc length_Suc_conv)
  then show ?thesis by (simp add: packIP_def wr_def be_bytes_def uint32_to_ip_def)
qed

section \<open>From a packet to a message\<close>

definition pkt_ok :: "DHCPPkt \<Rightarrow> bool" where
  "pkt_ok p \<longleftrightarrow> dhcp_ok (dp_hdr p) \<and> length (dp_options p) = DHCP_OPTIONS_LEN"

text \<open>How many option bytes the adapter copies for a packet of \<open>n\<close> bytes.\<close>

definition opt_count :: "u32 \<Rightarrow> nat" where
  "opt_count n = min OPTIONS_LEN (unat n - 240)"

definition addr_of :: "u8 list \<Rightarrow> u32" where
  "addr_of p = the (unpackIP p)"

definition pkt_msg :: "DHCPPkt \<Rightarrow> u32 \<Rightarrow> dhcp_message_t" where
  "pkt_msg p n = (let hdr = dp_hdr p in zero_message\<lparr>op := dh_op hdr, htype := dh_htype hdr, hlen := dh_hlen hdr, hops := dh_hops hdr,
     xid := dh_xid hdr, secs := dh_secs hdr, flags := dh_flags hdr, ciaddr := addr_of (dh_ciaddr hdr),
     yiaddr := addr_of (dh_yiaddr hdr), siaddr := addr_of (dh_siaddr hdr), giaddr := addr_of (dh_giaddr hdr),
     chaddr := dh_chaddr hdr, magic_cookie := htonl (dh_magic hdr),
     options := take (opt_count n) (dp_options p) @ replicate (OPTIONS_LEN - opt_count n) 0\<rparr>)"

lemma addr_of_ok: "length p = 4 \<Longrightarrow> unpackIP p = Some (addr_of p)" "length p = 4 \<Longrightarrow> be_bytes (addr_of p) = p"
  using unpackIP_ok [of p] by (auto simp: addr_of_def)

lemma hdrToMsg_ok:
  assumes "pkt_ok p"
  shows "hdrToMsg p n = Some (pkt_msg p n)"
proof -
  let ?k = "if n > DHCP_FIXED_LEN then n - DHCP_FIXED_LEN else 0"
  have k: "unat (if ?k > of_nat OPTIONS_LEN then of_nat OPTIONS_LEN else ?k) = opt_count n"
    by (auto simp: opt_count_def DHCP_FIXED_LEN_def OPTIONS_LEN_def word_less_nat_alt unat_sub word_le_nat_alt)
  have c: "opt_count n \<le> OPTIONS_LEN" by (simp add: opt_count_def)
  have ch: "my_memcpy (replicate 16 0) (dh_chaddr (dp_hdr p)) 16 = Some (dh_chaddr (dp_hdr p))"
    using assms by (simp add: my_memcpy_eq kmemcpy_def pkt_ok_def dhcp_ok_def)
  have os: "my_memcpy (replicate OPTIONS_LEN 0) (dp_options p) (if ?k > of_nat OPTIONS_LEN then of_nat OPTIONS_LEN else ?k) =
      Some (take (opt_count n) (dp_options p) @ replicate (OPTIONS_LEN - opt_count n) 0)"
    unfolding my_memcpy_eq k using assms c by (simp add: kmemcpy_def pkt_ok_def OPTIONS_LEN_def DHCP_OPTIONS_LEN_def)
  have ad: "unpackIP (dh_ciaddr (dp_hdr p)) = Some (addr_of (dh_ciaddr (dp_hdr p)))"
    "unpackIP (dh_yiaddr (dp_hdr p)) = Some (addr_of (dh_yiaddr (dp_hdr p)))"
    "unpackIP (dh_siaddr (dp_hdr p)) = Some (addr_of (dh_siaddr (dp_hdr p)))"
    "unpackIP (dh_giaddr (dp_hdr p)) = Some (addr_of (dh_giaddr (dp_hdr p)))"
    using assms by (auto simp: pkt_ok_def dhcp_ok_def intro: addr_of_ok(1))
  show ?thesis
    unfolding hdrToMsg_def Let_def by (simp add: ad ch os pkt_msg_def Let_def BE32_htonl del: of_nat_numeral)
qed

lemma message_ok_pkt [simp]: "pkt_ok p \<Longrightarrow> message_ok (pkt_msg p n)"
  by (simp add: message_ok_def pkt_msg_def Let_def pkt_ok_def dhcp_ok_def opt_count_def DHCP_OPTIONS_LEN_def OPTIONS_LEN_def)

section \<open>From a message to a packet\<close>

definition sent_len :: "u8 list \<Rightarrow> nat" where
  "sent_len os = min (length os) (Suc (length (takeWhile (\<lambda>b. b \<noteq> 0xFF) os)))"

lemma opt_scan_from:
  "i + k = length os \<Longrightarrow> opt_scan os i k = Some (i + sent_len (drop i os))"
proof (induction k arbitrary: i)
  case 0
  then show ?case by (simp add: sent_len_def)
next
  case (Suc k)
  then have "drop i os = os ! i # drop (Suc i) os" by (simp add: Cons_nth_drop_Suc)
  with Suc.IH [of "Suc i"] Suc.prems show ?case by (auto simp: access_simps sent_len_def)
qed

lemma sent_len_first: "0xFF \<notin> set xs \<Longrightarrow> sent_len (xs @ 0xFF # ys) = Suc (length xs)"
proof -
  assume "0xFF \<notin> set xs"
  then have "takeWhile (\<lambda>b. b \<noteq> 0xFF) (xs @ 0xFF # ys) = xs" by (induction xs) auto
  then show ?thesis by (simp add: sent_len_def)
qed

lemma sent_len_le: "sent_len os \<le> length os"
  by (simp add: sent_len_def)

definition sent_options :: "u8 list \<Rightarrow> nat \<Rightarrow> u8 list" where
  "sent_options os n = take (sent_len os) os @ replicate (n - sent_len os) 0"

definition msg_hdr :: "dhcp_message_t \<Rightarrow> DHCPHdr" where
  "msg_hdr m = zero_DHCPHdr\<lparr>dh_op := op m, dh_htype := htype m, dh_hlen := hlen m, dh_hops := hops m, dh_xid := xid m,
     dh_secs := secs m, dh_flags := flags m, dh_ciaddr := be_bytes (ciaddr m), dh_yiaddr := be_bytes (yiaddr m),
     dh_siaddr := be_bytes (siaddr m), dh_giaddr := be_bytes (giaddr m), dh_chaddr := chaddr m, dh_magic := htonl (magic_cookie m)\<rparr>"

lemma msg_hdr_ok [simp]: "message_ok m \<Longrightarrow> dhcp_ok (msg_hdr m)"
  by (simp add: msg_hdr_def dhcp_ok_def zero_DHCPHdr_def message_ok_def)

lemma sent_lengths:
  assumes "message_ok m"
  shows "sent_len (options m) \<le> 308" and "length (sent_options (options m) DHCP_OPTIONS_LEN) = 312"
  using sent_len_le [of "options m"] assms
  by (simp_all add: sent_options_def DHCP_OPTIONS_LEN_def message_ok_def OPTIONS_LEN_def)

lemma msgToHdr_ok:
  assumes "message_ok m"
  shows "msgToHdr m = Some (\<lparr>dp_hdr = msg_hdr m, dp_options = sent_options (options m) DHCP_OPTIONS_LEN\<rparr>,
    240 + of_nat (sent_len (options m)))"
proof -
  have len: "length (options m) = OPTIONS_LEN" "length (chaddr m) = 16" using assms by (auto simp: message_ok_def)
  have scan: "opt_scan (options m) 0 OPTIONS_LEN = Some (sent_len (options m))"
    using opt_scan_from [of 0 OPTIONS_LEN "options m"] len by simp
  have s: "sent_len (options m) \<le> OPTIONS_LEN" using sent_len_le [of "options m"] len by simp
  then have "unat (of_nat (sent_len (options m)) :: u32) = sent_len (options m)"
    by (simp add: unat_of_nat OPTIONS_LEN_def)
  then have os: "my_memcpy (replicate DHCP_OPTIONS_LEN 0) (options m) (of_nat (sent_len (options m))) =
      Some (sent_options (options m) DHCP_OPTIONS_LEN)"
    using s len by (simp add: my_memcpy_eq kmemcpy_def sent_options_def DHCP_OPTIONS_LEN_def OPTIONS_LEN_def)
  have ch: "my_memcpy (replicate 16 0) (chaddr m) 16 = Some (chaddr m)"
    using len by (simp add: my_memcpy_eq kmemcpy_def)
  show ?thesis
    unfolding msgToHdr_def Let_def
    by (simp add: packIP_ok scan os ch msg_hdr_def zero_DHCPHdr_def BE32_htonl DHCP_FIXED_LEN_def)
qed

section \<open>The packet of a reply\<close>

text \<open>
  The option field of a packet, for a server whose address has no byte \<open>0xFF\<close>.  When the first byte
  of the subnet mask is \<open>0xFF\<close>, as for every network smaller than a class A network, the field stops
  there: the client reads the mask \<open>255.0.0.0\<close>, and the router, the name server and the lease time
  are lost.
\<close>

definition masked :: "dhcp_config_t \<Rightarrow> bool" where
  "masked c \<longleftrightarrow> 0xFF \<notin> set (be_bytes (server_ip c)) \<and> hd (be_bytes (subnet_mask c)) = 0xFF"

definition cut_items :: "dhcp_config_t \<Rightarrow> u8 \<Rightarrow> dhcp_item list" where
  "cut_items c type = [Opt DHCP_OPT_MESSAGE_TYPE [type], Opt DHCP_OPT_SERVER_ID (be_bytes (server_ip c)),
     Opt DHCP_OPT_SUBNET_MASK [0xFF, 0, 0, 0]] @ replicate 297 Pad"

lemma encode_pads: "encode_items (replicate n Pad) = replicate n 0"
  by (induction n) (simp_all add: DHCP_OPT_PAD_def)

lemma sent_cut_at:
  assumes "represents os (reply_items c type)" and "masked c" and "type \<noteq> 0xFF"
  shows "sent_len os = 12" and "take 12 os = [DHCP_OPT_MESSAGE_TYPE, 1, type, DHCP_OPT_SERVER_ID, 4] @ be_bytes (server_ip c) @
    [DHCP_OPT_SUBNET_MASK, 4, 0xFF]"
proof -
  obtain rest where os: "os = encode_items (reply_items c type) @ DHCP_OPT_END # rest"
    using representsE [OF assms(1)] by metis
  obtain b1 b2 b3 where mask: "be_bytes (subnet_mask c) = [0xFF, b1, b2, b3]"
    using assms(2) by (cases "uint32_to_ip (subnet_mask c)") (auto simp: masked_def be_bytes_def)
  let ?pre = "[DHCP_OPT_MESSAGE_TYPE, 1, type, DHCP_OPT_SERVER_ID, 4] @ be_bytes (server_ip c) @ [DHCP_OPT_SUBNET_MASK, 4]"
  have "os = ?pre @ 0xFF # (b1 # b2 # b3 # encode_items (drop 3 (reply_items c type)) @ DHCP_OPT_END # rest)"
    unfolding os by (simp add: reply_items_def mask)
  moreover have "0xFF \<notin> set ?pre" using assms(2,3) by (simp add: masked_def opt_code_defs)
  ultimately show "sent_len os = 12" "take 12 os = [DHCP_OPT_MESSAGE_TYPE, 1, type, DHCP_OPT_SERVER_ID, 4] @ be_bytes (server_ip c) @
      [DHCP_OPT_SUBNET_MASK, 4, 0xFF]"
    using sent_len_first [of ?pre] by simp_all
qed

lemma sent_cut:
  assumes "represents os (reply_items c type)" and "masked c" and "type \<noteq> 0xFF"
  shows "sent_options os DHCP_OPTIONS_LEN = encode_items (cut_items c type)"
proof -
  have "[0, 0, 0] @ replicate 297 0 = replicate 300 (0 :: u8)" by (simp flip: replicate_add add: numeral_eq_Suc)
  with sent_cut_at [OF assms] show ?thesis
    by (simp add: sent_options_def cut_items_def encode_pads DHCP_OPTIONS_LEN_def)
qed

lemma sent_nak:
  assumes "represents os [Opt DHCP_OPT_MESSAGE_TYPE [DHCP_NAK]]"
  shows "sent_options os DHCP_OPTIONS_LEN = encode_items [Opt DHCP_OPT_MESSAGE_TYPE [DHCP_NAK]] @ DHCP_OPT_END # replicate 308 0"
proof -
  obtain rest where os: "os = encode_items [Opt DHCP_OPT_MESSAGE_TYPE [DHCP_NAK]] @ 0xFF # rest"
    using representsE [OF assms] by (metis DHCP_OPT_END_def)
  have "sent_len os = 4" unfolding os by (subst sent_len_first) (simp_all add: opt_code_defs msg_type_defs)
  then show ?thesis unfolding sent_options_def os by (simp add: DHCP_OPTIONS_LEN_def DHCP_OPT_END_def)
qed

end
