(* ===== verification/Kernel_Correct.thy ===== *)
theory Kernel_Correct
  imports Kernel_Run Adapter_Correct
begin

text \<open>
  What the receive loop does with a frame, for every lease mode at once: the lemmas are proved in
  the locale \<open>address_server\<close>, whose interpretations are the backends.  A frame that is not a DHCP
  request for the server is ignored; any other is answered as the specification \<open>outcome\<close> of the
  library decides, with a frame that the checks of the load generator accept.
\<close>

section \<open>Frames in and out\<close>

definition server_eth :: "u8 list \<Rightarrow> EthernetHdr" where
  "server_eth mac = \<lparr>eth_dstMAC = replicate 6 0xFF, eth_srcMAC = mac, eth_etherType = htons 0x800\<rparr>"

definition server_ip0 :: "u32 \<Rightarrow> IPv4Hdr" where
  "server_ip0 ip = zero_IPv4Hdr\<lparr>ip_versionIhl := 0x45, ip_totalLen := htons 580, ip_ttl := 64, ip_protocol := 17,
     ip_srcIP := be_bytes ip, ip_dstIP := replicate 4 0xFF\<rparr>"

definition server_ipv4 :: "u32 \<Rightarrow> IPv4Hdr" where
  "server_ipv4 ip = (server_ip0 ip)\<lparr>ip_checksum := ip_cksum (put_IPv4Hdr (server_ip0 ip))\<rparr>"

definition server_udp :: UDPHdr where
  "server_udp = \<lparr>udp_srcPort = htons 67, udp_dstPort = htons 68, udp_totalLen = htons 560, udp_checksum = 0\<rparr>"

definition server_frame :: "u8 list \<Rightarrow> dhcp_message_t \<Rightarrow> u8 list" where
  "server_frame mac m = frame (server_eth mac) (server_ipv4 (siaddr m)) server_udp (msg_hdr m) (sent_options (options m) DHCP_OPTIONS_LEN)"

lemma server_hdrs_ok [simp]: "length mac = 6 \<Longrightarrow> eth_ok (server_eth mac)" "ip_ok (server_ip0 ip)" "ip_ok (server_ipv4 ip)"
  by (simp_all add: server_eth_def server_ip0_def server_ipv4_def hdr_ok_defs zero_hdr_defs)

lemma finish_response_ok:
  assumes "message_ok m"
  shows "finish_response (server_eth mac)
      (zero_IPv4Hdr\<lparr>ip_versionIhl := 0x45, ip_tos := 0, ip_totalLen := BE (of_nat (IPv4_LEN + UDP_LEN + DHCP_LEN)),
         ip_ttl := 64, ip_protocol := 17, ip_checksum := 0\<rparr>)
      (zero_UDPHdr\<lparr>udp_srcPort := BE 67, udp_dstPort := BE 68, udp_totalLen := BE (of_nat (UDP_LEN + DHCP_LEN)), udp_checksum := 0\<rparr>)
      \<lparr>dp_hdr = msg_hdr m, dp_options = sent_options (options m) DHCP_OPTIONS_LEN\<rparr> = Some (server_frame mac m)"
proof -
  have ip: "zero_IPv4Hdr\<lparr>ip_versionIhl := 0x45, ip_tos := 0, ip_totalLen := BE (of_nat (IPv4_LEN + UDP_LEN + DHCP_LEN)),
      ip_ttl := 64, ip_protocol := 17, ip_checksum := 0, ip_srcIP := be_bytes (siaddr m), ip_dstIP := replicate 4 0xFF\<rparr> =
      server_ip0 (siaddr m)"
    by (simp add: server_ip0_def zero_IPv4Hdr_def BE_htons hdr_len_defs)
  have udp: "zero_UDPHdr\<lparr>udp_srcPort := BE 67, udp_dstPort := BE 68, udp_totalLen := BE (of_nat (UDP_LEN + DHCP_LEN)), udp_checksum := 0\<rparr> =
      server_udp"
    by (simp add: server_udp_def zero_UDPHdr_def BE_htons hdr_len_defs)
  have src: "my_memcpy (ip_srcIP zero_IPv4Hdr) (be_bytes (siaddr m)) 4 = Some (be_bytes (siaddr m))"
    by (simp add: my_memcpy_eq kmemcpy_def zero_IPv4Hdr_def)
  have dst: "my_memset (ip_dstIP zero_IPv4Hdr) 0xFF 4 = Some (replicate 4 0xFF)"
    by (subst my_memset_ok) (simp_all add: kmemset_def zero_IPv4Hdr_def)
  show ?thesis
    unfolding finish_response_def Let_def udp
    by (simp add: msg_hdr_def src dst ip [simplified] ipChecksum_eq server_ipv4_def server_frame_def frame_def)
      (simp add: server_ip0_def zero_IPv4Hdr_def BE_htons hdr_len_defs)
qed

lemma rd_pkt:
  assumes "eth_ok eth" and "ip_ok ip" and "dhcp_ok hdr" and "DHCP_OPTIONS_LEN \<le> length opts"
  shows "rd_DHCPPkt (frame eth ip udp hdr opts) (ETHER_LEN + IPv4_LEN + UDP_LEN) = Some \<lparr>dp_hdr = hdr, dp_options = take DHCP_OPTIONS_LEN opts\<rparr>"
  using rd_frame(4) [OF assms(1-3)] rd_frame(6) [OF assms(1-4)]
  by (simp add: rd_DHCPPkt_def MIN_RECV_LEN_def)

section \<open>One round of the loop\<close>

text \<open>The frame is a UDP datagram for the server port.\<close>

definition for_server :: "EthernetHdr \<Rightarrow> IPv4Hdr \<Rightarrow> UDPHdr \<Rightarrow> bool" where
  "for_server eth ip udp \<longleftrightarrow> eth_etherType eth = htons 0x800 \<and> ip_protocol ip = 17 \<and> udp_dstPort udp = htons 67"

definition request_len :: "UDPHdr \<Rightarrow> u32" where
  "request_len udp = ucast (htons (udp_totalLen udp)) - 8"

lemma unat_sent: "message_ok m \<Longrightarrow> 0 < (240 + of_nat (sent_len (options m)) :: u32)"
proof -
  assume "message_ok m"
  then have "sent_len (options m) \<le> 308" by (rule sent_lengths)
  then have "unat (240 + of_nat (sent_len (options m)) :: u32) = 240 + sent_len (options m)"
    by (simp add: unat_word_ariths(1) unat_of_nat)
  then show ?thesis by (simp add: word_less_nat_alt)
qed

lemma response_mac:
  "length mac = 6 \<Longrightarrow> my_memcpy (eth_srcMAC zero_EthernetHdr) mac 6 = Some mac"
  "my_memset (eth_dstMAC zero_EthernetHdr) 0xFF 6 = Some (replicate 6 0xFF)"
  by (simp add: my_memcpy_eq kmemcpy_def zero_EthernetHdr_def) (subst my_memset_ok; simp add: kmemset_def zero_EthernetHdr_def)

lemma kernel_frame_ignored:
  assumes "eth_ok eth" and "ip_ok ip" and "dhcp_ok hdr" and "DHCP_OPTIONS_LEN \<le> length opts" and "length mac = 6"
    and "\<not> for_server eth ip udp \<or> request_len udp < 240 \<or> dh_magic hdr \<noteq> htonl DHCP_MAGIC_COOKIE"
  shows "kernel_frame dec process mac s (frame eth ip udp hdr opts) ticks = Some (s, None)"
proof -
  note mac = response_mac(1) [OF assms(5)] and dst = response_mac(2)
  have port: "BE (udp_dstPort udp) = 67 \<longleftrightarrow> udp_dstPort udp = htons 67"
    by (metis BE_htons htons_htons)
  have magic: "BE32 (dh_magic hdr) = DHCP_MAGIC_COOKIE \<longleftrightarrow> dh_magic hdr = htonl DHCP_MAGIC_COOKIE"
    by (metis BE32_htonl htonl_htonl)
  have len: "ucast (BE (udp_totalLen udp)) - of_nat UDP_LEN = request_len udp"
    by (simp add: request_len_def BE_htons UDP_LEN_def)
  have et: "BE 0x800 = htons 0x800" by (rule BE_htons)
  show ?thesis
    using assms(6) unfolding kernel_frame_def Let_def for_server_def
    by (auto simp: rd_frame [OF assms(1-3)] rd_pkt [OF assms(1-4)] mac dst port magic len et ProcessDHCPHdr_def
        DHCP_FIXED_LEN_def msg_type_defs)
qed

text \<open>
  Lengths from 548 on are all the same to the adapter, since it takes at most 308 bytes of options.
  A UDP length below 8 is such a length: \<open>BE(udp->totalLen) - sizeof(UDPHdr)\<close> is unsigned.
\<close>

lemma hdrToMsg_long:
  assumes "548 \<le> n"
  shows "hdrToMsg p n = hdrToMsg p 548"
proof -
  have "unat n \<ge> 548" using assms by (simp add: word_le_nat_alt)
  then have "unat (n - 240) \<ge> 308" "240 < n" using unat_sub [of 240 n] by (simp_all add: word_le_nat_alt word_less_nat_alt)
  moreover from this have "n - 240 = 308" if "\<not> 308 < n - 240" using that by (simp add: word_less_nat_alt word_unat_eq_iff)
  ultimately show ?thesis
    unfolding hdrToMsg_def Let_def by (cases "308 < n - 240") (simp_all add: DHCP_FIXED_LEN_def OPTIONS_LEN_def)
qed

lemma request_len_cases:
  "htons (udp_totalLen udp) < 8 \<Longrightarrow> 548 \<le> request_len udp"
  "8 \<le> htons (udp_totalLen udp) \<Longrightarrow> htons (udp_totalLen udp) < 248 \<Longrightarrow> request_len udp < 240"
proof -
  let ?l = "ucast (htons (udp_totalLen udp)) :: u32"
  have u: "unat ?l = unat (htons (udp_totalLen udp))"
    using unat_less_pow [of "htons (udp_totalLen udp)"] by (simp add: unsigned_ucast_eq take_bit_nat_eq_self)
  have d: "unat (?l - 8) = (if 8 \<le> ?l then unat ?l - 8 else unat ?l + 2 ^ 32 - 8)"
    by (simp add: unat_sub_if_size word_size word_le_nat_alt)
  show "548 \<le> request_len udp" if "htons (udp_totalLen udp) < 8"
    using that d u by (simp add: request_len_def word_le_nat_alt word_less_nat_alt)
  show "request_len udp < 240" if "8 \<le> htons (udp_totalLen udp)" "htons (udp_totalLen udp) < 248"
    using that d u by (simp add: request_len_def word_le_nat_alt word_less_nat_alt)
qed

lemma kernel_frame_len_only:
  assumes "eth_ok eth" and "ip_ok ip" and "dhcp_ok hdr" and "DHCP_OPTIONS_LEN \<le> length opts" and "length mac = 6"
    and "udp_dstPort udp' = udp_dstPort udp" and "548 \<le> request_len udp" and "548 \<le> request_len udp'"
  shows "kernel_frame dec process mac s (frame eth ip udp' hdr opts) ticks = kernel_frame dec process mac s (frame eth ip udp hdr opts) ticks"
proof -
  note mac = response_mac(1) [OF assms(5)] and dst = response_mac(2)
  have len: "ucast (BE (udp_totalLen u)) - of_nat UDP_LEN = request_len u" for u
    by (simp add: request_len_def BE_htons UDP_LEN_def)
  have msg: "hdrToMsg p (request_len udp') = hdrToMsg p (request_len udp)" for p
    using hdrToMsg_long assms(7,8) by metis
  have "\<not> request_len udp < DHCP_FIXED_LEN" "\<not> request_len udp' < DHCP_FIXED_LEN"
    using assms(7,8) by (simp_all add: DHCP_FIXED_LEN_def word_less_nat_alt word_le_nat_alt)
  then have "ProcessDHCPHdr p (request_len udp') = ProcessDHCPHdr p (request_len udp)" for p
    by (simp add: ProcessDHCPHdr_def msg)
  moreover have "CraftDHCPAck process s p (request_len udp') ticks = CraftDHCPAck process s p (request_len udp) ticks" for p
    by (simp add: CraftDHCPAck_def msg)
  ultimately show ?thesis
    unfolding kernel_frame_def Let_def
    by (simp add: rd_frame [OF assms(1-3)] rd_pkt [OF assms(1-4)] len mac dst assms(6) cong: if_cong)
qed

text \<open>The response that a branch sends for the message the library wrote.\<close>

definition answered :: "u8 list \<Rightarrow> dhcp_message_t \<Rightarrow> u8 list option" where
  "answered mac m = (if op m = 0 then None else Some (server_frame mac m))"

lemma kernel_frame_answers:
  assumes "eth_ok eth" and "ip_ok ip" and "dhcp_ok hdr" and "DHCP_OPTIONS_LEN \<le> length opts" and "length mac = 6"
    and "for_server eth ip udp" and "pkt = \<lparr>dp_hdr = hdr, dp_options = take DHCP_OPTIONS_LEN opts\<rparr>"
    and "ProcessDHCPHdr pkt (request_len udp) = Some type"
    and "process s (pkt_msg pkt (if type = DHCP_REQUEST then request_len udp else 552)) zero_message (ts_in_sec ticks) = Some (s', m)"
    and "op m = 0 \<or> message_ok m \<and> dhcp_get_message_type m \<noteq> None"
  shows "type = DHCP_DISCOVER \<or> type = DHCP_REQUEST \<Longrightarrow>
      kernel_frame dec process mac s (frame eth ip udp hdr opts) ticks = Some (s', answered mac m)"
    and "type = DHCP_DECLINE \<Longrightarrow>
      kernel_frame dec process mac s (frame eth ip udp hdr opts) ticks = Some (if dec then s' else s, None)"
    and "type \<noteq> DHCP_DISCOVER \<Longrightarrow> type \<noteq> DHCP_REQUEST \<Longrightarrow> type \<noteq> DHCP_DECLINE \<Longrightarrow>
      kernel_frame dec process mac s (frame eth ip udp hdr opts) ticks = Some (s, None)"
proof -
  note mac = response_mac(1) [OF assms(5)] and dst = response_mac(2)
  have port: "BE (udp_dstPort udp) = 67" "eth_etherType eth = BE 0x800" "ip_protocol ip = 17"
    using assms(6) by (simp_all add: for_server_def BE_htons)
  have eth: "zero_EthernetHdr\<lparr>eth_srcMAC := mac, eth_dstMAC := replicate 6 0xFF, eth_etherType := BE 0x800\<rparr> = server_eth mac"
    by (simp add: server_eth_def zero_EthernetHdr_def BE_htons)
  have len: "ucast (BE (udp_totalLen udp)) - of_nat UDP_LEN = request_len udp"
    by (simp add: request_len_def BE_htons UDP_LEN_def)
  have pkt: "pkt_ok pkt" using assms(3,4,7) by (simp add: pkt_ok_def)
  note rd = rd_frame [OF assms(1-3)] rd_pkt [OF assms(1-4), folded assms(7)]
  note start = mac dst port eth len rd assms(8)
  have sz: "SIZEOF_DHCPPkt = 552" by (simp add: SIZEOF_DHCPPkt_def)
  note conv = hdrToMsg_ok [OF pkt] sz
  have fin: "message_ok m \<Longrightarrow> 0 < (240 + of_nat (sent_len (options m)) :: u32)" by (rule unat_sent)
  note res = msgToHdr_ok finish_response_ok fin
  have types: "DHCP_REQUEST \<noteq> DHCP_DISCOVER" "DHCP_DECLINE \<noteq> DHCP_DISCOVER" "DHCP_DECLINE \<noteq> DHCP_REQUEST"
    by (simp_all add: msg_type_defs)
  show "kernel_frame dec process mac s (frame eth ip udp hdr opts) ticks = Some (s', answered mac m)"
    if "type = DHCP_DISCOVER \<or> type = DHCP_REQUEST"
    using that
  proof
    assume t: "type = DHCP_DISCOVER"
    then have p: "process s (pkt_msg pkt 552) zero_message (ts_in_sec ticks) = Some (s', m)" using assms(9) types by simp
    show ?thesis
      unfolding kernel_frame_def Let_def
      using assms(10) by (auto simp: start t CraftDHCPOffer_def conv p res answered_def simp del: of_nat_add)
  next
    assume t: "type = DHCP_REQUEST"
    then have p: "process s (pkt_msg pkt (request_len udp)) zero_message (ts_in_sec ticks) = Some (s', m)" using assms(9) by simp
    show ?thesis
      unfolding kernel_frame_def Let_def
      using assms(10) by (auto simp: start t types CraftDHCPAck_def conv p res answered_def simp del: of_nat_add)
  qed
  show "kernel_frame dec process mac s (frame eth ip udp hdr opts) ticks = Some (if dec then s' else s, None)"
    if t: "type = DHCP_DECLINE"
  proof -
    have p: "process s (pkt_msg pkt 552) zero_message (ts_in_sec ticks) = Some (s', m)" using assms(9) t types by simp
    show ?thesis unfolding kernel_frame_def Let_def by (auto simp: start t types HandleDHCPDecline_def conv p)
  qed
  show "kernel_frame dec process mac s (frame eth ip udp hdr opts) ticks = Some (s, None)"
    if "type \<noteq> DHCP_DISCOVER" "type \<noteq> DHCP_REQUEST" "type \<noteq> DHCP_DECLINE"
    unfolding kernel_frame_def Let_def by (simp add: start that)
qed

section \<open>The loop refines the library's specification\<close>

lemma represents_more:
  assumes "represents (options (pkt_msg pkt n)) is" and "pkt_ok pkt"
  shows "represents (options (pkt_msg pkt 552)) is"
proof -
  let ?k = "opt_count n" and ?e = "encode_items is" and ?o = "dp_options pkt"
  have k: "?k \<le> OPTIONS_LEN" by (simp add: opt_count_def)
  have full: "options (pkt_msg pkt 552) = take OPTIONS_LEN ?o"
    by (simp add: pkt_msg_def Let_def opt_count_def OPTIONS_LEN_def)
  have os: "options (pkt_msg pkt n) = take ?k ?o @ replicate (OPTIONS_LEN - ?k) 0" by (simp add: pkt_msg_def Let_def)
  have len: "length ?o = DHCP_OPTIONS_LEN" using assms(2) by (simp add: pkt_ok_def)
  note R = assms(1) [unfolded represents_def os]
  obtain rest where rest: "take ?k ?o @ replicate (OPTIONS_LEN - ?k) 0 = ?e @ DHCP_OPT_END # rest"
    using representsE [OF assms(1)] os by metis
  have "length ?e < ?k"
  proof (rule ccontr)
    assume neg: "\<not> length ?e < ?k"
    have "length ?e < OPTIONS_LEN" using arg_cong [OF rest, of length] k len by (simp add: OPTIONS_LEN_def DHCP_OPTIONS_LEN_def)
    then have "(take ?k ?o @ replicate (OPTIONS_LEN - ?k) 0) ! length ?e = 0"
      using neg k len by (simp add: nth_append OPTIONS_LEN_def DHCP_OPTIONS_LEN_def)
    then show False unfolding rest by (simp add: DHCP_OPT_END_def)
  qed
  then have "take (length ?e + 1) (take OPTIONS_LEN ?o) = take (length ?e + 1) (take ?k ?o @ replicate (OPTIONS_LEN - ?k) 0)"
    using k len by (simp add: min_def OPTIONS_LEN_def DHCP_OPTIONS_LEN_def)
  then show ?thesis
    using R len by (simp add: represents_def full OPTIONS_LEN_def DHCP_OPTIONS_LEN_def)
qed

lemma pkt_msg_fields: "reply_header (pkt_msg pkt a) m = reply_header (pkt_msg pkt b) m" "chaddr (pkt_msg pkt a) = dh_chaddr (dp_hdr pkt)"
  by (simp_all add: pkt_msg_def Let_def reply_header_def)

lemma realises_pkt: "realises (pkt_msg pkt a) c resp r m = realises (pkt_msg pkt b) c resp r m"
  using pkt_msg_fields(1) [of pkt a m b] by (cases r) simp_all

lemma realises_cases:
  assumes "realises request c zero_message r m"
  shows "op m = 0 \<longleftrightarrow> r = NoReply" and "op m = 0 \<or> message_ok m \<and> dhcp_get_message_type m \<noteq> None"
  using assms by (cases r; auto simp: reply_header_def zero_message_def dest: dhcp_get_message_type_items)+

text \<open>What a round sends: nothing, or the frame of a message of the library.\<close>

definition sent_by :: "u8 list \<Rightarrow> u8 list option \<Rightarrow> bool" where
  "sent_by mac f \<longleftrightarrow> (\<forall>g. f = Some g \<longrightarrow> (\<exists>m. message_ok m \<and> g = server_frame mac m))"

lemma sent_by_None [simp]: "sent_by mac None"
  by (simp add: sent_by_def)

lemma sent_by_answered: "op m = 0 \<or> message_ok m \<and> dhcp_get_message_type m \<noteq> None \<Longrightarrow> sent_by mac (answered mac m)"
  by (auto simp: sent_by_def answered_def)

text \<open>
  A buffer that holds either no DHCP request for the server or one whose option field is well
  formed: the library assumes an END option.
\<close>

definition good_frame :: "u8 list \<Rightarrow> bool" where
  "good_frame buf \<longleftrightarrow> (\<exists>eth ip udp hdr opts. eth_ok eth \<and> ip_ok ip \<and> dhcp_ok hdr \<and> DHCP_OPTIONS_LEN \<le> length opts \<and>
     buf = frame eth ip udp hdr opts \<and>
     (\<not> for_server eth ip udp \<or> request_len udp < 240 \<or> dh_magic hdr \<noteq> htonl DHCP_MAGIC_COOKIE \<or>
      (\<exists>js. represents (options (pkt_msg \<lparr>dp_hdr = hdr, dp_options = take DHCP_OPTIONS_LEN opts\<rparr> (request_len udp))) js)))"

context address_server
begin

lemma kernel_serves:
  assumes inv: "inv s" and f: "eth_ok eth" "ip_ok ip" "dhcp_ok hdr" "DHCP_OPTIONS_LEN \<le> length opts" "length mac = 6"
    and srv: "for_server eth ip udp" "240 \<le> request_len udp" "dh_magic hdr = htonl DHCP_MAGIC_COOKIE"
    and pkt: "pkt = \<lparr>dp_hdr = hdr, dp_options = take DHCP_OPTIONS_LEN opts\<rparr>"
    and rep: "represents (options (pkt_msg pkt (request_len udp))) is"
    and dec: "dec \<or> (\<forall>s m. decline s m = Some s)"
  shows "\<exists>s' r m. kernel_frame dec (serve offer commit decline) mac s (frame eth ip udp hdr opts) ticks = Some (s', answered mac m) \<and>
    inv s' \<and> outcome offer commit decline s is (dh_chaddr hdr) (ts_in_sec ticks) = Some (s', r) \<and>
    realises (pkt_msg pkt (request_len udp)) (config s') zero_message r m \<and>
    (\<forall>ip. r = Offer ip \<or> r = Ack ip \<longrightarrow> pool_start (config s') \<le> ip \<and> ip \<le> pool_end (config s'))"
proof -
  let ?n = "request_len udp"
  have ok: "pkt_ok pkt" using f(3,4) pkt by (simp add: pkt_ok_def)
  have len: "\<not> ?n < DHCP_FIXED_LEN" using srv(2) by (simp add: DHCP_FIXED_LEN_def not_less)
  have magic: "BE32 (dh_magic (dp_hdr pkt)) = DHCP_MAGIC_COOKIE" using srv(3) pkt by (simp add: BE32_htonl)
  obtain type where type: "dhcp_get_message_type (pkt_msg pkt ?n) = Some type"
    "type = (case item_lookup is DHCP_OPT_MESSAGE_TYPE of Some (t # _) \<Rightarrow> t | _ \<Rightarrow> 0)"
    using dhcp_get_message_type_items [OF rep] by blast
  have proc: "ProcessDHCPHdr pkt ?n = Some type"
    using len magic type(1) by (simp add: ProcessDHCPHdr_def hdrToMsg_ok [OF ok])
  let ?q = "pkt_msg pkt (if type = DHCP_REQUEST then ?n else 552)"
  have wf: "wf_request ?q is"
    using rep represents_more [OF rep ok] ok by (auto simp: wf_request_def pkt_msg_fields pkt_ok_def dhcp_ok_def)
  obtain s' m r where s': "serve offer commit decline s ?q zero_message (ts_in_sec ticks) = Some (s', m)" "inv s'"
    "outcome offer commit decline s is (chaddr ?q) (ts_in_sec ticks) = Some (s', r)" "realises ?q (config s') zero_message r m"
    "\<forall>ip. r = Offer ip \<or> r = Ack ip \<longrightarrow> pool_start (config s') \<le> ip \<and> ip \<le> pool_end (config s')"
    using serve_ok [OF inv wf] by blast
  have out: "outcome offer commit decline s is (dh_chaddr hdr) (ts_in_sec ticks) = Some (s', r)"
    using s'(3) pkt by (simp add: pkt_msg_fields)
  note A = kernel_frame_answers [where process = "serve offer commit decline" and dec = dec,
      OF f srv(1) pkt proc s'(1) realises_cases(2) [OF s'(4)]]
  have "kernel_frame dec (serve offer commit decline) mac s (frame eth ip udp hdr opts) ticks = Some (s', answered mac m)"
  proof -
    consider "type = DHCP_DISCOVER \<or> type = DHCP_REQUEST" | "type = DHCP_DECLINE"
      | "type \<noteq> DHCP_DISCOVER" "type \<noteq> DHCP_REQUEST" "type \<noteq> DHCP_DECLINE" by blast
    then show ?thesis
    proof cases
      case 1
      then show ?thesis by (rule A(1))
    next
      case 2
      then have d: "decline s (dh_chaddr hdr) = Some s'" "r = NoReply"
        using out type(2) by (auto simp: outcome_def msg_type_defs bind_eq_Some_iff split: option.splits list.splits)
      then have "m = zero_message" using s'(4) by simp
      moreover have "dec \<or> s' = s" using dec d(1) by auto
      ultimately show ?thesis using A(2) [OF 2] by (auto simp: answered_def zero_message_def)
    next
      case 3
      then have d: "s' = s" "r = NoReply"
        using out type(2) by (auto simp: outcome_def split: option.splits list.splits)
      then have "m = zero_message" using s'(4) by simp
      then show ?thesis using A(3) [OF 3] d by (simp add: answered_def zero_message_def)
    qed
  qed
  moreover have "realises (pkt_msg pkt ?n) (config s') zero_message r m" using s'(4) realises_pkt by blast
  ultimately show ?thesis using s'(2,5) out by blast
qed

lemma kernel_frame_good:
  assumes "inv s" and "good_frame buf" and "length mac = 6" and "dec \<or> (\<forall>s m. decline s m = Some s)"
  shows "\<exists>s' f. kernel_frame dec (serve offer commit decline) mac s buf ticks = Some (s', f) \<and> inv s' \<and> sent_by mac f"
proof -
  from assms(2) obtain eth ip udp hdr opts where
    f: "eth_ok eth" "ip_ok ip" "dhcp_ok hdr" "DHCP_OPTIONS_LEN \<le> length opts" "buf = frame eth ip udp hdr opts"
    and c: "\<not> for_server eth ip udp \<or> request_len udp < 240 \<or> dh_magic hdr \<noteq> htonl DHCP_MAGIC_COOKIE \<or>
      (\<exists>js. represents (options (pkt_msg \<lparr>dp_hdr = hdr, dp_options = take DHCP_OPTIONS_LEN opts\<rparr> (request_len udp))) js)"
    unfolding good_frame_def by blast
  show ?thesis
  proof (cases "\<not> for_server eth ip udp \<or> request_len udp < 240 \<or> dh_magic hdr \<noteq> htonl DHCP_MAGIC_COOKIE")
    case True
    from kernel_frame_ignored [OF f(1-4) assms(3) True, of dec "serve offer commit decline" s ticks] assms(1) f(5)
    show ?thesis by simp
  next
    case False
    then have "for_server eth ip udp" "240 \<le> request_len udp" "dh_magic hdr = htonl DHCP_MAGIC_COOKIE" by (simp_all add: not_less)
    with kernel_serves [OF assms(1) f(1-4) assms(3) this refl _ assms(4)] c False f(5) realises_cases(2) sent_by_answered
    show ?thesis by blast
  qed
qed

lemma kernel_run_ok:
  assumes "inv s" and "\<forall>(buf, ticks) \<in> set fs. good_frame buf" and "length mac = 6" and "dec \<or> (\<forall>s m. decline s m = Some s)"
  shows "\<exists>s' rs. kernel_run dec (serve offer commit decline) mac s fs = Some (s', rs) \<and> inv s' \<and> length rs = length fs \<and>
    (\<forall>f \<in> set rs. sent_by mac f)"
  using assms(1,2)
proof (induction fs arbitrary: s)
  case (Cons x fs)
  obtain buf ticks where x: "x = (buf, ticks)" by (cases x)
  with Cons.prems have g: "good_frame buf" by simp
  obtain s1 f where s1: "kernel_frame dec (serve offer commit decline) mac s buf ticks = Some (s1, f)" "inv s1" "sent_by mac f"
    using kernel_frame_good [OF Cons.prems(1) g assms(3,4)] by blast
  with Cons.IH [OF s1(2)] Cons.prems(2) x show ?case by auto
qed simp

end

end
