(* ===== verification/Exchange.thy ===== *)
theory Exchange
  imports Kernel_Correct
begin

text \<open>
  The load generator and the server together: the frame that \<open>build_frame\<close> makes goes through the
  receive loop of the server, and the frame that comes back goes through \<open>parse_frame\<close> and
  \<open>parse_xid\<close>.  As before, the lemmas hold for every lease mode.
\<close>

section \<open>The request of a client at the server\<close>

definition client_pkt :: "build_meta \<Rightarrow> DHCPPkt" where
  "client_pkt b = \<lparr>dp_hdr = client_hdr b, dp_options = client_opts b 312\<rparr>"

text \<open>The receive buffer of the server: the frame of the client and what was behind it before.\<close>

definition received :: "build_meta \<Rightarrow> u8 list \<Rightarrow> u8 list" where
  "received b rest = frame (client_eth b) client_ip client_udp (client_hdr b) (client_opts b 312 @ rest)"

lemma request_len_client: "request_len client_udp = 552"
  by (simp add: request_len_def client_udp_def)

lemma client_for_server: "for_server (client_eth b) client_ip client_udp"
  by (simp add: for_server_def client_eth_def client_ip_def client_ip0_def client_udp_def)

lemma client_magic: "dh_magic (client_hdr b) = htonl DHCP_MAGIC_COOKIE"
  by (simp add: client_hdr_def DHCP_MAGIC_COOKIE_def)

lemma client_represents:
  assumes "build_meta_ok b"
  shows "represents (options (pkt_msg (client_pkt b) 552)) (client_items b)"
proof -
  let ?e = "encode_items (client_items b)"
  have l: "length ?e \<le> 15" by (rule length_client_items [OF assms])
  have items: "list_all item_ok (client_items b)"
    using assms by (auto simp: client_items_def build_meta_ok_def frame_opt_defs opt_code_defs)
  have "options (pkt_msg (client_pkt b) 552) = take OPTIONS_LEN (client_opts b 312)"
    by (simp add: pkt_msg_def Let_def opt_count_def OPTIONS_LEN_def client_pkt_def)
  also have "\<dots> = ?e @ DHCP_OPT_END # replicate (OPTIONS_LEN - 1 - length ?e) 0"
    using l by (simp add: client_opts_def OPTIONS_LEN_def OPT_END_def DHCP_OPT_END_def take_Cons' min_def)
  finally show ?thesis using representsI [OF items, of "replicate (OPTIONS_LEN - 1 - length ?e) 0"] l
    by (simp add: OPTIONS_LEN_def)
qed

lemma build_frame_received:
  assumes "build_meta_ok b" and "MIN_SEND_LEN \<le> n" and "n \<le> length buf"
  shows "\<exists>buf'. build_frame buf n b = Some (buf', MIN_SEND_LEN) \<and> length buf' = length buf \<and>
    (\<forall>k rest. MIN_SEND_LEN \<le> k \<and> k \<le> n \<longrightarrow> (\<exists>rest'. take k buf' @ rest = received b rest'))"
proof -
  let ?k = "n - MIN_RECV_LEN" and ?e = "encode_items (client_items b)"
  let ?b = "frame (client_eth b) client_ip client_udp (client_hdr b) (client_opts b ?k @ drop n buf)"
  have k: "312 \<le> ?k" using assms(2) by (simp add: frame_len_defs)
  have l: "length ?e \<le> 15" by (rule length_client_items [OF assms(1)])
  have split: "client_opts b ?k = client_opts b 312 @ replicate (?k - 312) 0"
    using l k by (simp add: client_opts_def flip: replicate_add)
  have ok: "eth_ok (client_eth b)" "ip_ok client_ip" "dhcp_ok (client_hdr b)" using assms(1) by simp_all
  have len: "length (client_opts b 312) = 312" by (rule length_client_opts [OF assms(1)]) simp
  have full: "length ?b = length buf"
    using assms(2,3) ok length_client_opts [OF assms(1) k] by (simp add: MIN_RECV_LEN_def MIN_SEND_LEN_def DHCP_LEN_def)
  have "\<exists>rest'. take j ?b @ rest = received b rest'" if j: "MIN_SEND_LEN \<le> j" "j \<le> n" for j rest
  proof -
    let ?h = "frame (client_eth b) client_ip client_udp (client_hdr b) (client_opts b 312)"
    have h: "length ?h = MIN_SEND_LEN" using ok len by (simp add: frame_len_defs)
    have "?b = ?h @ replicate (?k - 312) 0 @ drop n buf" by (simp add: split frame_def)
    then have "take j ?b = ?h @ take (j - MIN_SEND_LEN) (replicate (?k - 312) 0 @ drop n buf)"
      using j(1) h by simp
    then have "take j ?b @ rest = received b (take (j - MIN_SEND_LEN) (replicate (?k - 312) 0 @ drop n buf) @ rest)"
      by (simp add: received_def frame_def)
    then show ?thesis by blast
  qed
  then show ?thesis using build_frame_ok [OF assms] full by auto
qed

section \<open>The reply of the server at the client\<close>

lemma server_reply_ok: "reply_ok (server_eth mac) (server_ipv4 ip) server_udp 312"
proof -
  have "(server_ipv4 ip)\<lparr>ip_checksum := 0\<rparr> = server_ip0 ip" by (simp add: server_ipv4_def server_ip0_def zero_IPv4Hdr_def)
  then show ?thesis
    by (simp add: reply_ok_def server_eth_def server_ipv4_def server_ip0_def server_udp_def hdr_len_defs)
qed

lemma length_server_frame [simp]: "message_ok m \<Longrightarrow> length mac = 6 \<Longrightarrow> length (server_frame mac m) = MIN_SEND_LEN"
  using sent_lengths(2) [of m] by (simp add: server_frame_def frame_len_defs)

text \<open>The frame of any message of the library passes the header checks of the client.\<close>

lemma server_frame_valid:
  assumes "message_ok m" and "length mac = 6"
  shows "parse_xid (server_frame mac m @ rest) MIN_SEND_LEN = Some (server_frame mac m @ rest, Some (ntohl (xid m)))"
proof -
  let ?o = "sent_options (options m) DHCP_OPTIONS_LEN"
  have fr: "server_frame mac m @ rest = frame (server_eth mac) (server_ipv4 (siaddr m)) server_udp (msg_hdr m) (?o @ rest)"
    by (simp add: server_frame_def frame_def)
  have n: "MIN_SEND_LEN = MIN_RECV_LEN + 312" by (simp add: frame_len_defs)
  have l: "312 \<le> length (?o @ rest)" using sent_lengths(2) [OF assms(1)] by simp
  have ok: "eth_ok (server_eth mac)" "ip_ok (server_ipv4 (siaddr m))" "dhcp_ok (msg_hdr m)" using assms by simp_all
  show ?thesis unfolding fr n using parse_xid_frame [OF ok l] server_reply_ok by (simp add: msg_hdr_def)
qed

text \<open>What the client reads from a reply: an address for OFFER and ACK, nothing but the type for NAK.\<close>

definition read_reply :: "parse_meta \<Rightarrow> u8 list \<Rightarrow> dhcp_config_t \<Rightarrow> u8 \<Rightarrow> u32 \<Rightarrow> parse_meta" where
  "read_reply p mac c type ip = (reset_meta p)\<lparr>pm_server_mac := mac, pm_server_ip := be_bytes (server_ip c),
     pm_offered_ip := be_bytes ip, pm_subnet_mask := [0xFF, 0, 0, 0], pm_dhcp_type := ucast type\<rparr>"

definition read_nak :: "parse_meta \<Rightarrow> u8 list \<Rightarrow> u32 \<Rightarrow> parse_meta" where
  "read_nak p mac si = (reset_meta p)\<lparr>pm_server_mac := mac, pm_server_ip := be_bytes si,
     pm_offered_ip := be_bytes 0, pm_dhcp_type := ucast DHCP_NAK\<rparr>"

lemma fold_pads: "foldl item_meta m (replicate n Pad) = m"
  by (induction n) simp_all

lemma parse_cut:
  assumes "length mac = 6"
  shows "foldl item_meta (header_meta p (server_eth mac) (msg_hdr m)) (cut_items c type) =
    (read_reply p mac c type (yiaddr m))\<lparr>pm_server_ip := be_bytes (server_ip c)\<rparr>"
  using assms
  by (simp add: cut_items_def fold_pads parse_option_def frame_opt_defs opt_code_defs header_meta_def read_reply_def server_eth_def
      msg_hdr_def reset_meta_def)

lemma parse_server_frame:
  assumes "message_ok m" and "length mac = 6" and "xid m = htonl (pm_xid p)"
    and "parse_options (sent_options (options m) DHCP_OPTIONS_LEN) 312 0 (header_meta p (server_eth mac) (msg_hdr m)) = Some p'"
  shows "\<exists>buf'. parse_frame (server_frame mac m @ rest) MIN_SEND_LEN p = Some (buf', p')"
    and "parse_xid (server_frame mac m @ rest) MIN_SEND_LEN = Some (server_frame mac m @ rest, Some (pm_xid p))"
proof -
  let ?o = "sent_options (options m) DHCP_OPTIONS_LEN"
  have ok: "eth_ok (server_eth mac)" "ip_ok (server_ipv4 (siaddr m))" "dhcp_ok (msg_hdr m)" using assms(1,2) by simp_all
  have len: "length ?o = 312" by (rule sent_lengths(2) [OF assms(1)])
  have fr: "server_frame mac m @ rest = frame (server_eth mac) (server_ipv4 (siaddr m)) server_udp (msg_hdr m) (?o @ rest)"
    by (simp add: server_frame_def frame_def)
  have n: "MIN_SEND_LEN = MIN_RECV_LEN + 312" by (simp add: frame_len_defs)
  have x: "dh_xid (msg_hdr m) = htonl (pm_xid p)" using assms(3) by (simp add: msg_hdr_def)
  have l: "312 \<le> length (?o @ rest)" using len by simp
  show "\<exists>buf'. parse_frame (server_frame mac m @ rest) MIN_SEND_LEN p = Some (buf', p')"
    unfolding fr n using parse_frame_accepted [OF ok l server_reply_ok x] assms(4) len by auto
  show "parse_xid (server_frame mac m @ rest) MIN_SEND_LEN = Some (server_frame mac m @ rest, Some (pm_xid p))"
    using server_frame_valid [OF assms(1,2)] assms(3) by simp
qed

section \<open>A message of the library, read by the client\<close>

lemma reply_items_read:
  assumes "represents (options m) (reply_items c type)" and "masked c" and "type \<noteq> 0xFF" and "length mac = 6"
  shows "parse_options (sent_options (options m) DHCP_OPTIONS_LEN) 312 0 (header_meta p (server_eth mac) (msg_hdr m)) =
    Some (read_reply p mac c type (yiaddr m))"
proof -
  have items: "list_all item_ok (cut_items c type)" by (simp add: cut_items_def list_all_iff)
  have len: "length (encode_items (cut_items c type)) = 312" by (simp add: cut_items_def encode_pads)
  show ?thesis
    unfolding sent_cut [OF assms(1-3)]
    using parse_options_unterminated [OF items len [symmetric]] parse_cut [OF assms(4)] by (simp add: read_reply_def)
qed

lemma nak_items_read:
  assumes "represents (options m) [Opt DHCP_OPT_MESSAGE_TYPE [DHCP_NAK]]" and "yiaddr m = 0"
  shows "parse_options (sent_options (options m) DHCP_OPTIONS_LEN) 312 0 (header_meta p (server_eth mac) (msg_hdr m)) =
    Some (read_nak p mac (siaddr m))"
proof -
  have e: "encode_items [Opt DHCP_OPT_MESSAGE_TYPE [DHCP_NAK]] @ DHCP_OPT_END # replicate 308 0 =
      encode_items [Opt DHCP_OPT_MESSAGE_TYPE [DHCP_NAK]] @ OPT_END # replicate 308 (0 :: u8)"
    by (simp add: DHCP_OPT_END_def OPT_END_def)
  have "parse_options (encode_items [Opt DHCP_OPT_MESSAGE_TYPE [DHCP_NAK]] @ OPT_END # replicate 308 0) 312 0
      (header_meta p (server_eth mac) (msg_hdr m)) = Some (foldl item_meta (header_meta p (server_eth mac) (msg_hdr m))
        [Opt DHCP_OPT_MESSAGE_TYPE [DHCP_NAK]])"
    by (rule parse_options_encoded) simp_all
  then show ?thesis
    unfolding sent_nak [OF assms(1)] e using assms(2)
    by (simp add: parse_option_def frame_opt_defs opt_code_defs header_meta_def read_nak_def server_eth_def msg_hdr_def reset_meta_def)
qed

text \<open>What the client reads when the server's reply is \<open>r\<close>; without a reply it keeps waiting.\<close>

fun client_reads :: "parse_meta \<Rightarrow> u8 list \<Rightarrow> dhcp_config_t \<Rightarrow> reply \<Rightarrow> parse_meta \<Rightarrow> bool" where
  "client_reads p mac c NoReply p' = False"
| "client_reads p mac c (Offer ip) p' = (p' = read_reply p mac c DHCP_OFFER ip)"
| "client_reads p mac c (Ack ip) p' = (p' = read_reply p mac c DHCP_ACK ip)"
| "client_reads p mac c Nak p' = (\<exists>si. p' = read_nak p mac si)"

lemma reply_read:
  assumes "realises request c zero_message r m" and "r \<noteq> NoReply" and "masked c" and "length mac = 6"
    and "xid request = htonl (pm_xid p)"
  shows "\<exists>buf' p'. parse_frame (server_frame mac m @ rest) MIN_SEND_LEN p = Some (buf', p') \<and> client_reads p mac c r p'"
    and "parse_xid (server_frame mac m @ rest) MIN_SEND_LEN = Some (server_frame mac m @ rest, Some (pm_xid p))"
proof -
  have m: "message_ok m" "xid m = htonl (pm_xid p)"
    using assms(1,2,5) by (cases r; simp add: reply_header_def)+
  have "\<exists>p'. parse_options (sent_options (options m) DHCP_OPTIONS_LEN) 312 0 (header_meta p (server_eth mac) (msg_hdr m)) = Some p' \<and>
      client_reads p mac c r p'"
  proof (cases r)
    case NoReply
    with assms(2) show ?thesis by simp
  next
    case (Offer ip)
    then show ?thesis using assms(1) reply_items_read [OF _ assms(3) _ assms(4), of m DHCP_OFFER p] by (auto simp: msg_type_defs)
  next
    case (Ack ip)
    then show ?thesis using assms(1) reply_items_read [OF _ assms(3) _ assms(4), of m DHCP_ACK p] by (auto simp: msg_type_defs)
  next
    case Nak
    then show ?thesis using assms(1) nak_items_read [of m p mac] by auto
  qed
  then obtain p' where p': "parse_options (sent_options (options m) DHCP_OPTIONS_LEN) 312 0 (header_meta p (server_eth mac) (msg_hdr m)) = Some p'"
    "client_reads p mac c r p'" by blast
  note P = parse_server_frame [OF m(1) assms(4) m(2) p'(1)]
  show "\<exists>buf' p'. parse_frame (server_frame mac m @ rest) MIN_SEND_LEN p = Some (buf', p') \<and> client_reads p mac c r p'"
    using P(1) p'(2) by blast
  show "parse_xid (server_frame mac m @ rest) MIN_SEND_LEN = Some (server_frame mac m @ rest, Some (pm_xid p))" by (rule P(2))
qed

section \<open>Request and reply\<close>

text \<open>The hardware address of the client as the server sees it.\<close>

definition client_chaddr :: "u8 list \<Rightarrow> u8 list" where
  "client_chaddr mac = mac @ replicate 10 0"

text \<open>The frame \<open>g\<close> passes the checks of the client whose transaction is \<open>x\<close>, and it reads the reply \<open>r\<close> from it.\<close>

definition readable :: "u8 list \<Rightarrow> dhcp_config_t \<Rightarrow> reply \<Rightarrow> u32 \<Rightarrow> u8 list \<Rightarrow> bool" where
  "readable mac c r x g \<longleftrightarrow> length g = MIN_SEND_LEN \<and>
     (\<forall>p rest. pm_xid p = x \<longrightarrow>
        (\<exists>buf' p'. parse_frame (g @ rest) MIN_SEND_LEN p = Some (buf', p') \<and> client_reads p mac c r p') \<and>
        parse_xid (g @ rest) MIN_SEND_LEN = Some (g @ rest, Some x))"

context address_server
begin

lemma client_served:
  assumes "inv s" and "build_meta_ok b" and "length mac = 6" and "dec \<or> (\<forall>s m. decline s m = Some s)"
  shows "\<exists>s' r f. kernel_frame dec (serve offer commit decline) mac s (received b rest) ticks = Some (s', f) \<and> inv s' \<and>
    outcome offer commit decline s (client_items b) (client_chaddr (bm_client_mac b)) (ts_in_sec ticks) = Some (s', r) \<and>
    (\<forall>ip. r = Offer ip \<or> r = Ack ip \<longrightarrow> pool_start (config s') \<le> ip \<and> ip \<le> pool_end (config s')) \<and>
    (case f of None \<Rightarrow> r = NoReply
     | Some g \<Rightarrow> r \<noteq> NoReply \<and> (masked (config s') \<longrightarrow> readable mac (config s') r (bm_xid b) g))"
proof -
  have ok: "eth_ok (client_eth b)" "ip_ok client_ip" "dhcp_ok (client_hdr b)" using assms(2) by simp_all
  have len: "length (client_opts b 312) = 312" by (rule length_client_opts [OF assms(2)]) simp
  have l: "DHCP_OPTIONS_LEN \<le> length (client_opts b 312 @ rest)" using len by (simp add: DHCP_OPTIONS_LEN_def)
  have n: "240 \<le> request_len client_udp" by (simp add: request_len_client)
  have pkt: "client_pkt b = \<lparr>dp_hdr = client_hdr b, dp_options = take DHCP_OPTIONS_LEN (client_opts b 312 @ rest)\<rparr>"
    using len by (simp add: client_pkt_def DHCP_OPTIONS_LEN_def)
  have rep: "represents (options (pkt_msg (client_pkt b) (request_len client_udp))) (client_items b)"
    using client_represents [OF assms(2)] by (simp add: request_len_client)
  obtain s' r m where k: "kernel_frame dec (serve offer commit decline) mac s (received b rest) ticks = Some (s', answered mac m)" "inv s'"
    "outcome offer commit decline s (client_items b) (client_chaddr (bm_client_mac b)) (ts_in_sec ticks) = Some (s', r)"
    "realises (pkt_msg (client_pkt b) (request_len client_udp)) (config s') zero_message r m"
    "\<forall>ip. r = Offer ip \<or> r = Ack ip \<longrightarrow> pool_start (config s') \<le> ip \<and> ip \<le> pool_end (config s')"
    using kernel_serves [OF assms(1) ok l assms(3) client_for_server n client_magic pkt rep assms(4), of ticks]
    by (auto simp: received_def client_hdr_def client_chaddr_def)
  have none: "answered mac m = None \<longleftrightarrow> r = NoReply" using realises_cases(1) [OF k(4)] by (auto simp: answered_def)
  show ?thesis
  proof (cases "answered mac m")
    case None
    with k none show ?thesis by auto
  next
    case (Some g)
    then have g: "g = server_frame mac m" "r \<noteq> NoReply" using none by (auto simp: answered_def split: if_splits)
    have x: "xid (pkt_msg (client_pkt b) (request_len client_udp)) = htonl (bm_xid b)"
      by (simp add: pkt_msg_def Let_def client_pkt_def client_hdr_def)
    have m: "message_ok m" using realises_cases [OF k(4)] g(2) by auto
    then have len_g: "length g = MIN_SEND_LEN" using assms(3) by (simp add: g(1))
    have "readable mac (config s') r (bm_xid b) g" if c: "masked (config s')"
      unfolding readable_def
    proof (intro conjI allI impI)
      show "length g = MIN_SEND_LEN" by (rule len_g)
      fix p :: parse_meta and rest' assume p: "pm_xid p = bm_xid b"
      note R = reply_read [OF k(4) g(2) c assms(3), of p rest', folded g(1)]
      show "\<exists>buf' p'. parse_frame (g @ rest') MIN_SEND_LEN p = Some (buf', p') \<and> client_reads p mac (config s') r p'"
        using R(1) x p by simp
      show "parse_xid (g @ rest') MIN_SEND_LEN = Some (g @ rest', Some (bm_xid b))" using R(2) x p by simp
    qed
    with k Some g(2) show ?thesis by auto
  qed
qed

end

end
