(* ===== verification/Frame_Properties.thy ===== *)
theory Frame_Properties
  imports Exchange Message_Properties
begin

text \<open>
  What the wire formats promise: the two checksum routines agree and verify, the parser of the
  load generator is safe on arbitrary bytes, a frame that it builds is read back by the server,
  and the conversion of a message to a packet keeps it up to the first byte \<open>0xFF\<close> of its options.
\<close>

text \<open>
  The two checksum routines are the same function.  \<open>ip_cksum\<close> of the load generator, over the
  bytes of a header, and \<open>ipChecksum\<close> of the server, over the header as an array of words, agree on
  every header.
\<close>

theorem checksums_agree:
  assumes "length (ip_srcIP h) = 4" and "length (ip_dstIP h) = 4"
  shows "ipChecksum h = ip_cksum (put_IPv4Hdr h)"
  using ipChecksum_eq assms by (simp add: ip_ok_def)

text \<open>
  A header with its checksum verifies.  The checksum is computed with the checksum field
  zeroed; the checksum of the complete header is then 0, which is the test of RFC 1071.
\<close>

theorem header_verifies:
  assumes "length (ip_srcIP h) = 4" and "length (ip_dstIP h) = 4" and "ip_versionIhl h \<noteq> 0"
  shows "ip_cksum (put_IPv4Hdr (h\<lparr>ip_checksum := ip_cksum (put_IPv4Hdr (h\<lparr>ip_checksum := 0\<rparr>))\<rparr>)) = 0"
  using checksum_verifies [of h] assms by (simp add: ip_ok_def)

text \<open>
  C36. The parsers are safe on every input.  For every buffer, whatever bytes were received and
  whatever the option lengths claim, \<open>parse_frame\<close> and \<open>parse_xid\<close> return and read nothing outside
  the received bytes; \<open>parse_frame\<close> keeps the size of the buffer, and \<open>parse_xid\<close> leaves it
  unchanged.
\<close>

theorem parsers_total:
  assumes "n \<le> length buf"
  shows "(\<exists>buf' meta'. parse_frame buf n meta = Some (buf', meta') \<and> length buf' = length buf) \<and> (\<exists>r. parse_xid buf n = Some (buf, r))"
  using parse_frame_total [OF assms] parse_xid_total [OF assms] by blast

theorem parsers_total_witness:
  "(\<exists>buf' meta'. parse_frame (replicate 600 0xFF) 600 \<lparr>pm_server_mac = [], pm_offered_ip = [], pm_server_ip = [],
      pm_subnet_mask = [], pm_dhcp_type = 0, pm_lease_time = 0, pm_xid = 1\<rparr> = Some (buf', meta')) \<and>
    (\<exists>r. parse_xid (replicate 600 0xFF) 600 = Some (replicate 600 0xFF, r))"
  using parsers_total [of 600 "replicate 600 0xFF" "\<lparr>pm_server_mac = [], pm_offered_ip = [], pm_server_ip = [],
      pm_subnet_mask = [], pm_dhcp_type = 0, pm_lease_time = 0, pm_xid = 1\<rparr>"] by auto

text \<open>
  The server reads what the client wrote.  For a buffer of at least the minimal frame size,
  \<open>build_frame\<close> returns, and the packet at the DHCP offset of the frame converts to a message with
  the client's hardware address and transaction identifier, with the magic cookie, and with an
  option field of exactly the items of the request.
\<close>

theorem build_frame_readable:
  assumes "build_meta_ok b" and "MIN_SEND_LEN \<le> n" and "n \<le> length buf"
  shows "\<exists>buf' pkt msg. build_frame buf n b = Some (buf', MIN_SEND_LEN) \<and>
    rd_DHCPPkt buf' (ETHER_LEN + IPv4_LEN + UDP_LEN) = Some pkt \<and> hdrToMsg pkt 552 = Some msg \<and>
    take 6 (chaddr msg) = bm_client_mac b \<and> xid msg = htonl (bm_xid b) \<and> magic_cookie msg = DHCP_MAGIC_COOKIE \<and>
    represents (options msg) (client_items b)"
proof -
  let ?k = "n - MIN_RECV_LEN"
  let ?opts = "client_opts b ?k @ drop n buf"
  have ok: "eth_ok (client_eth b)" "ip_ok client_ip" "dhcp_ok (client_hdr b)" using assms(1) by simp_all
  have k: "312 \<le> ?k" using assms(2) by (simp add: frame_len_defs)
  have len: "length (client_opts b ?k) = ?k" by (rule length_client_opts [OF assms(1) k])
  have "client_opts b ?k = client_opts b 312 @ replicate (?k - 312) 0"
    using length_client_items [OF assms(1)] k by (simp add: client_opts_def flip: replicate_add)
  then have pkt: "\<lparr>dp_hdr = client_hdr b, dp_options = take DHCP_OPTIONS_LEN ?opts\<rparr> = client_pkt b"
    using length_client_opts [OF assms(1), of 312] by (simp add: client_pkt_def DHCP_OPTIONS_LEN_def)
  have rd: "rd_DHCPPkt (frame (client_eth b) client_ip client_udp (client_hdr b) ?opts) (ETHER_LEN + IPv4_LEN + UDP_LEN) = Some (client_pkt b)"
    using rd_pkt [OF ok, of ?opts client_udp] len k pkt by (simp add: DHCP_OPTIONS_LEN_def)
  have pok: "pkt_ok (client_pkt b)" using ok length_client_opts [OF assms(1), of 312] by (simp add: pkt_ok_def client_pkt_def DHCP_OPTIONS_LEN_def)
  have fields: "take 6 (chaddr (pkt_msg (client_pkt b) 552)) = bm_client_mac b" "xid (pkt_msg (client_pkt b) 552) = htonl (bm_xid b)"
    "magic_cookie (pkt_msg (client_pkt b) 552) = DHCP_MAGIC_COOKIE"
    using assms(1) by (simp_all add: pkt_msg_def Let_def client_pkt_def client_hdr_def build_meta_ok_def DHCP_MAGIC_COOKIE_def)
  show ?thesis
    using build_frame_ok [OF assms] rd hdrToMsg_ok [OF pok] fields client_represents [OF assms(1)] by blast
qed

text \<open>
  C37. The conversions of the adapter are inverse.  A message whose option field has its first
  byte \<open>0xFF\<close> at the END code is turned into a packet by \<open>msgToHdr\<close> and back by \<open>hdrToMsg\<close> without loss:
  only the fields \<open>sname\<close> and \<open>file\<close>, which the server does not use, and the bytes behind the END
  code are cleared.
\<close>

theorem adapter_roundtrip:
  assumes "message_ok m" and "options m = xs @ DHCP_OPT_END # ys" and "0xFF \<notin> set xs"
  shows "\<exists>pkt len. msgToHdr m = Some (pkt, len) \<and> hdrToMsg pkt len =
    Some (m\<lparr>sname := replicate 64 0, bootfile := replicate 128 0, options := xs @ DHCP_OPT_END # replicate (length ys) 0\<rparr>)"
proof -
  let ?n = "length xs + 1" and ?pkt = "\<lparr>dp_hdr = msg_hdr m, dp_options = sent_options (options m) DHCP_OPTIONS_LEN\<rparr>"
  have len: "length xs + length ys + 1 = OPTIONS_LEN" using assms(1,2) by (simp add: message_ok_def)
  have sent: "sent_len (options m) = ?n" using sent_len_first [OF assms(3)] by (simp add: assms(2) DHCP_OPT_END_def)
  have so: "sent_options (options m) DHCP_OPTIONS_LEN = xs @ DHCP_OPT_END # replicate (DHCP_OPTIONS_LEN - ?n) 0"
    by (simp add: sent_options_def sent) (simp add: assms(2))
  have "length (sent_options (options m) DHCP_OPTIONS_LEN) = DHCP_OPTIONS_LEN"
    unfolding so using len by (simp add: DHCP_OPTIONS_LEN_def OPTIONS_LEN_def)
  then have ok: "pkt_ok ?pkt" using assms(1) by (simp add: pkt_ok_def)
  have u: "unat (240 + of_nat ?n :: u32) = 240 + ?n" using len by (simp add: unat_word_ariths(1) unat_of_nat OPTIONS_LEN_def del: of_nat_add of_nat_Suc)
  have cnt: "opt_count (240 + of_nat ?n) = ?n" using len unfolding opt_count_def u by (simp add: OPTIONS_LEN_def)
  have rest: "OPTIONS_LEN - ?n = length ys" using len by simp
  have "pkt_msg ?pkt (240 + of_nat ?n) = m\<lparr>sname := replicate 64 0, bootfile := replicate 128 0,
      options := xs @ DHCP_OPT_END # replicate (length ys) 0\<rparr>"
    unfolding pkt_msg_def Let_def cnt rest by (simp add: so msg_hdr_def zero_message_def addr_of_def)
  then show ?thesis using msgToHdr_ok [OF assms(1)] hdrToMsg_ok [OF ok] unfolding sent by metis
qed

theorem adapter_roundtrip_witness:
  "\<exists>pkt len. msgToHdr (sample_request 1 discover_items) = Some (pkt, len) \<and>
    hdrToMsg pkt len = Some (sample_request 1 discover_items)"
proof -
  let ?m = "sample_request 1 discover_items" and ?xs = "encode_items discover_items" and ?ys = "replicate 304 (0 :: u8)"
  have os: "options ?m = ?xs @ DHCP_OPT_END # ?ys"
    by (simp add: sample_request_def discover_items_def OPTIONS_LEN_def)
  have ok: "message_ok ?m" by (simp add: message_ok_def sample_request_def discover_items_def OPTIONS_LEN_def zero_message_def)
  have ff: "0xFF \<notin> set ?xs" by (simp add: discover_items_def opt_code_defs msg_type_defs)
  have eq: "?m\<lparr>sname := replicate 64 0, bootfile := replicate 128 0, options := ?xs @ DHCP_OPT_END # replicate (length ?ys) 0\<rparr> = ?m"
    by (simp add: sample_request_def zero_message_def discover_items_def OPTIONS_LEN_def)
  show ?thesis using adapter_roundtrip [OF ok os ff] unfolding eq .
qed

text \<open>
  C38. Options that contain the byte \<open>0xFF\<close> are cut.  \<open>msgToHdr\<close> takes the first byte \<open>0xFF\<close> of the option
  field for the END code, also inside an option.  With a server address without this byte and a subnet
  mask that starts with 255, the ACK that the library builds has the lease time, but the packet has 252 bytes and ends in the first
  byte of the mask: the client reads the mask \<open>255.0.0.0\<close> and no lease time.
\<close>

theorem reply_options_cut:
  assumes "length (chaddr request) = 16" and "0xFF \<notin> set (be_bytes (server_ip (config server)))"
    and "hd (be_bytes (subnet_mask (config server))) = 0xFF"
  shows "\<exists>m pkt. dhcp_build_ack server request ip = Some m \<and>
    option_payload m DHCP_OPT_LEASE_TIME = Some (Some (be_bytes (lease_time (config server)))) \<and>
    msgToHdr m = Some (pkt, 252) \<and>
    (\<forall>meta. \<exists>meta'. parse_options (dp_options pkt) 312 0 meta = Some meta' \<and>
      pm_subnet_mask meta' = [0xFF, 0, 0, 0] \<and> pm_lease_time meta' = pm_lease_time meta)"
proof -
  let ?c = "config server"
  obtain m where m: "dhcp_build_ack server request ip = Some m" "reply_header request m"
    "represents (options m) (reply_items ?c DHCP_ACK)"
    using dhcp_build_ack_ok [OF assms(1), of server ip] by metis
  have masked: "masked ?c" using assms(2,3) by (simp add: masked_def)
  have ok: "message_ok m" using m(2) by (simp add: reply_header_def)
  have t: "DHCP_ACK \<noteq> 0xFF" by (simp add: msg_type_defs)
  note cut = sent_cut [OF m(3) masked t]
  have "sent_len (options m) = 12"
    by (rule sent_cut_at(1) [OF m(3) masked t])
  then have "msgToHdr m = Some (\<lparr>dp_hdr = msg_hdr m, dp_options = encode_items (cut_items ?c DHCP_ACK)\<rparr>, 252)"
    using msgToHdr_ok [OF ok] by (simp add: cut)
  moreover have "parse_options (encode_items (cut_items ?c DHCP_ACK)) 312 0 meta = Some (foldl item_meta meta (cut_items ?c DHCP_ACK))" for meta
    by (rule parse_options_unterminated) (simp_all add: cut_items_def list_all_iff encode_pads)
  moreover have "pm_subnet_mask (foldl item_meta meta (cut_items ?c DHCP_ACK)) = [0xFF, 0, 0, 0]"
    "pm_lease_time (foldl item_meta meta (cut_items ?c DHCP_ACK)) = pm_lease_time meta" for meta
    by (simp_all add: cut_items_def fold_pads parse_option_def frame_opt_defs opt_code_defs)
  ultimately show ?thesis using m(1) option_payload_items [OF m(3)] by auto
qed

theorem reply_options_cut_witness:
  "\<exists>m pkt. dhcp_build_ack \<lparr>config = sample_config, pool = ()\<rparr> (sample_request 1 discover_items) 0x0A00000A = Some m \<and>
    option_payload m DHCP_OPT_LEASE_TIME = Some (Some (be_bytes 3600)) \<and> msgToHdr m = Some (pkt, 252)"
proof -
  have "0xFF \<notin> set (be_bytes 0x0A000001)" "hd (be_bytes 0xFFFFFF00) = 0xFF" by code_simp+
  then show ?thesis
    using reply_options_cut [of "sample_request 1 discover_items" "\<lparr>config = sample_config, pool = ()\<rparr>" "0x0A00000A"]
    by (auto simp: sample_config_def)
qed

end
