(* ===== verification/Bench_Client.thy ===== *)
theory Bench_Client
  imports Prelude
begin

text \<open>
  The clients of the load generator (\<open>bench-live/dhcp-client.h\<close>) and the memory they live in.  The
  clients are elements of an array; the rest of the program refers to them by address, so a
  memory maps addresses to clients.  The mutex and the condition variable of a mailbox are not
  data of the model: the code between locking and unlocking is one step.
\<close>

definition MAX_WORKERS :: nat where "MAX_WORKERS = 32"
definition NUM_CLIENTS :: nat where "NUM_CLIENTS = 2048"
definition TIMEOUT_SEC :: int where "TIMEOUT_SEC = 1"
definition MAX_RETRIES :: int where "MAX_RETRIES = 3"

text \<open>\<open>STATE_NONE\<close> is the value 0 that a client has before its run, from the zeroed array.\<close>

datatype Client_State = STATE_NONE | STATE_DISCOVER | STATE_REQUEST | STATE_DONE | STATE_FAILED

record client =
  c_mac :: "u8 list"
  c_xid :: u32
  c_state :: Client_State
  c_retries :: int
  c_offered_ip :: "u8 list"
  c_server_ip :: "u8 list"
  c_assigned_ip :: "u8 list"
  c_total_ms :: int

record mailbox =
  mb_buf :: "u8 list"
  mb_buf_len :: int

record client_async =
  ca_c :: client
  ca_worker_id :: int
  ca_mb :: mailbox

type_synonym client_mem = "u64 \<rightharpoonup> client_async"

text \<open>A zeroed client, as the initialiser of the array leaves it.\<close>

definition zero_client :: client where
  "zero_client = \<lparr>c_mac = replicate 6 0, c_xid = 0, c_state = STATE_NONE, c_retries = 0,
     c_offered_ip = replicate 4 0, c_server_ip = replicate 4 0, c_assigned_ip = replicate 4 0, c_total_ms = 0\<rparr>"

definition zero_client_async :: client_async where
  "zero_client_async = \<lparr>ca_c = zero_client, ca_worker_id = 0, ca_mb = \<lparr>mb_buf = replicate 2048 0, mb_buf_len = 0\<rparr>\<rparr>"

definition client_xid :: "client_async \<Rightarrow> u32" where
  "client_xid c = c_xid (ca_c c)"

text \<open>
  \<open>random_mac\<close> of \<open>bench-live/utils.c\<close>; \<open>rand\<close> is the sequence of values that the generator returns, of
  which the call uses six from \<open>k\<close> on.
\<close>

definition random_mac :: "(nat \<Rightarrow> u32) \<Rightarrow> nat \<Rightarrow> u8 list" where
  "random_mac rand k =
     (let mac = map (\<lambda>i. ucast (rand (k + i) AND 0xFF)) [0..<6];
          mac = mac[0 := mac ! 0 AND 0xFE];
          mac = mac[0 := mac ! 0 OR 0x02]
      in mac)"

text \<open>The address is a unicast address that is administered locally.\<close>

lemma random_mac_ok: "length (random_mac rand k) = 6" "\<not> bit (random_mac rand k ! 0) 0" "bit (random_mac rand k ! 0) 1"
proof -
  show "length (random_mac rand k) = 6" by (simp add: random_mac_def Let_def)
  define b :: u8 where "b = ucast (rand k AND 0xFF)"
  have at: "random_mac rand k ! 0 = (b AND 0xFE) OR 0x02" by (simp add: random_mac_def Let_def b_def upt_rec)
  have "\<not> bit (0xFE :: u8) 0" "\<not> bit (2 :: u8) 0" "bit (2 :: u8) 1" by simp_all
  then show "\<not> bit (random_mac rand k ! 0) 0" "bit (random_mac rand k ! 0) 1"
    unfolding at by (simp_all only: bit_or_iff bit_and_iff de_Morgan_disj de_Morgan_conj simp_thms)
qed

end
