(* ===== verification/Run_Client.thy ===== *)
theory Run_Client
  imports Bench_Client Frame
begin

text \<open>
  The sequential load generator, \<open>bench-live/dhcp-client.c\<close>.  \<open>run_client\<close> is modelled as a transition
  system that the network drives: an event is what a call of \<open>recv\<close> gives (a packet, a timeout or
  another error), and the result has the frames passed to \<open>sendto\<close>.  The loop of the source may wait
  forever, so the run is a function of the list of events, which ends in a return value or in a
  state that still waits.  \<open>fails k\<close> says that the \<open>k\<close>-th call of \<open>sendto\<close> fails.
\<close>

section \<open>Model\<close>

datatype net_event = Packet "u8 list" | Timeout | RecvError

definition SBUF_LEN :: nat where "SBUF_LEN = 1024"

record client_run =
  cr_c :: client
  cr_sbuf :: "u8 list"
  cr_slen :: nat
  cr_bmeta :: build_meta
  cr_pmeta :: parse_meta
  cr_sent :: "u8 list list"

datatype client_status = Waiting client_run | Returned client_run int

text \<open>\<open>sendto (sockfd, sbuf, n, \<dots>)\<close>: whether it succeeds, and the frame on the wire, empty after a failure.\<close>

definition send_buf :: "(nat \<Rightarrow> bool) \<Rightarrow> client_run \<Rightarrow> nat \<Rightarrow> (client_run \<times> bool) option" where
  "send_buf fails cr n = do {
     f \<leftarrow> rd_bytes (cr_sbuf cr) 0 n;
     let k = length (cr_sent cr);
     Some (cr\<lparr>cr_sent := cr_sent cr @ [if fails k then [] else f]\<rparr>, \<not> fails k)
   }"

text \<open>\<open>slen = build_frame (sbuf, sizeof (sbuf), bmeta)\<close>.\<close>

definition fill_sbuf :: "client_run \<Rightarrow> client_run option" where
  "fill_sbuf cr = do {
     (buf, slen) \<leftarrow> build_frame (cr_sbuf cr) SBUF_LEN (cr_bmeta cr);
     Some (cr\<lparr>cr_sbuf := buf, cr_slen := slen\<rparr>)
   }"

text \<open>The loop condition, and the value returned when it fails.\<close>

definition client_check :: "client_run \<Rightarrow> client_status" where
  "client_check cr =
     (if c_state (cr_c cr) \<noteq> STATE_DONE \<and> c_state (cr_c cr) \<noteq> STATE_FAILED then Waiting cr
      else Returned cr (if c_state (cr_c cr) = STATE_DONE then 0 else - 1))"

text \<open>The statements before the loop; \<open>sbuf\<close> and \<open>pmeta\<close> are the uninitialised variables.\<close>

definition client_start :: "(nat \<Rightarrow> bool) \<Rightarrow> client \<Rightarrow> u8 list \<Rightarrow> parse_meta \<Rightarrow> client_status option" where
  "client_start fails c sbuf pmeta = do {
     mac \<leftarrow> kmemcpy (replicate 6 0) 0 (c_mac c) 6;
     let bmeta = \<lparr>bm_client_mac = mac, bm_requested_ip = replicate 4 0, bm_server_ip = replicate 4 0,
       bm_dhcp_type = MSG_DISCOVER, bm_xid = c_xid c\<rparr>;
     cr \<leftarrow> fill_sbuf \<lparr>cr_c = c, cr_sbuf = sbuf, cr_slen = 0, cr_bmeta = bmeta, cr_pmeta = pmeta\<lparr>pm_xid := c_xid c\<rparr>, cr_sent = []\<rparr>;
     (cr, ok) \<leftarrow> send_buf fails cr (cr_slen cr);
     if \<not> ok then Some (Returned cr (- 1))
     else Some (client_check (cr\<lparr>cr_c := (cr_c cr)\<lparr>c_state := STATE_DISCOVER\<rparr>\<rparr>))
   }"

text \<open>The branch for a timeout.\<close>

definition on_timeout :: "(nat \<Rightarrow> bool) \<Rightarrow> client_run \<Rightarrow> client_status option" where
  "on_timeout fails cr = do {
     let c = (cr_c cr)\<lparr>c_retries := c_retries (cr_c cr) + 1\<rparr>;
     if c_retries c \<ge> MAX_RETRIES then Some (Returned (cr\<lparr>cr_c := c\<lparr>c_state := STATE_FAILED\<rparr>\<rparr>) (- 1))
     else do {
       cr \<leftarrow> fill_sbuf (cr\<lparr>cr_c := c\<rparr>);
       (cr, _) \<leftarrow> send_buf fails cr (cr_slen cr);
       Some (client_check cr)
     }
   }"

text \<open>
  The switch on the type of the reply.  The workers of the asynchronous load generator have the
  same switch, but for the length of the REQUEST: \<open>run_client\<close> sends \<open>sizeof (sbuf)\<close> bytes, which is
  \<open>full\<close> here, and the workers \<open>slen\<close>.
\<close>

definition on_reply :: "bool \<Rightarrow> (nat \<Rightarrow> bool) \<Rightarrow> client_run \<Rightarrow> u8 list \<Rightarrow> client_status option" where
  "on_reply full fails cr rbuf = do {
     (_, pmeta) \<leftarrow> parse_frame rbuf (length rbuf) (cr_pmeta cr);
     let cr = cr\<lparr>cr_pmeta := pmeta\<rparr>;
     let c = cr_c cr;
     if pm_dhcp_type pmeta = MSG_OFFER then
       if c_state c \<noteq> STATE_DISCOVER then Some (client_check cr)
       else do {
         mac \<leftarrow> kmemcpy (bm_client_mac (cr_bmeta cr)) 0 (c_mac c) 6;
         rip \<leftarrow> kmemcpy (bm_requested_ip (cr_bmeta cr)) 0 (pm_offered_ip pmeta) 4;
         sip \<leftarrow> kmemcpy (bm_server_ip (cr_bmeta cr)) 0 (pm_server_ip pmeta) 4;
         cr \<leftarrow> fill_sbuf (cr\<lparr>cr_bmeta := (cr_bmeta cr)\<lparr>bm_client_mac := mac, bm_dhcp_type := MSG_REQUEST, bm_xid := c_xid c,
            bm_requested_ip := rip, bm_server_ip := sip\<rparr>\<rparr>);
         (cr, ok) \<leftarrow> send_buf fails cr (if full then SBUF_LEN else cr_slen cr);
         if \<not> ok then Some (Returned cr (- 1))
         else Some (client_check (cr\<lparr>cr_c := c\<lparr>c_state := STATE_REQUEST, c_retries := 0\<rparr>\<rparr>))
       }
     else if pm_dhcp_type pmeta = MSG_ACK then
       if c_state c \<noteq> STATE_REQUEST then Some (client_check cr)
       else do {
         ip \<leftarrow> kmemcpy (c_assigned_ip c) 0 (pm_offered_ip pmeta) 4;
         Some (client_check (cr\<lparr>cr_c := c\<lparr>c_assigned_ip := ip, c_state := STATE_DONE\<rparr>\<rparr>))
       }
     else if pm_dhcp_type pmeta = MSG_NAK then Some (client_check (cr\<lparr>cr_c := c\<lparr>c_state := STATE_FAILED\<rparr>\<rparr>))
     else Some (client_check cr)
   }"

definition on_packet :: "(nat \<Rightarrow> bool) \<Rightarrow> client_run \<Rightarrow> u8 list \<Rightarrow> client_status option" where
  "on_packet = on_reply True"

definition client_event :: "(nat \<Rightarrow> bool) \<Rightarrow> client_run \<Rightarrow> net_event \<Rightarrow> client_status option" where
  "client_event fails cr e = do {
     let cr = cr\<lparr>cr_pmeta := (cr_pmeta cr)\<lparr>pm_xid := c_xid (cr_c cr)\<rparr>\<rparr>;
     case e of
       Packet rbuf \<Rightarrow> on_packet fails cr rbuf
     | Timeout \<Rightarrow> on_timeout fails cr
     | RecvError \<Rightarrow> Some (Returned cr (- 1))
   }"

text \<open>The loop: events that arrive after the return are not seen.\<close>

fun client_loop :: "(nat \<Rightarrow> bool) \<Rightarrow> client_status \<Rightarrow> net_event list \<Rightarrow> client_status option" where
  "client_loop fails st [] = Some st"
| "client_loop fails (Returned cr rc) (e # es) = Some (Returned cr rc)"
| "client_loop fails (Waiting cr) (e # es) = do {
     st \<leftarrow> client_event fails cr e;
     client_loop fails st es
   }"

definition run_client :: "(nat \<Rightarrow> bool) \<Rightarrow> client \<Rightarrow> u8 list \<Rightarrow> parse_meta \<Rightarrow> net_event list \<Rightarrow> client_status option" where
  "run_client fails c sbuf pmeta es = do {
     st \<leftarrow> client_start fails c sbuf pmeta;
     client_loop fails st es
   }"

section \<open>The loop of \<open>main\<close>\<close>

text \<open>
  What \<open>main\<close> counts, and what it takes from outside for a client: the random hardware address and
  transaction identifier, the contents of the uninitialised variables of \<open>run_client\<close>, what the
  socket does, and two readings of the clock in seconds and nanoseconds.  The division of \<open>long\<close>
  truncates towards 0.
\<close>

record results =
  passed :: int
  failed :: int
  total_ms :: int
  success_ms :: int
  fail_ms :: int

type_synonym timespec = "int \<times> int"

record client_input =
  in_mac :: "u8 list"
  in_xid :: u32
  in_sbuf :: "u8 list"
  in_pmeta :: parse_meta
  in_fails :: "nat \<Rightarrow> bool"
  in_events :: "net_event list"
  in_start :: timespec
  in_end :: timespec

definition elapsed_ms :: "timespec \<Rightarrow> timespec \<Rightarrow> int" where
  "elapsed_ms start end' = (fst end' - fst start) * 1000 + (let d = snd end' - snd start in sgn d * (\<bar>d\<bar> div 1000000))"

definition new_client :: "u8 list \<Rightarrow> u32 \<Rightarrow> client" where
  "new_client mac x = zero_client\<lparr>c_mac := mac, c_xid := x, c_retries := 0\<rparr>"

text \<open>The loop over the clients; the second component tells whether it came to its end or waits in \<open>recv\<close>.\<close>

fun main_loop :: "results \<Rightarrow> client_input list \<Rightarrow> (results \<times> bool) option" where
  "main_loop r [] = Some (r, True)"
| "main_loop r (x # xs) = do {
     st \<leftarrow> run_client (in_fails x) (new_client (in_mac x) (in_xid x)) (in_sbuf x) (in_pmeta x) (in_events x);
     case st of
       Waiting cr \<Rightarrow> Some (r, False)
     | Returned cr rc \<Rightarrow>
         let ms = elapsed_ms (in_start x) (in_end x);
             r = (if rc = 0 then r\<lparr>passed := passed r + 1, success_ms := success_ms r + ms\<rparr>
                  else r\<lparr>failed := failed r + 1, fail_ms := fail_ms r + ms\<rparr>)
         in main_loop (r\<lparr>total_ms := total_ms r + ms\<rparr>) xs
   }"

end
