(* ===== verification/Client_Correct.thy ===== *)
theory Client_Correct
  imports Run_Client Exchange
begin

text \<open>
  The client of the load generator follows the DHCP protocol: its buffers are large enough, it is
  in one of the two waiting states with the matching request in its metadata, it gives up after
  \<open>MAX_RETRIES\<close> timeouts, and it is done only with the address of an ACK.
\<close>

section \<open>Invariant\<close>

definition client_ok :: "client \<Rightarrow> bool" where
  "client_ok c \<longleftrightarrow> length (c_mac c) = 6 \<and> length (c_assigned_ip c) = 4"

definition pm_sized :: "parse_meta \<Rightarrow> bool" where
  "pm_sized p \<longleftrightarrow> length (pm_offered_ip p) = 4 \<and> length (pm_server_ip p) = 4"

definition buffers_ok :: "client_run \<Rightarrow> bool" where
  "buffers_ok cr \<longleftrightarrow> length (cr_sbuf cr) = SBUF_LEN \<and> client_ok (cr_c cr) \<and> build_meta_ok (cr_bmeta cr) \<and>
     bm_client_mac (cr_bmeta cr) = c_mac (cr_c cr) \<and> bm_xid (cr_bmeta cr) = c_xid (cr_c cr)"

definition waiting_ok :: "client_run \<Rightarrow> bool" where
  "waiting_ok cr \<longleftrightarrow> buffers_ok cr \<and> 0 \<le> c_retries (cr_c cr) \<and> c_retries (cr_c cr) < MAX_RETRIES \<and>
     (c_state (cr_c cr) = STATE_DISCOVER \<and> bm_dhcp_type (cr_bmeta cr) = MSG_DISCOVER \<or>
      c_state (cr_c cr) = STATE_REQUEST \<and> bm_dhcp_type (cr_bmeta cr) = MSG_REQUEST)"

fun status_ok :: "client_status \<Rightarrow> bool" where
  "status_ok (Waiting cr) = waiting_ok cr"
| "status_ok (Returned cr rc) = (buffers_ok cr \<and> (rc = 0 \<longrightarrow> c_state (cr_c cr) = STATE_DONE) \<and> (rc = 0 \<or> rc = - 1))"

section \<open>Sizes of the parsed fields\<close>

lemma parse_option_sized: "pm_sized p \<Longrightarrow> pm_sized (parse_option p t v)"
  by (simp add: pm_sized_def parse_option_def)

lemma parse_options_sized:
  assumes "parse_options os n i p = Some p'" and "pm_sized p"
  shows "pm_sized p'"
  using assms
proof (induction os n i p rule: parse_options.induct)
  case (1 os n i p)
  show ?case
    using "1.prems"(1) "1.prems"(2) "1.IH"
    by (subst (asm) parse_options.simps) (auto simp: bind_eq_Some_iff parse_option_sized split: if_splits)
qed

lemma parse_frame_sized:
  assumes "n \<le> length buf" and "parse_frame buf n p = Some (buf', p')"
  shows "pm_sized p'"
proof -
  have reset: "pm_sized (reset_meta p)" by (simp add: pm_sized_def reset_meta_def)
  show ?thesis
  proof (cases "n < MIN_RECV_LEN")
    case True
    then show ?thesis using assms(2) by (auto simp: parse_frame_def Let_def pm_sized_def)
  next
    case False
    then obtain k where k: "n = MIN_RECV_LEN + k" by (metis le_Suc_ex not_less)
    then have "MIN_RECV_LEN \<le> length buf" using assms(1) by simp
    from frame_cases [OF this] obtain eth ip udp hdr opts where f: "eth_ok eth" "ip_ok ip" "dhcp_ok hdr"
      "buf = frame eth ip udp hdr opts" "length buf = MIN_RECV_LEN + length opts" by metis
    have ko: "k \<le> length opts" using k f(5) assms(1) by simp
    show ?thesis
    proof (cases "reply_ok eth ip udp k \<and> dh_xid hdr = htonl (pm_xid p)")
      case True
      obtain q where q: "parse_options (take k opts) k 0 (header_meta p eth hdr) = Some q"
        using parse_options_total [of k "take k opts"] ko by auto
      with parse_frame_accepted [OF f(1-3) ko _ _ q] True f k assms(2) have "p' = q" by auto
      moreover have "pm_sized (header_meta p eth hdr)"
        using f(3) by (simp add: pm_sized_def header_meta_def dhcp_ok_def)
      ultimately show ?thesis using parse_options_sized [OF q] by simp
    next
      case False
      from parse_frame_rejected [OF f(1-3) ko False] f k assms(2) reset show ?thesis by auto
    qed
  qed
qed

section \<open>The transitions\<close>

text \<open>A frame of the client on the wire: what the server receives of it, or nothing when \<open>sendto\<close> failed.\<close>

definition client_frame :: "build_meta \<Rightarrow> u8 list \<Rightarrow> bool" where
  "client_frame b f \<longleftrightarrow> f = [] \<or> (\<forall>rest. \<exists>rest'. f @ rest = received b rest')"

lemma fill_sbuf_ok:
  assumes "length (cr_sbuf cr) = SBUF_LEN" and "build_meta_ok (cr_bmeta cr)"
  shows "\<exists>buf. fill_sbuf cr = Some (cr\<lparr>cr_sbuf := buf, cr_slen := MIN_SEND_LEN\<rparr>) \<and> length buf = SBUF_LEN \<and>
    (\<forall>k. MIN_SEND_LEN \<le> k \<and> k \<le> SBUF_LEN \<longrightarrow> client_frame (cr_bmeta cr) (take k buf))"
proof -
  have "MIN_SEND_LEN \<le> SBUF_LEN" "SBUF_LEN \<le> length (cr_sbuf cr)" using assms(1) by (simp_all add: frame_len_defs SBUF_LEN_def)
  from build_frame_received [OF assms(2) this] obtain buf where
    "build_frame (cr_sbuf cr) SBUF_LEN (cr_bmeta cr) = Some (buf, MIN_SEND_LEN)" "length buf = length (cr_sbuf cr)"
    "\<forall>k rest. MIN_SEND_LEN \<le> k \<and> k \<le> SBUF_LEN \<longrightarrow> (\<exists>rest'. take k buf @ rest = received (cr_bmeta cr) rest')"
    by blast
  with assms(1) show ?thesis by (auto simp: fill_sbuf_def client_frame_def)
qed

text \<open>Filling the buffer and sending \<open>k\<close> bytes of it.\<close>

lemma fill_and_send:
  assumes "length (cr_sbuf cr) = SBUF_LEN" and "build_meta_ok (cr_bmeta cr)"
  shows "\<exists>buf f. fill_sbuf cr = Some (cr\<lparr>cr_sbuf := buf, cr_slen := MIN_SEND_LEN\<rparr>) \<and> length buf = SBUF_LEN \<and>
    client_frame (cr_bmeta cr) f \<and> (fails (length (cr_sent cr)) \<longleftrightarrow> f = []) \<and>
    (k = MIN_SEND_LEN \<or> k = SBUF_LEN \<longrightarrow> send_buf fails (cr\<lparr>cr_sbuf := buf, cr_slen := MIN_SEND_LEN\<rparr>) k =
      Some (cr\<lparr>cr_sbuf := buf, cr_slen := MIN_SEND_LEN, cr_sent := cr_sent cr @ [f]\<rparr>, \<not> fails (length (cr_sent cr))))"
proof -
  obtain buf where buf: "fill_sbuf cr = Some (cr\<lparr>cr_sbuf := buf, cr_slen := MIN_SEND_LEN\<rparr>)" "length buf = SBUF_LEN"
    "\<forall>k. MIN_SEND_LEN \<le> k \<and> k \<le> SBUF_LEN \<longrightarrow> client_frame (cr_bmeta cr) (take k buf)"
    using fill_sbuf_ok [OF assms] by blast
  let ?k = "if k = MIN_SEND_LEN then MIN_SEND_LEN else SBUF_LEN"
  let ?f = "if fails (length (cr_sent cr)) then [] else take ?k buf"
  have k: "MIN_SEND_LEN \<le> ?k" "?k \<le> SBUF_LEN" "0 < MIN_SEND_LEN" by (auto simp: frame_len_defs SBUF_LEN_def)
  have "client_frame (cr_bmeta cr) ?f" using buf(3) k by (auto simp: client_frame_def)
  moreover have "take ?k buf \<noteq> []" using k buf(2) by auto
  moreover have "k = MIN_SEND_LEN \<or> k = SBUF_LEN \<Longrightarrow> send_buf fails (cr\<lparr>cr_sbuf := buf, cr_slen := MIN_SEND_LEN\<rparr>) k =
      Some (cr\<lparr>cr_sbuf := buf, cr_slen := MIN_SEND_LEN, cr_sent := cr_sent cr @ [?f]\<rparr>, \<not> fails (length (cr_sent cr)))"
    using k buf(2) by (auto simp: send_buf_def rd_bytes_def Let_def)
  ultimately show ?thesis using buf(1,2) by (intro exI [of _ buf] exI [of _ ?f]) auto
qed

definition discover_meta :: "client \<Rightarrow> build_meta" where
  "discover_meta c = \<lparr>bm_client_mac = c_mac c, bm_requested_ip = replicate 4 0, bm_server_ip = replicate 4 0,
     bm_dhcp_type = MSG_DISCOVER, bm_xid = c_xid c\<rparr>"

definition request_meta :: "client \<Rightarrow> u8 list \<Rightarrow> u8 list \<Rightarrow> build_meta" where
  "request_meta c rip sip = \<lparr>bm_client_mac = c_mac c, bm_requested_ip = rip, bm_server_ip = sip,
     bm_dhcp_type = MSG_REQUEST, bm_xid = c_xid c\<rparr>"

lemma client_start_ok:
  assumes "client_ok c" and "length sbuf = SBUF_LEN" and "c_retries c = 0"
  shows "\<exists>cr f. cr_c cr = c\<lparr>c_state := STATE_DISCOVER\<rparr> \<and> cr_bmeta cr = discover_meta c \<and> cr_sent cr = [f] \<and>
    pm_xid (cr_pmeta cr) = c_xid c \<and> client_frame (discover_meta c) f \<and> (fails 0 \<longleftrightarrow> f = []) \<and> waiting_ok cr \<and>
    client_start fails c sbuf pmeta = Some (if fails 0 then Returned (cr\<lparr>cr_c := c\<rparr>) (- 1) else Waiting cr)"
proof -
  let ?cr = "\<lparr>cr_c = c, cr_sbuf = sbuf, cr_slen = 0, cr_bmeta = discover_meta c, cr_pmeta = pmeta\<lparr>pm_xid := c_xid c\<rparr>, cr_sent = []\<rparr>"
  have mac: "kmemcpy (replicate 6 0) 0 (c_mac c) 6 = Some (c_mac c)"
    using assms(1) by (simp add: client_ok_def kmemcpy_def)
  have b: "build_meta_ok (discover_meta c)" using assms(1) by (simp add: build_meta_ok_def discover_meta_def client_ok_def)
  obtain buf f where B: "fill_sbuf ?cr = Some (?cr\<lparr>cr_sbuf := buf, cr_slen := MIN_SEND_LEN\<rparr>)" "length buf = SBUF_LEN"
    "client_frame (discover_meta c) f" "fails 0 \<longleftrightarrow> f = []"
    "send_buf fails (?cr\<lparr>cr_sbuf := buf, cr_slen := MIN_SEND_LEN\<rparr>) MIN_SEND_LEN =
      Some (?cr\<lparr>cr_sbuf := buf, cr_slen := MIN_SEND_LEN, cr_sent := [f]\<rparr>, \<not> fails 0)"
    using fill_and_send [of ?cr fails MIN_SEND_LEN] assms(2) b by auto
  let ?r = "?cr\<lparr>cr_sbuf := buf, cr_slen := MIN_SEND_LEN, cr_sent := [f], cr_c := c\<lparr>c_state := STATE_DISCOVER\<rparr>\<rparr>"
  have w: "waiting_ok ?r"
    using assms b B(2) by (simp add: waiting_ok_def buffers_ok_def client_ok_def discover_meta_def MAX_RETRIES_def)
  have "client_start fails c sbuf pmeta = Some (if fails 0 then Returned (?r\<lparr>cr_c := c\<rparr>) (- 1) else Waiting ?r)"
    unfolding client_start_def Let_def
    using B(1,5) by (simp add: mac discover_meta_def client_check_def)
  then show ?thesis using B(3,4) w by (intro exI [of _ ?r] exI [of _ f]) simp
qed

lemma on_timeout_ok:
  assumes "waiting_ok cr"
  shows "\<exists>st. on_timeout fails cr = Some st \<and> status_ok st \<and>
    (if c_retries (cr_c cr) + 1 < MAX_RETRIES then
       \<exists>cr' f. st = Waiting cr' \<and> cr_c cr' = (cr_c cr)\<lparr>c_retries := c_retries (cr_c cr) + 1\<rparr> \<and> cr_bmeta cr' = cr_bmeta cr \<and>
         cr_sent cr' = cr_sent cr @ [f] \<and> client_frame (cr_bmeta cr) f
     else st = Returned (cr\<lparr>cr_c := (cr_c cr)\<lparr>c_retries := c_retries (cr_c cr) + 1, c_state := STATE_FAILED\<rparr>\<rparr>) (- 1))"
proof (cases "c_retries (cr_c cr) + 1 < MAX_RETRIES")
  case False
  let ?c = "(cr_c cr)\<lparr>c_retries := c_retries (cr_c cr) + 1\<rparr>"
  have "on_timeout fails cr = Some (Returned (cr\<lparr>cr_c := ?c\<lparr>c_state := STATE_FAILED\<rparr>\<rparr>) (- 1))"
    using False by (simp add: on_timeout_def Let_def)
  then show ?thesis using assms False by (auto simp: waiting_ok_def buffers_ok_def client_ok_def)
next
  case True
  let ?c = "(cr_c cr)\<lparr>c_retries := c_retries (cr_c cr) + 1\<rparr>" and ?cr = "cr\<lparr>cr_c := (cr_c cr)\<lparr>c_retries := c_retries (cr_c cr) + 1\<rparr>\<rparr>"
  have "length (cr_sbuf ?cr) = SBUF_LEN" "build_meta_ok (cr_bmeta ?cr)" using assms by (auto simp: waiting_ok_def buffers_ok_def)
  from fill_and_send [OF this, of fails MIN_SEND_LEN] obtain buf f where
    B: "fill_sbuf ?cr = Some (?cr\<lparr>cr_sbuf := buf, cr_slen := MIN_SEND_LEN\<rparr>)" "length buf = SBUF_LEN"
    "client_frame (cr_bmeta cr) f"
    "send_buf fails (?cr\<lparr>cr_sbuf := buf, cr_slen := MIN_SEND_LEN\<rparr>) MIN_SEND_LEN =
      Some (?cr\<lparr>cr_sbuf := buf, cr_slen := MIN_SEND_LEN, cr_sent := cr_sent cr @ [f]\<rparr>, \<not> fails (length (cr_sent cr)))"
    by auto
  let ?r = "?cr\<lparr>cr_sbuf := buf, cr_slen := MIN_SEND_LEN, cr_sent := cr_sent cr @ [f]\<rparr>"
  have w: "waiting_ok ?r" using assms True B(2) by (auto simp: waiting_ok_def buffers_ok_def client_ok_def)
  have "client_check ?r = Waiting ?r" using assms by (auto simp: client_check_def waiting_ok_def)
  then have "on_timeout fails cr = Some (Waiting ?r)" using B(1,4) True by (simp add: on_timeout_def Let_def)
  then show ?thesis using w B(3) True by auto
qed

text \<open>What one packet does, by the type of the reply and the state of the client.\<close>

definition packet_effect :: "(nat \<Rightarrow> bool) \<Rightarrow> client_run \<Rightarrow> parse_meta \<Rightarrow> client_status \<Rightarrow> bool" where
  "packet_effect fails cr p st \<longleftrightarrow>
     (if pm_dhcp_type p = MSG_OFFER \<and> c_state (cr_c cr) = STATE_DISCOVER then
        \<exists>cr' f. cr_bmeta cr' = request_meta (cr_c cr) (pm_offered_ip p) (pm_server_ip p) \<and> cr_sent cr' = cr_sent cr @ [f] \<and>
          client_frame (cr_bmeta cr') f \<and> (fails (length (cr_sent cr)) \<longleftrightarrow> f = []) \<and>
          st = (if f = [] then Returned cr' (- 1) else Waiting cr') \<and>
          cr_c cr' = (if f = [] then cr_c cr else (cr_c cr)\<lparr>c_state := STATE_REQUEST, c_retries := 0\<rparr>) \<and> cr_pmeta cr' = p
      else if pm_dhcp_type p = MSG_ACK \<and> c_state (cr_c cr) = STATE_REQUEST then
        st = Returned (cr\<lparr>cr_pmeta := p, cr_c := (cr_c cr)\<lparr>c_assigned_ip := pm_offered_ip p, c_state := STATE_DONE\<rparr>\<rparr>) 0
      else if pm_dhcp_type p = MSG_NAK then
        st = Returned (cr\<lparr>cr_pmeta := p, cr_c := (cr_c cr)\<lparr>c_state := STATE_FAILED\<rparr>\<rparr>) (- 1)
      else st = Waiting (cr\<lparr>cr_pmeta := p\<rparr>))"

text \<open>An OFFER that the client waits for is answered with a REQUEST.\<close>

lemma on_reply_offer:
  assumes "waiting_ok cr" and p: "parse_frame rbuf (length rbuf) (cr_pmeta cr) = Some (rb, p)"
    and offer: "pm_dhcp_type p = MSG_OFFER" "c_state (cr_c cr) = STATE_DISCOVER"
  shows "\<exists>st. on_reply full fails cr rbuf = Some st \<and> status_ok st \<and> packet_effect fails cr p st"
proof -
  have W: "buffers_ok cr" "client_ok (cr_c cr)" using assms by (auto simp: waiting_ok_def buffers_ok_def)
  have sz: "length (pm_offered_ip p) = 4" "length (pm_server_ip p) = 4"
    using parse_frame_sized [OF order.refl p] by (simp_all add: pm_sized_def)
  let ?b = "request_meta (cr_c cr) (pm_offered_ip p) (pm_server_ip p)"
  let ?cr = "cr\<lparr>cr_pmeta := p, cr_bmeta := ?b\<rparr>"
  have mem: "kmemcpy (bm_client_mac (cr_bmeta cr)) 0 (c_mac (cr_c cr)) 6 = Some (c_mac (cr_c cr))"
    "kmemcpy (bm_requested_ip (cr_bmeta cr)) 0 (pm_offered_ip p) 4 = Some (pm_offered_ip p)"
    "kmemcpy (bm_server_ip (cr_bmeta cr)) 0 (pm_server_ip p) 4 = Some (pm_server_ip p)"
    using W sz by (auto simp: kmemcpy_def buffers_ok_def client_ok_def build_meta_ok_def)
  have b: "build_meta_ok ?b" using W(2) sz by (simp add: build_meta_ok_def request_meta_def client_ok_def)
  have "(cr_bmeta cr)\<lparr>bm_client_mac := c_mac (cr_c cr), bm_dhcp_type := MSG_REQUEST, bm_xid := c_xid (cr_c cr),
      bm_requested_ip := pm_offered_ip p, bm_server_ip := pm_server_ip p\<rparr> = ?b" by (simp add: request_meta_def)
  note fill = this
  obtain buf f where B: "fill_sbuf ?cr = Some (?cr\<lparr>cr_sbuf := buf, cr_slen := MIN_SEND_LEN\<rparr>)" "length buf = SBUF_LEN"
    "client_frame ?b f" "fails (length (cr_sent cr)) \<longleftrightarrow> f = []"
    "send_buf fails (?cr\<lparr>cr_sbuf := buf, cr_slen := MIN_SEND_LEN\<rparr>) (if full then SBUF_LEN else MIN_SEND_LEN) =
      Some (?cr\<lparr>cr_sbuf := buf, cr_slen := MIN_SEND_LEN, cr_sent := cr_sent cr @ [f]\<rparr>, \<not> fails (length (cr_sent cr)))"
    using fill_and_send [of ?cr fails "if full then SBUF_LEN else MIN_SEND_LEN"] W b by (auto simp: buffers_ok_def split: if_splits)
  let ?s = "?cr\<lparr>cr_sbuf := buf, cr_slen := MIN_SEND_LEN, cr_sent := cr_sent cr @ [f]\<rparr>"
  let ?r = "?s\<lparr>cr_c := (cr_c cr)\<lparr>c_state := STATE_REQUEST, c_retries := 0\<rparr>\<rparr>"
  have run: "on_reply full fails cr rbuf = Some (if f = [] then Returned ?s (- 1) else Waiting ?r)"
    unfolding on_reply_def Let_def using B(1,4,5) offer
    by (cases full) (simp_all add: p mem fill client_check_def)
  have sok: "status_ok (if f = [] then Returned ?s (- 1) else Waiting ?r)"
    using W B(2) b by (auto simp: buffers_ok_def waiting_ok_def request_meta_def client_ok_def MAX_RETRIES_def)
  have "packet_effect fails cr p (if f = [] then Returned ?s (- 1) else Waiting ?r)"
    unfolding packet_effect_def if_P [OF conjI [OF offer]]
    using B(3,4) by (intro exI [of _ "if f = [] then ?s else ?r"] exI [of _ f]) auto
  then show ?thesis using run sok by blast
qed

lemma on_reply_ok:
  assumes "waiting_ok cr"
  shows "\<exists>rb p st. parse_frame rbuf (length rbuf) (cr_pmeta cr) = Some (rb, p) \<and> on_reply full fails cr rbuf = Some st \<and>
    status_ok st \<and> packet_effect fails cr p st"
proof -
  have W: "buffers_ok cr" "client_ok (cr_c cr)" using assms by (auto simp: waiting_ok_def buffers_ok_def)
  have S: "c_state (cr_c cr) = STATE_DISCOVER \<or> c_state (cr_c cr) = STATE_REQUEST" using assms by (auto simp: waiting_ok_def)
  obtain rb p where p: "parse_frame rbuf (length rbuf) (cr_pmeta cr) = Some (rb, p)"
    using parse_frame_total [of "length rbuf" rbuf] by blast
  have sz: "length (pm_offered_ip p) = 4" "length (pm_server_ip p) = 4"
    using parse_frame_sized [OF order.refl p] by (simp_all add: pm_sized_def)
  have wait: "client_check (cr\<lparr>cr_pmeta := p\<rparr>) = Waiting (cr\<lparr>cr_pmeta := p\<rparr>)" "waiting_ok (cr\<lparr>cr_pmeta := p\<rparr>)"
    using S assms by (auto simp: client_check_def waiting_ok_def buffers_ok_def)
  have types: "MSG_ACK \<noteq> MSG_OFFER" "MSG_NAK \<noteq> MSG_OFFER" "MSG_NAK \<noteq> MSG_ACK" by (simp_all add: frame_msg_defs)
  consider (offer) "pm_dhcp_type p = MSG_OFFER" "c_state (cr_c cr) = STATE_DISCOVER"
    | (ack) "pm_dhcp_type p = MSG_ACK" "c_state (cr_c cr) = STATE_REQUEST" | (nak) "pm_dhcp_type p = MSG_NAK"
    | (other) "\<not> (pm_dhcp_type p = MSG_OFFER \<and> c_state (cr_c cr) = STATE_DISCOVER)"
      "\<not> (pm_dhcp_type p = MSG_ACK \<and> c_state (cr_c cr) = STATE_REQUEST)" "pm_dhcp_type p \<noteq> MSG_NAK" by blast
  then show ?thesis
  proof cases
    case offer
    show ?thesis using p on_reply_offer [OF assms p offer, of full fails] by blast
  next
    case ack
    have ip: "kmemcpy (c_assigned_ip (cr_c cr)) 0 (pm_offered_ip p) 4 = Some (pm_offered_ip p)"
      using W(2) sz by (simp add: client_ok_def kmemcpy_def)
    let ?st = "Returned (cr\<lparr>cr_pmeta := p, cr_c := (cr_c cr)\<lparr>c_assigned_ip := pm_offered_ip p, c_state := STATE_DONE\<rparr>\<rparr>) 0"
    have run: "on_reply full fails cr rbuf = Some ?st"
      unfolding on_reply_def Let_def using ack types by (simp add: p ip client_check_def)
    have "status_ok ?st" using W sz by (auto simp: buffers_ok_def client_ok_def)
    then show ?thesis using p run ack types by (auto simp: packet_effect_def)
  next
    case nak
    let ?st = "Returned (cr\<lparr>cr_pmeta := p, cr_c := (cr_c cr)\<lparr>c_state := STATE_FAILED\<rparr>\<rparr>) (- 1)"
    have run: "on_reply full fails cr rbuf = Some ?st"
      unfolding on_reply_def Let_def using nak types by (simp add: p client_check_def)
    have "status_ok ?st" using W by (auto simp: buffers_ok_def client_ok_def)
    then show ?thesis using p run nak types by (auto simp: packet_effect_def)
  next
    case other
    have run: "on_reply full fails cr rbuf = Some (Waiting (cr\<lparr>cr_pmeta := p\<rparr>))"
      unfolding on_reply_def Let_def using other wait(1) by (auto simp: p)
    then show ?thesis using p other wait(2) by (auto simp: packet_effect_def)
  qed
qed

lemmas on_packet_ok = on_reply_ok [of _ _ True, folded on_packet_def]

text \<open>Every client that \<open>main\<close> sets up is one that \<open>run_client\<close> can be called with.\<close>

lemma random_client_ok: "client_ok (new_client (random_mac rand k) x)" "c_retries (new_client mac x) = 0"
  by (simp_all add: client_ok_def new_client_def zero_client_def random_mac_ok)

end
