(* ===== verification/Client_Protocol.thy ===== *)
theory Client_Protocol
  imports Client_Correct
begin

text \<open>
  An abstract specification of the client as a state machine, and the proof that \<open>run_client\<close>
  implements it.  The abstract client is in one of four phases and makes a step for each thing it
  observes on the network; retransmissions, buffers and frames are not visible in it.
\<close>

section \<open>The abstract client\<close>

datatype phase = Selecting nat | Requesting nat "u8 list" | Bound "u8 list" | Given_Up

datatype observation = Seen_Offer "u8 list" | Seen_Ack "u8 list" | Seen_Nak | Silence | Failure | Noise

fun final_phase :: "phase \<Rightarrow> bool" where
  "final_phase (Bound ip) = True"
| "final_phase Given_Up = True"
| "final_phase _ = False"

inductive client_spec :: "phase \<Rightarrow> observation \<Rightarrow> phase \<Rightarrow> bool" where
  retry_discover: "Suc k < 3 \<Longrightarrow> client_spec (Selecting k) Silence (Selecting (Suc k))"
| retry_request: "Suc k < 3 \<Longrightarrow> client_spec (Requesting k ip) Silence (Requesting (Suc k) ip)"
| no_offer: "\<not> Suc k < 3 \<Longrightarrow> client_spec (Selecting k) Silence Given_Up"
| no_ack: "\<not> Suc k < 3 \<Longrightarrow> client_spec (Requesting k ip) Silence Given_Up"
| select: "client_spec (Selecting k) (Seen_Offer ip) (Requesting 0 ip)"
| send_failed: "client_spec (Selecting k) (Seen_Offer ip) Given_Up"
| late_offer: "client_spec (Requesting k ip) (Seen_Offer ip') (Requesting k ip)"
| early_ack: "client_spec (Selecting k) (Seen_Ack ip) (Selecting k)"
| bind: "client_spec (Requesting k ip) (Seen_Ack ip') (Bound ip')"
| refuse: "\<not> final_phase ph \<Longrightarrow> client_spec ph Seen_Nak Given_Up"
| broken: "\<not> final_phase ph \<Longrightarrow> client_spec ph Failure Given_Up"
| noise: "\<not> final_phase ph \<Longrightarrow> client_spec ph Noise ph"
| stopped: "final_phase ph \<Longrightarrow> client_spec ph ob ph"

inductive_cases from_selecting: "client_spec (Selecting k) ob ph"
inductive_cases from_requesting: "client_spec (Requesting k ip) ob ph"
inductive_cases from_bound: "client_spec (Bound ip) ob ph"
inductive_cases from_given_up: "client_spec Given_Up ob ph"

lemmas from_phase = from_selecting from_requesting from_bound from_given_up

inductive client_runs :: "phase \<Rightarrow> observation list \<Rightarrow> phase \<Rightarrow> bool" where
  here: "client_runs ph [] ph"
| there: "client_spec ph ob ph' \<Longrightarrow> client_runs ph' obs ph'' \<Longrightarrow> client_runs ph (ob # obs) ph''"

inductive_cases client_runs_NilE: "client_runs ph [] ph'"
inductive_cases client_runs_ConsE: "client_runs ph (ob # obs) ph'"

lemma client_runs_final: "client_runs ph obs ph' \<Longrightarrow> final_phase ph \<Longrightarrow> ph' = ph"
proof (induction rule: client_runs.induct)
  case (there ph ob ph' obs ph'')
  then have "ph' = ph" by (cases ph) (auto elim: from_phase)
  with there show ?case by simp
qed simp

text \<open>How many silences a phase survives; the number never grows, and a silence costs one.\<close>

fun patience :: "phase \<Rightarrow> nat" where
  "patience (Selecting k) = 5 - k"
| "patience (Requesting k ip) = 3 - k"
| "patience _ = 0"

fun started :: "phase \<Rightarrow> bool" where
  "started (Selecting k) = (k < 3)"
| "started (Requesting k ip) = (k < 3)"
| "started _ = True"

lemma client_spec_patience:
  assumes "client_spec ph ob ph'" and "started ph"
  shows "started ph' \<and> patience ph' + (if ob = Silence then 1 else 0) \<le> patience ph \<or> final_phase ph'"
  using assms by (cases rule: client_spec.cases) auto

lemma started_patience: "started ph \<Longrightarrow> \<not> final_phase ph \<Longrightarrow> 0 < patience ph"
  by (cases ph) auto

lemma client_runs_patience:
  assumes "client_runs ph obs ph'" and "started ph"
  shows "final_phase ph' \<or> started ph' \<and> patience ph' + count_list obs Silence \<le> patience ph"
  using assms
proof (induction rule: client_runs.induct)
  case (there ph ob ph' obs ph'')
  from client_spec_patience [OF there.hyps(1) there.prems] show ?case
  proof
    assume "final_phase ph'"
    then show ?case using client_runs_final [OF there.hyps(2)] by simp
  next
    assume "started ph' \<and> patience ph' + (if ob = Silence then 1 else 0) \<le> patience ph"
    with there.IH show ?case by (auto split: if_splits)
  qed
qed simp

text \<open>Five silences end the exchange.\<close>

lemma client_runs_ends:
  assumes "client_runs (Selecting 0) obs ph" and "5 \<le> count_list obs Silence"
  shows "final_phase ph"
proof (rule ccontr)
  assume neg: "\<not> final_phase ph"
  with client_runs_patience [OF assms(1)] have "started ph" "patience ph + count_list obs Silence \<le> 5" by auto
  with started_patience [OF _ neg] assms(2) show False by simp
qed

text \<open>An address is bound only by an ACK for it, and an ACK counts only after an OFFER.\<close>

lemma client_runs_requesting:
  assumes "client_runs ph obs (Bound ip)" and "ph = Requesting k ip0"
  shows "Seen_Ack ip \<in> set obs"
  using assms
proof (induction ph obs "Bound ip" arbitrary: k rule: client_runs.induct)
  case (there ph ob ph' obs)
  from there.hyps(1)[unfolded there.prems] there.hyps(2,3) show ?case
    by (elim from_requesting) (auto dest: client_runs_final)
qed simp

lemma client_runs_bound:
  assumes "client_runs ph obs (Bound ip)" and "ph = Selecting k"
  shows "\<exists>as bs ip0. obs = as @ Seen_Offer ip0 # bs \<and> Seen_Ack ip \<in> set bs"
  using assms
proof (induction ph obs "Bound ip" arbitrary: k rule: client_runs.induct)
  case (there ph ob ph' obs)
  show ?case
  proof (cases "\<exists>ip0. ob = Seen_Offer ip0 \<and> ph' = Requesting 0 ip0")
    case True
    then obtain ip0 where ip0: "ob = Seen_Offer ip0" "ph' = Requesting 0 ip0" by blast
    then have "ob # obs = [] @ Seen_Offer ip0 # obs \<and> Seen_Ack ip \<in> set obs"
      using client_runs_requesting [OF there.hyps(2)] by simp
    then show ?thesis by blast
  next
    case False
    then have "(\<exists>j. ph' = Selecting j) \<or> ph' = Given_Up"
      using there.hyps(1)[unfolded there.prems] by (elim from_selecting) auto
    then obtain j where "ph' = Selecting j" using client_runs_final [OF there.hyps(2)] by auto
    then obtain as bs ip0 where "obs = as @ Seen_Offer ip0 # bs" "Seen_Ack ip \<in> set bs" using there.hyps(3) by blast
    then have "ob # obs = (ob # as) @ Seen_Offer ip0 # bs \<and> Seen_Ack ip \<in> set bs" by simp
    then show ?thesis by blast
  qed
qed simp

section \<open>Abstraction of the concrete client\<close>

definition blank_meta :: "u32 \<Rightarrow> parse_meta" where
  "blank_meta x = \<lparr>pm_server_mac = replicate 6 0, pm_offered_ip = replicate 4 0, pm_server_ip = replicate 4 0,
     pm_subnet_mask = replicate 4 0, pm_dhcp_type = MSG_UNKNOWN, pm_lease_time = 0, pm_xid = x\<rparr>"

text \<open>What a client with the transaction identifier \<open>x\<close> makes of an event.\<close>

fun observe :: "u32 \<Rightarrow> net_event \<Rightarrow> observation" where
  "observe x Timeout = Silence"
| "observe x RecvError = Failure"
| "observe x (Packet rbuf) =
     (case parse_frame rbuf (length rbuf) (blank_meta x) of
        None \<Rightarrow> Noise
      | Some (_, p) \<Rightarrow>
          if pm_dhcp_type p = MSG_OFFER then Seen_Offer (pm_offered_ip p)
          else if pm_dhcp_type p = MSG_ACK then Seen_Ack (pm_offered_ip p)
          else if pm_dhcp_type p = MSG_NAK then Seen_Nak
          else Noise)"

fun phase_of :: "client_status \<Rightarrow> phase" where
  "phase_of (Waiting cr) =
     (if c_state (cr_c cr) = STATE_DISCOVER then Selecting (nat (c_retries (cr_c cr)))
      else Requesting (nat (c_retries (cr_c cr))) (bm_requested_ip (cr_bmeta cr)))"
| "phase_of (Returned cr rc) = (if rc = 0 then Bound (c_assigned_ip (cr_c cr)) else Given_Up)"

fun run_of :: "client_status \<Rightarrow> client_run" where
  "run_of (Waiting cr) = cr"
| "run_of (Returned cr rc) = cr"

text \<open>The identity of the client, its metadata and all frames it has sent are those of the client \<open>c\<close>.\<close>

definition meta_of :: "client \<Rightarrow> build_meta \<Rightarrow> bool" where
  "meta_of c b \<longleftrightarrow> b = discover_meta c \<or> (\<exists>rip sip. b = request_meta c rip sip)"

definition run_by :: "client \<Rightarrow> client_run \<Rightarrow> bool" where
  "run_by c cr \<longleftrightarrow> c_mac (cr_c cr) = c_mac c \<and> c_xid (cr_c cr) = c_xid c \<and> meta_of c (cr_bmeta cr) \<and>
     (\<forall>f \<in> set (cr_sent cr). \<exists>b. meta_of c b \<and> client_frame b f)"

text \<open>How many frames a phase may still send.\<close>

fun sends_left :: "phase \<Rightarrow> nat" where
  "sends_left (Selecting k) = 5 - k"
| "sends_left (Requesting k ip) = 2 - k"
| "sends_left _ = 0"

definition sent_within :: "nat \<Rightarrow> client_status \<Rightarrow> bool" where
  "sent_within n st \<longleftrightarrow> length (cr_sent (run_of st)) + sends_left (phase_of st) \<le> n"

lemma parse_frame_xid:
  assumes "pm_xid p = x"
  shows "parse_frame buf n p = parse_frame buf n (blank_meta x)"
proof -
  have "reset_meta p = reset_meta (blank_meta x)" using assms by (simp add: reset_meta_def blank_meta_def)
  then show ?thesis unfolding parse_frame_def reset_meta_def [symmetric] by (simp only: Let_def)
qed

lemma run_by_request_meta:
  assumes "c_mac c' = c_mac c" and "c_xid c' = c_xid c"
  shows "request_meta c' rip sip = request_meta c rip sip"
  using assms by (simp add: request_meta_def)

section \<open>Simulation\<close>

definition simulates :: "client \<Rightarrow> client_run \<Rightarrow> observation \<Rightarrow> client_status \<Rightarrow> bool" where
  "simulates c cr ob st \<longleftrightarrow> status_ok st \<and> run_by c (run_of st) \<and> client_spec (phase_of (Waiting cr)) ob (phase_of st) \<and>
     (\<forall>n. sent_within n (Waiting cr) \<longrightarrow> sent_within n st)"

lemma waiting_phase:
  assumes "waiting_ok cr"
  shows "\<not> final_phase (phase_of (Waiting cr))" and "started (phase_of (Waiting cr))"
  using assms by (auto simp: waiting_ok_def MAX_RETRIES_def)

lemma run_by_same:
  assumes "run_by c cr" and "c_mac (cr_c cr') = c_mac (cr_c cr)" and "c_xid (cr_c cr') = c_xid (cr_c cr)"
    and "cr_bmeta cr' = cr_bmeta cr" and "cr_sent cr' = cr_sent cr @ fs" and "\<forall>f \<in> set fs. client_frame (cr_bmeta cr) f"
  shows "run_by c cr'"
  using assms unfolding run_by_def by auto

lemma timeout_simulates:
  assumes "waiting_ok cr" and "run_by c cr"
  shows "\<exists>st. on_timeout fails cr = Some st \<and> simulates c cr Silence st"
proof -
  let ?r = "c_retries (cr_c cr)" and ?cr = "cr\<lparr>cr_c := (cr_c cr)\<lparr>c_retries := c_retries (cr_c cr) + 1, c_state := STATE_FAILED\<rparr>\<rparr>"
  have r: "0 \<le> ?r" "?r < 3" using assms(1) by (auto simp: waiting_ok_def MAX_RETRIES_def)
  have ph: "phase_of (Waiting cr) = Selecting (nat ?r) \<or> phase_of (Waiting cr) = Requesting (nat ?r) (bm_requested_ip (cr_bmeta cr))"
    by simp
  obtain st where st: "on_timeout fails cr = Some st" "status_ok st"
    "if ?r + 1 < MAX_RETRIES then
       \<exists>cr' f. st = Waiting cr' \<and> cr_c cr' = (cr_c cr)\<lparr>c_retries := ?r + 1\<rparr> \<and> cr_bmeta cr' = cr_bmeta cr \<and>
         cr_sent cr' = cr_sent cr @ [f] \<and> client_frame (cr_bmeta cr) f
     else st = Returned ?cr (- 1)"
    using on_timeout_ok [OF assms(1), of fails] by blast
  show ?thesis
  proof (cases "?r + 1 < MAX_RETRIES")
    case True
    with st(3) obtain cr' f where S: "st = Waiting cr'" "cr_c cr' = (cr_c cr)\<lparr>c_retries := ?r + 1\<rparr>" "cr_bmeta cr' = cr_bmeta cr"
      "cr_sent cr' = cr_sent cr @ [f]" "client_frame (cr_bmeta cr) f" by auto
    have n: "nat (?r + 1) = Suc (nat ?r)" "Suc (nat ?r) < 3" using r True by (simp_all add: MAX_RETRIES_def)
    have "client_spec (phase_of (Waiting cr)) Silence (phase_of st)"
      using S n by (auto intro: retry_discover retry_request)
    moreover have "run_by c cr'" using run_by_same [OF assms(2), of cr' "[f]"] S by simp
    ultimately show ?thesis using st(1,2) S n by (auto simp: simulates_def sent_within_def)
  next
    case False
    then have n: "\<not> Suc (nat ?r) < 3" using r by (simp add: MAX_RETRIES_def)
    have S: "st = Returned ?cr (- 1)" using st(3) False by simp
    have "run_by c ?cr" using run_by_same [OF assms(2), of ?cr "[]"] by simp
    moreover have "client_spec (phase_of (Waiting cr)) Silence (phase_of st)"
      using S n by (auto intro: no_offer no_ack)
    ultimately show ?thesis using st(1,2) S by (auto simp: simulates_def sent_within_def)
  qed
qed

lemma offer_simulates:
  assumes "waiting_ok cr" and "run_by c cr" and offer: "pm_dhcp_type p = MSG_OFFER" "c_state (cr_c cr) = STATE_DISCOVER"
    and eff: "packet_effect fails cr p st" and ok: "status_ok st"
  shows "simulates c cr (Seen_Offer (pm_offered_ip p)) st"
proof -
  have W: "c_state (cr_c cr) = STATE_DISCOVER \<or> c_state (cr_c cr) = STATE_REQUEST" "c_retries (cr_c cr) < 3"
    using assms(1) by (auto simp: waiting_ok_def MAX_RETRIES_def)
  from eff offer obtain cr' f where S: "cr_bmeta cr' = request_meta (cr_c cr) (pm_offered_ip p) (pm_server_ip p)"
    "cr_sent cr' = cr_sent cr @ [f]" "client_frame (cr_bmeta cr') f" "st = (if f = [] then Returned cr' (- 1) else Waiting cr')"
    "cr_c cr' = (if f = [] then cr_c cr else (cr_c cr)\<lparr>c_state := STATE_REQUEST, c_retries := 0\<rparr>)"
    by (auto simp: packet_effect_def)
  have "meta_of c (cr_bmeta cr')"
    using assms(2) S(1) run_by_request_meta unfolding meta_of_def run_by_def by metis
  then have "run_by c cr'" using assms(2) S(2,3,5) by (auto simp: run_by_def)
  moreover have "client_spec (phase_of (Waiting cr)) (Seen_Offer (pm_offered_ip p)) (phase_of st)"
    using S offer by (auto simp: request_meta_def intro: select send_failed)
  moreover have "sent_within n st" if "sent_within n (Waiting cr)" for n
    using that S offer(2) W(2) by (auto simp: sent_within_def)
  ultimately show ?thesis using ok S(4) by (auto simp: simulates_def)
qed

lemma packet_simulates:
  assumes "waiting_ok cr" and "run_by c cr" and "pm_xid (cr_pmeta cr) = c_xid c"
  shows "\<exists>st. on_reply full fails cr rbuf = Some st \<and> simulates c cr (observe (c_xid c) (Packet rbuf)) st"
proof -
  have W: "c_state (cr_c cr) = STATE_DISCOVER \<or> c_state (cr_c cr) = STATE_REQUEST" "c_retries (cr_c cr) < 3"
    using assms(1) by (auto simp: waiting_ok_def MAX_RETRIES_def)
  note wait = waiting_phase [OF assms(1)]
  obtain rb p st where p: "parse_frame rbuf (length rbuf) (cr_pmeta cr) = Some (rb, p)"
    and st: "on_reply full fails cr rbuf = Some st" "status_ok st" and eff: "packet_effect fails cr p st"
    using on_reply_ok [OF assms(1), of rbuf full fails] by blast
  let ?ob = "observe (c_xid c) (Packet rbuf)"
  have ob: "?ob = (if pm_dhcp_type p = MSG_OFFER then Seen_Offer (pm_offered_ip p)
      else if pm_dhcp_type p = MSG_ACK then Seen_Ack (pm_offered_ip p) else if pm_dhcp_type p = MSG_NAK then Seen_Nak else Noise)"
    using p unfolding parse_frame_xid [OF assms(3)] by simp
  have types: "MSG_ACK \<noteq> MSG_OFFER" "MSG_NAK \<noteq> MSG_OFFER" "MSG_NAK \<noteq> MSG_ACK" by (simp_all add: frame_msg_defs)
  have same: "run_by c (cr\<lparr>cr_pmeta := p, cr_c := d\<rparr>)" if "c_mac d = c_mac (cr_c cr)" "c_xid d = c_xid (cr_c cr)" for d
    using run_by_same [OF assms(2), of "cr\<lparr>cr_pmeta := p, cr_c := d\<rparr>" "[]"] that by simp
  consider (offer) "pm_dhcp_type p = MSG_OFFER" "c_state (cr_c cr) = STATE_DISCOVER"
    | (ack) "pm_dhcp_type p = MSG_ACK" "c_state (cr_c cr) = STATE_REQUEST" | (nak) "pm_dhcp_type p = MSG_NAK"
    | (other) "\<not> (pm_dhcp_type p = MSG_OFFER \<and> c_state (cr_c cr) = STATE_DISCOVER)"
      "\<not> (pm_dhcp_type p = MSG_ACK \<and> c_state (cr_c cr) = STATE_REQUEST)" "pm_dhcp_type p \<noteq> MSG_NAK" by blast
  then have "simulates c cr ?ob st"
  proof cases
    case offer
    then show ?thesis using offer_simulates [OF assms(1,2) offer eff st(2)] ob by simp
  next
    case ack
    then have S: "st = Returned (cr\<lparr>cr_pmeta := p, cr_c := (cr_c cr)\<lparr>c_assigned_ip := pm_offered_ip p, c_state := STATE_DONE\<rparr>\<rparr>) 0"
      using eff types by (simp add: packet_effect_def)
    then show ?thesis using st(2) ack ob types same
      by (auto simp: simulates_def sent_within_def intro: bind)
  next
    case nak
    then have S: "st = Returned (cr\<lparr>cr_pmeta := p, cr_c := (cr_c cr)\<lparr>c_state := STATE_FAILED\<rparr>\<rparr>) (- 1)"
      using eff types by (simp add: packet_effect_def)
    then show ?thesis using st(2) nak ob types same refuse [OF wait(1)]
      by (auto simp: simulates_def sent_within_def)
  next
    case other
    then have S: "st = Waiting (cr\<lparr>cr_pmeta := p\<rparr>)" using eff by (auto simp: packet_effect_def)
    have "run_by c (cr\<lparr>cr_pmeta := p\<rparr>)" using same [of "cr_c cr"] by simp
    moreover have "client_spec (phase_of (Waiting cr)) ?ob (phase_of (Waiting cr))"
      using other ob W(1) noise [OF wait(1)] by (auto intro: late_offer early_ack)
    moreover have "phase_of st = phase_of (Waiting cr)" "cr_sent (run_of st) = cr_sent cr" by (simp_all add: S)
    ultimately show ?thesis using st(2) unfolding simulates_def sent_within_def S by (simp only: run_of.simps) blast
  qed
  with st(1) show ?thesis by blast
qed

lemma event_simulates:
  assumes "waiting_ok cr" and "run_by c cr"
  shows "\<exists>st. client_event fails cr e = Some st \<and> simulates c cr (observe (c_xid c) e) st"
proof -
  let ?cr = "cr\<lparr>cr_pmeta := (cr_pmeta cr)\<lparr>pm_xid := c_xid (cr_c cr)\<rparr>\<rparr>"
  have ok: "waiting_ok ?cr" "run_by c ?cr" "pm_xid (cr_pmeta ?cr) = c_xid c"
    using assms by (auto simp: waiting_ok_def buffers_ok_def run_by_def)
  have sim: "simulates c ?cr = simulates c cr"
    by (intro ext) (simp add: simulates_def sent_within_def)
  show ?thesis
  proof (cases e)
    case (Packet rbuf)
    then show ?thesis using packet_simulates [OF ok, of True fails rbuf] by (simp add: client_event_def Let_def sim on_packet_def)
  next
    case Timeout
    then show ?thesis using timeout_simulates [OF ok(1,2), of fails] by (simp add: client_event_def Let_def sim)
  next
    case RecvError
    have "buffers_ok ?cr" using ok(1) by (simp add: waiting_ok_def)
    then have "simulates c cr Failure (Returned ?cr (- 1))"
      using ok broken [OF waiting_phase(1) [OF assms(1)]] by (auto simp: simulates_def sent_within_def)
    then show ?thesis using RecvError by (simp add: client_event_def Let_def)
  qed
qed

text \<open>The whole loop, from any status.\<close>

lemma stopped_runs: "final_phase ph \<Longrightarrow> client_runs ph obs ph"
  by (induction obs) (auto intro: client_runs.intros stopped)

lemma returned_final: "final_phase (phase_of (Returned cr rc))"
  by simp

lemma loop_simulates:
  assumes "status_ok st" and "run_by c (run_of st)" and "sent_within n st"
  shows "\<exists>st'. client_loop fails st es = Some st' \<and> status_ok st' \<and> run_by c (run_of st') \<and> sent_within n st' \<and>
    client_runs (phase_of st) (map (observe (c_xid c)) es) (phase_of st')"
  using assms
proof (induction fails st es rule: client_loop.induct)
  case (1 fails st)
  then show ?case by (auto intro: here)
next
  case (2 fails cr rc e es)
  then show ?case using stopped_runs [OF returned_final] by simp
next
  case (3 fails cr e es)
  then have w: "waiting_ok cr" "run_by c cr" by simp_all
  obtain st where st: "client_event fails cr e = Some st" "simulates c cr (observe (c_xid c) e) st"
    using event_simulates [OF w] by blast
  from "3.IH" [of st] st "3.prems"(3) obtain st' where st': "client_loop fails st es = Some st'" "status_ok st'" "run_by c (run_of st')"
    "sent_within n st'" "client_runs (phase_of st) (map (observe (c_xid c)) es) (phase_of st')"
    by (auto simp: simulates_def)
  moreover have "client_runs (phase_of (Waiting cr)) (observe (c_xid c) e # map (observe (c_xid c)) es) (phase_of st')"
    using st(2) st'(5) by (auto simp: simulates_def intro: there)
  ultimately show ?case using st(1) by simp
qed

text \<open>The run from the start; the first frame may fail to be sent.\<close>

lemma run_client_simulates:
  assumes "client_ok c" and "length sbuf = SBUF_LEN" and "c_retries c = 0" and "\<not> fails 0"
  shows "\<exists>st. run_client fails c sbuf pmeta es = Some st \<and> status_ok st \<and> run_by c (run_of st) \<and> sent_within 6 st \<and>
    client_runs (Selecting 0) (map (observe (c_xid c)) es) (phase_of st)"
proof -
  obtain cr f where s: "cr_c cr = c\<lparr>c_state := STATE_DISCOVER\<rparr>" "cr_bmeta cr = discover_meta c" "cr_sent cr = [f]"
    "client_frame (discover_meta c) f" "waiting_ok cr" "client_start fails c sbuf pmeta = Some (Waiting cr)"
    using client_start_ok [OF assms(1-3), of fails pmeta] assms(4) by auto
  have "run_by c cr" using s by (auto simp: run_by_def meta_of_def)
  moreover have "phase_of (Waiting cr) = Selecting 0" using s(1) assms(3) by simp
  moreover from this have "sent_within 6 (Waiting cr)" using s(3) by (simp add: sent_within_def)
  ultimately show ?thesis
    using loop_simulates [of "Waiting cr" c 6 fails es] s(5,6) by (simp add: run_client_def)
qed

end
