(* ===== verification/Session.thy ===== *)
theory Session
  imports Client_Protocol Grant_Server
begin

text \<open>
  The load generator and the server on a network that loses nothing: the last frame of the client
  goes to the server, what the server sends goes back to the client, and a round without an answer
  is a timeout.  Two rounds are the DHCP exchange; the result holds for every backend that records
  leases.
\<close>

section \<open>The closed system\<close>

text \<open>
  One round: \<open>rest\<close> is what the receive buffer of the server held behind the frame before, and \<open>ticks\<close>
  the value of its timer.
\<close>

definition net_step :: "bool \<Rightarrow> 's process \<Rightarrow> u8 list \<Rightarrow> 's \<times> client_status \<Rightarrow> u8 list \<times> u32 \<Rightarrow> ('s \<times> client_status) option" where
  "net_step dec process mac sys x =
     (case sys of
        (s, Returned cr rc) \<Rightarrow> Some sys
      | (s, Waiting cr) \<Rightarrow> do {
          (s', g) \<leftarrow> kernel_frame dec process mac s (last (cr_sent cr) @ fst x) (snd x);
          st \<leftarrow> client_event (\<lambda>_. False) cr (case g of None \<Rightarrow> Timeout | Some reply \<Rightarrow> Packet reply);
          Some (s', st)
        })"

fun net_run :: "bool \<Rightarrow> 's process \<Rightarrow> u8 list \<Rightarrow> 's \<times> client_status \<Rightarrow> (u8 list \<times> u32) list \<Rightarrow> ('s \<times> client_status) option" where
  "net_run dec process mac sys [] = Some sys"
| "net_run dec process mac sys (x # xs) = do {
     sys' \<leftarrow> net_step dec process mac sys x;
     net_run dec process mac sys' xs
   }"

text \<open>Seen from the client, rounds of the network are events.\<close>

lemma net_run_events:
  assumes "net_run dec process mac (s, st) xs = Some (s', st')"
  shows "\<exists>es. client_loop (\<lambda>_. False) st es = Some st'"
  using assms
proof (induction xs arbitrary: s st)
  case Nil
  then have "client_loop (\<lambda>_. False) st [] = Some st'" by simp
  then show ?case by blast
next
  case (Cons x xs)
  show ?case
  proof (cases st)
    case (Returned cr rc)
    with Cons show ?thesis by (auto simp: net_step_def)
  next
    case (Waiting cr)
    with Cons.prems obtain s1 g st1 where "client_event (\<lambda>_. False) cr (case g of None \<Rightarrow> Timeout | Some reply \<Rightarrow> Packet reply) = Some st1"
      "net_run dec process mac (s1, st1) xs = Some (s', st')"
      by (auto simp: net_step_def bind_eq_Some_iff)
    with Cons.IH obtain es where "client_loop (\<lambda>_. False) (Waiting cr)
        ((case g of None \<Rightarrow> Timeout | Some reply \<Rightarrow> Packet reply) # es) = Some st'" by fastforce
    with Waiting show ?thesis by blast
  qed
qed

section \<open>The two sides of a round\<close>

lemma client_receives:
  assumes "waiting_ok cr" and "readable mac c r (c_xid (cr_c cr)) g" and "r \<noteq> NoReply"
  shows "\<exists>p0 p st. client_event fails cr (Packet g) = Some st \<and> status_ok st \<and> client_reads p0 mac c r p \<and>
    packet_effect fails (cr\<lparr>cr_pmeta := p0\<rparr>) p st"
proof -
  let ?p0 = "(cr_pmeta cr)\<lparr>pm_xid := c_xid (cr_c cr)\<rparr>"
  have ok: "waiting_ok (cr\<lparr>cr_pmeta := ?p0\<rparr>)" using assms(1) by (auto simp: waiting_ok_def buffers_ok_def)
  have "pm_xid ?p0 = c_xid (cr_c cr)" by simp
  with assms(2) obtain buf' p where p: "parse_frame (g @ []) MIN_SEND_LEN ?p0 = Some (buf', p)" "client_reads ?p0 mac c r p"
    and len: "length g = MIN_SEND_LEN" unfolding readable_def by blast
  from on_packet_ok [OF ok, of g fails] p(1) len obtain st where
    "on_packet fails (cr\<lparr>cr_pmeta := ?p0\<rparr>) g = Some st" "status_ok st" "packet_effect fails (cr\<lparr>cr_pmeta := ?p0\<rparr>) p st" by auto
  with p(2) show ?thesis by (auto simp: client_event_def Let_def)
qed

lemma reads_type:
  "client_reads p0 mac c (Offer ip) p \<Longrightarrow> pm_dhcp_type p = MSG_OFFER"
  "client_reads p0 mac c (Offer ip) p \<Longrightarrow> pm_offered_ip p = be_bytes ip"
  "client_reads p0 mac c (Ack ip) p \<Longrightarrow> pm_dhcp_type p = MSG_ACK"
  "client_reads p0 mac c (Ack ip) p \<Longrightarrow> pm_offered_ip p = be_bytes ip"
  "client_reads p0 mac c Nak p \<Longrightarrow> pm_dhcp_type p = MSG_NAK"
  by (auto simp: read_reply_def read_nak_def msg_type_defs frame_msg_defs)

lemma discover_meta_ok: "client_ok c \<Longrightarrow> build_meta_ok (discover_meta c)"
  by (simp add: build_meta_ok_def discover_meta_def client_ok_def)

lemma request_meta_ok: "client_ok c \<Longrightarrow> length rip = 4 \<Longrightarrow> length sip = 4 \<Longrightarrow> build_meta_ok (request_meta c rip sip)"
  by (simp add: build_meta_ok_def request_meta_def client_ok_def)

text \<open>What the specification of the server decides for the two requests of the client.\<close>

lemma outcome_discover:
  "outcome offer commit decline s (client_items (discover_meta c)) mac t = do {
     (s', ip) \<leftarrow> offer s mac t;
     Some (s', if ip \<noteq> 0 then Offer ip else NoReply)
   }"
  by (rule outcome_if_discover)
     (simp add: client_items_def discover_meta_def frame_opt_defs frame_msg_defs opt_code_defs msg_type_defs)

lemma outcome_request:
  "outcome offer commit decline s (client_items (request_meta c (be_bytes ip) sip)) mac t = do {
     (s', ok) \<leftarrow> commit s ip mac t;
     Some (s', if ok then Ack ip else Nak)
   }"
  by (rule outcome_if_request)
     (simp_all add: client_items_def request_meta_def frame_opt_defs frame_msg_defs opt_code_defs msg_type_defs)

section \<open>The exchange\<close>

text \<open>The client reads an address from the offer and asks for it, or is done with an acknowledged one.\<close>

lemma receives_offer:
  assumes "waiting_ok cr" and "readable mac c (Offer ip) (c_xid (cr_c cr)) g" and "c_state (cr_c cr) = STATE_DISCOVER"
  shows "\<exists>cr' sip f. client_event (\<lambda>_. False) cr (Packet g) = Some (Waiting cr') \<and> f \<noteq> [] \<and> cr_sent cr' = cr_sent cr @ [f] \<and>
    length sip = 4 \<and> client_frame (request_meta (cr_c cr) (be_bytes ip) sip) f \<and>
    cr_c cr' = (cr_c cr)\<lparr>c_state := STATE_REQUEST, c_retries := 0\<rparr> \<and> waiting_ok cr'"
proof -
  obtain p0 p st where e: "client_event (\<lambda>_. False) cr (Packet g) = Some st" "status_ok st" "client_reads p0 mac c (Offer ip) p"
    "packet_effect (\<lambda>_. False) (cr\<lparr>cr_pmeta := p0\<rparr>) p st"
    using client_receives [OF assms(1,2)] by blast
  with assms(3) reads_type(1,2) [OF e(3)] obtain cr' f where S: "cr_bmeta cr' = request_meta (cr_c cr) (be_bytes ip) (pm_server_ip p)"
    "cr_sent cr' = cr_sent cr @ [f]" "client_frame (cr_bmeta cr') f" "f \<noteq> []" "st = Waiting cr'"
    "cr_c cr' = (cr_c cr)\<lparr>c_state := STATE_REQUEST, c_retries := 0\<rparr>"
    by (auto simp: packet_effect_def)
  have w: "waiting_ok cr'" using e(2) S(5) by simp
  then have "length (pm_server_ip p) = 4" using S(1) by (simp add: waiting_ok_def buffers_ok_def build_meta_ok_def request_meta_def)
  with e(1) S w show ?thesis by auto
qed

lemma receives_ack:
  assumes "waiting_ok cr" and "readable mac c (Ack ip) (c_xid (cr_c cr)) g" and "c_state (cr_c cr) = STATE_REQUEST"
  shows "\<exists>cr'. client_event fails cr (Packet g) = Some (Returned cr' 0) \<and> c_assigned_ip (cr_c cr') = be_bytes ip"
proof -
  obtain p0 p st where e: "client_event fails cr (Packet g) = Some st" "client_reads p0 mac c (Ack ip) p"
    "packet_effect fails (cr\<lparr>cr_pmeta := p0\<rparr>) p st"
    using client_receives [OF assms(1,2)] by blast
  with assms(3) reads_type(3,4) [OF e(2)] show ?thesis by (auto simp: packet_effect_def)
qed

context address_server
begin

text \<open>The server's part of one round, for a frame of the client with metadata \<open>b\<close>.\<close>

lemma served_round:
  assumes "inv s" and "build_meta_ok b" and "length mac = 6" and "dec \<or> (\<forall>s m. decline s m = Some s)"
    and "client_frame b f" and "f \<noteq> []" and "masked (config s')"
    and "outcome offer commit decline s (client_items b) (client_chaddr (bm_client_mac b)) (ts_in_sec ticks) = Some (s', r)"
    and "r \<noteq> NoReply"
  shows "\<exists>g. kernel_frame dec (serve offer commit decline) mac s (f @ rest) ticks = Some (s', Some g) \<and> inv s' \<and>
    readable mac (config s') r (bm_xid b) g"
proof -
  obtain rest' where rest': "f @ rest = received b rest'" using assms(5,6) unfolding client_frame_def by blast
  obtain f' where "kernel_frame dec (serve offer commit decline) mac s (f @ rest) ticks = Some (s', f')" "inv s'"
    "case f' of None \<Rightarrow> r = NoReply | Some g \<Rightarrow> r \<noteq> NoReply \<and> (masked (config s') \<longrightarrow> readable mac (config s') r (bm_xid b) g)"
    using client_served [OF assms(1-4), of rest' ticks] assms(8) rest' by auto
  with assms(7,9) show ?thesis by (auto split: option.splits)
qed

text \<open>
  Two rounds with a server that offers an address and commits it: the client returns 0 with this
  address, and the server is in the state after the commit.
\<close>

lemma exchange_rounds:
  assumes inv: "inv s" and mac: "length mac = 6" and dec: "dec \<or> (\<forall>s m. decline s m = Some s)"
    and o: "offer s (client_chaddr (c_mac c)) (ts_in_sec ticks1) = Some (s1, ip)" "ip \<noteq> 0" "masked (config s1)"
    and k: "commit s1 ip (client_chaddr (c_mac c)) (ts_in_sec ticks2) = Some (s2, True)" "masked (config s2)"
    and client: "client_ok c" "length sbuf = SBUF_LEN" "c_retries c = 0"
  shows "\<exists>st0 cr. client_start (\<lambda>_. False) c sbuf pmeta = Some st0 \<and>
    net_run dec (serve offer commit decline) mac (s, st0) [(rest1, ticks1), (rest2, ticks2)] = Some (s2, Returned cr 0) \<and>
    inv s2 \<and> c_assigned_ip (cr_c cr) = be_bytes ip"
proof -
  obtain cr f where cr: "cr_c cr = c\<lparr>c_state := STATE_DISCOVER\<rparr>" "cr_sent cr = [f]" "f \<noteq> []"
    "client_frame (discover_meta c) f" "waiting_ok cr" "client_start (\<lambda>_. False) c sbuf pmeta = Some (Waiting cr)"
    using client_start_ok [OF client, of "\<lambda>_. False" pmeta] by auto
  have out1: "outcome offer commit decline s (client_items (discover_meta c)) (client_chaddr (bm_client_mac (discover_meta c)))
      (ts_in_sec ticks1) = Some (s1, Offer ip)"
    using o(1,2) by (simp add: outcome_discover) (simp add: discover_meta_def)
  obtain g1 where g1: "kernel_frame dec (serve offer commit decline) mac s (f @ rest1) ticks1 = Some (s1, Some g1)" "inv s1"
    "readable mac (config s1) (Offer ip) (c_xid c) g1"
    using served_round [OF inv discover_meta_ok [OF client(1)] mac dec cr(4,3) o(3) out1] by (auto simp: discover_meta_def)
  obtain cr1 sip f1 where c1: "client_event (\<lambda>_. False) cr (Packet g1) = Some (Waiting cr1)" "f1 \<noteq> []" "cr_sent cr1 = cr_sent cr @ [f1]"
    "length sip = 4" "client_frame (request_meta (cr_c cr) (be_bytes ip) sip) f1"
    "cr_c cr1 = (cr_c cr)\<lparr>c_state := STATE_REQUEST, c_retries := 0\<rparr>" "waiting_ok cr1"
    using receives_offer [OF cr(5), of mac "config s1" ip g1] g1(3) cr(1) by auto
  let ?b = "request_meta c (be_bytes ip) sip"
  have b: "request_meta (cr_c cr) (be_bytes ip) sip = ?b" using cr(1) by (simp add: request_meta_def)
  have out2: "outcome offer commit decline s1 (client_items ?b) (client_chaddr (bm_client_mac ?b)) (ts_in_sec ticks2) = Some (s2, Ack ip)"
    using k(1) by (simp add: outcome_request) (simp add: request_meta_def)
  obtain g2 where g2: "kernel_frame dec (serve offer commit decline) mac s1 (f1 @ rest2) ticks2 = Some (s2, Some g2)" "inv s2"
    "readable mac (config s2) (Ack ip) (c_xid c) g2"
    using served_round [OF g1(2) request_meta_ok [OF client(1) length_be_bytes c1(4)] mac dec c1(5) [unfolded b] c1(2) k(2) out2]
    by (auto simp: request_meta_def)
  obtain cr2 where c2: "client_event (\<lambda>_. False) cr1 (Packet g2) = Some (Returned cr2 0)" "c_assigned_ip (cr_c cr2) = be_bytes ip"
    using receives_ack [OF c1(7), of mac "config s2" ip g2] g2(3) c1(6) cr(1) by auto
  have "net_run dec (serve offer commit decline) mac (s, Waiting cr) [(rest1, ticks1), (rest2, ticks2)] = Some (s2, Returned cr2 0)"
    using g1(1) c1(1,3) g2(1) c2(1) cr(2) by (simp add: net_step_def)
  with cr(6) g2(2) c2(2) show ?thesis by auto
qed

end

lemma client_chaddr_ok: "client_ok c \<Longrightarrow> length (client_chaddr (c_mac c)) = 16 \<and> mac_key (client_chaddr (c_mac c)) = c_mac c"
  by (simp add: client_chaddr_def client_ok_def)

context lease_server
begin

text \<open>
  With a free address and room for a lease, two rounds give the client an address of the pool and
  the server the lease of it.
\<close>

lemma exchange:
  assumes inv: "inv s" and "0 < pool_start (config s)" and room: "card (dom (leases_of (pool s))) < cap (pool s)"
    and nonzero: "\<And>e. leases_of (pool s) (c_mac c) \<noteq> Some (0, e)"
    and free: "pool_start (config s) \<le> a" "a \<le> pool_end (config s)" "a \<notin> leased_ips (leases_of (pool s))"
    and masked: "masked (config s)" and mac: "length mac = 6"
    and client: "client_ok c" "length sbuf = SBUF_LEN" "c_retries c = 0"
  shows "\<exists>st0 s' cr ip. client_start (\<lambda>_. False) c sbuf pmeta = Some st0 \<and>
    net_run True (serve offer commit decline) mac (s, st0) [(rest1, ticks1), (rest2, ticks2)] = Some (s', Returned cr 0) \<and>
    inv s' \<and> c_assigned_ip (cr_c cr) = be_bytes ip \<and> pool_start (config s) \<le> ip \<and> ip \<le> pool_end (config s) \<and>
    leases_of (pool s') (c_mac c) = Some (ip, ts_in_sec ticks2 + lease_time (config s)) \<and>
    leases_of (pool s') = (leases_of (pool s))(c_mac c \<mapsto> (ip, ts_in_sec ticks2 + lease_time (config s))) \<and>
    config s' = config s \<and> cap (pool s') = cap (pool s)"
proof -
  let ?ch = "client_chaddr (c_mac c)"
  have ch: "length ?ch = 16" "mac_key ?ch = c_mac c" using client_chaddr_ok [OF client(1)] by simp_all
  obtain s1 ip where o: "offer s ?ch (ts_in_sec ticks1) = Some (s1, ip)" "inv s1"
    "ip \<noteq> 0 \<longrightarrow> pool_start (config s1) \<le> ip \<and> ip \<le> pool_end (config s1)"
    using offer_ok [OF inv ch(1)] by blast
  note L = offer_leases [OF inv ch(1) o(1)]
  have same: "leases_of (pool s1) = leases_of (pool s)" using L room by (simp add: cleaned_def)
  then have spec: "offer_spec (cap (pool s)) (pool_start (config s)) (pool_end (config s)) (leases_of (pool s)) (c_mac c) ip"
    using L by (simp add: ch)
  have ip: "ip \<noteq> 0"
    using spec room free nonzero assms(2) by (auto simp: offer_spec_def split: option.splits prod.splits if_splits)
  obtain s2 where s2: "commit s1 ip ?ch (ts_in_sec ticks2) = Some (s2, True)" using handshake [OF inv ch(1) o(1) ip] by blast
  have c: "config s1 = config s" "config s2 = config s" using L commit_leases [OF o(2) ch(1) s2] by simp_all
  have room1: "card (dom (leases_of (pool s1))) < cap (pool s1)" using L same room by simp
  then have lease: "leases_of (pool s2) = (leases_of (pool s))(c_mac c \<mapsto> (ip, ts_in_sec ticks2 + lease_time (config s)))"
    using commit_leases [OF o(2) ch(1) s2] c(1) ch(2) same
    by (auto simp: cleaned_def split: if_splits dest!: sym [of "(_, _)"] alloc_spec_True)
  have cap: "cap (pool s2) = cap (pool s)" using L commit_leases [OF o(2) ch(1) s2] by simp
  have "True \<or> (\<forall>s m. decline s m = Some s)" and "masked (config s1)" and "masked (config s2)" using masked c by simp_all
  from exchange_rounds [OF inv mac this(1) o(1) ip this(2) s2 this(3) client, of pmeta rest1 rest2] lease o(3) ip c cap
  show ?thesis by auto
qed

end

context grant_server
begin

text \<open>The same for a server without leases, provided that it has an address to offer.\<close>

lemma exchange:
  assumes inv: "inv s" and "length mac = 6" and "masked (config s1)" and nodec: "\<And>s m. decline s m = Some s"
    and o: "offer s (client_chaddr (c_mac c)) (ts_in_sec ticks1) = Some (s1, ip)" "ip \<noteq> 0"
    and keep: "\<And>s'. commit s1 ip (client_chaddr (c_mac c)) (ts_in_sec ticks2) = Some (s', True) \<Longrightarrow> masked (config s')"
    and client: "client_ok c" "length sbuf = SBUF_LEN" "c_retries c = 0"
  shows "\<exists>st0 s' cr. client_start (\<lambda>_. False) c sbuf pmeta = Some st0 \<and>
    net_run False (serve offer commit decline) mac (s, st0) [(rest1, ticks1), (rest2, ticks2)] = Some (s', Returned cr 0) \<and>
    inv s' \<and> c_assigned_ip (cr_c cr) = be_bytes ip \<and> ip \<notin> unavail s1 \<and> ip \<in> unavail s'"
proof -
  let ?ch = "client_chaddr (c_mac c)"
  have ch: "length ?ch = 16" using client_chaddr_ok [OF client(1)] by simp
  have inv1: "inv s1" using offer_ok [OF inv ch, of "ts_in_sec ticks1"] o(1) by auto
  obtain s2 where s2: "commit s1 ip ?ch (ts_in_sec ticks2) = Some (s2, True)" using offer_then_commit [OF inv ch o] by blast
  note g = commit_grants [OF inv1 ch s2]
  show ?thesis
    using exchange_rounds [OF inv assms(2) _ o assms(3) s2 keep [OF s2] client, of False pmeta rest1 rest2] g nodec
    by auto
qed

end

end
