(* ===== verification/Circle_Modes.thy ===== *)
theory Circle_Modes
  imports Kernel_Correct Array_Pool_Correct Hash_Pool_Correct Bitmap_Var_Correct Bitmap_Uni_Correct Nprc_Correct
begin

text \<open>
  The constructor \<open>CDHCPServer\<close> of \<open>circle/sample/06-ethernet-dhcp-lib/dhcp-server.cpp\<close> with the sizes of
  \<open>dhcp.h\<close>, one definition per lease mode (the mode is chosen when the program is compiled).  The
  arguments are the contents of the members before the constructor runs.
\<close>

section \<open>Model\<close>

definition DHCP_MAX_LEASES :: u16 where "DHCP_MAX_LEASES = 2048"
definition DHCP_BMUNI_NUM_RANGES :: u32 where "DHCP_BMUNI_NUM_RANGES = 4"
definition DHCP_POOL_START :: u32 where "DHCP_POOL_START = 0xC0A80464"
definition DHCP_POOL_END :: u32 where "DHCP_POOL_END = 0xC0A8FFFF"
definition DHCP_POOL_SIZE :: u32 where "DHCP_POOL_SIZE = DHCP_POOL_END - DHCP_POOL_START + 1"

lemmas circle_size_defs = DHCP_MAX_LEASES_def DHCP_BMUNI_NUM_RANGES_def DHCP_POOL_START_def DHCP_POOL_END_def DHCP_POOL_SIZE_def

definition adapter_config :: dhcp_config_t where
  "adapter_config = \<lparr>server_ip = 0xC0A80401, subnet_mask = 0xFFFFFF00, gateway_ip = 0xC0A80401, dns_ip = 0xC0A80401,
     pool_start = DHCP_POOL_START, pool_end = DHCP_POOL_END, lease_time = 3600\<rparr>"

definition CDHCPServer_array :: "dhcp_lease_t list \<Rightarrow> array_server option" where
  "CDHCPServer_array m_leases = dhcp_init_server_array adapter_config (Some m_leases) DHCP_MAX_LEASES"

definition CDHCPServer_bmvar :: "bmvar_server \<Rightarrow> dhcp_bmrange_t \<Rightarrow> u32 list \<Rightarrow> bmvar_server option" where
  "CDHCPServer_bmvar m_server m_bmvar_range m_bmvar_ips =
     dhcp_init_server_bmvar m_server adapter_config (m_bmvar_range\<lparr>ips := m_bmvar_ips\<rparr>) DHCP_POOL_SIZE"

text \<open>The loop that attaches a bitmap to each range.\<close>

function attach_ips :: "dhcp_bmrange_t list \<Rightarrow> u32 list list \<Rightarrow> nat \<Rightarrow> nat \<Rightarrow> dhcp_bmrange_t list option" where
  "attach_ips m_bmuni_ranges m_bmuni_ips i n =
     (if i < n then do {
        r \<leftarrow> rd m_bmuni_ranges i;
        bm \<leftarrow> rd m_bmuni_ips i;
        rl \<leftarrow> wr m_bmuni_ranges i (r\<lparr>ips := bm\<rparr>);
        attach_ips rl m_bmuni_ips (i + 1) n
      }
      else Some m_bmuni_ranges)"
  by pat_completeness auto
termination
  by (relation "measure (\<lambda>(_, _, i, n). n - i)") auto

declare attach_ips.simps [simp del]

definition CDHCPServer_bmuni :: "bmuni_server \<Rightarrow> dhcp_bmrange_t list \<Rightarrow> u32 list list \<Rightarrow> bmuni_server option" where
  "CDHCPServer_bmuni m_server m_bmuni_ranges m_bmuni_ips = do {
     rl \<leftarrow> attach_ips m_bmuni_ranges m_bmuni_ips 0 (unat DHCP_BMUNI_NUM_RANGES);
     dhcp_init_server_bmuni m_server adapter_config rl (DHCP_POOL_SIZE div DHCP_BMUNI_NUM_RANGES) (ucast DHCP_BMUNI_NUM_RANGES)
   }"

definition CDHCPServer_nprc :: "('l::len) nprc_server \<Rightarrow> 'l nprc_server" where
  "CDHCPServer_nprc m_server = dhcp_init_server_nprc m_server adapter_config"

definition CDHCPServer_hashmap :: "hash_server \<Rightarrow> hash_server option" where
  "CDHCPServer_hashmap m_server = dhcp_init_server_hashmap m_server adapter_config DHCP_MAX_LEASES"

section \<open>Every mode starts in its invariant\<close>

lemma adapter_config_sel [simp]:
  "pool_start adapter_config = 0xC0A80464" "pool_end adapter_config = 0xC0A8FFFF" "lease_time adapter_config = 3600"
  by (simp_all add: adapter_config_def circle_size_defs)

lemma pool_size: "DHCP_POOL_SIZE = 64412"
  by (simp add: circle_size_defs)

lemma CDHCPServer_array_ok:
  assumes "length m_leases = unat DHCP_MAX_LEASES" and "\<forall>l \<in> set m_leases. length (mac_address l) = 6"
  shows "\<exists>s. CDHCPServer_array m_leases = Some s \<and> array_server_inv s \<and> config s = adapter_config \<and>
    array_leases (pool s) = Map.empty \<and> dhcp_arraypool_t.max_leases (pool s) = DHCP_MAX_LEASES"
proof -
  obtain p where "dhcp_arraypool_init (pool_start adapter_config) (Some m_leases) DHCP_MAX_LEASES = Some p"
    "array_inv (pool_start adapter_config) (pool_end adapter_config) p"
    "array_leases p = Map.empty" "dhcp_arraypool_t.max_leases p = DHCP_MAX_LEASES"
    using arraypool_init_ok [of DHCP_MAX_LEASES m_leases "pool_start adapter_config" "pool_end adapter_config"] assms by auto
  then show ?thesis by (simp add: CDHCPServer_array_def dhcp_init_server_array_def pool_server_inv_def)
qed

lemma CDHCPServer_bmvar_ok:
  assumes "length m_bmvar_ips = (unat DHCP_POOL_SIZE + 31) div 32"
  shows "\<exists>s. CDHCPServer_bmvar m r m_bmvar_ips = Some s \<and> var_server_inv s \<and> config s = adapter_config"
  unfolding CDHCPServer_bmvar_def
  using bmvar_init_ok [of adapter_config DHCP_POOL_SIZE "r\<lparr>ips := m_bmvar_ips\<rparr>" m] assms by (simp add: pool_size) blast

lemma attach_ips_ok:
  assumes "length rl = n" and "length bms = n"
  shows "\<exists>rl'. attach_ips rl bms i n = Some rl' \<and> length rl' = n \<and>
    (\<forall>k < n. ips (rl' ! k) = (if i \<le> k then bms ! k else ips (rl ! k)))"
  using assms
proof (induction rl bms i n rule: attach_ips.induct)
  case (1 rl bms i n)
  show ?case
  proof (cases "i < n")
    case True
    let ?rl = "rl[i := (rl ! i)\<lparr>ips := bms ! i\<rparr>]"
    have s: "rd rl i = Some (rl ! i)" "rd bms i = Some (bms ! i)" "wr rl i ((rl ! i)\<lparr>ips := bms ! i\<rparr>) = Some ?rl"
      using True "1.prems" by (simp_all add: rd_def wr_def)
    from "1.IH" [OF True s] "1.prems" obtain rl' where "attach_ips ?rl bms (i + 1) n = Some rl'" "length rl' = n"
      "\<forall>k < n. ips (rl' ! k) = (if i + 1 \<le> k then bms ! k else ips (?rl ! k))" by auto
    then show ?thesis
      using True s "1.prems" by (subst attach_ips.simps) (auto simp: nth_list_update not_le less_Suc_eq_le dest: le_antisym)
  next
    case False
    then show ?thesis using "1.prems" by (subst attach_ips.simps) auto
  qed
qed

lemma CDHCPServer_nprc_ok:
  assumes "LENGTH('l::len) \<in> {32, 64}"
  shows "nprc_server_inv (CDHCPServer_nprc (m :: 'l nprc_server))" "config (CDHCPServer_nprc m) = adapter_config"
  unfolding CDHCPServer_nprc_def using nprc_init_ok [of adapter_config, OF _ assms, of m]
  by (simp_all add: nprc_room_def)

lemma CDHCPServer_bmuni_ok:
  assumes "length m_bmuni_ranges = 4" and "length m_bmuni_ips = 4"
    and "\<forall>bm \<in> set m_bmuni_ips. length bm = (unat (DHCP_POOL_SIZE div DHCP_BMUNI_NUM_RANGES) + 31) div 32"
  shows "\<exists>s. CDHCPServer_bmuni m m_bmuni_ranges m_bmuni_ips = Some s \<and> uni_server_inv s \<and> config s = adapter_config"
proof -
  have size: "DHCP_POOL_SIZE div DHCP_BMUNI_NUM_RANGES = 16103" by (simp add: circle_size_defs)
  obtain rl where rl: "attach_ips m_bmuni_ranges m_bmuni_ips 0 4 = Some rl" "length rl = 4" "\<forall>k < 4. ips (rl ! k) = m_bmuni_ips ! k"
    using attach_ips_ok [OF assms(1,2), of 0] by auto
  have "uni_config_ok adapter_config rl 16103 4"
    using rl(2,3) assms(2,3) size by (auto simp: uni_config_ok_def)
  then show ?thesis
    unfolding CDHCPServer_bmuni_def size using bmuni_init_ok [of adapter_config rl 16103 4 m] rl(1)
    by (auto simp: DHCP_BMUNI_NUM_RANGES_def)
qed

lemma CDHCPServer_hashmap_ok:
  assumes "hash_memory HASH_ELEM_MAX (leases (pool m))" and "hash_memory HASH_ELEM_IP_SIZE (ip_set (pool m))"
  shows "\<exists>s. CDHCPServer_hashmap m = Some s \<and> hash_server_inv s \<and> config s = adapter_config \<and>
    hash_leases (pool s) = Map.empty \<and> unat (dhcp_hashpool_t.max_leases (pool s)) = min HASH_N (unat DHCP_MAX_LEASES)"
proof -
  obtain p where "dhcp_hashpool_init (pool m) 0xC0A80464 DHCP_MAX_LEASES = Some p" "hash_pool_inv 0xC0A80464 0xC0A8FFFF p"
    "hash_leases p = Map.empty" "unat (dhcp_hashpool_t.max_leases p) = min HASH_N (unat DHCP_MAX_LEASES)"
    using hashpool_init_ok [OF assms, of "0xC0A80464" "0xC0A8FFFF" DHCP_MAX_LEASES] by auto
  then show ?thesis by (simp add: CDHCPServer_hashmap_def dhcp_init_server_hashmap_def pool_server_inv_def)
qed

end
