(* ===== verification/Circle_Server.thy ===== *)
theory Circle_Server
  imports Session Circle_Modes Array_Server Hash_Server
begin

text \<open>
  The properties of the whole server on the Raspberry Pi and of the exchange between it and the
  load generator, as statements about \<open>kernel_frame\<close>, \<open>kernel_run\<close> and \<open>run_client\<close>.
\<close>

section \<open>Samples\<close>

definition sample_client :: client where
  "sample_client = zero_client\<lparr>c_mac := [2, 0, 0, 0, 0, 2], c_xid := 77\<rparr>"

definition sample_server_mac :: "u8 list" where
  "sample_server_mac = [0xB8, 0x27, 0xEB, 1, 2, 3]"

definition sample_meta :: build_meta where
  "sample_meta = discover_meta sample_client"

lemma sample_client_ok [simp]: "client_ok sample_client" "c_retries sample_client = 0" "c_mac sample_client = [2, 0, 0, 0, 0, 2]"
  by (simp_all add: sample_client_def zero_client_def client_ok_def)

lemma sample_server_mac_ok [simp]: "length sample_server_mac = 6"
  by (simp add: sample_server_mac_def)

lemma sample_config_masked: "masked sample_config"
  by (simp add: masked_def sample_config_def) code_simp

lemma received_good: "build_meta_ok b \<Longrightarrow> good_frame (received b rest)"
proof -
  assume b: "build_meta_ok b"
  have len: "length (client_opts b 312) = 312" by (rule length_client_opts [OF b]) simp
  have "\<lparr>dp_hdr = client_hdr b, dp_options = take DHCP_OPTIONS_LEN (client_opts b 312 @ rest)\<rparr> = client_pkt b"
    using len by (simp add: client_pkt_def DHCP_OPTIONS_LEN_def)
  with client_represents [OF b] b len show ?thesis
    unfolding good_frame_def received_def
    by (intro exI [of _ "client_eth b"] exI [of _ client_ip] exI [of _ client_udp] exI [of _ "client_hdr b"]
        exI [of _ "client_opts b 312 @ rest"]) (auto simp: DHCP_OPTIONS_LEN_def request_len_client)
qed

lemma sample_meta_ok: "build_meta_ok sample_meta"
  by (simp add: sample_meta_def discover_meta_ok)

text \<open>The sample server has a free address and room for a lease.\<close>

lemma sample_array_room:
  "card (dom (array_leases (pool sample_array))) < unat (dhcp_arraypool_t.max_leases (pool sample_array))"
  "0x0A00000B \<notin> leased_ips (array_leases (pool sample_array))"
proof -
  have inv: "array_inv 0x0A00000A 0x0A00000B (pool sample_array)"
    using sample_array_inv by (simp add: pool_server_inv_def)
  show "card (dom (array_leases (pool sample_array))) < unat (dhcp_arraypool_t.max_leases (pool sample_array))"
    unfolding card_dom_array_leases [OF inv] by (simp add: sample_array_def)
  show "0x0A00000B \<notin> leased_ips (array_leases (pool sample_array))"
    unfolding leased_ips_array [OF inv] used_sample_array by (simp add: sample_array_def)
qed

lemma sample_run:
  "\<exists>es cr. run_client (\<lambda>_. False) sample_client (replicate SBUF_LEN 0) (blank_meta 0) es = Some (Returned cr 0)"
proof -
  have "array_leases (pool sample_array) [2, 0, 0, 0, 0, 2] = None" by code_simp
  then obtain st0 s' cr where "client_start (\<lambda>_. False) sample_client (replicate SBUF_LEN 0) (blank_meta 0) = Some st0"
    "net_run True (serve array_offer array_commit array_decline) sample_server_mac (sample_array, st0) [([], 5000000), ([], 6000000)] =
      Some (s', Returned cr 0)"
    using lease_server.exchange [OF arr.srv.lease_server_axioms sample_array_inv _ sample_array_room(1) _ _ _ sample_array_room(2),
        of sample_client sample_server_mac "replicate SBUF_LEN 0" "blank_meta 0" "[]" 5000000 "[]" 6000000] sample_config_masked
    by auto
  with net_run_events [OF this(2)] show ?thesis by (auto simp: run_client_def)
qed

lemma run_client_ends:
  assumes "client_ok c" and "length sbuf = SBUF_LEN" and "c_retries c = 0" and "5 \<le> count_list es Timeout"
  shows "\<exists>cr rc. run_client fails c sbuf pmeta es = Some (Returned cr rc)"
proof (cases "fails 0")
  case True
  then obtain cr where "client_start fails c sbuf pmeta = Some (Returned cr (- 1))"
    using client_start_ok [OF assms(1-3), of fails pmeta] by auto
  then show ?thesis by (cases es) (auto simp: run_client_def)
next
  case False
  obtain st where st: "run_client fails c sbuf pmeta es = Some st"
    "client_runs (Selecting 0) (map (observe (c_xid c)) es) (phase_of st)"
    using run_client_simulates [where fails = fails, OF assms(1-3) False] by blast
  have "count_list es Timeout \<le> count_list (map (observe (c_xid c)) es) Silence"
    by (induction es) auto
  then have "final_phase (phase_of st)" using client_runs_ends [OF st(2)] assms(4) by simp
  then show ?thesis using st(1) by (cases st) (auto split: if_splits)
qed

section \<open>Properties\<close>

text \<open>
  C2. The DHCP exchange, end to end, with the ARRAY backend.  A client and a server that are
  connected by a network without loss, with a free address, room for a lease and a configuration whose
  subnet mask starts with 255 and whose server address has no byte \<open>0xFF\<close>: after the
  DISCOVER and the REQUEST of the client have been through the receive loop of the server,
  \<open>run_client\<close> has returned 0, the address it was assigned is one of the pool, and the server has
  the lease of exactly this address for exactly this client.
\<close>

theorem exchange_array:
  assumes "array_server_inv s" and "card (dom (array_leases (pool s))) < unat (dhcp_arraypool_t.max_leases (pool s))"
    and "pool_start (config s) \<le> a" and "a \<le> pool_end (config s)" and "a \<notin> leased_ips (array_leases (pool s))"
    and "masked (config s)" and "length mac = 6" and "client_ok c" and "length sbuf = SBUF_LEN" and "c_retries c = 0"
  shows "\<exists>st0 s' cr ip. client_start (\<lambda>_. False) c sbuf pmeta = Some st0 \<and>
    net_run True dhcp_process_message_array mac (s, st0) [(rest1, ticks1), (rest2, ticks2)] = Some (s', Returned cr 0) \<and>
    array_server_inv s' \<and> c_assigned_ip (cr_c cr) = be_bytes ip \<and> pool_start (config s) \<le> ip \<and> ip \<le> pool_end (config s) \<and>
    array_leases (pool s') (c_mac c) = Some (ip, ts_in_sec ticks2 + lease_time (config s))"
proof -
  have pos: "0 < pool_start (config s)" "array_inv (pool_start (config s)) (pool_end (config s)) (pool s)"
    using assms(1) by (simp_all add: pool_server_inv_def)
  have "array_leases (pool s) (c_mac c) \<noteq> Some (0, e)" for e
    using arr.pool_range [OF pos(2), of "c_mac c" 0 e] pos(1) by auto
  from lease_server.exchange [OF arr.srv.lease_server_axioms assms(1) pos(1) assms(2) this assms(3-10)] show ?thesis
    unfolding process_array_is_serve by blast
qed

theorem exchange_array_witness:
  "\<exists>st0 s' cr. client_start (\<lambda>_. False) sample_client (replicate SBUF_LEN 0) (blank_meta 0) = Some st0 \<and>
    net_run True dhcp_process_message_array sample_server_mac (sample_array, st0) [([], 5000000), ([], 6000000)] =
      Some (s', Returned cr 0)"
  using exchange_array [OF sample_array_inv sample_array_room(1) _ _ sample_array_room(2) _ sample_server_mac_ok
      sample_client_ok(1) _ sample_client_ok(2), of "replicate SBUF_LEN 0" "blank_meta 0" "[]" 5000000 "[]" 6000000]
    sample_config_masked by auto

text \<open>
  C3. The DHCP exchange, end to end, with the HASHMAP backend, under the same conditions.
\<close>

theorem exchange_hashmap:
  assumes "hash_server_inv s" and "card (dom (hash_leases (pool s))) < unat (dhcp_hashpool_t.max_leases (pool s))"
    and "pool_start (config s) \<le> a" and "a \<le> pool_end (config s)" and "a \<notin> leased_ips (hash_leases (pool s))"
    and "masked (config s)" and "length mac = 6" and "client_ok c" and "length sbuf = SBUF_LEN" and "c_retries c = 0"
  shows "\<exists>st0 s' cr ip. client_start (\<lambda>_. False) c sbuf pmeta = Some st0 \<and>
    net_run True dhcp_process_message_hashmap mac (s, st0) [(rest1, ticks1), (rest2, ticks2)] = Some (s', Returned cr 0) \<and>
    hash_server_inv s' \<and> c_assigned_ip (cr_c cr) = be_bytes ip \<and> pool_start (config s) \<le> ip \<and> ip \<le> pool_end (config s) \<and>
    hash_leases (pool s') (c_mac c) = Some (ip, ts_in_sec ticks2 + lease_time (config s))"
proof -
  have pos: "0 < pool_start (config s)" "hash_pool_inv (pool_start (config s)) (pool_end (config s)) (pool s)"
    using assms(1) by (simp_all add: pool_server_inv_def)
  have "hash_leases (pool s) (c_mac c) \<noteq> Some (0, e)" for e
    using hsh.pool_range [OF pos(2), of "c_mac c" 0 e] pos(1) by auto
  from lease_server.exchange [OF hsh.srv.lease_server_axioms assms(1) pos(1) assms(2) this assms(3-10)] show ?thesis
    unfolding process_hashmap_is_serve by blast
qed

theorem exchange_hashmap_witness:
  "\<exists>s st0 s' cr. dhcp_init_server_hashmap sample_hash_server sample_config 2 = Some s \<and>
    client_start (\<lambda>_. False) sample_client (replicate SBUF_LEN 0) (blank_meta 0) = Some st0 \<and>
    net_run True dhcp_process_message_hashmap sample_server_mac (s, st0) [([], 5000000), ([], 6000000)] = Some (s', Returned cr 0)"
proof -
  obtain s where s: "dhcp_init_server_hashmap sample_hash_server sample_config 2 = Some s" "hash_server_inv s"
    "config s = sample_config" "hash_leases (pool s) = Map.empty" "unat (dhcp_hashpool_t.max_leases (pool s)) = 2"
    by (rule sample_hash_init)
  then have "card (dom (hash_leases (pool s))) < unat (dhcp_hashpool_t.max_leases (pool s))" "0x0A00000A \<notin> leased_ips (hash_leases (pool s))"
    by (simp_all add: leased_ips_def)
  then show ?thesis
    using exchange_hashmap [OF s(2) _ _ _ _ _ sample_server_mac_ok sample_client_ok(1) _ sample_client_ok(2),
        of "0x0A00000A" "replicate SBUF_LEN 0" "blank_meta 0" "[]" 5000000 "[]" 6000000] sample_config_masked s(1,3) by auto
qed

text \<open>
  C4. The server in every lease mode.  With members of the sizes that \<open>dhcp.h\<close> declares, whatever
  their contents, the constructor returns, and then the receive loop handles every sequence of
  frames in which the DHCP requests for the server have a terminated option field: no access
  leaves an array, and the lease pool stays in its invariant.
\<close>

theorem circle_server_safe:
  assumes "\<forall>(buf, ticks) \<in> set fs. good_frame buf" and "length mac = 6"
    and "length m_leases = 2048" and "\<forall>l \<in> set m_leases. length (mac_address l) = 6"
    and "length m_bmvar_ips = (unat DHCP_POOL_SIZE + 31) div 32"
    and "length m_bmuni_ranges = 4" and "length m_bmuni_ips = 4"
    and "\<forall>bm \<in> set m_bmuni_ips. length bm = (unat (DHCP_POOL_SIZE div DHCP_BMUNI_NUM_RANGES) + 31) div 32"
    and "hash_memory HASH_ELEM_MAX (leases (pool hm))" and "hash_memory HASH_ELEM_IP_SIZE (ip_set (pool hm))"
  shows "(\<exists>s0 s rs. CDHCPServer_array m_leases = Some s0 \<and>
      kernel_run True dhcp_process_message_array mac s0 fs = Some (s, rs) \<and> array_server_inv s) \<and>
    (\<exists>s0 s rs. CDHCPServer_hashmap hm = Some s0 \<and>
      kernel_run True dhcp_process_message_hashmap mac s0 fs = Some (s, rs) \<and> hash_server_inv s) \<and>
    (\<exists>s0 s rs. CDHCPServer_bmvar vm r m_bmvar_ips = Some s0 \<and>
      kernel_run False dhcp_process_message_bmvar mac s0 fs = Some (s, rs) \<and> var_server_inv s) \<and>
    (\<exists>s0 s rs. CDHCPServer_bmuni um m_bmuni_ranges m_bmuni_ips = Some s0 \<and>
      kernel_run False dhcp_process_message_bmuni mac s0 fs = Some (s, rs) \<and> uni_server_inv s) \<and>
    (\<exists>s rs. kernel_run False nprc_step mac (CDHCPServer_nprc (nm :: 64 nprc_server)) fs = Some (s, rs) \<and> nprc_server_inv s) \<and>
    (\<exists>s rs. kernel_run False nprc_step mac (CDHCPServer_nprc (nm32 :: 32 nprc_server)) fs = Some (s, rs) \<and> nprc_server_inv s)"
proof (intro conjI)
  have sz: "length m_leases = unat DHCP_MAX_LEASES" using assms(3) by (simp add: DHCP_MAX_LEASES_def)
  note run = address_server.kernel_run_ok
  have nodec: "False \<or> (\<forall>s m. no_decline s m = Some s)" by (simp add: no_decline_def)
  show "\<exists>s0 s rs. CDHCPServer_array m_leases = Some s0 \<and>
      kernel_run True dhcp_process_message_array mac s0 fs = Some (s, rs) \<and> array_server_inv s"
    using CDHCPServer_array_ok [OF sz assms(4)] run [OF arr.srv.address_server_axioms _ assms(1,2), of _ True]
    unfolding process_array_is_serve by blast
  show "\<exists>s0 s rs. CDHCPServer_hashmap hm = Some s0 \<and>
      kernel_run True dhcp_process_message_hashmap mac s0 fs = Some (s, rs) \<and> hash_server_inv s"
    using CDHCPServer_hashmap_ok [OF assms(9,10)] run [OF hsh.srv.address_server_axioms _ assms(1,2), of _ True]
    unfolding process_hashmap_is_serve by blast
  show "\<exists>s0 s rs. CDHCPServer_bmvar vm r m_bmvar_ips = Some s0 \<and>
      kernel_run False dhcp_process_message_bmvar mac s0 fs = Some (s, rs) \<and> var_server_inv s"
    using CDHCPServer_bmvar_ok [OF assms(5)] run [OF bmv.address_server_axioms _ assms(1,2) nodec]
    unfolding process_bmvar_is_serve by blast
  show "\<exists>s0 s rs. CDHCPServer_bmuni um m_bmuni_ranges m_bmuni_ips = Some s0 \<and>
      kernel_run False dhcp_process_message_bmuni mac s0 fs = Some (s, rs) \<and> uni_server_inv s"
    using CDHCPServer_bmuni_ok [OF assms(6-8)] run [OF bmu.address_server_axioms _ assms(1,2) nodec]
    unfolding process_bmuni_is_serve by blast
  show "\<exists>s rs. kernel_run False nprc_step mac (CDHCPServer_nprc nm) fs = Some (s, rs) \<and> nprc_server_inv s"
    using CDHCPServer_nprc_ok(1) [of nm] run [OF npr.address_server_axioms _ assms(1,2) nodec, of "CDHCPServer_nprc nm"]
    unfolding process_nprc_is_serve by simp blast
  show "\<exists>s rs. kernel_run False nprc_step mac (CDHCPServer_nprc nm32) fs = Some (s, rs) \<and> nprc_server_inv s"
    using CDHCPServer_nprc_ok(1) [of nm32] run [OF npr.address_server_axioms _ assms(1,2) nodec, of "CDHCPServer_nprc nm32"]
    unfolding process_nprc_is_serve by simp blast
qed

theorem circle_server_safe_witness:
  "\<exists>s0 s rs. CDHCPServer_array (replicate 2048 blank_lease) = Some s0 \<and>
    kernel_run True dhcp_process_message_array sample_server_mac s0 [(received sample_meta [], 7)] = Some (s, rs) \<and>
    array_server_inv s"
proof -
  have mem: "hash_memory HASH_ELEM_MAX (leases (pool sample_hash_server))"
    "hash_memory HASH_ELEM_IP_SIZE (ip_set (pool sample_hash_server))"
    using sample_memory_ok by (simp_all add: sample_hash_server_def)
  have "\<forall>(buf, ticks) \<in> set [(received sample_meta [], 7 :: u32)]. good_frame buf"
    using received_good [OF sample_meta_ok] by simp
  from circle_server_safe [OF this sample_server_mac_ok, of "replicate 2048 blank_lease"
      "replicate ((unat DHCP_POOL_SIZE + 31) div 32) 0" "replicate 4 \<lparr>ips = [], expire_time = 0\<rparr>"
      "replicate 4 (replicate ((unat (DHCP_POOL_SIZE div DHCP_BMUNI_NUM_RANGES) + 31) div 32) 0)" sample_hash_server] mem
  show ?thesis by (simp add: blank_lease_def)
qed

text \<open>
  C39. Which frames are dropped.  A frame that is not IPv4, not UDP or not for port 67, one whose UDP
  length leaves less than the 240 fixed bytes of a DHCP message, and one with a wrong magic cookie
  are dropped: nothing is sent and the server does not change, whatever the lease mode.  A UDP length
  below the 8 bytes of the UDP header itself is not caught: the subtraction wraps around, and the
  frame is handled exactly like one with the UDP length 556 of a full DHCP message.
\<close>

theorem kernel_ignores_foreign:
  assumes "eth_ok eth" and "ip_ok ip" and "dhcp_ok hdr" and "DHCP_OPTIONS_LEN \<le> length opts" and "length mac = 6"
  shows "(eth_etherType eth \<noteq> htons 0x800 \<or> ip_protocol ip \<noteq> 17 \<or> udp_dstPort udp \<noteq> htons 67 \<or>
      8 \<le> htons (udp_totalLen udp) \<and> htons (udp_totalLen udp) < 248 \<or> dh_magic hdr \<noteq> htonl DHCP_MAGIC_COOKIE \<longrightarrow>
      kernel_frame dec process mac s (frame eth ip udp hdr opts) ticks = Some (s, None)) \<and>
    (htons (udp_totalLen udp) < 8 \<longrightarrow>
      kernel_frame dec process mac s (frame eth ip udp hdr opts) ticks =
      kernel_frame dec process mac s (frame eth ip (udp\<lparr>udp_totalLen := htons 556\<rparr>) hdr opts) ticks)"
proof (intro conjI impI)
  show "kernel_frame dec process mac s (frame eth ip udp hdr opts) ticks = Some (s, None)"
    if "eth_etherType eth \<noteq> htons 0x800 \<or> ip_protocol ip \<noteq> 17 \<or> udp_dstPort udp \<noteq> htons 67 \<or>
      8 \<le> htons (udp_totalLen udp) \<and> htons (udp_totalLen udp) < 248 \<or> dh_magic hdr \<noteq> htonl DHCP_MAGIC_COOKIE"
    by (rule kernel_frame_ignored [OF assms]) (use that request_len_cases(2) in \<open>auto simp: for_server_def\<close>)
  show "kernel_frame dec process mac s (frame eth ip udp hdr opts) ticks =
      kernel_frame dec process mac s (frame eth ip (udp\<lparr>udp_totalLen := htons 556\<rparr>) hdr opts) ticks"
    if "htons (udp_totalLen udp) < 8"
    by (rule kernel_frame_len_only [OF assms(1-5)]) (use request_len_cases(1) [OF that] in \<open>simp_all add: request_len_def\<close>)
qed

text \<open>A frame that is not UDP, and one for port 67 whose UDP length is 0.\<close>

theorem kernel_ignores_foreign_witness:
  "let eth = zero_EthernetHdr\<lparr>eth_etherType := htons 0x800\<rparr>; ip = zero_IPv4Hdr\<lparr>ip_protocol := 17\<rparr>; udp = zero_UDPHdr\<lparr>udp_dstPort := htons 67\<rparr>;
       handle = (\<lambda>ip udp. kernel_frame True dhcp_process_message_array sample_server_mac sample_array
         (frame eth ip udp zero_DHCPHdr (replicate 312 0)) 0)
   in handle zero_IPv4Hdr udp = Some (sample_array, None) \<and> handle ip udp = handle ip (udp\<lparr>udp_totalLen := htons 556\<rparr>)"
proof -
  let ?eth = "zero_EthernetHdr\<lparr>eth_etherType := htons 0x800\<rparr>" and ?ip = "zero_IPv4Hdr\<lparr>ip_protocol := 17\<rparr>"
    and ?udp = "zero_UDPHdr\<lparr>udp_dstPort := htons 67\<rparr>"
  have ok: "eth_ok ?eth" "ip_ok zero_IPv4Hdr" "ip_ok ?ip" "dhcp_ok zero_DHCPHdr" "DHCP_OPTIONS_LEN \<le> length (replicate 312 (0 :: u8))"
    by (simp_all add: eth_ok_def ip_ok_def dhcp_ok_def zero_EthernetHdr_def zero_IPv4Hdr_def zero_DHCPHdr_def DHCP_OPTIONS_LEN_def)
  have "ip_protocol zero_IPv4Hdr \<noteq> 17" by (simp add: zero_IPv4Hdr_def)
  moreover have "htons (udp_totalLen ?udp) < 8" by (simp add: zero_UDPHdr_def) code_simp
  ultimately show ?thesis
    using kernel_ignores_foreign [OF ok(1,2,4,5) sample_server_mac_ok, of ?udp True dhcp_process_message_array sample_array 0]
      kernel_ignores_foreign [OF ok(1,3-5) sample_server_mac_ok, of ?udp True dhcp_process_message_array sample_array 0]
    by (auto simp: Let_def)
qed

text \<open>
  C29. The client implements the protocol.  When its first \<open>sendto\<close> succeeds, whatever the network
  delivers and whichever later calls fail, \<open>run_client\<close> makes only
  steps of the abstract client \<open>client_spec\<close> on what it observes; it never leaves its buffers, and it
  sends at most six frames, each a DISCOVER or a REQUEST with the client's hardware address and
  transaction identifier.
\<close>

theorem client_refines_protocol:
  assumes "client_ok c" and "length sbuf = SBUF_LEN" and "c_retries c = 0" and "\<not> fails 0"
  shows "\<exists>st. run_client fails c sbuf pmeta es = Some st \<and>
    client_runs (Selecting 0) (map (observe (c_xid c)) es) (phase_of st) \<and>
    length (cr_sent (run_of st)) \<le> 6 \<and>
    (\<forall>f \<in> set (cr_sent (run_of st)). \<exists>b. meta_of c b \<and> client_frame b f)"
proof -
  obtain st where "run_client fails c sbuf pmeta es = Some st" "run_by c (run_of st)" "sent_within 6 st"
    "client_runs (Selecting 0) (map (observe (c_xid c)) es) (phase_of st)"
    using run_client_simulates [where fails = fails, OF assms] by blast
  then show ?thesis by (auto simp: sent_within_def run_by_def)
qed

theorem client_refines_protocol_witness:
  "\<exists>st. run_client (\<lambda>_. False) sample_client (replicate SBUF_LEN 0) (blank_meta 0) [Timeout, Packet [1, 2, 3]] = Some st \<and>
    client_runs (Selecting 0) (map (observe (c_xid sample_client)) [Timeout, Packet [1, 2, 3]]) (phase_of st)"
  using client_refines_protocol [OF sample_client_ok(1) _ sample_client_ok(2), of "replicate SBUF_LEN 0" "\<lambda>_. False"
      "blank_meta 0" "[Timeout, Packet [1, 2, 3]]"] by auto

text \<open>
  C30. The client always comes to an end.  After at most five timeouts \<open>run_client\<close> has returned,
  whatever packets arrive in between.
\<close>

theorem client_terminates:
  assumes "client_ok c" and "length sbuf = SBUF_LEN" and "c_retries c = 0" and "5 \<le> count_list es Timeout"
  shows "\<exists>cr rc. run_client fails c sbuf pmeta es = Some (Returned cr rc)"
  by (rule run_client_ends [OF assms])

theorem client_terminates_witness:
  "\<exists>cr rc. run_client (\<lambda>_. False) sample_client (replicate SBUF_LEN 0) (blank_meta 0) (replicate 5 Timeout) = Some (Returned cr rc)"
  by (rule client_terminates) (simp_all add: eval_nat_numeral)

text \<open>
  C31. An address is assigned only by an ACK.  If \<open>run_client\<close> returns 0, the events contain an OFFER
  and after it an ACK, both with the client's transaction identifier, and the assigned address is
  the one of the ACK.
\<close>

theorem client_assigned_by_ack:
  assumes "client_ok c" and "length sbuf = SBUF_LEN" and "c_retries c = 0" and "\<not> fails 0"
    and "run_client fails c sbuf pmeta es = Some (Returned cr 0)"
  shows "\<exists>as bs ip. map (observe (c_xid c)) es = as @ Seen_Offer ip # bs \<and> Seen_Ack (c_assigned_ip (cr_c cr)) \<in> set bs"
  using run_client_simulates [where fails = fails, OF assms(1-4), of pmeta es] assms(5) client_runs_bound by fastforce

theorem client_assigned_by_ack_witness:
  "\<exists>es cr as bs ip. run_client (\<lambda>_. False) sample_client (replicate SBUF_LEN 0) (blank_meta 0) es = Some (Returned cr 0) \<and>
    map (observe (c_xid sample_client)) es = as @ Seen_Offer ip # bs \<and> Seen_Ack (c_assigned_ip (cr_c cr)) \<in> set bs"
proof -
  obtain es cr where run: "run_client (\<lambda>_. False) sample_client (replicate SBUF_LEN 0) (blank_meta 0) es = Some (Returned cr 0)"
    using sample_run by blast
  have "\<exists>as bs ip. map (observe (c_xid sample_client)) es = as @ Seen_Offer ip # bs \<and> Seen_Ack (c_assigned_ip (cr_c cr)) \<in> set bs"
    using client_assigned_by_ack [where fails = "\<lambda>_. False", OF sample_client_ok(1) _ sample_client_ok(2) _ run] by simp
  with run show ?thesis by blast
qed

text \<open>
  The sequential load generator comes to an end and counts every client.  If each client gets
  at least five timeouts, or fewer when its exchange is over before, \<open>main\<close> returns with counters
  that add up to the number of clients, and the total time is the sum of the two partial times.
\<close>

theorem main_counts_all:
  assumes "\<forall>x \<in> set xs. length (in_mac x) = 6 \<and> length (in_sbuf x) = SBUF_LEN \<and> 5 \<le> count_list (in_events x) Timeout"
    and "total_ms r = success_ms r + fail_ms r"
  shows "\<exists>r'. main_loop r xs = Some (r', True) \<and> passed r' + failed r' = passed r + failed r + int (length xs) \<and>
    total_ms r' = success_ms r' + fail_ms r'"
  using assms
proof (induction xs arbitrary: r)
  case (Cons x xs)
  let ?c = "new_client (in_mac x) (in_xid x)" and ?ms = "elapsed_ms (in_start x) (in_end x)"
  have c: "client_ok ?c" "c_retries ?c = 0" using Cons.prems(1) by (simp_all add: client_ok_def new_client_def zero_client_def)
  obtain cr rc where run: "run_client (in_fails x) ?c (in_sbuf x) (in_pmeta x) (in_events x) = Some (Returned cr rc)"
    using run_client_ends [OF c(1) _ c(2), of "in_sbuf x" "in_events x" "in_fails x" "in_pmeta x"] Cons.prems(1) by auto
  define r1 where "r1 = (if rc = 0 then r\<lparr>passed := passed r + 1, success_ms := success_ms r + ?ms\<rparr>
      else r\<lparr>failed := failed r + 1, fail_ms := fail_ms r + ?ms\<rparr>)"
  define r2 where "r2 = r1\<lparr>total_ms := total_ms r1 + ?ms\<rparr>"
  have step: "main_loop r (x # xs) = main_loop r2 xs" using run by (simp add: Let_def r1_def r2_def)
  have "total_ms r2 = success_ms r2 + fail_ms r2" "passed r2 + failed r2 = passed r + failed r + 1"
    using Cons.prems(2) by (simp_all add: r1_def r2_def)
  then show ?case unfolding step using Cons.IH [of r2] Cons.prems(1) by fastforce
qed simp

end
