(* ===== verification/Client_Queue.thy ===== *)
theory Client_Queue
  imports Bench_Client Cqueue_Correct
begin

text \<open>
  The work queue of the load generator, \<open>bench-live/client-queue.c\<close>: the circular byte queue with
  \<open>CQ_N = 4096 * 8 * sizeof (void *)\<close>, holding the addresses of clients.  Every function holds the
  lock of the queue for its whole body, so it is one step.  The null pointer is 0.
\<close>

definition client_queue_init :: "cq_t \<Rightarrow> cq_t option" where
  "client_queue_init cq = do {
     (cq, rc) \<leftarrow> cq_init BENCH_CQ_N cq;
     Some cq
   }"

text \<open>\<open>d\<close> is the content of the uninitialised \<open>c_async_ptr\<close>.\<close>

definition pop_client :: "cq_t \<Rightarrow> u64 \<Rightarrow> (cq_t \<times> u64) option" where
  "pop_client cq d = do {
     (cq, c_async_ptr, rc) \<leftarrow> cq_pop64 BENCH_CQ_N cq d;
     Some (cq, if \<not> rc then 0 else c_async_ptr)
   }"

definition push_client :: "cq_t \<Rightarrow> u64 \<Rightarrow> cq_t option" where
  "push_client cq c_async = do {
     (cq, rc) \<leftarrow> cq_push64 BENCH_CQ_N cq c_async;
     Some cq
   }"

text \<open>The loop of \<open>main\<close> that pushes the clients.\<close>

fun push_all :: "cq_t \<Rightarrow> u64 list \<Rightarrow> cq_t option" where
  "push_all cq [] = Some cq"
| "push_all cq (p # ps) = do {
     cq \<leftarrow> push_client cq p;
     push_all cq ps
   }"

section \<open>The queue is a bounded list of addresses\<close>

definition queue_inv :: "cq_t \<Rightarrow> bool" where
  "queue_inv cq \<longleftrightarrow> cq64_inv BENCH_CQ_N cq"

definition queued :: "cq_t \<Rightarrow> u64 list" where
  "queued cq = cq64_list BENCH_CQ_N cq"

definition QUEUE_MAX :: nat where "QUEUE_MAX = 32767"

lemma queue_bound: "(unat BENCH_CQ_N - 1) div 8 = QUEUE_MAX"
  by (simp add: BENCH_CQ_N_def QUEUE_MAX_def)

lemma client_queue_init_ok:
  assumes "length (c_buf cq) = unat BENCH_CQ_N"
  shows "\<exists>cq'. client_queue_init cq = Some cq' \<and> queue_inv cq' \<and> queued cq' = []"
proof -
  have "1 < unat BENCH_CQ_N" "unat BENCH_CQ_N < 2 ^ 32" "unat BENCH_CQ_N dvd 2 ^ 32"
    by (simp_all add: BENCH_CQ_N_def)
  note size = this
  have wide: "32 \<le> LENGTH(64)" by simp
  obtain cq' where cq': "cq_init BENCH_CQ_N cq = Some (cq', True)" "cq_inv BENCH_CQ_N cq'" "cq_list BENCH_CQ_N cq' = []"
    using cq_init_ok [OF wide size assms] by blast
  have "cq_len BENCH_CQ_N cq' = 0" unfolding length_cq_list [symmetric] cq'(3) by simp
  then show ?thesis
    using cq' by (simp add: client_queue_init_def queue_inv_def queued_def cq64_inv_def cq64_list_def)
qed

lemma push_client_ok:
  assumes "queue_inv cq"
  shows "\<exists>cq'. push_client cq p = Some cq' \<and> queue_inv cq' \<and>
    queued cq' = (if length (queued cq) < QUEUE_MAX then queued cq @ [p] else queued cq)"
  using cq64.push_ok [OF assms [unfolded queue_inv_def], of p] unfolding queue_bound
  by (auto simp: push_client_def queue_inv_def queued_def)

lemma pop_client_ok:
  assumes "queue_inv cq"
  shows "\<exists>cq'. pop_client cq d = Some (cq', if queued cq = [] then 0 else hd (queued cq)) \<and> queue_inv cq' \<and>
    queued cq' = tl (queued cq)"
  using cq64.pop_ok [OF assms [unfolded queue_inv_def], of d]
  by (auto simp: pop_client_def queue_inv_def queued_def)

lemma push_all_ok:
  assumes "queue_inv cq" and "length (queued cq) + length ps \<le> QUEUE_MAX"
  shows "\<exists>cq'. push_all cq ps = Some cq' \<and> queue_inv cq' \<and> queued cq' = queued cq @ ps"
  using assms
proof (induction ps arbitrary: cq)
  case Nil
  then show ?case by simp
next
  case (Cons p ps)
  obtain cq1 where cq1: "push_client cq p = Some cq1" "queue_inv cq1" "queued cq1 = queued cq @ [p]"
    using push_client_ok [OF Cons.prems(1), of p] Cons.prems(2) by auto
  with Cons.IH [OF cq1(2)] Cons.prems(2) show ?case by auto
qed

end
