(* ===== verification/Bench_Hash.thy ===== *)
theory Bench_Hash
  imports Hash_Table_Correct
begin

text \<open>
  The hash table of the load generator, \<open>bench-live/lib/hash.h\<close> and \<open>bench-live/lib/hash.c\<close>.  It is the
  table of \<open>ds-lib\<close> before the macros: the same statements for elements of \<open>HASH_ELEM_MAX\<close> = 8 bytes
  and 4096 slots, so its functions are the instances of the functions of \<open>Hash_Table\<close> at these
  sizes.  The last part shows when a table may be used with other functions than the ones it was
  filled with, which the clients need whose functions read memory.
\<close>

definition LIB_HASH_N :: u32 where "LIB_HASH_N = 4096"
definition LIB_HASH_ELEM_MAX :: nat where "LIB_HASH_ELEM_MAX = 8"

definition lib_insert_elem :: "hash_tab \<Rightarrow> nat \<Rightarrow> hash_elem \<Rightarrow> hash_tab option" where
  "lib_insert_elem = insert_elem LIB_HASH_ELEM_MAX"

definition lib_replace_elem :: "hash_elem \<Rightarrow> hash_elem \<Rightarrow> hash_elem option" where
  "lib_replace_elem = replace_elem LIB_HASH_ELEM_MAX"

definition lib_clear_elem :: "hash_tab \<Rightarrow> nat \<Rightarrow> hash_tab option" where
  "lib_clear_elem = clear_elem LIB_HASH_ELEM_MAX"

definition lib_hash_clear :: "hash_tab \<Rightarrow> hash_tab option" where
  "lib_hash_clear = hash_clear LIB_HASH_ELEM_MAX"

definition lib_hash_size :: "hash_tab \<Rightarrow> u32" where
  "lib_hash_size h = elem_cnt h"

definition lib_hash_empty :: "hash_tab \<Rightarrow> bool" where
  "lib_hash_empty h \<longleftrightarrow> elem_cnt h = 0"

definition lib_hash_init :: "hash_tab \<Rightarrow> (hash_elem \<Rightarrow> aux_ptr \<Rightarrow> u32 option) \<Rightarrow>
    (hash_elem \<Rightarrow> hash_elem \<Rightarrow> aux_ptr \<Rightarrow> int option) \<Rightarrow> aux_ptr \<Rightarrow> (hash_tab \<times> bool) option" where
  "lib_hash_init h hf cf ax = do {
     h \<leftarrow> lib_hash_clear (h\<lparr>capacity := LIB_HASH_N, hash := hf, comp := cf, aux := ax\<rparr>);
     Some (h, lib_hash_empty h)
   }"

definition lib_hash_insert :: "hash_tab \<Rightarrow> hash_elem \<Rightarrow> (hash_tab \<times> bool) option" where
  "lib_hash_insert = hash_insert LIB_HASH_ELEM_MAX"

definition lib_hash_replace :: "hash_tab \<Rightarrow> hash_elem \<Rightarrow> (hash_tab \<times> bool) option" where
  "lib_hash_replace = hash_replace LIB_HASH_ELEM_MAX"

definition lib_hash_find :: "hash_tab \<Rightarrow> hash_elem \<Rightarrow> nat option option" where
  "lib_hash_find = hash_find"

definition lib_hash_delete :: "hash_tab \<Rightarrow> hash_elem \<Rightarrow> (hash_tab \<times> bool) option" where
  "lib_hash_delete = hash_delete LIB_HASH_ELEM_MAX"

lemma lib_hash_init_eq: "lib_hash_init h hf cf ax = hash_init LIB_HASH_ELEM_MAX LIB_HASH_N h hf cf ax"
  by (simp add: lib_hash_init_def hash_init_def lib_hash_clear_def lib_hash_empty_def)

lemmas lib_hash_defs = lib_hash_init_eq lib_hash_insert_def lib_hash_replace_def lib_hash_find_def lib_hash_delete_def

section \<open>Exchanging the functions of a table\<close>

definition rebind :: "(hash_elem \<Rightarrow> aux_ptr \<Rightarrow> u32 option) \<Rightarrow> (hash_elem \<Rightarrow> hash_elem \<Rightarrow> aux_ptr \<Rightarrow> int option) \<Rightarrow>
    hash_tab \<Rightarrow> hash_tab" where
  "rebind hf cf h = h\<lparr>hash := hf, comp := cf\<rparr>"

lemma rebind_sel [simp]:
  "hash (rebind hf cf h) = hf" "comp (rebind hf cf h) = cf" "capacity (rebind hf cf h) = capacity h"
  "buckets (rebind hf cf h) = buckets h" "occupied (rebind hf cf h) = occupied h" "elem_cnt (rebind hf cf h) = elem_cnt h"
  "aux (rebind hf cf h) = aux h" "view (rebind hf cf h) = view h" "rebind hf cf (rebind hf' cf' h) = rebind hf cf h"
  by (simp_all add: rebind_def view_def fun_eq_iff)

lemma rebind_id: "hash h = hf \<Longrightarrow> comp h = cf \<Longrightarrow> rebind hf cf h = h"
  by (auto simp: rebind_def)

lemma hash_map_rebind [simp]: "hash_map key (rebind hf cf h) = hash_map key h"
  by (simp add: hash_map_def)

lemma hash_map_key_cong:
  assumes "\<And>i e. i < slots h \<Longrightarrow> view h i = Some e \<Longrightarrow> key' e = key e"
  shows "hash_map key' h = hash_map key h"
proof
  fix k
  have "find (\<lambda>i. case view h i of None \<Rightarrow> False | Some b \<Rightarrow> key' b = k) [0..<slots h] =
      find (\<lambda>i. case view h i of None \<Rightarrow> False | Some b \<Rightarrow> key b = k) [0..<slots h]"
    by (rule find_cong) (auto simp: assms split: option.splits)
  then show "hash_map key' h k = hash_map key h k" by (simp add: hash_map_def ring_map_def)
qed

lemma hash_tab_ok_rebind:
  assumes ok: "hash_tab_ok n valid hf cf key h"
    and same: "\<And>i e. i < slots h \<Longrightarrow> view h i = Some e \<Longrightarrow> valid' e \<and> key' e = key e \<and> hf' e (aux h) = hf e (aux h)"
  shows "hash_tab_ok n valid' hf' cf' key' (rebind hf' cf' h)"
proof -
  let ?h = "rebind hf' cf' h"
  have inv: "hash h = hf" "hash_wf n valid h" "keys_distinct (slots h) key (view h)"
    "unat (elem_cnt h) = filled (slots h) (view h)"
    using ok by (auto simp: hash_tab_ok_def hash_inv_def)
  obtain f where f: "f < slots h" "probed (slots h) (hash_home h) f (view h)"
    using ok by (auto simp: hash_tab_ok_def hash_inv_def)
  have N: "0 < slots h" using inv(2) by (simp add: hash_wf_def)
  have home: "hash_home ?h e = hash_home h e" if "i < slots h" "view h i = Some e" for i e
    using same [OF that] inv(1) by (simp add: hash_home_def)
  have "valid' (buckets h ! i)" if "i < slots h" "occupied h ! i \<noteq> 0" for i
    using same [of i "buckets h ! i"] that by (simp add: view_def)
  then have "hash_wf n valid' ?h" using inv(2) by (simp add: hash_wf_def)
  moreover have "keys_distinct (slots h) key' (view h)"
    using inv(3) same unfolding keys_distinct_def by metis
  moreover have "probed (slots h) (hash_home ?h) f (view h)"
    using f(2) home [OF slot_less [OF N]] unfolding probed_def by metis
  ultimately show ?thesis using inv(4) f(1) by (auto simp: hash_tab_ok_def hash_inv_def)
qed

end
