(* ===== verification/Xid_Tab.thy ===== *)
theory Xid_Tab
  imports Bench_Client Bench_Hash Hash_Pool_Correct Byte_Order
begin

text \<open>
  The table of transactions in flight, \<open>bench-live/xid-tab.c\<close>.  An element of the hash table holds the
  address of a client; the hash and the comparison follow the address and look at the transaction
  id of the client there, so both are functions of the memory.  The function pointers that the
  table stores never change, but what they compute does, so every operation binds them to the
  memory of the moment.  A search uses a client on the stack, at an address \<open>d\<close> that no other
  object has, with the content \<open>dummy\<close> except for the id.
\<close>

section \<open>Model\<close>

definition fnv1a :: "u8 list \<Rightarrow> nat \<Rightarrow> u32 option" where
  "fnv1a p n = do {
     h \<leftarrow> fnv_from p 2166136261 0 n;
     Some (h mod LIB_HASH_N)
   }"

definition generic_hash :: "client_mem \<Rightarrow> hash_elem \<Rightarrow> aux_ptr \<Rightarrow> u32 option" where
  "generic_hash mem e x = do {
     p \<leftarrow> rd_bytes (elem e) 0 8;
     c \<leftarrow> mem (host_word p);
     fnv1a (host_bytes (client_xid c)) 4
   }"

text \<open>
  \<open>memcpy (&ca, a->elem, a->elem_size)\<close> fills the pointer when the size is 8; with any other size the
  pointer is partly indeterminate or the copy writes past it.
\<close>

definition elem_ptr :: "hash_elem \<Rightarrow> u64 option" where
  "elem_ptr e = (if elem_size e = 8 then map_option host_word (rd_bytes (elem e) 0 8) else None)"

definition generic_comp :: "client_mem \<Rightarrow> hash_elem \<Rightarrow> hash_elem \<Rightarrow> aux_ptr \<Rightarrow> int option" where
  "generic_comp mem a b x = do {
     pa \<leftarrow> elem_ptr a;
     pb \<leftarrow> elem_ptr b;
     ca \<leftarrow> mem pa;
     cb \<leftarrow> mem pb;
     Some (if client_xid ca \<noteq> client_xid cb then 1 else 0)
   }"

definition with_mem :: "client_mem \<Rightarrow> hash_tab \<Rightarrow> hash_tab" where
  "with_mem mem h = rebind (generic_hash mem) (generic_comp mem) h"

text \<open>The element that \<open>memcpy (e.elem, &p, sizeof (void *))\<close> and the assignment of the size build.\<close>

definition ptr_elem :: "u64 \<Rightarrow> hash_elem" where
  "ptr_elem p = \<lparr>elem = host_bytes p, elem_size = 8\<rparr>"

definition xid_tab_init :: "client_mem \<Rightarrow> hash_tab \<Rightarrow> hash_tab option" where
  "xid_tab_init mem h = do {
     (h, rc) \<leftarrow> lib_hash_init h (generic_hash mem) (generic_comp mem) 0;
     Some h
   }"

definition xid_tab_insert :: "client_mem \<Rightarrow> hash_tab \<Rightarrow> u64 \<Rightarrow> hash_tab option" where
  "xid_tab_insert mem h c_async = do {
     (h, rc) \<leftarrow> lib_hash_insert (with_mem mem h) (ptr_elem c_async);
     Some h
   }"

text \<open>The memory while the client on the stack is alive.\<close>

definition with_dummy :: "client_mem \<Rightarrow> u64 \<Rightarrow> client_async \<Rightarrow> u32 \<Rightarrow> client_mem" where
  "with_dummy mem d dummy x = mem(d \<mapsto> dummy\<lparr>ca_c := (ca_c dummy)\<lparr>c_xid := x\<rparr>\<rparr>)"

definition xid_tab_lookup :: "client_mem \<Rightarrow> u64 \<Rightarrow> client_async \<Rightarrow> hash_tab \<Rightarrow> u32 \<Rightarrow> u64 option" where
  "xid_tab_lookup mem d dummy h x = do {
     let h = with_mem (with_dummy mem d dummy x) h;
     found_e \<leftarrow> lib_hash_find h (ptr_elem d);
     case found_e of
       None \<Rightarrow> Some 0
     | Some i \<Rightarrow> do {
         e \<leftarrow> rd (buckets h) i;
         p \<leftarrow> rd_bytes (elem e) 0 8;
         Some (host_word p)
       }
   }"

definition xid_tab_remove :: "client_mem \<Rightarrow> u64 \<Rightarrow> client_async \<Rightarrow> hash_tab \<Rightarrow> u32 \<Rightarrow> hash_tab option" where
  "xid_tab_remove mem d dummy h x = do {
     (h, rc) \<leftarrow> lib_hash_delete (with_mem (with_dummy mem d dummy x) h) (ptr_elem d);
     Some h
   }"

section \<open>The table is keyed by the transaction id\<close>

definition ptr_of :: "hash_elem \<Rightarrow> u64" where
  "ptr_of e = host_word (elem e)"

definition ptr_valid :: "client_mem \<Rightarrow> hash_elem \<Rightarrow> bool" where
  "ptr_valid mem e \<longleftrightarrow> length (elem e) = 8 \<and> elem_size e = 8 \<and> ptr_of e \<in> dom mem"

definition xid_at :: "client_mem \<Rightarrow> hash_elem \<Rightarrow> u32" where
  "xid_at mem e = client_xid (the (mem (ptr_of e)))"

lemma ptr_elem_simps [simp]: "ptr_of (ptr_elem p) = p" "length (elem (ptr_elem p)) = 8" "elem_size (ptr_elem p) = 8"
  "elem (ptr_elem p) = host_bytes p"
  by (simp_all add: ptr_elem_def ptr_of_def)

lemma ptr_valid_elem [simp]: "ptr_valid mem (ptr_elem p) \<longleftrightarrow> p \<in> dom mem"
  by (simp add: ptr_valid_def)

lemma elem_ptr_valid: "ptr_valid mem e \<Longrightarrow> elem_ptr e = Some (ptr_of e)"
  by (simp add: elem_ptr_def ptr_valid_def rd_bytes_def ptr_of_def)

lemma generic_hash_valid:
  assumes "ptr_valid mem e"
  shows "generic_hash mem e x = Some (foldl (\<lambda>h b. (h XOR ucast b) * 16777619) 2166136261 (host_bytes (xid_at mem e)) mod LIB_HASH_N)"
  using assms by (auto simp: generic_hash_def ptr_valid_def rd_bytes_def ptr_of_def fnv1a_def fnv_from_take xid_at_def)

interpretation xids: keyed_hash LIB_HASH_ELEM_MAX "ptr_valid mem" "generic_hash mem" "generic_comp mem" "xid_at mem"
  for mem :: client_mem
proof
  fix a b :: hash_elem and x
  show "\<exists>d. generic_comp mem a b x = Some d \<and> (d = 0 \<longleftrightarrow> xid_at mem a = xid_at mem b)"
    if "ptr_valid mem a" "ptr_valid mem b"
    using that elem_ptr_valid [OF that(1)] elem_ptr_valid [OF that(2)]
    by (auto simp: generic_comp_def xid_at_def ptr_valid_def)
qed (auto simp: generic_hash_valid ptr_valid_def LIB_HASH_ELEM_MAX_def)

section \<open>Invariant and map\<close>

definition xid_tab_ok :: "client_mem \<Rightarrow> hash_tab \<Rightarrow> bool" where
  "xid_tab_ok mem h \<longleftrightarrow> xids.ok mem (with_mem mem h) \<and> capacity h = LIB_HASH_N"

definition in_flight :: "client_mem \<Rightarrow> hash_tab \<Rightarrow> u32 \<rightharpoonup> u64" where
  "in_flight mem h x = map_option ptr_of (hash_map (xid_at mem) h x)"

lemma with_mem_simps [simp]:
  "capacity (with_mem mem h) = capacity h" "view (with_mem mem h) = view h" "buckets (with_mem mem h) = buckets h"
  "with_mem mem (with_mem mem' h) = with_mem mem h" "hash_map key (with_mem mem h) = hash_map key h" "aux (with_mem mem h) = aux h"
  by (simp_all add: with_mem_def)

lemma ok_bound: "xids.ok mem h \<Longrightarrow> with_mem mem h = h"
  by (auto simp: with_mem_def hash_tab_ok_def intro: rebind_id)

lemma in_flight_with_mem [simp]: "in_flight mem (with_mem mem' h) = in_flight mem h"
  by (simp add: in_flight_def fun_eq_iff)

lemma stored_valid:
  assumes "xid_tab_ok mem h" and "i < slots h" and "view h i = Some e"
  shows "ptr_valid mem e"
  using assms xids.view_valid [OF xids.okD(3), of mem "with_mem mem h" i e] by (simp add: xid_tab_ok_def)

text \<open>
  The table depends on the ids of the stored clients only: after a change of the memory that keeps
  the stored clients and their ids it is the same map.
\<close>

definition same_ids :: "client_mem \<Rightarrow> client_mem \<Rightarrow> bool" where
  "same_ids mem mem' \<longleftrightarrow> (\<forall>p c. mem p = Some c \<longrightarrow> (\<exists>c'. mem' p = Some c' \<and> client_xid c' = client_xid c))"

lemma same_idsD:
  assumes "same_ids mem mem'" and "ptr_valid mem e"
  shows "ptr_valid mem' e" and "xid_at mem' e = xid_at mem e"
  using assms by (auto simp: same_ids_def ptr_valid_def xid_at_def) force+

lemma same_ids_ok:
  assumes "same_ids mem mem'" and "xid_tab_ok mem h"
  shows "xid_tab_ok mem' h" and "in_flight mem' h = in_flight mem h"
proof -
  note D = same_idsD [OF assms(1) stored_valid [OF assms(2)]]
  have "hash_map (xid_at mem') h = hash_map (xid_at mem) h"
    by (rule hash_map_key_cong) (rule D(2))
  then show "in_flight mem' h = in_flight mem h" by (simp add: in_flight_def fun_eq_iff)
  have "hash_tab_ok LIB_HASH_ELEM_MAX (ptr_valid mem') (generic_hash mem') (generic_comp mem') (xid_at mem')
      (rebind (generic_hash mem') (generic_comp mem') (with_mem mem h))"
  proof (rule hash_tab_ok_rebind)
    show "xids.ok mem (with_mem mem h)" using assms(2) by (simp add: xid_tab_ok_def)
    fix i e assume "i < slots (with_mem mem h)" "view (with_mem mem h) i = Some e"
    then have i: "i < slots h" "view h i = Some e" by simp_all
    show "ptr_valid mem' e \<and> xid_at mem' e = xid_at mem e \<and>
        generic_hash mem' e (aux (with_mem mem h)) = generic_hash mem e (aux (with_mem mem h))"
      using D [OF i] generic_hash_valid [OF D(1) [OF i]] generic_hash_valid [OF stored_valid [OF assms(2) i]] by simp
  qed
  moreover have "rebind (generic_hash mem') (generic_comp mem') (with_mem mem h) = with_mem mem' h"
    by (simp add: with_mem_def)
  ultimately show "xid_tab_ok mem' h" using assms(2) by (simp add: xid_tab_ok_def)
qed

lemma same_ids_dummy: "d \<notin> dom mem \<Longrightarrow> same_ids mem (with_dummy mem d dummy x)"
  by (auto simp: same_ids_def with_dummy_def)

lemma same_ids_back:
  assumes "d \<notin> dom mem" and "xid_tab_ok (with_dummy mem d dummy x) h"
    and "\<And>y. in_flight (with_dummy mem d dummy x) h y \<noteq> Some d"
  shows "xid_tab_ok mem h" and "in_flight mem h = in_flight (with_dummy mem d dummy x) h"
proof -
  let ?m = "with_dummy mem d dummy x"
  have D: "ptr_valid mem e \<and> xid_at mem e = xid_at ?m e" if i: "i < slots h" "view h i = Some e" for i e
  proof -
    have "keys_distinct (slots h) (xid_at ?m) (view h)"
      using assms(2) xids.okD(5) [of ?m "with_mem ?m h"] by (simp add: xid_tab_ok_def)
    then have "hash_map (xid_at ?m) h (xid_at ?m e) = Some e"
      using i by (auto simp: hash_map_def ring_map_Some_iff)
    then have "ptr_of e \<noteq> d" using assms(3) [of "xid_at ?m e"] by (auto simp: in_flight_def)
    then show ?thesis
      using stored_valid [OF assms(2) i] by (auto simp: ptr_valid_def xid_at_def with_dummy_def)
  qed
  have "hash_map (xid_at mem) h = hash_map (xid_at ?m) h"
    by (rule hash_map_key_cong) (use D in blast)
  then show "in_flight mem h = in_flight ?m h" by (simp add: in_flight_def fun_eq_iff)
  have "hash_tab_ok LIB_HASH_ELEM_MAX (ptr_valid mem) (generic_hash mem) (generic_comp mem) (xid_at mem)
      (rebind (generic_hash mem) (generic_comp mem) (with_mem ?m h))"
  proof (rule hash_tab_ok_rebind)
    show "xids.ok ?m (with_mem ?m h)" using assms(2) by (simp add: xid_tab_ok_def)
    fix i e assume "i < slots (with_mem ?m h)" "view (with_mem ?m h) i = Some e"
    then have i: "i < slots h" "view h i = Some e" by simp_all
    show "ptr_valid mem e \<and> xid_at mem e = xid_at ?m e \<and>
        generic_hash mem e (aux (with_mem ?m h)) = generic_hash ?m e (aux (with_mem ?m h))"
      using D [OF i] generic_hash_valid [of mem e] generic_hash_valid [OF stored_valid [OF assms(2) i]] by simp
  qed
  moreover have "rebind (generic_hash mem) (generic_comp mem) (with_mem ?m h) = with_mem mem h"
    by (simp add: with_mem_def)
  ultimately show "xid_tab_ok mem h" using assms(2) by (simp add: xid_tab_ok_def)
qed

section \<open>The operations on the map\<close>

lemma dom_in_flight: "dom (in_flight mem h) = dom (hash_map (xid_at mem) h)"
  by (auto simp: in_flight_def)

text \<open>The array of a table before its initialisation.\<close>

definition tab_memory :: "hash_tab \<Rightarrow> bool" where
  "tab_memory h \<longleftrightarrow> length (buckets h) = 4096 \<and> length (occupied h) = 4096 \<and> (\<forall>b \<in> set (buckets h). length (elem b) = 8)"

lemma xid_tab_init_ok:
  assumes "tab_memory h"
  shows "\<exists>h'. xid_tab_init mem h = Some h' \<and> xid_tab_ok mem h' \<and> in_flight mem h' = Map.empty"
proof -
  obtain h' where h': "lib_hash_init h (generic_hash mem) (generic_comp mem) 0 = Some (h', True)" "xids.ok mem h'"
    "capacity h' = LIB_HASH_N" "hash_map (xid_at mem) h' = Map.empty"
    using xids.init_ok [of LIB_HASH_N h mem 0] assms
    by (auto simp: lib_hash_defs tab_memory_def LIB_HASH_N_def LIB_HASH_ELEM_MAX_def)
  then show ?thesis
    using ok_bound [OF h'(2)] by (auto simp: xid_tab_init_def xid_tab_ok_def in_flight_def fun_eq_iff)
qed

lemma xid_tab_insert_ok:
  assumes "xid_tab_ok mem h" and "mem p = Some c"
  shows "\<exists>h'. xid_tab_insert mem h p = Some h' \<and> xid_tab_ok mem h' \<and>
    in_flight mem h' = (if card (dom (in_flight mem h)) = 4096 then in_flight mem h
                        else (in_flight mem h)(client_xid c \<mapsto> p))"
proof -
  have ok: "xids.ok mem (with_mem mem h)" "slots h = 4096" "ptr_valid mem (ptr_elem p)" "xid_at mem (ptr_elem p) = client_xid c"
    using assms by (auto simp: xid_tab_ok_def LIB_HASH_N_def xid_at_def)
  obtain h' r where h': "hash_insert LIB_HASH_ELEM_MAX (with_mem mem h) (ptr_elem p) = Some (h', r)" "xids.ok mem h'"
    "capacity h' = capacity h" "if card (dom (in_flight mem h)) = 4096 then \<not> r \<and> h' = with_mem mem h
       else r \<and> hash_map (xid_at mem) h' = (hash_map (xid_at mem) h)(client_xid c \<mapsto> ptr_elem p)"
    using xids.insert_ok [OF ok(1,3)] ok(2,4) by (auto simp: dom_in_flight)
  have "in_flight mem h' = (if card (dom (in_flight mem h)) = 4096 then in_flight mem h
                        else (in_flight mem h)(client_xid c \<mapsto> p))"
    using h'(4) by (cases "card (dom (in_flight mem h)) = 4096") (auto simp: in_flight_def fun_eq_iff)
  with h' ok_bound [OF h'(2)] assms(1) show ?thesis
    by (simp add: xid_tab_insert_def lib_hash_defs xid_tab_ok_def)
qed

lemma xid_tab_lookup_ok:
  assumes "xid_tab_ok mem h" and "d \<notin> dom mem"
  shows "xid_tab_lookup mem d dummy h x = Some (case in_flight mem h x of None \<Rightarrow> 0 | Some p \<Rightarrow> p)"
proof -
  let ?m = "with_dummy mem d dummy x"
  have ok: "xid_tab_ok ?m h" "in_flight ?m h = in_flight mem h"
    using same_ids_ok [OF same_ids_dummy [OF assms(2)] assms(1)] by blast+
  then have t: "xids.ok ?m (with_mem ?m h)" by (simp add: xid_tab_ok_def)
  have e: "ptr_valid ?m (ptr_elem d)" "xid_at ?m (ptr_elem d) = x"
    by (auto simp: with_dummy_def xid_at_def client_xid_def)
  obtain r where r: "hash_find (with_mem ?m h) (ptr_elem d) = Some r"
    "case r of None \<Rightarrow> hash_map (xid_at ?m) h x = None
       | Some i \<Rightarrow> i < slots h \<and> view h i \<noteq> None \<and> hash_map (xid_at ?m) h x = view h i"
    using xids.find_ok [OF t e(1), unfolded e(2) with_mem_simps] by blast
  show ?thesis
  proof (cases r)
    case None
    with r(2) have "in_flight mem h x = None" using ok(2) [symmetric] by (simp add: in_flight_def)
    with r(1) None show ?thesis by (simp add: xid_tab_lookup_def lib_hash_defs Let_def)
  next
    case (Some i)
    with r(2) obtain b where b: "i < slots h" "view h i = Some b" "hash_map (xid_at ?m) h x = Some b" by auto
    have "in_flight mem h x = Some (ptr_of b)" using b(3) ok(2) [symmetric] by (simp add: in_flight_def)
    moreover have "length (elem b) = 8" using stored_valid [OF ok(1) b(1,2)] by (simp add: ptr_valid_def)
    moreover have "rd (buckets h) i = Some b"
      using xids.slot_read(2) [OF xids.okD(3) [OF t], of i] xids.slot_read(4) [OF xids.okD(3) [OF t], of i b] b by simp
    ultimately show ?thesis
      using r(1) Some by (simp add: xid_tab_lookup_def lib_hash_defs Let_def rd_bytes_def ptr_of_def)
  qed
qed

lemma xid_tab_remove_ok:
  assumes "xid_tab_ok mem h" and "d \<notin> dom mem"
  shows "\<exists>h'. xid_tab_remove mem d dummy h x = Some h' \<and> xid_tab_ok mem h' \<and> in_flight mem h' = (in_flight mem h)(x := None)"
proof -
  let ?m = "with_dummy mem d dummy x"
  have ok: "xid_tab_ok ?m h" "in_flight ?m h = in_flight mem h"
    using same_ids_ok [OF same_ids_dummy [OF assms(2)] assms(1)] by blast+
  then have t: "xids.ok ?m (with_mem ?m h)" by (simp add: xid_tab_ok_def)
  have e: "ptr_valid ?m (ptr_elem d)" "xid_at ?m (ptr_elem d) = x"
    by (auto simp: with_dummy_def xid_at_def client_xid_def)
  obtain h' r where h': "hash_delete LIB_HASH_ELEM_MAX (with_mem ?m h) (ptr_elem d) = Some (h', r)" "xids.ok ?m h'"
    "capacity h' = capacity h" "hash_map (xid_at ?m) h' = (hash_map (xid_at ?m) h)(x := None)"
    using xids.delete_ok [OF t e(1)] e(2) by auto
  have map': "in_flight ?m h' = (in_flight mem h)(x := None)"
    unfolding ok(2) [symmetric] using h'(4) by (auto simp: in_flight_def fun_eq_iff)
  have ok': "xid_tab_ok ?m h'" using h' ok_bound [OF h'(2)] assms(1) by (simp add: xid_tab_ok_def)
  have "in_flight mem h y \<noteq> Some d" for y
  proof
    assume "in_flight mem h y = Some d"
    then obtain e where e: "hash_map (xid_at mem) h y = Some e" "ptr_of e = d" by (auto simp: in_flight_def)
    have "keys_distinct (slots h) (xid_at mem) (view h)"
      using assms(1) xids.okD(5) [of mem "with_mem mem h"] by (simp add: xid_tab_ok_def)
    with e obtain i where "i < slots h" "view h i = Some e" by (auto simp: hash_map_def ring_map_Some_iff)
    with stored_valid [OF assms(1)] e(2) assms(2) show False by (auto simp: ptr_valid_def)
  qed
  then have "in_flight ?m h' y \<noteq> Some d" for y using map' by simp
  from same_ids_back [OF assms(2) ok' this] map' h'(1) show ?thesis
    by (simp add: xid_tab_remove_def lib_hash_defs)
qed

end
