(* ===== verification/Workers.thy ===== *)
theory Workers
  imports Run_Client Client_Queue Xid_Tab
begin

text \<open>
  The asynchronous load generator, \<open>bench-live/workers-async.c\<close> and the loops of \<open>main\<close> in
  \<open>bench-live/dhcp-client-async.c\<close>: worker threads that take clients from the queue, and one thread
  that receives frames and puts them in the mailbox of the client they belong to.

  The threads share the queue, the table of transactions and the mailboxes, each behind a lock, so
  a step of the model is the code of one thread between two places where it can wait for a lock, a
  condition or the network.  What a thread does next is its program counter: a value of \<open>worker\<close>, or
  the pointer and the frame that the receive thread has between the look-up and the delivery.
  An event chooses the thread and has the values that the step takes from outside: the clock,
  uninitialised variables, a received frame.  \<open>fails p k\<close> says that the \<open>k\<close>-th call of \<open>sendto\<close> for the
  client at \<open>p\<close> fails; \<open>d\<close> and \<open>dummy\<close> are the address and the content of the client that
  \<open>xid_tab_lookup\<close> and \<open>xid_tab_remove\<close> have on the stack.
\<close>

section \<open>State\<close>

datatype worker = Fetching | Starting u64 | Running u64 timespec client_run | Leaving u64 timespec | Exited

record async_sys =
  as_mem :: client_mem
  as_cq :: cq_t
  as_tab :: hash_tab
  as_workers :: "worker list"
  as_recv :: "(u64 \<times> u8 list) option"

definition set_worker :: "nat \<Rightarrow> worker \<Rightarrow> async_sys \<Rightarrow> async_sys" where
  "set_worker i w sys = sys\<lparr>as_workers := (as_workers sys)[i := w]\<rparr>"

section \<open>The worker thread\<close>

definition worker_pop :: "nat \<Rightarrow> u64 \<Rightarrow> async_sys \<Rightarrow> async_sys option" where
  "worker_pop i junk sys = do {
     (cq, curr_c) \<leftarrow> pop_client (as_cq sys) junk;
     Some (set_worker i (if curr_c = 0 then Exited else Starting curr_c) (sys\<lparr>as_cq := cq\<rparr>))
   }"

text \<open>
  Where a worker goes from the status of its client: \<open>goto out\<close> and the end of the loop both lead to
  the label \<open>out\<close>.  The fields of the client are in memory.
\<close>

definition store_client :: "nat \<Rightarrow> u64 \<Rightarrow> timespec \<Rightarrow> client_async \<Rightarrow> client_status \<Rightarrow> async_sys \<Rightarrow> async_sys" where
  "store_client i p start ca st sys =
     (case st of
        Waiting cr \<Rightarrow> set_worker i (Running p start cr) (sys\<lparr>as_mem := (as_mem sys)(p \<mapsto> ca\<lparr>ca_c := cr_c cr\<rparr>)\<rparr>)
      | Returned cr rc \<Rightarrow> set_worker i (Leaving p start) (sys\<lparr>as_mem := (as_mem sys)(p \<mapsto> ca\<lparr>ca_c := cr_c cr\<rparr>)\<rparr>))"

text \<open>From the insertion in the table to the first wait.\<close>

definition worker_start :: "(u64 \<Rightarrow> nat \<Rightarrow> bool) \<Rightarrow> nat \<Rightarrow> u64 \<Rightarrow> timespec \<Rightarrow> u8 list \<Rightarrow> parse_meta \<Rightarrow> async_sys \<Rightarrow> async_sys option" where
  "worker_start fails i curr_c start sbuf pmeta sys = do {
     ca \<leftarrow> as_mem sys curr_c;
     let ca = ca\<lparr>ca_worker_id := int i, ca_mb := (ca_mb ca)\<lparr>mb_buf_len := 0\<rparr>\<rparr>;
     let sys = sys\<lparr>as_mem := (as_mem sys)(curr_c \<mapsto> ca)\<rparr>;
     tab \<leftarrow> xid_tab_insert (as_mem sys) (as_tab sys) curr_c;
     st \<leftarrow> client_start (fails curr_c) (ca_c ca) sbuf pmeta;
     Some (store_client i curr_c start ca st (sys\<lparr>as_tab := tab\<rparr>))
   }"

text \<open>
  A timed-out wait, which may also happen with a frame in the mailbox: the frame can arrive between
  the timeout and the return of \<open>pthread_cond_timedwait\<close>.  The code does not begin a wait when there is
  a frame; the model has one state for the test and the wait and allows the timeout in both, which
  adds schedules and takes none away.  The inner loop goes on
  without a look at the state of the client, which a retransmission does not change.
\<close>

definition worker_timeout :: "(u64 \<Rightarrow> nat \<Rightarrow> bool) \<Rightarrow> nat \<Rightarrow> u64 \<Rightarrow> timespec \<Rightarrow> client_run \<Rightarrow> async_sys \<Rightarrow> async_sys option" where
  "worker_timeout fails i curr_c start cr sys = do {
     ca \<leftarrow> as_mem sys curr_c;
     st \<leftarrow> on_timeout (fails curr_c) (cr\<lparr>cr_c := ca_c ca\<rparr>);
     Some (store_client i curr_c start ca st sys)
   }"

text \<open>The end of a wait with a frame in the mailbox; \<open>rbuf\<close> has 1024 bytes.\<close>

definition worker_mail :: "(u64 \<Rightarrow> nat \<Rightarrow> bool) \<Rightarrow> nat \<Rightarrow> u64 \<Rightarrow> timespec \<Rightarrow> client_run \<Rightarrow> async_sys \<Rightarrow> async_sys option" where
  "worker_mail fails i curr_c start cr sys = do {
     ca \<leftarrow> as_mem sys curr_c;
     let rlen = nat (mb_buf_len (ca_mb ca));
     rbuf \<leftarrow> (if rlen \<le> 1024 then rd_bytes (mb_buf (ca_mb ca)) 0 rlen else None);
     let ca = ca\<lparr>ca_mb := (ca_mb ca)\<lparr>mb_buf_len := 0\<rparr>\<rparr>;
     st \<leftarrow> on_reply False (fails curr_c) (cr\<lparr>cr_c := ca_c ca, cr_pmeta := (cr_pmeta cr)\<lparr>pm_xid := c_xid (ca_c ca)\<rparr>\<rparr>) rbuf;
     Some (store_client i curr_c start ca st sys)
   }"

definition worker_finish :: "u64 \<Rightarrow> client_async \<Rightarrow> nat \<Rightarrow> u64 \<Rightarrow> timespec \<Rightarrow> timespec \<Rightarrow> async_sys \<Rightarrow> async_sys option" where
  "worker_finish d dummy i curr_c start end' sys = do {
     ca \<leftarrow> as_mem sys curr_c;
     let sys = sys\<lparr>as_mem := (as_mem sys)(curr_c \<mapsto> ca\<lparr>ca_c := (ca_c ca)\<lparr>c_total_ms := elapsed_ms start end'\<rparr>\<rparr>)\<rparr>;
     tab \<leftarrow> xid_tab_remove (as_mem sys) d dummy (as_tab sys) (c_xid (ca_c ca));
     Some (set_worker i Fetching (sys\<lparr>as_tab := tab\<rparr>))
   }"

section \<open>The receive thread\<close>

definition recv_lookup :: "u64 \<Rightarrow> client_async \<Rightarrow> u8 list \<Rightarrow> async_sys \<Rightarrow> async_sys option" where
  "recv_lookup d dummy packet sys = do {
     let rbuf = take 1024 packet;
     (rbuf, rc) \<leftarrow> parse_xid rbuf (length rbuf);
     case rc of
       None \<Rightarrow> Some sys
     | Some x \<Rightarrow> do {
         recv_c \<leftarrow> xid_tab_lookup (as_mem sys) d dummy (as_tab sys) x;
         if recv_c = 0 then Some sys else Some (sys\<lparr>as_recv := Some (recv_c, rbuf)\<rparr>)
       }
   }"

definition recv_deliver :: "u64 \<Rightarrow> u8 list \<Rightarrow> async_sys \<Rightarrow> async_sys option" where
  "recv_deliver recv_c rbuf sys = do {
     ca \<leftarrow> as_mem sys recv_c;
     buf \<leftarrow> kmemcpy (mb_buf (ca_mb ca)) 0 rbuf (length rbuf);
     Some (sys\<lparr>as_mem := (as_mem sys)(recv_c \<mapsto> ca\<lparr>ca_mb := \<lparr>mb_buf = buf, mb_buf_len = int (length rbuf)\<rparr>\<rparr>),
       as_recv := None\<rparr>)
   }"

section \<open>Scheduling\<close>

datatype async_event =
    Run_Worker nat timespec u64 "u8 list" parse_meta
  | Expire nat
  | Receive "u8 list"
  | Deliver

text \<open>
  A run of the program for a sequence of scheduling decisions.  A decision that is not possible (a
  thread that has ended or waits, a second frame while one is being delivered) changes nothing.
\<close>

definition async_step :: "(u64 \<Rightarrow> nat \<Rightarrow> bool) \<Rightarrow> u64 \<Rightarrow> client_async \<Rightarrow> async_event \<Rightarrow> async_sys \<Rightarrow> async_sys option" where
  "async_step fails d dummy ev sys =
     (case ev of
        Run_Worker i now junk sbuf pmeta \<Rightarrow>
          if i < length (as_workers sys) then
            (case as_workers sys ! i of
               Fetching \<Rightarrow> worker_pop i junk sys
             | Starting p \<Rightarrow> worker_start fails i p now sbuf pmeta sys
             | Running p start cr \<Rightarrow> do {
                 ca \<leftarrow> as_mem sys p;
                 if mb_buf_len (ca_mb ca) \<noteq> 0 then worker_mail fails i p start cr sys else Some sys
               }
             | Leaving p start \<Rightarrow> worker_finish d dummy i p start now sys
             | Exited \<Rightarrow> Some sys)
          else Some sys
      | Expire i \<Rightarrow>
          if i < length (as_workers sys) then
            (case as_workers sys ! i of
               Running p start cr \<Rightarrow> worker_timeout fails i p start cr sys
             | _ \<Rightarrow> Some sys)
          else Some sys
      | Receive packet \<Rightarrow> if as_recv sys = None then recv_lookup d dummy packet sys else Some sys
      | Deliver \<Rightarrow> (case as_recv sys of None \<Rightarrow> Some sys | Some (p, rbuf) \<Rightarrow> recv_deliver p rbuf sys))"

fun async_run :: "(u64 \<Rightarrow> nat \<Rightarrow> bool) \<Rightarrow> u64 \<Rightarrow> client_async \<Rightarrow> async_event list \<Rightarrow> async_sys \<Rightarrow> async_sys option" where
  "async_run fails d dummy [] sys = Some sys"
| "async_run fails d dummy (ev # evs) sys = do {
     sys \<leftarrow> async_step fails d dummy ev sys;
     async_run fails d dummy evs sys
   }"

section \<open>The main program\<close>

text \<open>
  \<open>main\<close> up to the creation of the threads: \<open>ps\<close> are the addresses of the clients, \<open>mem\<close> the memory
  after their fields are set, \<open>cq\<close> and \<open>h\<close> the static variables of the queue and the table.
\<close>

definition async_main :: "client_mem \<Rightarrow> u64 list \<Rightarrow> cq_t \<Rightarrow> hash_tab \<Rightarrow> async_sys option" where
  "async_main mem ps cq h = do {
     cq \<leftarrow> client_queue_init cq;
     h \<leftarrow> xid_tab_init mem h;
     cq \<leftarrow> push_all cq ps;
     Some \<lparr>as_mem = mem, as_cq = cq, as_tab = h, as_workers = replicate MAX_WORKERS Fetching, as_recv = None\<rparr>
   }"

text \<open>The loop over the results.\<close>

fun collect_results :: "results \<Rightarrow> client list \<Rightarrow> results" where
  "collect_results r [] = r"
| "collect_results r (c # cs) = collect_results
     (let r = (if c_state c = STATE_DONE then r\<lparr>success_ms := success_ms r + c_total_ms c, passed := passed r + 1\<rparr>
               else r\<lparr>fail_ms := fail_ms r + c_total_ms c, failed := failed r + 1\<rparr>)
      in r\<lparr>total_ms := total_ms r + c_total_ms c\<rparr>) cs"

end
