(* ===== verification/Workers_Correct.thy ===== *)
theory Workers_Correct
  imports Workers Client_Protocol
begin

text \<open>
  The asynchronous load generator is correct under every schedule.  The invariant says that each
  client is in the queue, held by exactly one worker, or finished; that the table has exactly the
  clients in flight; and that a mailbox has only frames with the transaction identifier of its
  client.  \<open>cs\<close> are the addresses of the clients and \<open>X\<close> gives their transaction identifiers, which
  are assumed to be distinct.
\<close>

section \<open>Invariant\<close>

fun held :: "worker \<Rightarrow> u64 option" where
  "held (Starting p) = Some p"
| "held (Running p start cr) = Some p"
| "held (Leaving p start) = Some p"
| "held _ = None"

fun active :: "worker \<Rightarrow> u64 option" where
  "active (Running p start cr) = Some p"
| "active (Leaving p start) = Some p"
| "active _ = None"

definition holds :: "worker list \<Rightarrow> u64 \<Rightarrow> bool" where
  "holds ws p \<longleftrightarrow> (\<exists>i < length ws. held (ws ! i) = Some p)"

definition activates :: "worker list \<Rightarrow> u64 \<Rightarrow> bool" where
  "activates ws p \<longleftrightarrow> (\<exists>i < length ws. active (ws ! i) = Some p)"

definition routed :: "u32 \<Rightarrow> u8 list \<Rightarrow> bool" where
  "routed x rbuf \<longleftrightarrow> parse_xid rbuf (length rbuf) = Some (rbuf, Some x)"

definition mail_ok :: "u32 \<Rightarrow> mailbox \<Rightarrow> bool" where
  "mail_ok x mb \<longleftrightarrow> length (mb_buf mb) = 2048 \<and> 0 \<le> mb_buf_len mb \<and> mb_buf_len mb \<le> 1024 \<and>
     (mb_buf_len mb \<noteq> 0 \<longrightarrow> routed x (take (nat (mb_buf_len mb)) (mb_buf mb)))"

definition client_at :: "(u64 \<Rightarrow> u32) \<Rightarrow> client_mem \<Rightarrow> u64 \<Rightarrow> bool" where
  "client_at X mem p \<longleftrightarrow> (\<exists>ca. mem p = Some ca \<and> client_xid ca = X p \<and> client_ok (ca_c ca) \<and> mail_ok (X p) (ca_mb ca))"

text \<open>A client is finished when it is done or has failed, unless a call of \<open>sendto\<close> failed for it.\<close>

definition ended :: "(u64 \<Rightarrow> nat \<Rightarrow> bool) \<Rightarrow> client_mem \<Rightarrow> u64 \<Rightarrow> bool" where
  "ended fails mem p \<longleftrightarrow> (\<exists>k. fails p k) \<or> c_state (ca_c (the (mem p))) = STATE_DONE \<or> c_state (ca_c (the (mem p))) = STATE_FAILED"

fun worker_ok :: "(u64 \<Rightarrow> nat \<Rightarrow> bool) \<Rightarrow> client_mem \<Rightarrow> worker \<Rightarrow> bool" where
  "worker_ok fails mem (Starting p) = (c_retries (ca_c (the (mem p))) = 0)"
| "worker_ok fails mem (Running p start cr) = (waiting_ok cr \<and> cr_c cr = ca_c (the (mem p)))"
| "worker_ok fails mem (Leaving p start) = ended fails mem p"
| "worker_ok fails mem _ = True"

definition own_inv :: "u64 list \<Rightarrow> u64 list \<Rightarrow> worker list \<Rightarrow> bool" where
  "own_inv cs q ws \<longleftrightarrow> distinct q \<and> set q \<subseteq> set cs \<and>
     (\<forall>i < length ws. \<forall>p. held (ws ! i) = Some p \<longrightarrow> p \<in> set cs \<and> p \<notin> set q) \<and>
     (\<forall>i < length ws. \<forall>j < length ws. \<forall>p. held (ws ! i) = Some p \<and> held (ws ! j) = Some p \<longrightarrow> i = j) \<and>
     (\<forall>i < length ws. ws ! i = Exited \<longrightarrow> q = [])"

definition clients_inv :: "(u64 \<Rightarrow> nat \<Rightarrow> bool) \<Rightarrow> (u64 \<Rightarrow> u32) \<Rightarrow> u64 list \<Rightarrow> client_mem \<Rightarrow> u64 list \<Rightarrow> worker list \<Rightarrow> bool" where
  "clients_inv fails X cs mem q ws \<longleftrightarrow> (\<forall>p \<in> set cs. client_at X mem p) \<and>
     (\<forall>p \<in> set q. c_retries (ca_c (the (mem p))) = 0) \<and>
     (\<forall>i < length ws. worker_ok fails mem (ws ! i)) \<and>
     (\<forall>p \<in> set cs. p \<notin> set q \<and> \<not> holds ws p \<longrightarrow> ended fails mem p)"

definition table_inv :: "(u64 \<Rightarrow> u32) \<Rightarrow> client_mem \<Rightarrow> hash_tab \<Rightarrow> worker list \<Rightarrow> bool" where
  "table_inv X mem tab ws \<longleftrightarrow> xid_tab_ok mem tab \<and> (\<forall>x p. in_flight mem tab x = Some p \<longleftrightarrow> X p = x \<and> activates ws p)"

definition recv_inv :: "(u64 \<Rightarrow> u32) \<Rightarrow> u64 list \<Rightarrow> (u64 \<times> u8 list) option \<Rightarrow> bool" where
  "recv_inv X cs r \<longleftrightarrow> (\<forall>p rbuf. r = Some (p, rbuf) \<longrightarrow> p \<in> set cs \<and> length rbuf \<le> 1024 \<and> routed (X p) rbuf)"

definition async_inv :: "(u64 \<Rightarrow> nat \<Rightarrow> bool) \<Rightarrow> (u64 \<Rightarrow> u32) \<Rightarrow> u64 list \<Rightarrow> u64 \<Rightarrow> async_sys \<Rightarrow> bool" where
  "async_inv fails X cs d sys \<longleftrightarrow> inj_on X (set cs) \<and> 0 \<notin> set cs \<and> d \<notin> dom (as_mem sys) \<and> length (as_workers sys) < 4096 \<and>
     queue_inv (as_cq sys) \<and> own_inv cs (queued (as_cq sys)) (as_workers sys) \<and>
     clients_inv fails X cs (as_mem sys) (queued (as_cq sys)) (as_workers sys) \<and>
     table_inv X (as_mem sys) (as_tab sys) (as_workers sys) \<and> recv_inv X cs (as_recv sys)"

section \<open>One worker changes one client\<close>

lemma active_held: "active w = Some p \<Longrightarrow> held w = Some p"
  by (cases w) auto

lemma holds_update:
  assumes "i < length ws"
  shows "holds (ws[i := w]) p \<longleftrightarrow> held w = Some p \<or> (\<exists>j < length ws. j \<noteq> i \<and> held (ws ! j) = Some p)"
  using assms by (auto simp: holds_def nth_list_update)

lemma activates_update:
  assumes "i < length ws"
  shows "activates (ws[i := w]) p \<longleftrightarrow> active w = Some p \<or> (\<exists>j < length ws. j \<noteq> i \<and> active (ws ! j) = Some p)"
  using assms by (auto simp: activates_def nth_list_update)

lemma own_invD:
  assumes "own_inv cs q ws"
  shows "distinct q" and "set q \<subseteq> set cs"
    and "i < length ws \<Longrightarrow> held (ws ! i) = Some p \<Longrightarrow> p \<in> set cs" and "i < length ws \<Longrightarrow> held (ws ! i) = Some p \<Longrightarrow> p \<notin> set q"
    and "i < length ws \<Longrightarrow> j < length ws \<Longrightarrow> held (ws ! i) = Some p \<Longrightarrow> held (ws ! j) = Some p \<Longrightarrow> i = j"
    and "i < length ws \<Longrightarrow> ws ! i = Exited \<Longrightarrow> q = []"
  using assms unfolding own_inv_def by simp_all

lemma own_inv_update:
  assumes "own_inv cs q ws" and "i < length ws" and "held (ws ! i) = Some p" and "held w = Some p \<or> w = Fetching"
  shows "own_inv cs q (ws[i := w])"
proof -
  have h: "held (ws ! j) = Some r" if "held (ws[i := w] ! j) = Some r" "j < length ws" for j r
    using that assms(2-4) by (cases "j = i") auto
  have e: "ws ! j = Exited" if "ws[i := w] ! j = Exited" "j < length ws" for j
    using that assms(2,4) by (cases "j = i") auto
  note O = own_invD [OF assms(1)]
  show ?thesis
    unfolding own_inv_def length_list_update
  proof (intro conjI allI impI)
    fix j r assume j: "j < length ws" "held (ws[i := w] ! j) = Some r"
    show "r \<in> set cs" "r \<notin> set q" using O(3,4) [OF j(1) h [OF j(2,1)]] .
  next
    fix j k r assume j: "j < length ws" "k < length ws" "held (ws[i := w] ! j) = Some r \<and> held (ws[i := w] ! k) = Some r"
    then show "j = k" using O(5) h by blast
  next
    fix j assume "j < length ws" "ws[i := w] ! j = Exited"
    then show "q = []" using O(6) e by blast
  qed (use O in simp_all)
qed

text \<open>The condition on a worker depends on the client that it holds only.\<close>

lemma worker_ok_cong:
  assumes "\<And>p. held w = Some p \<Longrightarrow> mem' p = mem p"
  shows "worker_ok fails mem' w = worker_ok fails mem w"
  using assms by (cases w) (auto simp: ended_def)

lemma clients_inv_update:
  assumes "clients_inv fails X cs mem q ws" and own: "own_inv cs q ws" and i: "i < length ws" "held (ws ! i) = Some p"
    and at: "client_at X (mem(p \<mapsto> ca)) p"
    and w: "held w = Some p \<and> worker_ok fails (mem(p \<mapsto> ca)) w \<or> w = Fetching \<and> ended fails (mem(p \<mapsto> ca)) p"
  shows "clients_inv fails X cs (mem(p \<mapsto> ca)) q (ws[i := w])"
proof -
  let ?mem = "mem(p \<mapsto> ca)"
  have pq: "p \<notin> set q" using own i by (auto simp: own_inv_def)
  have other: "j = i" if "j < length ws" "held (ws ! j) = Some p" for j using own i that unfolding own_inv_def by blast
  note C = assms(1) [unfolded clients_inv_def]
  have "client_at X ?mem r" if "r \<in> set cs" for r using C at that by (cases "r = p") (auto simp: client_at_def)
  moreover have "c_retries (ca_c (the (?mem r))) = 0" if "r \<in> set q" for r using C pq that by auto
  moreover have "worker_ok fails ?mem (ws[i := w] ! j)" if "j < length ws" for j
  proof (cases "j = i")
    case True
    with w i show ?thesis by auto
  next
    case False
    with other [OF that] have "worker_ok fails ?mem (ws ! j) = worker_ok fails mem (ws ! j)" by (intro worker_ok_cong) auto
    with C that False show ?thesis by simp
  qed
  moreover have "ended fails ?mem r" if r: "r \<in> set cs" "r \<notin> set q" "\<not> holds (ws[i := w]) r" for r
  proof (cases "r = p")
    case True
    with r w i show ?thesis by (auto simp: holds_update)
  next
    case False
    have "\<not> holds ws r"
    proof
      assume "holds ws r"
      then obtain j where j: "j < length ws" "held (ws ! j) = Some r" by (auto simp: holds_def)
      then have "j \<noteq> i" using False i(2) by auto
      then show False using j r(3) holds_update [OF i(1)] by blast
    qed
    with C r False show ?thesis by (auto simp: ended_def)
  qed
  ultimately show ?thesis by (simp add: clients_inv_def)
qed

lemma async_inv_update:
  assumes inv: "async_inv fails X cs d sys" and i: "i < length (as_workers sys)" "held (as_workers sys ! i) = Some p"
    and at: "client_at X ((as_mem sys)(p \<mapsto> ca)) p"
    and w: "held w = Some p \<and> worker_ok fails ((as_mem sys)(p \<mapsto> ca)) w \<or> w = Fetching \<and> ended fails ((as_mem sys)(p \<mapsto> ca)) p"
    and tab: "table_inv X ((as_mem sys)(p \<mapsto> ca)) tab ((as_workers sys)[i := w])"
  shows "async_inv fails X cs d (sys\<lparr>as_mem := (as_mem sys)(p \<mapsto> ca), as_tab := tab, as_workers := (as_workers sys)[i := w]\<rparr>)"
proof -
  note I = inv [unfolded async_inv_def]
  have "p \<in> set cs" using I i by (auto simp: own_inv_def)
  then have "p \<in> dom (as_mem sys)" using I by (auto simp: clients_inv_def client_at_def)
  moreover have "own_inv cs (queued (as_cq sys)) ((as_workers sys)[i := w])"
    using own_inv_update [OF _ i] I w by blast
  moreover have "clients_inv fails X cs ((as_mem sys)(p \<mapsto> ca)) (queued (as_cq sys)) ((as_workers sys)[i := w])"
    using clients_inv_update [OF _ _ i at w] I by blast
  ultimately show ?thesis using I tab by (auto simp: async_inv_def)
qed

section \<open>Steps of a worker\<close>

text \<open>What a step of a client leaves in it, whatever step it is.\<close>

definition step_ok :: "(nat \<Rightarrow> bool) \<Rightarrow> u32 \<Rightarrow> client_status \<Rightarrow> bool" where
  "step_ok fails x st \<longleftrightarrow> status_ok st \<and> c_xid (cr_c (run_of st)) = x \<and>
     (\<forall>cr rc. st = Returned cr rc \<longrightarrow> (\<exists>k. fails k) \<or> c_state (cr_c cr) = STATE_DONE \<or> c_state (cr_c cr) = STATE_FAILED)"

lemma start_step_ok:
  assumes "client_ok c" and "length sbuf = SBUF_LEN" and "c_retries c = 0"
  shows "\<exists>st. client_start fails c sbuf pmeta = Some st \<and> step_ok fails (c_xid c) st"
proof -
  obtain cr where cr: "cr_c cr = c\<lparr>c_state := STATE_DISCOVER\<rparr>" "waiting_ok cr"
    "client_start fails c sbuf pmeta = Some (if fails 0 then Returned (cr\<lparr>cr_c := c\<rparr>) (- 1) else Waiting cr)"
    using client_start_ok [OF assms, of fails pmeta] by blast
  have "buffers_ok (cr\<lparr>cr_c := c\<rparr>)" using cr(1,2) assms(1) by (auto simp: waiting_ok_def buffers_ok_def)
  with cr show ?thesis by (auto simp: step_ok_def)
qed

lemma timeout_step_ok:
  assumes "waiting_ok cr"
  shows "\<exists>st. on_timeout fails cr = Some st \<and> step_ok fails (c_xid (cr_c cr)) st"
  using on_timeout_ok [OF assms, of fails] by (auto simp: step_ok_def split: if_splits)

lemma reply_step_ok:
  assumes "waiting_ok cr"
  shows "\<exists>st. on_reply full fails cr rbuf = Some st \<and> step_ok fails (c_xid (cr_c cr)) st"
proof -
  obtain p st where "on_reply full fails cr rbuf = Some st" "status_ok st" "packet_effect fails cr p st"
    using on_reply_ok [OF assms, of rbuf full fails] by blast
  then show ?thesis by (auto simp: step_ok_def packet_effect_def split: if_splits)
qed

definition next_worker :: "u64 \<Rightarrow> timespec \<Rightarrow> client_status \<Rightarrow> worker" where
  "next_worker p start st = (case st of Waiting cr \<Rightarrow> Running p start cr | Returned cr rc \<Rightarrow> Leaving p start)"

lemma next_worker_simps [simp]: "held (next_worker p start st) = Some p" "active (next_worker p start st) = Some p"
  by (cases st; simp add: next_worker_def)+

lemma store_client_eq:
  "store_client i p start ca st (sys\<lparr>as_mem := mem, as_tab := tab\<rparr>) =
     sys\<lparr>as_mem := mem(p \<mapsto> ca\<lparr>ca_c := cr_c (run_of st)\<rparr>), as_tab := tab, as_workers := (as_workers sys)[i := next_worker p start st]\<rparr>"
  by (cases st) (simp_all add: store_client_def set_worker_def next_worker_def)

lemma store_client_sel [simp]:
  "as_cq (store_client i p start ca st sys) = as_cq sys"
  "as_workers (store_client i p start ca st sys) = (as_workers sys)[i := next_worker p start st]"
  by (cases st; simp add: store_client_def set_worker_def next_worker_def)+

lemma store_ok:
  assumes inv: "async_inv fails X cs d sys" and i: "i < length (as_workers sys)" "held (as_workers sys ! i) = Some p"
    and st: "step_ok (fails p) (X p) st" and mail: "mail_ok (X p) (ca_mb ca)"
    and tab: "table_inv X ((as_mem sys)(p \<mapsto> ca\<lparr>ca_c := cr_c (run_of st)\<rparr>)) tab ((as_workers sys)[i := next_worker p start st])"
  shows "async_inv fails X cs d (sys\<lparr>as_mem := (as_mem sys)(p \<mapsto> ca\<lparr>ca_c := cr_c (run_of st)\<rparr>), as_tab := tab,
    as_workers := (as_workers sys)[i := next_worker p start st]\<rparr>)"
proof (rule async_inv_update [OF inv i _ _ tab])
  let ?ca = "ca\<lparr>ca_c := cr_c (run_of st)\<rparr>"
  have c: "client_ok (cr_c (run_of st))" "c_xid (cr_c (run_of st)) = X p"
    using st by (cases st; auto simp: step_ok_def waiting_ok_def buffers_ok_def)+
  then show "client_at X ((as_mem sys)(p \<mapsto> ?ca)) p" using mail by (simp add: client_at_def client_xid_def)
  have "worker_ok fails ((as_mem sys)(p \<mapsto> ?ca)) (next_worker p start st)"
    using st by (cases st) (auto simp: next_worker_def step_ok_def ended_def)
  then show "held (next_worker p start st) = Some p \<and> worker_ok fails ((as_mem sys)(p \<mapsto> ?ca)) (next_worker p start st) \<or>
      next_worker p start st = Fetching \<and> ended fails ((as_mem sys)(p \<mapsto> ?ca)) p" by simp
qed

lemma table_inv_keep:
  assumes "table_inv X mem tab ws" and "mem p = Some ca0" and "client_xid ca = client_xid ca0"
    and "\<And>q. activates ws' q \<longleftrightarrow> activates ws q"
  shows "table_inv X (mem(p \<mapsto> ca)) tab ws'"
proof -
  have "same_ids mem (mem(p \<mapsto> ca))" using assms(2,3) by (auto simp: same_ids_def)
  from same_ids_ok [OF this] assms show ?thesis by (auto simp: table_inv_def)
qed

lemma activates_same:
  assumes "i < length ws" and "active (ws ! i) = Some p" and "active w = Some p"
  shows "activates (ws[i := w]) q \<longleftrightarrow> activates ws q"
proof -
  have "ws[i := ws ! i] = ws" by simp
  with activates_update [OF assms(1), of w q] activates_update [OF assms(1), of "ws ! i" q] assms(2,3) show ?thesis by simp
qed

text \<open>A worker that has a client in flight, and what it knows about it.\<close>

lemma running_client:
  assumes "async_inv fails X cs d sys" and "i < length (as_workers sys)" and "as_workers sys ! i = Running p start cr"
  obtains ca where "as_mem sys p = Some ca" and "client_xid ca = X p" and "mail_ok (X p) (ca_mb ca)" and "waiting_ok cr"
    and "cr_c cr = ca_c ca"
proof -
  note I = assms(1) [unfolded async_inv_def]
  have "p \<in> set cs" using own_invD(3) [of cs _ "as_workers sys" i p] I assms(2,3) by auto
  then have "client_at X (as_mem sys) p" using I by (simp add: clients_inv_def)
  moreover have "worker_ok fails (as_mem sys) (Running p start cr)" using I assms(2,3) unfolding clients_inv_def by metis
  ultimately show thesis using that by (auto simp: client_at_def)
qed

text \<open>A wait that times out, and the arrival of a frame.\<close>

lemma running_step_ok:
  assumes inv: "async_inv fails X cs d sys" and i: "i < length (as_workers sys)" "as_workers sys ! i = Running p start cr"
    and ca: "as_mem sys p = Some ca0" and x: "client_xid ca0 = X p"
    and st: "step_ok (fails p) (X p) st" and mail: "mail_ok (X p) (ca_mb ca)"
  shows "async_inv fails X cs d (store_client i p start ca st sys)"
proof -
  have tab: "table_inv X ((as_mem sys)(p \<mapsto> ca\<lparr>ca_c := cr_c (run_of st)\<rparr>)) (as_tab sys) ((as_workers sys)[i := next_worker p start st])"
  proof (rule table_inv_keep [where mem = "as_mem sys" and p = p, OF _ ca])
    show "table_inv X (as_mem sys) (as_tab sys) (as_workers sys)" using inv by (simp add: async_inv_def)
    show "client_xid (ca\<lparr>ca_c := cr_c (run_of st)\<rparr>) = client_xid ca0" using st x by (simp add: step_ok_def client_xid_def)
    show "activates ((as_workers sys)[i := next_worker p start st]) q \<longleftrightarrow> activates (as_workers sys) q" for q
      by (rule activates_same [OF i(1)]) (simp_all add: i)
  qed
  have h: "held (as_workers sys ! i) = Some p" using i by simp
  have "store_client i p start ca st sys = store_client i p start ca st (sys\<lparr>as_mem := as_mem sys, as_tab := as_tab sys\<rparr>)" by simp
  then show ?thesis unfolding store_client_eq using store_ok [OF inv i(1) h st mail tab] by simp
qed

lemma worker_timeout_ok:
  assumes "async_inv fails X cs d sys" and "i < length (as_workers sys)" and "as_workers sys ! i = Running p start cr"
  shows "\<exists>sys'. worker_timeout fails i p start cr sys = Some sys' \<and> async_inv fails X cs d sys'"
proof -
  obtain ca where ca: "as_mem sys p = Some ca" "client_xid ca = X p" "mail_ok (X p) (ca_mb ca)" "waiting_ok cr" "cr_c cr = ca_c ca"
    by (rule running_client [OF assms])
  then have "cr\<lparr>cr_c := ca_c ca\<rparr> = cr" by simp
  with timeout_step_ok [OF ca(4), of "fails p"] ca(2,5) obtain st where
    "on_timeout (fails p) (cr\<lparr>cr_c := ca_c ca\<rparr>) = Some st" "step_ok (fails p) (X p) st" by (auto simp: client_xid_def)
  with running_step_ok [OF assms ca(1,2) _ ca(3)] ca(1) show ?thesis by (simp add: worker_timeout_def)
qed

lemma worker_mail_ok:
  assumes "async_inv fails X cs d sys" and "i < length (as_workers sys)" and "as_workers sys ! i = Running p start cr"
  shows "\<exists>sys'. worker_mail fails i p start cr sys = Some sys' \<and> async_inv fails X cs d sys'"
proof -
  obtain ca where ca: "as_mem sys p = Some ca" "client_xid ca = X p" "mail_ok (X p) (ca_mb ca)" "waiting_ok cr" "cr_c cr = ca_c ca"
    by (rule running_client [OF assms])
  let ?cr = "cr\<lparr>cr_c := ca_c ca, cr_pmeta := (cr_pmeta cr)\<lparr>pm_xid := c_xid (ca_c ca)\<rparr>\<rparr>"
  let ?ca = "ca\<lparr>ca_mb := (ca_mb ca)\<lparr>mb_buf_len := 0\<rparr>\<rparr>" and ?n = "nat (mb_buf_len (ca_mb ca))"
  have n: "?n \<le> 1024" "rd_bytes (mb_buf (ca_mb ca)) 0 ?n = Some (take ?n (mb_buf (ca_mb ca)))"
    using ca(3) by (auto simp: mail_ok_def rd_bytes_def)
  have w: "waiting_ok ?cr" using ca(4,5) by (auto simp: waiting_ok_def buffers_ok_def)
  obtain st where st: "on_reply False (fails p) ?cr (take ?n (mb_buf (ca_mb ca))) = Some st" "step_ok (fails p) (X p) st"
    using reply_step_ok [OF w, of False "fails p"] ca(2) by (auto simp: client_xid_def)
  have "mail_ok (X p) (ca_mb ?ca)" using ca(3) by (simp add: mail_ok_def)
  from running_step_ok [OF assms ca(1,2) st(2) this] st(1) n ca(1) show ?thesis by (simp add: worker_mail_def Let_def)
qed

text \<open>The start of a client: it enters the table, which has room for it.\<close>

lemma activates_client:
  assumes "own_inv cs q ws" and "activates ws p"
  shows "p \<in> set cs"
  using assms active_held own_invD(3) unfolding activates_def by blast

lemma flights_bounded:
  assumes "table_inv X mem tab ws"
  shows "card (dom (in_flight mem tab)) \<le> length ws"
proof -
  have "dom (in_flight mem tab) \<subseteq> (\<lambda>i. X (the (active (ws ! i)))) ` {..<length ws}"
  proof
    fix x assume "x \<in> dom (in_flight mem tab)"
    then obtain p where "X p = x" "activates ws p" using assms by (auto simp: table_inv_def)
    then obtain i where "i < length ws" "active (ws ! i) = Some p" "X p = x" by (auto simp: activates_def)
    then show "x \<in> (\<lambda>i. X (the (active (ws ! i)))) ` {..<length ws}" by (intro image_eqI [of _ _ i]) auto
  qed
  from card_mono [OF _ this] show ?thesis using card_image_le [of "{..<length ws}" "\<lambda>i. X (the (active (ws ! i)))"] by simp
qed

lemma activates_enter:
  assumes "i < length ws" and "active (ws ! i) = None" and "active w = Some p"
  shows "activates (ws[i := w]) q \<longleftrightarrow> activates ws q \<or> q = p"
proof -
  have "ws[i := ws ! i] = ws" by simp
  with activates_update [OF assms(1), of w q] activates_update [OF assms(1), of "ws ! i" q] assms(2,3) show ?thesis by auto
qed

lemma worker_start_ok:
  assumes inv: "async_inv fails X cs d sys" and i: "i < length (as_workers sys)" "as_workers sys ! i = Starting p"
    and sbuf: "length sbuf = SBUF_LEN"
  shows "\<exists>sys'. worker_start fails i p start sbuf pmeta sys = Some sys' \<and> async_inv fails X cs d sys'"
proof -
  note I = inv [unfolded async_inv_def]
  have own: "own_inv cs (queued (as_cq sys)) (as_workers sys)" and table: "table_inv X (as_mem sys) (as_tab sys) (as_workers sys)"
    using I by simp_all
  have h: "held (as_workers sys ! i) = Some p" using i by simp
  have p: "p \<in> set cs" using own_invD(3) [OF own i(1) h] .
  then obtain ca where ca: "as_mem sys p = Some ca" "client_xid ca = X p" "client_ok (ca_c ca)" "mail_ok (X p) (ca_mb ca)"
    using I by (auto simp: clients_inv_def client_at_def)
  have r: "c_retries (ca_c ca) = 0" using I i ca(1) unfolding clients_inv_def by (metis worker_ok.simps(1) option.sel)
  let ?ca = "ca\<lparr>ca_worker_id := int i, ca_mb := (ca_mb ca)\<lparr>mb_buf_len := 0\<rparr>\<rparr>"
  let ?mem = "(as_mem sys)(p \<mapsto> ?ca)" and ?ws = "as_workers sys"
  have t1: "table_inv X ?mem (as_tab sys) ?ws"
    by (rule table_inv_keep [where mem = "as_mem sys" and p = p, OF table ca(1)]) (simp_all add: client_xid_def)
  have room: "card (dom (in_flight ?mem (as_tab sys))) \<noteq> 4096" using flights_bounded [OF t1] I by linarith
  have okt: "xid_tab_ok ?mem (as_tab sys)" using t1 by (simp add: table_inv_def)
  have atp: "?mem p = Some ?ca" by simp
  obtain tab where tab: "xid_tab_insert ?mem (as_tab sys) p = Some tab" "xid_tab_ok ?mem tab"
    "in_flight ?mem tab = (in_flight ?mem (as_tab sys))(X p \<mapsto> p)"
    using xid_tab_insert_ok [where mem = ?mem, OF okt atp] room ca(2) by (auto simp: client_xid_def)
  obtain st where st: "client_start (fails p) (ca_c ?ca) sbuf pmeta = Some st" "step_ok (fails p) (X p) st"
    using start_step_ok [OF ca(3) sbuf r, of "fails p" pmeta] ca(2) by (auto simp: client_xid_def)
  have t2: "table_inv X ?mem tab (?ws[i := next_worker p start st])"
  proof -
    have act: "activates (?ws[i := next_worker p start st]) q \<longleftrightarrow> activates ?ws q \<or> q = p" for q
      by (rule activates_enter [OF i(1)]) (simp_all add: i)
    have "q = p" if "activates ?ws q" "X q = X p" for q
      using I that p activates_client [OF own that(1)] by (auto dest: inj_onD)
    then show ?thesis using t1 tab(2) by (auto simp: table_inv_def act tab(3))
  qed
  have t3: "table_inv X (?mem(p \<mapsto> ?ca\<lparr>ca_c := cr_c (run_of st)\<rparr>)) tab (?ws[i := next_worker p start st])"
    by (rule table_inv_keep [where mem = ?mem and p = p, OF t2 atp]) (use st(2) ca(2) in \<open>simp_all add: step_ok_def client_xid_def\<close>)
  have mail: "mail_ok (X p) (ca_mb ?ca)" using ca(4) by (simp add: mail_ok_def)
  have "worker_start fails i p start sbuf pmeta sys =
      Some (store_client i p start ?ca st (sys\<lparr>as_mem := ?mem, as_tab := tab\<rparr>))"
    using ca(1) tab(1) st(1) by (simp add: worker_start_def Let_def)
  then show ?thesis using store_ok [OF inv i(1) h st(2) mail, of tab start] t3 by (simp add: store_client_eq)
qed

lemma activates_leave:
  assumes "own_inv cs q ws" and "i < length ws" and "held (ws ! i) = Some p"
  shows "activates (ws[i := Fetching]) r \<longleftrightarrow> activates ws r \<and> r \<noteq> p"
proof -
  have "j = i" if "j < length ws" "active (ws ! j) = Some p" for j
    using own_invD(5) [OF assms(1) that(1) assms(2) active_held [OF that(2)] assms(3)] .
  moreover have "active (ws ! i) = Some r \<Longrightarrow> r = p" using assms(3) active_held by fastforce
  ultimately show ?thesis unfolding activates_update [OF assms(2)] by (auto simp: activates_def)
qed

lemma worker_finish_ok:
  assumes inv: "async_inv fails X cs d sys" and i: "i < length (as_workers sys)" "as_workers sys ! i = Leaving p start"
  shows "\<exists>sys'. worker_finish d dummy i p start end' sys = Some sys' \<and> async_inv fails X cs d sys'"
proof -
  note I = inv [unfolded async_inv_def]
  have own: "own_inv cs (queued (as_cq sys)) (as_workers sys)" and table: "table_inv X (as_mem sys) (as_tab sys) (as_workers sys)"
    using I by simp_all
  have h: "held (as_workers sys ! i) = Some p" using i by simp
  have p: "p \<in> set cs" using own_invD(3) [OF own i(1) h] .
  then obtain ca where ca: "as_mem sys p = Some ca" "client_xid ca = X p" "client_ok (ca_c ca)" "mail_ok (X p) (ca_mb ca)"
    using I by (auto simp: clients_inv_def client_at_def)
  have e: "ended fails (as_mem sys) p" using I i unfolding clients_inv_def by (metis worker_ok.simps(3))
  let ?ca = "ca\<lparr>ca_c := (ca_c ca)\<lparr>c_total_ms := elapsed_ms start end'\<rparr>\<rparr>"
  let ?mem = "(as_mem sys)(p \<mapsto> ?ca)" and ?ws = "as_workers sys"
  have t1: "table_inv X ?mem (as_tab sys) ?ws"
    by (rule table_inv_keep [where mem = "as_mem sys" and p = p, OF table ca(1)]) (simp_all add: client_xid_def)
  then have okt: "xid_tab_ok ?mem (as_tab sys)" by (simp add: table_inv_def)
  have dd: "d \<notin> dom ?mem" using I ca(1) by auto
  obtain tab where tab: "xid_tab_remove ?mem d dummy (as_tab sys) (X p) = Some tab" "xid_tab_ok ?mem tab"
    "in_flight ?mem tab = (in_flight ?mem (as_tab sys))(X p := None)"
    using xid_tab_remove_ok [where mem = ?mem, OF okt dd, of dummy "X p"] by blast
  have "q = p" if "activates ?ws q" "X q = X p" for q
    using I that p activates_client [OF own that(1)] by (auto dest: inj_onD)
  then have t2: "table_inv X ?mem tab (?ws[i := Fetching])"
    using t1 tab(2) by (auto simp: table_inv_def activates_leave [OF own i(1) h] tab(3))
  have "client_at X ?mem p" using ca by (simp add: client_at_def client_xid_def client_ok_def)
  moreover have "ended fails ?mem p" using e ca(1) by (simp add: ended_def)
  ultimately have "async_inv fails X cs d (sys\<lparr>as_mem := ?mem, as_tab := tab, as_workers := ?ws[i := Fetching]\<rparr>)"
    using async_inv_update [OF inv i(1) h _ _ t2] by blast
  then show ?thesis using ca tab(1) by (simp add: worker_finish_def Let_def set_worker_def client_xid_def)
qed

text \<open>A client leaves the queue for a worker; an empty queue ends the worker.\<close>

text \<open>The worker at \<open>i\<close> takes the first client of the queue \<open>q\<close>, or returns if there is none.\<close>

definition fetched :: "u64 list \<Rightarrow> worker" where
  "fetched q = (if q = [] then Exited else Starting (hd q))"

lemma held_fetched: "held (fetched q) = Some p \<Longrightarrow> q \<noteq> [] \<and> p = hd q"
  by (auto simp: fetched_def split: if_splits)

lemma set_tl: "set (tl q) \<subseteq> set q"
  by (cases q) auto

lemma own_inv_fetched:
  assumes own: "own_inv cs q ws" and i: "i < length ws" "ws ! i = Fetching"
  shows "own_inv cs (tl q) (ws[i := fetched q])"
proof -
  have hdq: "q \<noteq> [] \<Longrightarrow> hd q \<in> set cs \<and> hd q \<notin> set (tl q)" using own_invD(1,2) [OF own] by (cases q) auto
  have h: "j \<noteq> i \<and> held (ws ! j) = Some p \<or> j = i \<and> q \<noteq> [] \<and> p = hd q" if "j < length ws" "held (ws[i := fetched q] ! j) = Some p" for j p
    using that i held_fetched [of q p] by (cases "j = i") auto
  show ?thesis
    unfolding own_inv_def length_list_update
  proof (intro conjI allI impI)
    fix j p assume j: "j < length ws" "held (ws[i := fetched q] ! j) = Some p"
    show "p \<in> set cs" "p \<notin> set (tl q)" using h [OF j] own_invD(3,4) [OF own j(1)] hdq set_tl [of q] by auto
  next
    fix j k p assume j: "j < length ws" "k < length ws" "held (ws[i := fetched q] ! j) = Some p \<and> held (ws[i := fetched q] ! k) = Some p"
    have hj: "j \<noteq> i \<and> held (ws ! j) = Some p \<or> j = i \<and> q \<noteq> [] \<and> p = hd q" using h [OF j(1)] j(3) by blast
    have hk: "k \<noteq> i \<and> held (ws ! k) = Some p \<or> k = i \<and> q \<noteq> [] \<and> p = hd q" using h [OF j(2)] j(3) by blast
    have n: "m < length ws \<Longrightarrow> held (ws ! m) = Some p \<Longrightarrow> \<not> (q \<noteq> [] \<and> p = hd q)" for m
      using own_invD(4) [OF own] hd_in_set by blast
    show "j = k" using hj hk n [OF j(1)] n [OF j(2)] own_invD(5) [OF own j(1,2)] by blast
  next
    fix j assume j: "j < length ws" "ws[i := fetched q] ! j = Exited"
    have "q = []" using own_invD(6) [OF own, of j] j i by (cases "j = i") (auto simp: fetched_def split: if_splits)
    then show "tl q = []" by simp
  qed (use own_invD(1,2) [OF own] set_tl [of q] in \<open>auto intro: distinct_tl\<close>)
qed

lemma clients_inv_fetched:
  assumes C: "clients_inv fails X cs mem q ws" and i: "i < length ws" "ws ! i = Fetching"
  shows "clients_inv fails X cs mem (tl q) (ws[i := fetched q])"
proof -
  have "worker_ok fails mem (fetched q)" using C hd_in_set by (auto simp: fetched_def clients_inv_def)
  then have "\<forall>j < length ws. worker_ok fails mem (ws[i := fetched q] ! j)"
    using C i(1) by (auto simp: clients_inv_def nth_list_update)
  moreover have "p \<notin> set q \<and> \<not> holds ws p" if "p \<notin> set (tl q) \<and> \<not> holds (ws[i := fetched q]) p" for p
  proof
    show "p \<notin> set q" using that i(1) by (cases q) (auto simp: holds_update fetched_def)
    show "\<not> holds ws p" using that i unfolding holds_update [OF i(1)] by (auto simp: holds_def)
  qed
  ultimately show ?thesis using C set_tl [of q] by (auto simp: clients_inv_def)
qed

lemma worker_pop_ok:
  assumes inv: "async_inv fails X cs d sys" and i: "i < length (as_workers sys)" "as_workers sys ! i = Fetching"
  shows "\<exists>sys'. worker_pop i junk sys = Some sys' \<and> async_inv fails X cs d sys'"
proof -
  note I = inv [unfolded async_inv_def]
  let ?ws = "as_workers sys" and ?q = "queued (as_cq sys)"
  have own: "own_inv cs ?q ?ws" and C: "clients_inv fails X cs (as_mem sys) ?q ?ws" and zero: "0 \<notin> set cs" using I by simp_all
  obtain cq where cq: "pop_client (as_cq sys) junk = Some (cq, if ?q = [] then 0 else hd ?q)" "queue_inv cq" "queued cq = tl ?q"
    using pop_client_ok [of "as_cq sys" junk] I by blast
  let ?sys = "sys\<lparr>as_cq := cq, as_workers := ?ws[i := fetched ?q]\<rparr>"
  have "hd ?q \<noteq> 0" if "?q \<noteq> []" using subsetD [OF own_invD(2) [OF own] hd_in_set [OF that]] zero by metis
  then have pop: "worker_pop i junk sys = Some ?sys"
    using cq(1) by (auto simp: worker_pop_def set_worker_def fetched_def)
  have "activates (?ws[i := fetched ?q]) p \<longleftrightarrow> activates ?ws p" for p
    unfolding activates_update [OF i(1)] using i by (auto simp: activates_def fetched_def)
  then have "table_inv X (as_mem sys) (as_tab sys) (?ws[i := fetched ?q])" using I by (simp add: table_inv_def)
  then have "async_inv fails X cs d ?sys"
    using I cq(2,3) own_inv_fetched [OF own i] clients_inv_fetched [OF C i] by (simp add: async_inv_def)
  then show ?thesis using pop by blast
qed

section \<open>Steps of the receive thread\<close>

text \<open>The look-up finds the client that the frame is for, if it is in flight.\<close>

lemma recv_lookup_ok:
  assumes inv: "async_inv fails X cs d sys"
  shows "\<exists>sys'. recv_lookup d dummy packet sys = Some sys' \<and> async_inv fails X cs d sys'"
proof -
  note I = inv [unfolded async_inv_def]
  let ?rbuf = "take 1024 packet"
  obtain r where r: "parse_xid ?rbuf (length ?rbuf) = Some (?rbuf, r)" using parse_xid_total [of "length ?rbuf" ?rbuf] by auto
  show ?thesis
  proof (cases r)
    case None
    with r inv show ?thesis by (simp add: recv_lookup_def Let_def)
  next
    case (Some x)
    have okt: "xid_tab_ok (as_mem sys) (as_tab sys)" and dd: "d \<notin> dom (as_mem sys)" using I by (simp_all add: table_inv_def)
    note L = xid_tab_lookup_ok [OF okt dd, of dummy x]
    show ?thesis
    proof (cases "in_flight (as_mem sys) (as_tab sys) x")
      case None
      with r Some L inv show ?thesis by (simp add: recv_lookup_def Let_def)
    next
      case (Some p)
      with I have "X p = x" "activates (as_workers sys) p" by (auto simp: table_inv_def)
      then have p: "p \<in> set cs" "p \<noteq> 0" using activates_client I by blast+
      have "recv_inv X cs (Some (p, ?rbuf))" using p r \<open>r = Some x\<close> \<open>X p = x\<close> by (auto simp: recv_inv_def routed_def)
      then have "async_inv fails X cs d (sys\<lparr>as_recv := Some (p, ?rbuf)\<rparr>)" using I by (simp add: async_inv_def)
      with r \<open>r = Some x\<close> L Some p(2) show ?thesis by (simp add: recv_lookup_def Let_def)
    qed
  qed
qed

text \<open>The delivery changes the mailbox only.\<close>

lemma worker_ok_mail:
  assumes "mem p = Some ca" and "ca_c ca' = ca_c ca"
  shows "worker_ok fails (mem(p \<mapsto> ca')) w = worker_ok fails mem w" and "ended fails (mem(p \<mapsto> ca')) q = ended fails mem q"
  using assms by (cases w; auto simp: ended_def)+

lemma recv_deliver_ok:
  assumes inv: "async_inv fails X cs d sys" and r: "as_recv sys = Some (p, rbuf)"
  shows "\<exists>sys'. recv_deliver p rbuf sys = Some sys' \<and> async_inv fails X cs d sys'"
proof -
  note I = inv [unfolded async_inv_def]
  have p: "p \<in> set cs" "length rbuf \<le> 1024" "routed (X p) rbuf" using I r by (auto simp: recv_inv_def)
  then obtain ca where ca: "as_mem sys p = Some ca" "client_xid ca = X p" "client_ok (ca_c ca)" "mail_ok (X p) (ca_mb ca)"
    using I by (auto simp: clients_inv_def client_at_def)
  let ?buf = "rbuf @ drop (length rbuf) (mb_buf (ca_mb ca))"
  let ?ca = "ca\<lparr>ca_mb := \<lparr>mb_buf = ?buf, mb_buf_len = int (length rbuf)\<rparr>\<rparr>" and ?mem = "as_mem sys"
  have len: "length (mb_buf (ca_mb ca)) = 2048" using ca(4) by (simp add: mail_ok_def)
  then have cp: "kmemcpy (mb_buf (ca_mb ca)) 0 rbuf (length rbuf) = Some ?buf" using p(2) by (simp add: kmemcpy_def)
  have mail: "mail_ok (X p) (ca_mb ?ca)" using p(2,3) len by (simp add: mail_ok_def)
  note same = worker_ok_mail [where mem = ?mem and ca' = ?ca, OF ca(1), simplified]
  have "client_at X (?mem(p \<mapsto> ?ca)) q" if "q \<in> set cs" for q
    using I that ca mail by (cases "q = p") (auto simp: clients_inv_def client_at_def client_xid_def)
  then have "clients_inv fails X cs (?mem(p \<mapsto> ?ca)) (queued (as_cq sys)) (as_workers sys)"
    using I ca(1) by (auto simp: clients_inv_def same)
  moreover have "table_inv X (?mem(p \<mapsto> ?ca)) (as_tab sys) (as_workers sys)"
    by (rule table_inv_keep [where mem = ?mem and p = p, OF _ ca(1)]) (use I in \<open>simp_all add: client_xid_def\<close>)
  moreover have "d \<notin> dom (?mem(p \<mapsto> ?ca))" using I ca(1) by auto
  ultimately have "async_inv fails X cs d (sys\<lparr>as_mem := ?mem(p \<mapsto> ?ca), as_recv := None\<rparr>)"
    using I by (simp add: async_inv_def recv_inv_def)
  then show ?thesis using ca(1) cp by (simp add: recv_deliver_def)
qed

section \<open>Every schedule\<close>

fun event_ok :: "async_event \<Rightarrow> bool" where
  "event_ok (Run_Worker i now junk sbuf pmeta) = (length sbuf = SBUF_LEN)"
| "event_ok _ = True"

lemma async_step_ok:
  assumes inv: "async_inv fails X cs d sys" and "event_ok ev"
  shows "\<exists>sys'. async_step fails d dummy ev sys = Some sys' \<and> async_inv fails X cs d sys'"
proof (cases ev)
  case (Run_Worker i now junk sbuf pmeta)
  show ?thesis
  proof (cases "i < length (as_workers sys)")
    case True
    show ?thesis
    proof (cases "as_workers sys ! i")
      case (Running p start cr)
      obtain ca where "as_mem sys p = Some ca" by (rule running_client [OF inv True Running])
      with worker_mail_ok [OF inv True Running] inv Run_Worker True Running show ?thesis by (simp add: async_step_def)
    qed (use worker_pop_ok [OF inv True] worker_start_ok [OF inv True] worker_finish_ok [OF inv True] inv Run_Worker True assms(2)
          in \<open>auto simp: async_step_def\<close>)
  qed (use inv Run_Worker in \<open>simp add: async_step_def\<close>)
next
  case (Expire i)
  then show ?thesis using worker_timeout_ok [OF inv, of i] inv
    by (cases "i < length (as_workers sys)"; cases "as_workers sys ! i") (simp_all add: async_step_def)
next
  case (Receive packet)
  then show ?thesis using recv_lookup_ok [OF inv, of dummy packet] inv by (simp add: async_step_def)
next
  case Deliver
  then show ?thesis using recv_deliver_ok [OF inv] inv by (auto simp: async_step_def split: option.split)
qed

lemma async_run_ok:
  assumes "async_inv fails X cs d sys" and "list_all event_ok evs"
  shows "\<exists>sys'. async_run fails d dummy evs sys = Some sys' \<and> async_inv fails X cs d sys'"
  using assms
proof (induction evs arbitrary: sys)
  case (Cons ev evs)
  obtain sys1 where "async_step fails d dummy ev sys = Some sys1" "async_inv fails X cs d sys1"
    using async_step_ok [OF Cons.prems(1), of ev dummy] Cons.prems(2) by auto
  with Cons.IH [of sys1] Cons.prems(2) show ?case by simp
qed simp

text \<open>
  The state in which \<open>main\<close> starts the threads: static variables of the declared sizes, and distinct
  clients with distinct transaction identifiers, ready to run.
\<close>

definition start_ok :: "(u64 \<Rightarrow> u32) \<Rightarrow> u64 list \<Rightarrow> u64 \<Rightarrow> client_mem \<Rightarrow> cq_t \<Rightarrow> hash_tab \<Rightarrow> bool" where
  "start_ok X ps d mem cq h \<longleftrightarrow> length (c_buf cq) = unat BENCH_CQ_N \<and> tab_memory h \<and> length ps \<le> QUEUE_MAX \<and> distinct ps \<and> 0 \<notin> set ps \<and>
     inj_on X (set ps) \<and> d \<notin> dom mem \<and> (\<forall>p \<in> set ps. client_at X mem p \<and> c_retries (ca_c (the (mem p))) = 0)"

lemma async_main_ok:
  assumes "start_ok X ps d mem cq h"
  shows "\<exists>sys. async_main mem ps cq h = Some sys \<and> async_inv fails X ps d sys"
proof -
  note S = assms [unfolded start_ok_def]
  obtain cq1 where cq1: "client_queue_init cq = Some cq1" "queue_inv cq1" "queued cq1 = []"
    using client_queue_init_ok [of cq] S by blast
  obtain h1 where h1: "xid_tab_init mem h = Some h1" "xid_tab_ok mem h1" "in_flight mem h1 = Map.empty"
    using xid_tab_init_ok [of h mem] S by blast
  obtain cq2 where cq2: "push_all cq1 ps = Some cq2" "queue_inv cq2" "queued cq2 = ps"
    using push_all_ok [OF cq1(2), of ps] cq1(3) S by auto
  let ?ws = "replicate MAX_WORKERS Fetching"
  have "own_inv ps ps ?ws" using S by (simp add: own_inv_def)
  moreover have "clients_inv fails X ps mem ps ?ws" using S by (simp add: clients_inv_def)
  moreover have "table_inv X mem h1 ?ws" using h1 by (simp add: table_inv_def activates_def)
  ultimately have "async_inv fails X ps d \<lparr>as_mem = mem, as_cq = cq2, as_tab = h1, as_workers = ?ws, as_recv = None\<rparr>"
    using S cq2 by (simp add: async_inv_def recv_inv_def MAX_WORKERS_def)
  then show ?thesis using cq1(1) h1(1) cq2(1) by (simp add: async_main_def)
qed

section \<open>Progress\<close>

text \<open>
  How much work a worker has left, when nothing but timeouts happens, and how much the system has:
  a worker that is scheduled reduces it, so that there is no deadlock.
\<close>

fun worker_left :: "worker \<Rightarrow> nat" where
  "worker_left Exited = 0"
| "worker_left Fetching = 1"
| "worker_left (Leaving p start) = 2"
| "worker_left (Running p start cr) = 2 + patience (phase_of (Waiting cr))"
| "worker_left (Starting p) = 8"

definition work_left :: "async_sys \<Rightarrow> nat" where
  "work_left sys = 8 * length (queued (as_cq sys)) + sum_list (map worker_left (as_workers sys))"

lemma sum_list_decreases:
  fixes f :: "'a \<Rightarrow> nat"
  assumes "i < length xs" and "f y < f (xs ! i)"
  shows "sum_list (map f (xs[i := y])) < sum_list (map f xs)"
  using assms
proof (induction xs arbitrary: i)
  case (Cons x xs)
  then show ?case by (cases i) auto
qed simp

lemma sum_list_replaced:
  fixes f :: "'a \<Rightarrow> nat"
  assumes "i < length xs"
  shows "sum_list (map f (xs[i := y])) + f (xs ! i) = sum_list (map f xs) + f y"
  using assms
proof (induction xs arbitrary: i)
  case (Cons x xs)
  then show ?case by (cases i) auto
qed simp

lemma same_queue_decreases:
  assumes "i < length (as_workers sys)" and "as_cq sys' = as_cq sys" and "as_workers sys' = (as_workers sys)[i := w]"
    and "worker_left w < worker_left (as_workers sys ! i)"
  shows "work_left sys' < work_left sys"
  using sum_list_decreases [of i "as_workers sys" worker_left w] assms by (simp add: work_left_def)

lemma pop_decreases:
  assumes "queue_inv (as_cq sys)" and "i < length (as_workers sys)" and "as_workers sys ! i = Fetching" and "0 \<notin> set (queued (as_cq sys))"
    and "worker_pop i junk sys = Some sys'"
  shows "work_left sys' < work_left sys"
proof -
  let ?q = "queued (as_cq sys)"
  obtain cq where cq: "pop_client (as_cq sys) junk = Some (cq, if ?q = [] then 0 else hd ?q)" "queued cq = tl ?q"
    using pop_client_ok [OF assms(1), of junk] by blast
  let ?w = "if (if ?q = [] then 0 else hd ?q) = 0 then Exited else Starting (if ?q = [] then 0 else hd ?q)"
  have s: "sys' = sys\<lparr>as_cq := cq, as_workers := (as_workers sys)[i := ?w]\<rparr>"
    using assms(5) cq(1) by (simp add: worker_pop_def set_worker_def)
  have r: "sum_list (map worker_left ((as_workers sys)[i := ?w])) + 1 = sum_list (map worker_left (as_workers sys)) + worker_left ?w"
    using sum_list_replaced [OF assms(2), of worker_left ?w] assms(3) by simp
  show ?thesis
  proof (cases ?q)
    case Nil
    then show ?thesis using r unfolding s work_left_def by (simp add: cq(2))
  next
    case (Cons p q)
    then have "p \<noteq> 0" using assms(4) by auto
    with Cons r show ?thesis unfolding s work_left_def by (simp add: cq(2))
  qed
qed

lemma timeout_patience:
  assumes "waiting_ok cr" and "on_timeout fails cr = Some st"
  shows "worker_left (next_worker p start st) < 2 + patience (phase_of (Waiting cr))"
proof -
  have r: "0 \<le> c_retries (cr_c cr)" "c_retries (cr_c cr) < 3" using assms(1) by (auto simp: waiting_ok_def MAX_RETRIES_def)
  have pos: "0 < patience (phase_of (Waiting cr))" using started_patience [OF waiting_phase(2,1) [OF assms(1)]] .
  show ?thesis
    using on_timeout_ok [OF assms(1), of fails] assms(2) r pos
    by (auto simp: next_worker_def nat_add_distrib split: if_splits)
qed

lemma reply_patience:
  assumes "waiting_ok cr" and "on_reply full fails cr rbuf = Some st"
  shows "worker_left (next_worker p start st) \<le> 2 + patience (phase_of (Waiting cr))"
proof -
  have r: "c_retries (cr_c cr) < 3" using assms(1) by (auto simp: waiting_ok_def MAX_RETRIES_def)
  obtain q where "packet_effect fails cr q st" using on_reply_ok [OF assms(1), of rbuf full fails] assms(2) by auto
  then show ?thesis using r by (auto simp: packet_effect_def next_worker_def split: if_splits)
qed

lemma start_patience:
  assumes "client_ok c" and "length sbuf = SBUF_LEN" and "c_retries c = 0" and "client_start fails c sbuf pmeta = Some st"
  shows "worker_left (next_worker p start st) < 8"
  using client_start_ok [OF assms(1-3), of fails pmeta] assms(3,4) by (auto simp: next_worker_def)

text \<open>
  A schedule is prompt when no wait times out with a frame in the mailbox.  In the code a worker that
  finds a frame does not wait, so a timeout with a frame in the mailbox takes an unlucky moment of
  delivery; a prompt schedule does without it.
\<close>

fun event_prompt :: "async_sys \<Rightarrow> async_event \<Rightarrow> bool" where
  "event_prompt sys (Expire i) =
     (case as_workers sys ! i of
        Running p start cr \<Rightarrow> (case as_mem sys p of None \<Rightarrow> False | Some ca \<Rightarrow> mb_buf_len (ca_mb ca) = 0)
      | _ \<Rightarrow> True)"
| "event_prompt sys _ = True"

fun prompt_run :: "(u64 \<Rightarrow> nat \<Rightarrow> bool) \<Rightarrow> u64 \<Rightarrow> client_async \<Rightarrow> async_event list \<Rightarrow> async_sys \<Rightarrow> bool" where
  "prompt_run fails d dummy [] sys = True"
| "prompt_run fails d dummy (ev # evs) sys =
     (event_prompt sys ev \<and> (case async_step fails d dummy ev sys of None \<Rightarrow> False | Some sys' \<Rightarrow> prompt_run fails d dummy evs sys'))"

text \<open>The same with the resulting state.\<close>

definition leads_to :: "(u64 \<Rightarrow> nat \<Rightarrow> bool) \<Rightarrow> u64 \<Rightarrow> client_async \<Rightarrow> async_sys \<Rightarrow> async_sys \<Rightarrow> bool" where
  "leads_to fails d dummy sys sys' \<longleftrightarrow> (\<exists>evs. list_all event_ok evs \<and> prompt_run fails d dummy evs sys \<and> async_run fails d dummy evs sys = Some sys')"

lemma leads_to_refl: "leads_to fails d dummy sys sys"
  unfolding leads_to_def by (intro exI [of _ "[]"]) simp

lemma leads_to_step:
  assumes "async_step fails d dummy ev sys = Some sys1" and "event_ok ev" and "event_prompt sys ev" and "leads_to fails d dummy sys1 sys2"
  shows "leads_to fails d dummy sys sys2"
proof -
  from assms(4) obtain evs where "list_all event_ok evs" "prompt_run fails d dummy evs sys1" "async_run fails d dummy evs sys1 = Some sys2"
    by (auto simp: leads_to_def)
  with assms(1-3) show ?thesis unfolding leads_to_def by (intro exI [of _ "ev # evs"]) simp
qed

lemmas leads_to_single = leads_to_step [OF _ _ _ leads_to_refl]

lemma leads_to_trans:
  assumes "leads_to fails d dummy sys sys1" and "leads_to fails d dummy sys1 sys2"
  shows "leads_to fails d dummy sys sys2"
proof -
  from assms(1) obtain evs where "list_all event_ok evs" "prompt_run fails d dummy evs sys" "async_run fails d dummy evs sys = Some sys1"
    by (auto simp: leads_to_def)
  then show ?thesis
  proof (induction evs arbitrary: sys)
    case Nil
    with assms(2) show ?case by simp
  next
    case (Cons ev evs)
    then obtain sys' where s: "async_step fails d dummy ev sys = Some sys'" "prompt_run fails d dummy evs sys'"
      "async_run fails d dummy evs sys' = Some sys1" by (auto simp: bind_eq_Some_iff)
    with Cons have "leads_to fails d dummy sys' sys2" by simp
    with leads_to_step [OF s(1)] Cons.prems show ?case by simp
  qed
qed

lemma expire_progress:
  assumes inv: "async_inv fails X cs d sys" and i: "i < length (as_workers sys)" "as_workers sys ! i = Running p start cr"
    and empty: "\<And>ca. as_mem sys p = Some ca \<Longrightarrow> mb_buf_len (ca_mb ca) = 0"
  shows "\<exists>sys'. leads_to fails d dummy sys sys' \<and> work_left sys' < work_left sys"
proof -
  obtain sys2 where s2: "async_step fails d dummy (Expire i) sys = Some sys2" using async_step_ok [OF inv, of "Expire i"] by auto
  obtain ca where ca: "as_mem sys p = Some ca" "waiting_ok cr" "cr_c cr = ca_c ca" by (rule running_client [OF inv i])
  then have "cr\<lparr>cr_c := ca_c ca\<rparr> = cr" by simp
  with s2 i ca(1) obtain st where st: "on_timeout (fails p) cr = Some st" "sys2 = store_client i p start ca st sys"
    by (auto simp: async_step_def worker_timeout_def bind_eq_Some_iff)
  have "work_left sys2 < work_left sys"
    by (rule same_queue_decreases [OF i(1), where w = "next_worker p start st"])
       (use st(2) i(2) timeout_patience [OF ca(2) st(1)] in simp_all)
  moreover have "event_prompt sys (Expire i)" using i(2) ca(1) empty by simp
  ultimately show ?thesis using leads_to_single [OF s2] by auto
qed

lemma same_queue_le:
  assumes "i < length (as_workers sys)" and "as_cq sys' = as_cq sys" and "as_workers sys' = (as_workers sys)[i := w]"
    and "worker_left w \<le> worker_left (as_workers sys ! i)"
  shows "work_left sys' \<le> work_left sys"
  using sum_list_replaced [OF assms(1), of worker_left w] assms(2-4) by (simp add: work_left_def)

text \<open>A worker with a frame in its mailbox reads it first; then it is done, or it waits with an empty mailbox.\<close>

lemma mail_progress:
  assumes inv: "async_inv fails X cs d sys" and i: "i < length (as_workers sys)" "as_workers sys ! i = Running p start cr"
    and ca: "as_mem sys p = Some ca" and mail: "mb_buf_len (ca_mb ca) \<noteq> 0"
  shows "\<exists>sys'. leads_to fails d dummy sys sys' \<and> work_left sys' < work_left sys"
proof -
  let ?run = "Run_Worker i (0, 0) 0 (replicate SBUF_LEN 0) (blank_meta 0)"
  have w: "waiting_ok cr" "cr_c cr = ca_c ca" using running_client [OF inv i] ca by (metis option.inject)+
  let ?cr = "cr\<lparr>cr_c := ca_c ca, cr_pmeta := (cr_pmeta cr)\<lparr>pm_xid := c_xid (ca_c ca)\<rparr>\<rparr>"
  have w': "waiting_ok ?cr" using w by (auto simp: waiting_ok_def buffers_ok_def)
  have ph: "phase_of (Waiting ?cr) = phase_of (Waiting cr)" using w(2) by simp
  obtain sys1 where s1: "async_step fails d dummy ?run sys = Some sys1" "async_inv fails X cs d sys1"
    using async_step_ok [OF inv, of ?run] by auto
  with i ca mail obtain rbuf st where st: "on_reply False (fails p) ?cr rbuf = Some st"
    "sys1 = store_client i p start (ca\<lparr>ca_mb := (ca_mb ca)\<lparr>mb_buf_len := 0\<rparr>\<rparr>) st sys"
    by (auto simp: async_step_def worker_mail_def Let_def bind_eq_Some_iff)
  have step: "leads_to fails d dummy sys sys1" by (rule leads_to_single [OF s1(1)]) simp_all
  have le: "work_left sys1 \<le> work_left sys"
    by (rule same_queue_le [OF i(1), where w = "next_worker p start st"])
       (use st(2) i(2) reply_patience [OF w' st(1), of p start] ph in simp_all)
  show ?thesis
  proof (cases st)
    case (Returned cr' rc)
    have "0 < patience (phase_of (Waiting cr))" using started_patience [OF waiting_phase(2,1) [OF w(1)]] .
    then have "work_left sys1 < work_left sys"
      by (intro same_queue_decreases [OF i(1), where w = "next_worker p start st"])
         (use st(2) i(2) Returned in \<open>simp_all add: next_worker_def\<close>)
    with step show ?thesis by blast
  next
    case (Waiting cr')
    have i1: "i < length (as_workers sys1)" "as_workers sys1 ! i = Running p start cr'"
      using st(2) i(1) Waiting by (simp_all add: next_worker_def)
    have "mb_buf_len (ca_mb ca') = 0" if "as_mem sys1 p = Some ca'" for ca'
      using that st(2) Waiting by (auto simp: store_client_def set_worker_def)
    from expire_progress [OF s1(2) i1 this] obtain sys2 where "leads_to fails d dummy sys1 sys2" "work_left sys2 < work_left sys1" by blast
    with leads_to_trans [OF step] le show ?thesis by (meson order.strict_trans2)
  qed
qed

lemma progress:
  assumes inv: "async_inv fails X cs d sys" and i: "i < length (as_workers sys)" "as_workers sys ! i \<noteq> Exited"
  shows "\<exists>sys'. leads_to fails d dummy sys sys' \<and> work_left sys' < work_left sys"
proof -
  note I = inv [unfolded async_inv_def]
  have own: "own_inv cs (queued (as_cq sys)) (as_workers sys)" and zero: "0 \<notin> set cs" and C: "\<forall>p \<in> set cs. client_at X (as_mem sys) p"
    using I by (simp_all add: clients_inv_def)
  let ?run = "Run_Worker i (0, 0) 0 (replicate SBUF_LEN 0) (blank_meta 0)"
  obtain sys1 where s1: "async_step fails d dummy ?run sys = Some sys1" using async_step_ok [OF inv, of ?run] by auto
  have step: "leads_to fails d dummy sys sys1" by (rule leads_to_single [OF s1]) simp_all
  show ?thesis
  proof (cases "as_workers sys ! i")
    case Fetching
    have q0: "0 \<notin> set (queued (as_cq sys))" using own_invD(2) [OF own] zero by blast
    have "worker_pop i 0 sys = Some sys1" using s1 i Fetching by (simp add: async_step_def)
    from pop_decreases [OF _ i(1) Fetching q0 this] I step show ?thesis by blast
  next
    case (Starting p)
    have "p \<in> set cs" using own_invD(3) [OF own i(1)] Starting by simp
    then obtain ca where ca: "as_mem sys p = Some ca" "client_ok (ca_c ca)" using C by (auto simp: client_at_def)
    have "worker_ok fails (as_mem sys) (as_workers sys ! i)" using I i(1) by (simp add: clients_inv_def)
    then have r: "c_retries (ca_c ca) = 0" using Starting ca(1) by simp
    from s1 i Starting ca(1) obtain ca' tab st where st: "client_start (fails p) (ca_c ca) (replicate SBUF_LEN 0) (blank_meta 0) = Some st"
      "sys1 = store_client i p (0, 0) ca' st (sys\<lparr>as_mem := (as_mem sys)(p \<mapsto> ca'), as_tab := tab\<rparr>)"
      by (auto simp: async_step_def worker_start_def Let_def bind_eq_Some_iff)
    have "work_left sys1 < work_left sys"
      by (rule same_queue_decreases [OF i(1), where w = "next_worker p (0, 0) st"])
         (use st(2) Starting start_patience [OF ca(2) _ r st(1)] in simp_all)
    then show ?thesis using step by blast
  next
    case (Running p start cr)
    obtain ca where "as_mem sys p = Some ca" by (rule running_client [OF inv i(1) Running])
    then show ?thesis using expire_progress [OF inv i(1) Running] mail_progress [OF inv i(1) Running] by fastforce
  next
    case (Leaving p start)
    with s1 i(1) obtain mem tab where "sys1 = set_worker i Fetching (sys\<lparr>as_mem := mem, as_tab := tab\<rparr>)"
      by (auto simp: async_step_def worker_finish_def Let_def bind_eq_Some_iff)
    then have "work_left sys1 < work_left sys"
      using same_queue_decreases [OF i(1), of sys1 Fetching] Leaving by (simp add: set_worker_def)
    then show ?thesis using step by blast
  qed (use i(2) in simp)
qed

text \<open>From every state of the invariant there is a prompt schedule that lets all workers return.\<close>

lemma leads_to_inv:
  assumes "leads_to fails d dummy sys sys'" and "async_inv fails X cs d sys"
  shows "async_inv fails X cs d sys'"
proof -
  from assms(1) obtain evs where "list_all event_ok evs" "async_run fails d dummy evs sys = Some sys'" by (auto simp: leads_to_def)
  with async_run_ok [OF assms(2) this(1), of dummy] show ?thesis by simp
qed

lemma can_finish:
  assumes "async_inv fails X cs d sys"
  shows "\<exists>sys'. leads_to fails d dummy sys sys' \<and> (\<forall>w \<in> set (as_workers sys'). w = Exited)"
  using assms
proof (induction "work_left sys" arbitrary: sys rule: less_induct)
  case less
  show ?case
  proof (cases "\<exists>i < length (as_workers sys). as_workers sys ! i \<noteq> Exited")
    case True
    then obtain sys1 where s1: "leads_to fails d dummy sys sys1" "work_left sys1 < work_left sys"
      using progress [OF less.prems] by blast
    from less.hyps [OF s1(2) leads_to_inv [OF s1(1) less.prems]] leads_to_trans [OF s1(1)] show ?thesis by blast
  next
    case False
    then have "\<forall>w \<in> set (as_workers sys). w = Exited" by (metis in_set_conv_nth)
    then show ?thesis using leads_to_refl by blast
  qed
qed

lemma async_step_workers:
  assumes "async_step fails d dummy ev sys = Some sys'"
  shows "length (as_workers sys') = length (as_workers sys)"
  using assms
  by (auto simp: async_step_def worker_pop_def worker_start_def worker_mail_def worker_timeout_def worker_finish_def recv_lookup_def
      recv_deliver_def set_worker_def Let_def bind_eq_Some_iff
      split: async_event.splits worker.splits if_splits option.splits)

lemma async_run_workers: "async_run fails d dummy evs sys = Some sys' \<Longrightarrow> length (as_workers sys') = length (as_workers sys)"
  by (induction evs arbitrary: sys) (auto simp: bind_eq_Some_iff dest: async_step_workers)

end
