(* ===== verification/Workers_Properties.thy ===== *)
theory Workers_Properties
  imports Workers_Correct
begin

text \<open>
  What the asynchronous load generator promises under every interleaving of its threads, and the
  contract of its table of transactions.
\<close>

section \<open>Samples\<close>

text \<open>Two clients in memory, and static variables with arbitrary contents.\<close>

definition sample_mem :: client_mem where
  "sample_mem = [64 \<mapsto> zero_client_async\<lparr>ca_c := zero_client\<lparr>c_xid := 1\<rparr>\<rparr>, 128 \<mapsto> zero_client_async\<lparr>ca_c := zero_client\<lparr>c_xid := 2\<rparr>\<rparr>]"

definition sample_ids :: "u64 \<Rightarrow> u32" where
  "sample_ids p = (if p = 64 then 1 else 2)"

definition sample_cq :: cq_t where
  "sample_cq = \<lparr>c_buf = replicate (unat BENCH_CQ_N) 3, fence = 0, head = 5, tail = 4\<rparr>"

definition sample_tab :: hash_tab where
  "sample_tab = \<lparr>buckets = replicate 4096 \<lparr>elem = replicate 8 0, elem_size = 0\<rparr>, occupied = replicate 4096 1, elem_cnt = 5,
     capacity = 0, hash = (\<lambda>_ _. None), comp = (\<lambda>_ _ _. None), aux = 0\<rparr>"

lemma sample_start: "start_ok sample_ids [64, 128] 8 sample_mem sample_cq sample_tab"
proof -
  have "\<forall>p \<in> set [64, 128]. client_at sample_ids sample_mem p \<and> c_retries (ca_c (the (sample_mem p))) = 0"
    by (auto simp: sample_mem_def sample_ids_def client_at_def client_xid_def client_ok_def mail_ok_def zero_client_async_def zero_client_def)
  then show ?thesis
    by (auto simp: start_ok_def tab_memory_def sample_tab_def sample_cq_def QUEUE_MAX_def sample_ids_def inj_on_def) (simp add: sample_mem_def)
qed

section \<open>Properties\<close>

text \<open>
  C32. Mutual exclusion and routing, for clients with distinct transaction identifiers.  From the
  state in which \<open>main\<close> creates the threads, every
  schedule is executed without an access outside an object; at every point two workers never have
  the same client, a client that a worker has is not in the queue, and a frame in a mailbox has
  the transaction identifier of the client the mailbox belongs to.
\<close>

theorem async_exclusive:
  assumes "start_ok X ps d mem cq h" and "list_all event_ok evs"
  shows "\<exists>sys0 sys. async_main mem ps cq h = Some sys0 \<and> async_run fails d dummy evs sys0 = Some sys \<and>
    (\<forall>i < length (as_workers sys). \<forall>j < length (as_workers sys). \<forall>p.
       held (as_workers sys ! i) = Some p \<and> held (as_workers sys ! j) = Some p \<longrightarrow> i = j) \<and>
    (\<forall>i < length (as_workers sys). \<forall>p. held (as_workers sys ! i) = Some p \<longrightarrow> p \<notin> set (queued (as_cq sys))) \<and>
    (\<forall>p \<in> set ps. \<exists>ca. as_mem sys p = Some ca \<and> (mb_buf_len (ca_mb ca) \<noteq> 0 \<longrightarrow>
       routed (X p) (take (nat (mb_buf_len (ca_mb ca))) (mb_buf (ca_mb ca)))))"
proof -
  obtain sys0 where s0: "async_main mem ps cq h = Some sys0" "async_inv fails X ps d sys0"
    using async_main_ok [OF assms(1)] by blast
  obtain sys where s: "async_run fails d dummy evs sys0 = Some sys" "async_inv fails X ps d sys"
    using async_run_ok [OF s0(2) assms(2)] by blast
  have own: "own_inv ps (queued (as_cq sys)) (as_workers sys)" using s(2) by (simp add: async_inv_def)
  have "\<forall>p \<in> set ps. client_at X (as_mem sys) p" using s(2) by (simp add: async_inv_def clients_inv_def)
  then have "\<forall>p \<in> set ps. \<exists>ca. as_mem sys p = Some ca \<and> (mb_buf_len (ca_mb ca) \<noteq> 0 \<longrightarrow>
       routed (X p) (take (nat (mb_buf_len (ca_mb ca))) (mb_buf (ca_mb ca))))"
    by (auto simp: client_at_def mail_ok_def)
  with s0(1) s(1) own_invD(4,5) [OF own] show ?thesis by blast
qed

theorem async_exclusive_witness:
  "\<exists>sys0 sys. async_main sample_mem [64, 128] sample_cq sample_tab = Some sys0 \<and>
    async_run (\<lambda>_ _. False) 8 zero_client_async [Run_Worker 0 (0, 0) 9 (replicate SBUF_LEN 0) (blank_meta 0), Expire 0, Receive [1]] sys0 = Some sys"
  using async_exclusive [OF sample_start, of "[Run_Worker 0 (0, 0) 9 (replicate SBUF_LEN 0) (blank_meta 0), Expire 0, Receive [1]]"
      "\<lambda>_ _. False" zero_client_async] by auto

lemma collect_results_count: "passed (collect_results r cs) + failed (collect_results r cs) = passed r + failed r + int (length cs)"
  by (induction cs arbitrary: r) (auto simp: Let_def)

lemma exited_all_run:
  assumes "async_inv fails X ps d sys" and "\<forall>w \<in> set (as_workers sys). w = Exited" and "as_workers sys \<noteq> []"
  shows "queued (as_cq sys) = []" and "p \<in> set ps \<Longrightarrow> ended fails (as_mem sys) p"
proof -
  have own: "own_inv ps (queued (as_cq sys)) (as_workers sys)" using assms(1) by (simp add: async_inv_def)
  have ex: "as_workers sys ! i = Exited" if "i < length (as_workers sys)" for i using that assms(2) by auto
  show q: "queued (as_cq sys) = []" using own_invD(6) [OF own, of 0] ex [of 0] assms(3) by auto
  have "\<not> holds (as_workers sys) p" using ex by (auto simp: holds_def)
  then show "p \<in> set ps \<Longrightarrow> ended fails (as_mem sys) p" using assms(1) q by (auto simp: async_inv_def clients_inv_def)
qed

text \<open>
  C33. No client is forgotten.  When all workers have returned, the queue is empty and every client
  is done or has failed (if no call of \<open>sendto\<close> failed), and the two counters that \<open>main\<close> prints add
  up to the number of clients.
\<close>

theorem async_complete:
  assumes "start_ok X ps d mem cq h" and "list_all event_ok evs" and "\<forall>p k. \<not> fails p k"
    and "async_main mem ps cq h = Some sys0" and "async_run fails d dummy evs sys0 = Some sys"
    and "\<forall>w \<in> set (as_workers sys). w = Exited"
  shows "queued (as_cq sys) = [] \<and>
    (\<forall>p \<in> set ps. c_state (ca_c (the (as_mem sys p))) = STATE_DONE \<or> c_state (ca_c (the (as_mem sys p))) = STATE_FAILED) \<and>
    (let r = collect_results \<lparr>passed = 0, failed = 0, total_ms = 0, success_ms = 0, fail_ms = 0\<rparr> (map (\<lambda>p. ca_c (the (as_mem sys p))) ps)
     in passed r + failed r = int (length ps))"
proof -
  have inv0: "async_inv fails X ps d sys0" using async_main_ok [OF assms(1), of fails] assms(4) by auto
  have inv: "async_inv fails X ps d sys" using async_run_ok [OF inv0 assms(2), of dummy] assms(5) by simp
  have "length (as_workers sys) = length (as_workers sys0)" by (rule async_run_workers [OF assms(5)])
  also have "\<dots> = MAX_WORKERS" using assms(4) by (auto simp: async_main_def bind_eq_Some_iff)
  finally have "as_workers sys \<noteq> []" by (auto simp: MAX_WORKERS_def)
  from exited_all_run [OF inv assms(6) this] assms(3) show ?thesis
    by (auto simp: ended_def Let_def collect_results_count)
qed

theorem async_complete_witness:
  "\<exists>sys0 evs sys. async_main sample_mem [64, 128] sample_cq sample_tab = Some sys0 \<and>
    async_run (\<lambda>_ _. False) 8 zero_client_async evs sys0 = Some sys \<and> (\<forall>w \<in> set (as_workers sys). w = Exited) \<and>
    (\<forall>p \<in> {64, 128}. c_state (ca_c (the (as_mem sys p))) = STATE_DONE \<or> c_state (ca_c (the (as_mem sys p))) = STATE_FAILED)"
proof -
  obtain sys0 where s0: "async_main sample_mem [64, 128] sample_cq sample_tab = Some sys0" "async_inv (\<lambda>_ _. False) sample_ids [64, 128] 8 sys0"
    using async_main_ok [OF sample_start] by blast
  obtain evs sys where s: "list_all event_ok evs" "async_run (\<lambda>_ _. False) 8 zero_client_async evs sys0 = Some sys"
    "\<forall>w \<in> set (as_workers sys). w = Exited"
    using can_finish [OF s0(2), of zero_client_async] unfolding leads_to_def by blast
  have "\<forall>p \<in> {64, 128}. c_state (ca_c (the (as_mem sys p))) = STATE_DONE \<or> c_state (ca_c (the (as_mem sys p))) = STATE_FAILED"
    using async_complete [OF sample_start s(1) _ s0(1) s(2,3)] by auto
  with s0(1) s(2,3) show ?thesis by blast
qed



text \<open>
  C35. The table of transactions is a map.  After \<open>xid_tab_insert\<close> of a client, \<open>xid_tab_lookup\<close> finds it
  under its transaction identifier and everything else as before; after \<open>xid_tab_remove\<close> the
  identifier is free again and everything else is as before.  No operation fails while fewer than
  4096 transactions are in flight, although the hash and the comparison read the clients through
  the stored pointers.
\<close>

theorem xid_tab_is_map:
  assumes "xid_tab_ok mem h" and "mem p = Some c" and "d \<notin> dom mem" and "card (dom (in_flight mem h)) < 4096"
  shows "\<exists>h1 h2. xid_tab_insert mem h p = Some h1 \<and> xid_tab_ok mem h1 \<and>
    (\<forall>x. xid_tab_lookup mem d dummy h1 x = (if x = client_xid c then Some p else xid_tab_lookup mem d dummy h x)) \<and>
    xid_tab_remove mem d dummy h1 (client_xid c) = Some h2 \<and> xid_tab_ok mem h2 \<and>
    (\<forall>x. xid_tab_lookup mem d dummy h2 x = (if x = client_xid c then Some 0 else xid_tab_lookup mem d dummy h x))"
proof -
  obtain h1 where h1: "xid_tab_insert mem h p = Some h1" "xid_tab_ok mem h1" "in_flight mem h1 = (in_flight mem h)(client_xid c \<mapsto> p)"
    using xid_tab_insert_ok [OF assms(1,2)] assms(4) by auto
  obtain h2 where h2: "xid_tab_remove mem d dummy h1 (client_xid c) = Some h2" "xid_tab_ok mem h2"
    "in_flight mem h2 = (in_flight mem h1)(client_xid c := None)"
    using xid_tab_remove_ok [OF h1(2) assms(3), of dummy "client_xid c"] by blast
  note L = xid_tab_lookup_ok [OF assms(1,3)] xid_tab_lookup_ok [OF h1(2) assms(3)] xid_tab_lookup_ok [OF h2(2) assms(3)]
  show ?thesis using h1 h2 by (auto simp: L)
qed

theorem xid_tab_is_map_witness:
  "\<exists>h h1 h2. xid_tab_init sample_mem sample_tab = Some h \<and> xid_tab_insert sample_mem h 64 = Some h1 \<and>
    xid_tab_lookup sample_mem 8 zero_client_async h1 1 = Some 64 \<and>
    xid_tab_remove sample_mem 8 zero_client_async h1 1 = Some h2 \<and> xid_tab_lookup sample_mem 8 zero_client_async h2 1 = Some 0"
proof -
  have mem: "tab_memory sample_tab" "8 \<notin> dom sample_mem" using sample_start by (simp_all add: start_ok_def)
  obtain h where h: "xid_tab_init sample_mem sample_tab = Some h" "xid_tab_ok sample_mem h" "in_flight sample_mem h = Map.empty"
    using xid_tab_init_ok [OF mem(1)] by blast
  have p: "sample_mem 64 = Some (zero_client_async\<lparr>ca_c := zero_client\<lparr>c_xid := 1\<rparr>\<rparr>)" by (simp add: sample_mem_def)
  from xid_tab_is_map [OF h(2) p mem(2), of zero_client_async] h(1,3) show ?thesis by (auto simp: client_xid_def)
qed

end
