(* ===== verification/Hash_Tests.thy ===== *)
theory Hash_Tests
  imports Cqueue_Tests Hash_Pool_Correct Bench_Hash Byte_Order
begin

text \<open>
  The test program \<open>ds-lib/hash-test.c\<close> of the hash table, with \<open>n\<close> for \<open>HASH_ELEM_MAX\<close> and \<open>N\<close> for \<open>HASH_N\<close>;
  the copy \<open>bench-live/lib/hash-test.c\<close> is the same program at the sizes of the load generator, with
  half as many elements in the collision test.  The counters of the checks are a pair as in the tests
  of the queue.  The local tables are not initialised, so their content is an argument; \<open>rand\<close> is the
  sequence of values that the random generator returns and \<open>k\<close> the number of values used so far.
  The output is left out, and with it the counters of the operations and \<open>print_hash_table\<close>.
\<close>

section \<open>Functions of the table and elements\<close>

definition fnv1a_mod :: "u32 \<Rightarrow> u8 list \<Rightarrow> nat \<Rightarrow> u32 option" where
  "fnv1a_mod N p sz = do {
     h \<leftarrow> fnv_from p 2166136261 0 sz;
     Some (h mod N)
   }"

definition generic_hash_mac :: "u32 \<Rightarrow> hash_elem \<Rightarrow> aux_ptr \<Rightarrow> u32 option" where
  "generic_hash_mac N e x = fnv1a_mod N (elem e) (unat (elem_size e))"

definition generic_comp_mac :: "hash_elem \<Rightarrow> hash_elem \<Rightarrow> aux_ptr \<Rightarrow> int option" where
  "generic_comp_mac a b x =
     (if elem_size a \<noteq> elem_size b then Some 1
      else kmemcmp (elem a) (elem b) (unat (elem_size a)))"

definition make_elem :: "nat \<Rightarrow> u8 list \<Rightarrow> u32 \<Rightarrow> hash_elem option" where
  "make_elem n p sz = do {
     bs \<leftarrow> kmemcpy (replicate n 0) 0 p (unat sz);
     Some \<lparr>elem = bs, elem_size = sz\<rparr>
   }"

definition ELEM_U32 :: "nat \<Rightarrow> u32 \<Rightarrow> hash_elem option" where
  "ELEM_U32 n x = make_elem n (host_bytes x) 4"

definition ELEM_MAC :: "nat \<Rightarrow> u8 list \<Rightarrow> hash_elem option" where
  "ELEM_MAC n m = make_elem n m 6"

definition ELEM_IP :: "nat \<Rightarrow> u32 \<Rightarrow> hash_elem option" where
  "ELEM_IP n ip = make_elem n (host_bytes ip) 4"

section \<open>The shadow table\<close>

record shadow_entry_t =
  sh_data :: "u8 list"
  sh_size :: u32
  sh_used :: u32

record shadow_tab_t =
  sh_entries :: "shadow_entry_t list"
  sh_count :: u32

definition clear_entry :: "shadow_entry_t \<Rightarrow> shadow_entry_t" where
  "clear_entry x = \<lparr>sh_data = replicate (length (sh_data x)) 0, sh_size = 0, sh_used = 0\<rparr>"

definition shadow_clear :: "shadow_tab_t \<Rightarrow> shadow_tab_t" where
  "shadow_clear s = \<lparr>sh_entries = map clear_entry (sh_entries s), sh_count = 0\<rparr>"

function shadow_find_from :: "nat \<Rightarrow> shadow_tab_t \<Rightarrow> hash_elem \<Rightarrow> nat \<Rightarrow> nat option option" where
  "shadow_find_from M s e i =
     (if i < M then do {
        x \<leftarrow> rd (sh_entries s) i;
        if sh_used x \<noteq> 0 \<and> sh_size x = elem_size e then do {
          c \<leftarrow> kmemcmp (sh_data x) (elem e) (unat (elem_size e));
          if c = 0 then Some (Some i) else shadow_find_from M s e (i + 1)
        }
        else shadow_find_from M s e (i + 1)
      }
      else Some None)"
  by pat_completeness auto
termination
  by (relation "measure (\<lambda>(M, s, e, i). M - i)") auto

declare shadow_find_from.simps [simp del]

definition shadow_find :: "u32 \<Rightarrow> shadow_tab_t \<Rightarrow> hash_elem \<Rightarrow> nat option option" where
  "shadow_find N s e = shadow_find_from (unat N) s e 0"

text \<open>The second loop of \<open>shadow_insert\<close>: the first unused entry is filled.\<close>

function shadow_put_from :: "nat \<Rightarrow> shadow_tab_t \<Rightarrow> hash_elem \<Rightarrow> nat \<Rightarrow> (shadow_tab_t \<times> bool) option" where
  "shadow_put_from M s e i =
     (if i < M then do {
        x \<leftarrow> rd (sh_entries s) i;
        if sh_used x = 0 then do {
          bs \<leftarrow> kmemcpy (sh_data x) 0 (elem e) (unat (elem_size e));
          es \<leftarrow> wr (sh_entries s) i (x\<lparr>sh_used := 1, sh_size := elem_size e, sh_data := bs\<rparr>);
          Some (s\<lparr>sh_entries := es, sh_count := sh_count s + 1\<rparr>, True)
        }
        else shadow_put_from M s e (i + 1)
      }
      else Some (s, False))"
  by pat_completeness auto
termination
  by (relation "measure (\<lambda>(M, s, e, i). M - i)") auto

declare shadow_put_from.simps [simp del]

definition shadow_insert :: "u32 \<Rightarrow> shadow_tab_t \<Rightarrow> hash_elem \<Rightarrow> (shadow_tab_t \<times> bool) option" where
  "shadow_insert N s e = do {
     existing \<leftarrow> shadow_find N s e;
     case existing of
       Some i \<Rightarrow> do {
         x \<leftarrow> rd (sh_entries s) i;
         bs \<leftarrow> kmemcpy (sh_data x) 0 (elem e) (unat (elem_size e));
         es \<leftarrow> wr (sh_entries s) i (x\<lparr>sh_data := bs\<rparr>);
         Some (s\<lparr>sh_entries := es\<rparr>, True)
       }
     | None \<Rightarrow> shadow_put_from (unat N) s e 0
   }"

definition shadow_delete :: "u32 \<Rightarrow> shadow_tab_t \<Rightarrow> hash_elem \<Rightarrow> (shadow_tab_t \<times> bool) option" where
  "shadow_delete N s e = do {
     entry \<leftarrow> shadow_find N s e;
     case entry of
       None \<Rightarrow> Some (s, False)
     | Some i \<Rightarrow> do {
         x \<leftarrow> rd (sh_entries s) i;
         es \<leftarrow> wr (sh_entries s) i (clear_entry x);
         Some (s\<lparr>sh_entries := es, sh_count := sh_count s - 1\<rparr>, True)
       }
   }"

section \<open>The tests\<close>

definition hash_test_init :: "nat \<Rightarrow> u32 \<Rightarrow> hash_tab \<Rightarrow> nat \<times> nat \<Rightarrow> (nat \<times> nat) option" where
  "hash_test_init n N h st = do {
     (h, rc) \<leftarrow> hash_init n N h (generic_hash_mac N) generic_comp_mac 0;
     let st = CHECK rc st;
     let st = CHECK (hash_empty h) st;
     let st = CHECK (hash_size h = 0) st;
     let st = CHECK (capacity h = N) st;
     Some st
   }"

text \<open>\<open>CHECK (hash_insert (h, e) == HASH_OP_SUCCESS)\<close> and the like.\<close>

definition check_insert :: "nat \<Rightarrow> hash_tab \<Rightarrow> hash_elem \<Rightarrow> nat \<times> nat \<Rightarrow> (hash_tab \<times> nat \<times> nat) option" where
  "check_insert n h e st = do {
     (h, rc) \<leftarrow> hash_insert n h e;
     Some (h, CHECK rc st)
   }"

definition check_find :: "hash_tab \<Rightarrow> hash_elem \<Rightarrow> bool \<Rightarrow> nat \<times> nat \<Rightarrow> (nat \<times> nat) option" where
  "check_find h e present st = do {
     r \<leftarrow> hash_find h e;
     Some (CHECK ((r \<noteq> None) = present) st)
   }"

definition check_delete :: "nat \<Rightarrow> hash_tab \<Rightarrow> hash_elem \<Rightarrow> nat \<times> nat \<Rightarrow> (hash_tab \<times> nat \<times> nat) option" where
  "check_delete n h e st = do {
     (h, rc) \<leftarrow> hash_delete n h e;
     Some (h, CHECK rc st)
   }"

definition test_uint32 :: "nat \<Rightarrow> u32 \<Rightarrow> hash_tab \<Rightarrow> nat \<times> nat \<Rightarrow> (nat \<times> nat) option" where
  "test_uint32 n N h st = do {
     (h, rc) \<leftarrow> hash_init n N h (generic_hash_mac N) generic_comp_mac 0;
     e1 \<leftarrow> ELEM_U32 n 0xDEADBEEF;
     e2 \<leftarrow> ELEM_U32 n 0xCAFEBABE;
     (h, st) \<leftarrow> check_insert n h e1 st;
     (h, st) \<leftarrow> check_insert n h e2 st;
     let st = CHECK (hash_size h = 2) st;
     st \<leftarrow> check_find h e1 True st;
     st \<leftarrow> check_find h e2 True st;
     missing \<leftarrow> ELEM_U32 n 0x12345678;
     st \<leftarrow> check_find h missing False st;
     (h, st) \<leftarrow> check_delete n h e1 st;
     st \<leftarrow> check_find h e1 False st;
     let st = CHECK (hash_size h = 1) st;
     Some st
   }"

definition test_mac :: "nat \<Rightarrow> u32 \<Rightarrow> hash_tab \<Rightarrow> nat \<times> nat \<Rightarrow> (nat \<times> nat) option" where
  "test_mac n N h st = do {
     (h, rc) \<leftarrow> hash_init n N h (generic_hash_mac N) generic_comp_mac 0;
     e1 \<leftarrow> ELEM_MAC n [0xAA, 0xBB, 0xCC, 0xDD, 0xEE, 0xFF];
     e2 \<leftarrow> ELEM_MAC n [0x00, 0x11, 0x22, 0x33, 0x44, 0x55];
     e3 \<leftarrow> ELEM_MAC n [0xDE, 0xAD, 0xBE, 0xEF, 0x00, 0x01];
     (h, st) \<leftarrow> check_insert n h e1 st;
     (h, st) \<leftarrow> check_insert n h e2 st;
     (h, st) \<leftarrow> check_insert n h e3 st;
     let st = CHECK (hash_size h = 3) st;
     st \<leftarrow> check_find h e1 True st;
     st \<leftarrow> check_find h e2 True st;
     st \<leftarrow> check_find h e3 True st;
     (h, st) \<leftarrow> check_delete n h e2 st;
     st \<leftarrow> check_find h e2 False st;
     st \<leftarrow> check_find h e1 True st;
     st \<leftarrow> check_find h e3 True st;
     Some st
   }"

definition test_ip :: "nat \<Rightarrow> u32 \<Rightarrow> hash_tab \<Rightarrow> nat \<times> nat \<Rightarrow> (nat \<times> nat) option" where
  "test_ip n N h st = do {
     (h, rc) \<leftarrow> hash_init n N h (generic_hash_mac N) generic_comp_mac 0;
     e1 \<leftarrow> ELEM_IP n 0xC0A80101;
     e2 \<leftarrow> ELEM_IP n 0xC0A80102;
     e3 \<leftarrow> ELEM_IP n 0xC0A80103;
     (h, rc) \<leftarrow> hash_insert n h e1;
     (h, rc) \<leftarrow> hash_insert n h e2;
     (h, rc) \<leftarrow> hash_insert n h e3;
     e1_dup \<leftarrow> ELEM_IP n 0xC0A80101;
     (h, st) \<leftarrow> check_insert n h e1_dup st;
     let st = CHECK (hash_size h = 3) st;
     st \<leftarrow> check_find h e1 True st;
     st \<leftarrow> check_find h e2 True st;
     st \<leftarrow> check_find h e3 True st;
     Some st
   }"

text \<open>The loops of \<open>test_collisions\<close>, over the values that \<open>i\<close> takes.\<close>

fun insert_all :: "nat \<Rightarrow> hash_tab \<Rightarrow> u32 list \<Rightarrow> nat \<times> nat \<Rightarrow> (hash_tab \<times> nat \<times> nat) option" where
  "insert_all n h [] st = Some (h, st)"
| "insert_all n h (i # vs) st = do {
     e \<leftarrow> ELEM_U32 n i;
     (h, st) \<leftarrow> check_insert n h e st;
     insert_all n h vs st
   }"

fun find_all :: "nat \<Rightarrow> hash_tab \<Rightarrow> u32 list \<Rightarrow> bool option" where
  "find_all n h [] = Some True"
| "find_all n h (i # vs) = do {
     e \<leftarrow> ELEM_U32 n i;
     r \<leftarrow> hash_find h e;
     if r = None then Some False else find_all n h vs
   }"

fun delete_all :: "nat \<Rightarrow> hash_tab \<Rightarrow> u32 list \<Rightarrow> hash_tab option" where
  "delete_all n h [] = Some h"
| "delete_all n h (i # vs) = do {
     e \<leftarrow> ELEM_U32 n i;
     (h, rc) \<leftarrow> hash_delete n h e;
     delete_all n h vs
   }"

text \<open>\<open>m\<close> is the number of elements, \<open>HASH_N\<close> in \<open>ds-lib\<close> and \<open>HASH_N / 2\<close> in the load generator.\<close>

definition test_collisions :: "nat \<Rightarrow> u32 \<Rightarrow> u32 \<Rightarrow> hash_tab \<Rightarrow> nat \<times> nat \<Rightarrow> (nat \<times> nat) option" where
  "test_collisions n N m h st = do {
     (h, rc) \<leftarrow> hash_init n N h (generic_hash_mac N) generic_comp_mac 0;
     (h, st) \<leftarrow> insert_all n h (map of_nat [0..<unat m]) st;
     let st = CHECK (hash_size h = m) st;
     all_found \<leftarrow> find_all n h (map of_nat [0..<unat m]);
     let st = CHECK all_found st;
     h \<leftarrow> delete_all n h (map of_nat (filter even [0..<unat m]));
     chain_ok \<leftarrow> find_all n h (map of_nat (filter odd [0..<unat m]));
     Some (CHECK chain_ok st)
   }"

section \<open>The stress test\<close>

definition used_indices :: "u32 \<Rightarrow> shadow_tab_t \<Rightarrow> nat list" where
  "used_indices N s = filter (\<lambda>i. sh_used (sh_entries s ! i) \<noteq> 0) [0..<unat N]"

definition shadow_pick :: "nat \<Rightarrow> u32 \<Rightarrow> shadow_tab_t \<Rightarrow> u32 \<Rightarrow> (nat \<Rightarrow> u32) \<Rightarrow> nat \<Rightarrow> (hash_elem \<times> nat) option" where
  "shadow_pick n N s sz rand k =
     (let indices = used_indices N s;
          cnt = of_nat (length indices)
      in if cnt > 0 then do {
           i \<leftarrow> rd indices (unat (rand k mod cnt));
           se \<leftarrow> rd (sh_entries s) i;
           bs \<leftarrow> kmemcpy (replicate n 0) 0 (sh_data se) (unat (sh_size se));
           Some (\<lparr>elem = bs, elem_size = sz\<rparr>, k + 1)
         }
         else Some (\<lparr>elem = replicate n 0, elem_size = sz\<rparr>, k))"

definition random_elem :: "nat \<Rightarrow> u32 \<Rightarrow> (nat \<Rightarrow> u32) \<Rightarrow> nat \<Rightarrow> (hash_elem \<times> nat) option" where
  "random_elem n sz rand k = do {
     bs \<leftarrow> kmemcpy (replicate n 0) 0 (map (\<lambda>i. ucast (rand (k + i) AND 0xFF)) [0..<unat sz]) (unat sz);
     Some (\<lparr>elem = bs, elem_size = sz\<rparr>, k + unat sz)
   }"

text \<open>The element of a search or a deletion: mostly one of the table, if there is one.\<close>

definition stress_elem :: "nat \<Rightarrow> u32 \<Rightarrow> shadow_tab_t \<Rightarrow> u32 \<Rightarrow> (nat \<Rightarrow> u32) \<Rightarrow> nat \<Rightarrow> (hash_elem \<times> nat) option" where
  "stress_elem n N s sz rand k =
     (if sh_count s > 0 then
        if rand k mod 3 \<noteq> 0 then shadow_pick n N s sz rand (k + 1)
        else random_elem n sz rand (k + 1)
      else random_elem n sz rand k)"

text \<open>One operation on both tables; the last component is \<open>mismatch\<close>.\<close>

definition stress_op :: "nat \<Rightarrow> u32 \<Rightarrow> u32 \<Rightarrow> (nat \<Rightarrow> u32) \<Rightarrow> nat \<Rightarrow> hash_tab \<Rightarrow> shadow_tab_t \<Rightarrow>
    (hash_tab \<times> shadow_tab_t \<times> nat \<times> bool) option" where
  "stress_op n N sz rand k h s = (
     let action = rand k mod 3
     in if action = 0 \<and> hash_size h < N then do {
          (e, k) \<leftarrow> random_elem n sz rand (k + 1);
          (h, hr) \<leftarrow> hash_insert n h e;
          (s, sr) \<leftarrow> shadow_insert N s e;
          Some (h, s, k, False)
        }
        else if action = 1 then do {
          (e, k) \<leftarrow> stress_elem n N s sz rand (k + 1);
          hr \<leftarrow> hash_find h e;
          sr \<leftarrow> shadow_find N s e;
          Some (h, s, k, (hr \<noteq> None) \<noteq> (sr \<noteq> None))
        }
        else do {
          (e, k) \<leftarrow> stress_elem n N s sz rand (k + 1);
          (h, hr) \<leftarrow> hash_delete n h e;
          (s, sr) \<leftarrow> shadow_delete N s e;
          Some (h, s, k, hr \<noteq> sr)
        })"

fun hash_stress_loop :: "nat \<Rightarrow> u32 \<Rightarrow> u32 \<Rightarrow> (nat \<Rightarrow> u32) \<Rightarrow> nat \<Rightarrow> hash_tab \<Rightarrow> shadow_tab_t \<Rightarrow> nat \<Rightarrow> (bool \<times> nat) option" where
  "hash_stress_loop n N sz rand k h s 0 = Some (False, k)"
| "hash_stress_loop n N sz rand k h s (Suc ops) = do {
     (h, s, k, mismatch) \<leftarrow> stress_op n N sz rand k h s;
     if mismatch \<or> hash_size h \<noteq> sh_count s then Some (True, k)
     else hash_stress_loop n N sz rand k h s ops
   }"

definition stress_test :: "nat \<Rightarrow> u32 \<Rightarrow> u32 \<Rightarrow> nat \<Rightarrow> (nat \<Rightarrow> u32) \<Rightarrow> hash_tab \<Rightarrow> shadow_tab_t \<Rightarrow> nat \<Rightarrow> nat \<times> nat \<Rightarrow>
    (nat \<times> nat \<times> nat) option" where
  "stress_test n N sz ops rand h s k st = do {
     (h, rc) \<leftarrow> hash_init n N h (generic_hash_mac N) generic_comp_mac 0;
     (mismatch, k) \<leftarrow> hash_stress_loop n N sz rand k h (shadow_clear s) ops;
     Some (k, CHECK (\<not> mismatch) st)
   }"

text \<open>\<open>main\<close>; \<open>hs i\<close> and \<open>ss i\<close> are the contents of the uninitialised tables of the \<open>i\<close>-th call.\<close>

definition hash_test_main :: "nat \<Rightarrow> u32 \<Rightarrow> u32 \<Rightarrow> (nat \<Rightarrow> u32) \<Rightarrow> (nat \<Rightarrow> hash_tab) \<Rightarrow> (nat \<Rightarrow> shadow_tab_t) \<Rightarrow> int option" where
  "hash_test_main n N m rand hs ss = do {
     st \<leftarrow> hash_test_init n N (hs 0) (0, 0);
     st \<leftarrow> test_uint32 n N (hs 1) st;
     st \<leftarrow> test_mac n N (hs 2) st;
     st \<leftarrow> test_ip n N (hs 3) st;
     st \<leftarrow> test_collisions n N m (hs 4) st;
     (k, st) \<leftarrow> stress_test n N 4 10000 rand (hs 5) (ss 5) 0 st;
     (k, st) \<leftarrow> stress_test n N 6 10000 rand (hs 6) (ss 6) k st;
     (k, st) \<leftarrow> stress_test n N 4 10000 rand (hs 7) (ss 7) k st;
     (k, st) \<leftarrow> stress_test n N 8 10000 rand (hs 8) (ss 8) k st;
     Some (if snd st = fst st then 0 else 1)
   }"

end
