(* ===== verification/Hash_Tests_Correct.thy ===== *)
theory Hash_Tests_Correct
  imports Hash_Tests
begin

text \<open>
  The test program of the hash table passes.  The locale \<open>key_table\<close> is what the tests rely on: a
  table that represents a bounded set of keys.  Both the hash table and the shadow table of the
  stress test are interpretations of it, so the two agree on every sequence of operations.
\<close>

section \<open>Tables that represent a set of keys\<close>

locale key_table =
  fixes tab :: "'t \<Rightarrow> 'k set \<Rightarrow> bool"
    and valid :: "hash_elem \<Rightarrow> bool"
    and key :: "hash_elem \<Rightarrow> 'k"
    and ins :: "'t \<Rightarrow> hash_elem \<Rightarrow> ('t \<times> bool) option"
    and del :: "'t \<Rightarrow> hash_elem \<Rightarrow> ('t \<times> bool) option"
    and fnd :: "'t \<Rightarrow> hash_elem \<Rightarrow> nat option option"
    and siz :: "'t \<Rightarrow> u32"
    and cap :: nat
  assumes ins_law: "tab t K \<Longrightarrow> valid e \<Longrightarrow> card K < cap \<Longrightarrow> \<exists>t'. ins t e = Some (t', True) \<and> tab t' (insert (key e) K)"
    and del_law: "tab t K \<Longrightarrow> valid e \<Longrightarrow> \<exists>t'. del t e = Some (t', key e \<in> K) \<and> tab t' (K - {key e})"
    and fnd_law: "tab t K \<Longrightarrow> valid e \<Longrightarrow> \<exists>r. fnd t e = Some r \<and> (r \<noteq> None \<longleftrightarrow> key e \<in> K)"
    and siz_law: "tab t K \<Longrightarrow> finite K \<and> unat (siz t) = card K \<and> card K \<le> cap"
begin

lemma inserts:
  assumes "tab t K" and "valid e" and "card K < cap"
  obtains t' where "ins t e = Some (t', True)" and "tab t' (insert (key e) K)"
  using ins_law [OF assms] by blast

lemma deletes:
  assumes "tab t K" and "valid e"
  obtains t' where "del t e = Some (t', key e \<in> K)" and "tab t' (K - {key e})"
  using del_law [OF assms] by blast

lemma finds:
  assumes "tab t K" and "valid e"
  obtains r where "fnd t e = Some r" and "r \<noteq> None \<longleftrightarrow> key e \<in> K"
  using fnd_law [OF assms] by blast

lemma siz_eq_iff: "tab t K \<Longrightarrow> unat w = card K \<Longrightarrow> siz t = w"
  using siz_law [of t K] by (simp add: word_unat_eq_iff)

end

section \<open>The hash table\<close>

type_synonym bytes_key = "u32 \<times> u8 list"

definition sized :: "nat \<Rightarrow> hash_elem \<Rightarrow> bool" where
  "sized n e \<longleftrightarrow> length (elem e) = n \<and> unat (elem_size e) \<le> n"

definition bytes_of :: "hash_elem \<Rightarrow> bytes_key" where
  "bytes_of e = (elem_size e, take (unat (elem_size e)) (elem e))"

lemma generic_hash_bytes:
  "sized n e \<Longrightarrow> generic_hash_mac N e x =
    Some (foldl (\<lambda>h b. (h XOR ucast b) * 16777619) 2166136261 (snd (bytes_of e)) mod N)"
  by (simp add: sized_def bytes_of_def generic_hash_mac_def fnv1a_mod_def fnv_from_take)

interpretation gen: keyed_hash n "sized n" "generic_hash_mac N" generic_comp_mac bytes_of
  for n :: nat and N :: u32
proof
  fix a b :: hash_elem and x
  assume ab: "sized n a" "sized n b"
  show "\<exists>d. generic_comp_mac a b x = Some d \<and> (d = 0 \<longleftrightarrow> bytes_of a = bytes_of b)"
  proof (cases "elem_size a = elem_size b")
    case True
    then show ?thesis
      using kmemcmp_Some [of "unat (elem_size a)" "elem a" "elem b"] ab
      by (auto simp: generic_comp_mac_def sized_def bytes_of_def)
  qed (simp add: generic_comp_mac_def bytes_of_def)
next
  show "length (elem e) = n" if "sized n e" for e using that by (simp add: sized_def)
qed (auto simp: generic_hash_bytes)

definition hash_has :: "nat \<Rightarrow> u32 \<Rightarrow> hash_tab \<Rightarrow> bytes_key set \<Rightarrow> bool" where
  "hash_has n N h K \<longleftrightarrow> gen.ok n N h \<and> capacity h = N \<and> dom (hash_map bytes_of h) = K"

interpretation ht: key_table "hash_has n N" "sized n" bytes_of "hash_insert n" "hash_delete n" hash_find hash_size "unat N"
  for n :: nat and N :: u32
proof
  fix h K e
  assume has: "hash_has n N h K"
  then have ok: "gen.ok n N h" and cap: "capacity h = N" and dom: "dom (hash_map bytes_of h) = K"
    by (auto simp: hash_has_def)
  show "finite K \<and> unat (hash_size h) = card K \<and> card K \<le> unat N" using gen.size_ok [OF ok] cap dom by simp
  assume e: "sized n e"
  show "\<exists>h'. hash_insert n h e = Some (h', True) \<and> hash_has n N h' (insert (bytes_of e) K)" if "card K < unat N"
    using gen.insert_ok [OF ok e] that cap dom by (auto simp: hash_has_def)
  show "\<exists>h'. hash_delete n h e = Some (h', bytes_of e \<in> K) \<and> hash_has n N h' (K - {bytes_of e})"
    using gen.delete_ok [OF ok e] cap dom by (auto simp: hash_has_def)
  show "\<exists>r. hash_find h e = Some r \<and> (r \<noteq> None \<longleftrightarrow> bytes_of e \<in> K)"
    using gen.find_ok [OF ok e] dom by (fastforce split: option.splits)
qed

text \<open>Uninitialised memory of the size of a table.\<close>

definition table_memory :: "nat \<Rightarrow> u32 \<Rightarrow> hash_tab \<Rightarrow> bool" where
  "table_memory n N h \<longleftrightarrow> length (buckets h) = unat N \<and> length (occupied h) = unat N \<and> (\<forall>b \<in> set (buckets h). length (elem b) = n)"

lemma hash_init_has:
  assumes "table_memory n N h" and "0 < N"
  obtains h' where "hash_init n N h (generic_hash_mac N) generic_comp_mac 0 = Some (h', True)" and "hash_has n N h' {}"
  using gen.init_ok [where N = N and h = h and n = n and Na = N and ax = 0] assms
  by (auto simp: table_memory_def hash_has_def)

section \<open>The shadow table\<close>

definition sh_view :: "shadow_tab_t \<Rightarrow> nat \<Rightarrow> shadow_entry_t option" where
  "sh_view s i = (if sh_used (sh_entries s ! i) \<noteq> 0 then Some (sh_entries s ! i) else None)"

definition sh_key :: "shadow_entry_t \<Rightarrow> bytes_key" where
  "sh_key x = (sh_size x, take (unat (sh_size x)) (sh_data x))"

definition shadow_wf :: "nat \<Rightarrow> u32 \<Rightarrow> shadow_tab_t \<Rightarrow> bool" where
  "shadow_wf n N s \<longleftrightarrow> length (sh_entries s) = unat N \<and> (\<forall>x \<in> set (sh_entries s). length (sh_data x) = n \<and> unat (sh_size x) \<le> n)"

definition shadow_has :: "nat \<Rightarrow> u32 \<Rightarrow> shadow_tab_t \<Rightarrow> bytes_key set \<Rightarrow> bool" where
  "shadow_has n N s K \<longleftrightarrow> shadow_wf n N s \<and> keys_distinct (unat N) sh_key (sh_view s) \<and>
     unat (sh_count s) = filled (unat N) (sh_view s) \<and> dom (ring_map (unat N) sh_key (sh_view s)) = K"

lemma shadow_wf_nth:
  assumes "shadow_wf n N s" and "i < unat N"
  shows "rd (sh_entries s) i = Some (sh_entries s ! i)" and "length (sh_data (sh_entries s ! i)) = n"
    and "unat (sh_size (sh_entries s ! i)) \<le> n"
  using assms by (auto simp: shadow_wf_def access_simps)

lemma shadow_find_from_ok:
  assumes "shadow_wf n N s" and "sized n e"
  shows "shadow_find_from (unat N) s e i = Some (find (\<lambda>j. \<exists>x. sh_view s j = Some x \<and> sh_key x = bytes_of e) [i..<unat N])"
proof (induction "unat N - i" arbitrary: i)
  case 0
  then show ?case by (subst shadow_find_from.simps) simp
next
  case (Suc d)
  then have i: "i < unat N" and next_i: "d = unat N - (i + 1)" by simp_all
  let ?x = "sh_entries s ! i"
  note x = shadow_wf_nth [OF assms(1) i]
  have upt: "[i..<unat N] = i # [i + 1..<unat N]" using i by (simp add: upt_conv_Cons)
  show ?case
  proof (cases "sh_used ?x \<noteq> 0 \<and> sh_size ?x = elem_size e")
    case True
    then obtain c where "kmemcmp (sh_data ?x) (elem e) (unat (elem_size e)) = Some c" "c = 0 \<longleftrightarrow> sh_key ?x = bytes_of e"
      using kmemcmp_Some [of "unat (elem_size e)" "sh_data ?x" "elem e"] x assms(2)
      by (auto simp: sized_def sh_key_def bytes_of_def)
    then show ?thesis
      using True i x(1) Suc.hyps(1) [OF next_i] by (subst shadow_find_from.simps) (simp add: upt sh_view_def)
  next
    case False
    then have "\<not> (\<exists>x. sh_view s i = Some x \<and> sh_key x = bytes_of e)"
      by (auto simp: sh_view_def sh_key_def bytes_of_def)
    then show ?thesis
      using False i x(1) Suc.hyps(1) [OF next_i] by (subst shadow_find_from.simps) (auto simp: upt)
  qed
qed

lemma shadow_has_mem:
  assumes "shadow_has n N s K"
  shows "k \<in> K \<longleftrightarrow> (\<exists>i < unat N. \<exists>x. sh_view s i = Some x \<and> sh_key x = k)"
proof -
  have "K = dom (ring_map (unat N) sh_key (sh_view s))" "keys_distinct (unat N) sh_key (sh_view s)"
    using assms by (auto simp: shadow_has_def)
  then show ?thesis using ring_map_Some_iff [of "unat N" sh_key "sh_view s" k] by blast
qed

text \<open>A search returns the entry of the key if the table has it.\<close>

lemma shadow_find_cases:
  assumes "shadow_has n N s K" and "sized n e"
  obtains (absent) "shadow_find N s e = Some None" and "bytes_of e \<notin> K"
  | (present) i where "shadow_find N s e = Some (Some i)" and "i < unat N" and "bytes_of e \<in> K"
      and "sh_used (sh_entries s ! i) \<noteq> 0" and "sh_key (sh_entries s ! i) = bytes_of e"
proof -
  let ?P = "\<lambda>j. \<exists>x. sh_view s j = Some x \<and> sh_key x = bytes_of e"
  have wf: "shadow_wf n N s" using assms(1) by (simp add: shadow_has_def)
  have find: "shadow_find N s e = Some (find ?P [0..<unat N])"
    unfolding shadow_find_def by (rule shadow_find_from_ok [OF wf assms(2)])
  show thesis
  proof (cases "find ?P [0..<unat N]")
    case None
    then have "\<not> (\<exists>i < unat N. ?P i)" by (auto simp: find_None_iff)
    with absent find None shadow_has_mem [OF assms(1)] show thesis by simp
  next
    case (Some i)
    then have i: "i < unat N" "?P i" by (auto simp: find_Some_iff)
    then have "bytes_of e \<in> K" using shadow_has_mem [OF assms(1)] by blast
    moreover have "sh_used (sh_entries s ! i) \<noteq> 0" "sh_key (sh_entries s ! i) = bytes_of e"
      using i(2) by (auto simp: sh_view_def split: if_splits)
    ultimately show thesis using present [of i] find Some i(1) by simp
  qed
qed

lemma sh_view_update:
  assumes "i < length (sh_entries s)"
  shows "sh_view (s\<lparr>sh_entries := (sh_entries s)[i := x], sh_count := c\<rparr>) = (sh_view s)(i := if sh_used x \<noteq> 0 then Some x else None)"
    and "sh_view (s\<lparr>sh_entries := (sh_entries s)[i := x]\<rparr>) = (sh_view s)(i := if sh_used x \<noteq> 0 then Some x else None)"
  using assms by (auto simp: sh_view_def fun_eq_iff)

lemma shadow_wf_update:
  assumes "shadow_wf n N s" and "length (sh_data x) = n" and "unat (sh_size x) \<le> n"
  shows "shadow_wf n N (s\<lparr>sh_entries := (sh_entries s)[i := x], sh_count := c\<rparr>)"
    and "shadow_wf n N (s\<lparr>sh_entries := (sh_entries s)[i := x]\<rparr>)"
  using assms set_update_subset_insert [of "sh_entries s" i x] by (auto simp: shadow_wf_def)

lemma entry_filled: "x\<lparr>sh_used := u, sh_size := z, sh_data := bs\<rparr> = \<lparr>sh_data = bs, sh_size = z, sh_used = u\<rparr>" for x :: shadow_entry_t
  by (cases x) simp

lemma shadow_put_from_ok:
  assumes "shadow_wf n N s" and "sized n e" and "j < unat N" and "sh_used (sh_entries s ! j) = 0"
    and "\<And>i. i0 \<le> i \<Longrightarrow> i < j \<Longrightarrow> sh_used (sh_entries s ! i) \<noteq> 0" and "i0 \<le> j"
  shows "\<exists>bs. length bs = n \<and> take (unat (elem_size e)) bs = take (unat (elem_size e)) (elem e) \<and>
    shadow_put_from (unat N) s e i0 =
      Some (s\<lparr>sh_entries := (sh_entries s)[j := \<lparr>sh_data = bs, sh_size = elem_size e, sh_used = 1\<rparr>], sh_count := sh_count s + 1\<rparr>, True)"
  using assms(5,6)
proof (induction "j - i0" arbitrary: i0)
  case 0
  let ?x = "sh_entries s ! j"
  note x = shadow_wf_nth [OF assms(1,3)]
  have j: "i0 = j" "j < length (sh_entries s)" using 0 assms(1,3) by (simp_all add: shadow_wf_def)
  let ?bs = "take (unat (elem_size e)) (elem e) @ drop (unat (elem_size e)) (sh_data ?x)"
  show ?case
    using x assms(2-4) j by (intro exI [of _ ?bs], subst shadow_put_from.simps) (simp add: sized_def access_simps entry_filled)
next
  case (Suc d)
  then have i0: "i0 < j" "d = j - (i0 + 1)" by simp_all
  then have used: "sh_used (sh_entries s ! i0) \<noteq> 0" "i0 < unat N" using Suc.prems(1) assms(3) by simp_all
  have "shadow_put_from (unat N) s e i0 = shadow_put_from (unat N) s e (i0 + 1)"
    using used shadow_wf_nth(1) [OF assms(1) used(2)] by (subst shadow_put_from.simps) simp
  with Suc.hyps(1) [OF i0(2)] Suc.prems(1) i0(1) show ?case by simp
qed

lemma shadow_delete_ok:
  assumes "shadow_has n N s K" and "sized n e"
  shows "\<exists>s'. shadow_delete N s e = Some (s', bytes_of e \<in> K) \<and> shadow_has n N s' (K - {bytes_of e})"
  using assms
proof (cases rule: shadow_find_cases)
  case absent
  then show ?thesis using assms(1) by (simp add: shadow_delete_def)
next
  case (present i)
  let ?x = "sh_entries s ! i"
  let ?s = "s\<lparr>sh_entries := (sh_entries s)[i := clear_entry ?x], sh_count := sh_count s - 1\<rparr>"
  have wf: "shadow_wf n N s" and kd: "keys_distinct (unat N) sh_key (sh_view s)"
    and cnt: "unat (sh_count s) = filled (unat N) (sh_view s)" and dom: "dom (ring_map (unat N) sh_key (sh_view s)) = K"
    using assms(1) by (auto simp: shadow_has_def)
  have len: "i < length (sh_entries s)" using wf present(2) by (simp add: shadow_wf_def)
  have at: "sh_view s i = Some ?x" using present(4) by (simp add: sh_view_def)
  have view: "sh_view ?s = (sh_view s)(i := None)" using sh_view_update(1) [OF len] by (simp add: clear_entry_def)
  have "filled (unat N) (sh_view s) = Suc (filled (unat N) ((sh_view s)(i := None)))"
    using filled_remove [of i "unat N" "sh_view s"] present(2) at by simp
  then have "unat (sh_count s - 1) = filled (unat N) ((sh_view s)(i := None))"
    using cnt unat_minus_one [of "sh_count s"] by (cases "sh_count s = 0") simp_all
  moreover have "shadow_wf n N ?s"
    using shadow_wf_update(1) [OF wf] shadow_wf_nth [OF wf present(2)] by (simp add: clear_entry_def)
  ultimately have "shadow_has n N ?s (K - {bytes_of e})"
    using ring_remove [OF kd present(2) at] dom present(5) view by (simp add: shadow_has_def)
  then show ?thesis
    using present shadow_wf_nth(1) [OF wf present(2)] len by (simp add: shadow_delete_def access_simps)
qed

text \<open>The first unused entry.\<close>

lemma first_unused:
  assumes "filled (unat N) (sh_view s) < unat N"
  obtains j where "j < unat N" and "sh_view s j = None" and "\<And>i. i < j \<Longrightarrow> sh_used (sh_entries s ! i) \<noteq> 0"
proof -
  obtain j0 where j0: "j0 < unat N" "sh_view s j0 = None" using filled_less_free [OF assms] by blast
  define j where "j = (LEAST j. sh_view s j = None)"
  have "sh_view s j = None" "j \<le> j0" and before: "\<And>i. i < j \<Longrightarrow> sh_view s i \<noteq> None"
    unfolding j_def using j0(2) by (auto intro: LeastI Least_le dest: not_less_Least)
  moreover have "sh_used (sh_entries s ! i) \<noteq> 0" if "i < j" for i
    using before [OF that] by (simp add: sh_view_def split: if_splits)
  ultimately show thesis by (intro that [of j]) (use j0(1) in simp_all)
qed

text \<open>Filling an unused entry with a key that the table does not have.\<close>

lemma shadow_fill_ok:
  assumes has: "shadow_has n N s K" and j: "j < unat N" "sh_view s j = None" and new: "sh_key x \<notin> K" and "sh_used x \<noteq> 0"
    and x: "length (sh_data x) = n" "unat (sh_size x) \<le> n"
  shows "shadow_has n N (s\<lparr>sh_entries := (sh_entries s)[j := x], sh_count := sh_count s + 1\<rparr>) (insert (sh_key x) K)"
    (is "shadow_has n N ?s _")
proof -
  have wf: "shadow_wf n N s" and kd: "keys_distinct (unat N) sh_key (sh_view s)"
    and cnt: "unat (sh_count s) = filled (unat N) (sh_view s)" and dom: "dom (ring_map (unat N) sh_key (sh_view s)) = K"
    using has by (auto simp: shadow_has_def)
  have view: "sh_view ?s = (sh_view s)(j \<mapsto> x)" using sh_view_update(1) [of j s "sh_count s + 1" x] j(1) wf assms(5) by (simp add: shadow_wf_def)
  have other: "i = j" if "i < unat N" "sh_view s i = Some b" "sh_key b = sh_key x" for i b
    using new shadow_has_mem [OF has, of "sh_key x"] that by auto
  have same: "sh_key b = sh_key x" if "sh_view s j = Some b" for b using that j(2) by simp
  have put: "filled (unat N) ((sh_view s)(j \<mapsto> x)) = Suc (filled (unat N) (sh_view s))"
    by (rule filled_put [where v = "sh_view s", OF j])
  then have "unat (sh_count s) < unat N" using cnt filled_le [of "unat N" "(sh_view s)(j \<mapsto> x)"] by simp
  then have "unat (sh_count s + 1) = filled (unat N) ((sh_view s)(j \<mapsto> x))"
    using cnt put unat_plus_one [of "sh_count s"] unat_less_pow [of N] by simp
  moreover have "shadow_wf n N ?s" by (rule shadow_wf_update(1) [OF wf x])
  ultimately show ?thesis using ring_put [OF kd j(1) other same] dom view by (simp add: shadow_has_def)
qed

lemma shadow_insert_ok:
  assumes "shadow_has n N s K" and "sized n e" and "card K < unat N"
  shows "\<exists>s'. shadow_insert N s e = Some (s', True) \<and> shadow_has n N s' (insert (bytes_of e) K)"
proof -
  have wf: "shadow_wf n N s" and kd: "keys_distinct (unat N) sh_key (sh_view s)" and dom: "dom (ring_map (unat N) sh_key (sh_view s)) = K"
    using assms(1) by (auto simp: shadow_has_def)
  show ?thesis
    using assms(1,2)
  proof (cases rule: shadow_find_cases)
    case (present i)
    let ?x = "sh_entries s ! i"
    note x = shadow_wf_nth [OF wf present(2)]
    have key: "elem_size e = sh_size ?x" "take (unat (sh_size ?x)) (elem e) = take (unat (sh_size ?x)) (sh_data ?x)"
      using present(5) by (auto simp: sh_key_def bytes_of_def)
    have "take (unat (elem_size e)) (elem e) @ drop (unat (elem_size e)) (sh_data ?x) = sh_data ?x"
      unfolding key by (simp add: append_take_drop_id)
    then have "shadow_insert N s e = Some (s, True)"
      using present(1,2) x assms(2) wf by (simp add: shadow_insert_def access_simps sized_def shadow_wf_def)
    then show ?thesis using assms(1) present(3) by (simp add: insert_absorb)
  next
    case absent
    have "filled (unat N) (sh_view s) < unat N" using assms(3) dom filled_card_dom(1) [OF kd] by simp
    then obtain j where j: "j < unat N" "sh_view s j = None" and used: "\<And>i. i < j \<Longrightarrow> sh_used (sh_entries s ! i) \<noteq> 0"
      using first_unused by blast
    have free: "sh_used (sh_entries s ! j) = 0" using j(2) by (simp add: sh_view_def split: if_splits)
    obtain bs where bs: "length bs = n" "take (unat (elem_size e)) bs = take (unat (elem_size e)) (elem e)"
      "shadow_put_from (unat N) s e 0 =
        Some (s\<lparr>sh_entries := (sh_entries s)[j := \<lparr>sh_data = bs, sh_size = elem_size e, sh_used = 1\<rparr>], sh_count := sh_count s + 1\<rparr>, True)"
      using shadow_put_from_ok [OF wf assms(2) j(1) free, of 0] used by auto
    let ?x = "\<lparr>sh_data = bs, sh_size = elem_size e, sh_used = 1\<rparr>"
    have key: "sh_key ?x = bytes_of e" using bs(2) by (simp add: sh_key_def bytes_of_def)
    have "shadow_has n N (s\<lparr>sh_entries := (sh_entries s)[j := ?x], sh_count := sh_count s + 1\<rparr>) (insert (sh_key ?x) K)"
      by (rule shadow_fill_ok [OF assms(1) j]) (use absent(2) key bs(1) assms(2) in \<open>simp_all add: sized_def\<close>)
    then show ?thesis using absent(1) bs(3) key by (simp add: shadow_insert_def)
  qed
qed

interpretation sh: key_table "shadow_has n N" "sized n" bytes_of "shadow_insert N" "shadow_delete N" "shadow_find N" sh_count "unat N"
  for n :: nat and N :: u32
proof
  fix s K e
  assume has: "shadow_has n N s K"
  then have kd: "keys_distinct (unat N) sh_key (sh_view s)" by (simp add: shadow_has_def)
  show "finite K \<and> unat (sh_count s) = card K \<and> card K \<le> unat N"
    using has filled_card_dom [OF kd] filled_le [of "unat N" "sh_view s"] by (auto simp: shadow_has_def)
  assume e: "sized n e"
  show "\<exists>s'. shadow_insert N s e = Some (s', True) \<and> shadow_has n N s' (insert (bytes_of e) K)" if "card K < unat N"
    by (rule shadow_insert_ok [OF has e that])
  show "\<exists>s'. shadow_delete N s e = Some (s', bytes_of e \<in> K) \<and> shadow_has n N s' (K - {bytes_of e})"
    by (rule shadow_delete_ok [OF has e])
  show "\<exists>r. shadow_find N s e = Some r \<and> (r \<noteq> None \<longleftrightarrow> bytes_of e \<in> K)"
    using has e by (cases rule: shadow_find_cases) auto
qed

text \<open>Uninitialised memory of the size of a shadow table.\<close>

definition shadow_memory :: "nat \<Rightarrow> u32 \<Rightarrow> shadow_tab_t \<Rightarrow> bool" where
  "shadow_memory n N s \<longleftrightarrow> length (sh_entries s) = unat N \<and> (\<forall>x \<in> set (sh_entries s). length (sh_data x) = n)"

lemma shadow_clear_has: "shadow_memory n N s \<Longrightarrow> shadow_has n N (shadow_clear s) {}"
proof -
  assume mem: "shadow_memory n N s"
  have view: "sh_view (shadow_clear s) i = None" if "i < unat N" for i
    using mem that by (simp add: sh_view_def shadow_clear_def clear_entry_def shadow_memory_def)
  then have "filled (unat N) (sh_view (shadow_clear s)) = 0" by (auto simp: filled_def)
  moreover have "keys_distinct (unat N) sh_key (sh_view (shadow_clear s))" using view by (simp add: keys_distinct_def)
  moreover have "shadow_wf n N (shadow_clear s)"
    using mem by (auto simp: shadow_wf_def shadow_clear_def clear_entry_def shadow_memory_def)
  ultimately show ?thesis
    using ring_map_empty [of "unat N" "sh_view (shadow_clear s)" sh_key] view by (simp add: shadow_has_def shadow_clear_def)
qed

section \<open>The single tests\<close>

definition sized_elem :: "nat \<Rightarrow> u8 list \<Rightarrow> u32 \<Rightarrow> hash_elem" where
  "sized_elem n p sz = \<lparr>elem = take (unat sz) p @ replicate (n - unat sz) 0, elem_size = sz\<rparr>"

lemma make_elem_ok:
  assumes "unat sz \<le> n" and "unat sz \<le> length p"
  shows "make_elem n p sz = Some (sized_elem n p sz)" and "sized n (sized_elem n p sz)"
    and "bytes_of (sized_elem n p sz) = (sz, take (unat sz) p)"
  using assms by (simp_all add: make_elem_def sized_elem_def access_simps sized_def bytes_of_def)

abbreviation u32_elem :: "nat \<Rightarrow> u32 \<Rightarrow> hash_elem" where
  "u32_elem n x \<equiv> sized_elem n (host_bytes x) 4"

lemma u32_elem_ok:
  assumes "4 \<le> n"
  shows "ELEM_U32 n x = Some (u32_elem n x)" and "ELEM_IP n x = Some (u32_elem n x)" and "sized n (u32_elem n x)"
    and "bytes_of (u32_elem n x) = (4, host_bytes x)"
  using make_elem_ok [of 4 n "host_bytes x"] assms by (simp_all add: ELEM_U32_def ELEM_IP_def)

text \<open>A check that holds.\<close>

definition pass :: "nat \<times> nat \<Rightarrow> nat \<times> nat" where
  "pass st = (fst st + 1, snd st + 1)"

lemma CHECK_pass: "CHECK True = pass"
  by (rule ext) (simp add: pass_def)

definition balanced :: "nat \<times> nat \<Rightarrow> bool" where
  "balanced st \<longleftrightarrow> fst st = snd st"

lemma balanced_pass [simp]: "balanced (pass st) = balanced st"
  by (simp add: balanced_def pass_def)

lemma check_insert_ok:
  assumes "hash_has n N h K" and "sized n e" and "card K < unat N"
  obtains h' where "check_insert n h e = (\<lambda>st. Some (h', pass st))" and "hash_has n N h' (insert (bytes_of e) K)"
proof -
  obtain h' where h': "hash_insert n h e = Some (h', True)" "hash_has n N h' (insert (bytes_of e) K)" by (rule ht.inserts [OF assms])
  then show thesis using that by (simp add: check_insert_def CHECK_pass fun_eq_iff del: CHECK_True)
qed

lemma check_find_ok:
  assumes "hash_has n N h K" and "sized n e"
  shows "check_find h e True = (\<lambda>st. Some (if bytes_of e \<in> K then pass st else CHECK False st))"
    and "check_find h e False = (\<lambda>st. Some (if bytes_of e \<notin> K then pass st else CHECK False st))"
proof -
  obtain r where r: "hash_find h e = Some r" "r \<noteq> None \<longleftrightarrow> bytes_of e \<in> K" by (rule ht.finds [OF assms])
  show "check_find h e True = (\<lambda>st. Some (if bytes_of e \<in> K then pass st else CHECK False st))"
    "check_find h e False = (\<lambda>st. Some (if bytes_of e \<notin> K then pass st else CHECK False st))"
    using r by (auto simp: check_find_def fun_eq_iff CHECK_pass simp del: CHECK_True)
qed

lemma check_delete_ok:
  assumes "hash_has n N h K" and "sized n e" and "bytes_of e \<in> K"
  obtains h' where "check_delete n h e = (\<lambda>st. Some (h', pass st))" and "hash_has n N h' (K - {bytes_of e})"
proof -
  obtain h' where h': "hash_delete n h e = Some (h', True)" "hash_has n N h' (K - {bytes_of e})"
    using ht.del_law [OF assms(1,2)] assms(3) by auto
  then show thesis using that by (simp add: check_delete_def CHECK_pass fun_eq_iff del: CHECK_True)
qed

lemma hash_test_init_passes:
  assumes "table_memory n N h" and "0 < N"
  shows "hash_test_init n N h st = Some ((pass ^^ 4) st)"
proof -
  obtain h' where h': "hash_init n N h (generic_hash_mac N) generic_comp_mac 0 = Some (h', True)" "hash_has n N h' {}"
    by (rule hash_init_has [OF assms])
  have "hash_size h' = 0" by (rule ht.siz_eq_iff [OF h'(2)]) simp
  moreover have "capacity h' = N" using h'(2) by (simp add: hash_has_def)
  ultimately show ?thesis
    using h'(1) by (simp add: hash_test_init_def hash_empty_def hash_size_def Let_def CHECK_pass eval_nat_numeral del: CHECK_True)
qed

lemma test_uint32_passes:
  assumes "table_memory n N h" and "4 \<le> n" and "3 \<le> unat N"
  shows "test_uint32 n N h st = Some ((pass ^^ 9) st)"
proof -
  note el = u32_elem_ok [OF assms(2)]
  have N: "0 < N" using assms(3) by (auto simp: word_less_nat_alt)
  let ?e1 = "u32_elem n 0xDEADBEEF" and ?e2 = "u32_elem n 0xCAFEBABE"
  let ?k1 = "(4, host_bytes (0xDEADBEEF :: u32))" and ?k2 = "(4, host_bytes (0xCAFEBABE :: u32))"
  have ne: "host_bytes (0xDEADBEEF :: u32) \<noteq> host_bytes (0xCAFEBABE :: u32)" "host_bytes (0x12345678 :: u32) \<noteq> host_bytes (0xDEADBEEF :: u32)"
    "host_bytes (0x12345678 :: u32) \<noteq> host_bytes (0xCAFEBABE :: u32)" by (simp_all add: host_bytes_inject)
  obtain h0 where h0: "hash_init n N h (generic_hash_mac N) generic_comp_mac 0 = Some (h0, True)" "hash_has n N h0 {}"
    by (rule hash_init_has [OF assms(1) N])
  obtain h1 where h1: "check_insert n h0 ?e1 = (\<lambda>st. Some (h1, pass st))" "hash_has n N h1 {?k1}"
    by (rule check_insert_ok [OF h0(2) el(3), of "0xDEADBEEF"]) (use assms(3) in \<open>simp_all add: el(4)\<close>)
  obtain h2 where h2: "check_insert n h1 ?e2 = (\<lambda>st. Some (h2, pass st))" "hash_has n N h2 {?k2, ?k1}"
    by (rule check_insert_ok [OF h1(2) el(3), of "0xCAFEBABE"]) (use assms(3) in \<open>simp_all add: el(4)\<close>)
  have size2: "hash_size h2 = 2" by (rule ht.siz_eq_iff [OF h2(2)]) (use ne in simp)
  obtain h3 where h3: "check_delete n h2 ?e1 = (\<lambda>st. Some (h3, pass st))" "hash_has n N h3 {?k2}"
    by (rule check_delete_ok [OF h2(2) el(3), of "0xDEADBEEF"]) (use ne in \<open>simp_all add: el(4) insert_Diff_if\<close>)
  have size3: "hash_size h3 = 1" by (rule ht.siz_eq_iff [OF h3(2)]) simp
  show ?thesis
    using ne by (simp add: test_uint32_def el Let_def h0(1) h1(1) h2(1) h3(1) size2 size3 CHECK_pass eval_nat_numeral
        check_find_ok [OF h2(2) el(3)] check_find_ok [OF h3(2) el(3)] del: CHECK_True)
qed

lemma balanced_funpow [simp]: "balanced ((pass ^^ k) st) = balanced st"
  by (induction k) simp_all

lemma test_mac_passes:
  assumes "table_memory n N h" and "6 \<le> n" and "3 \<le> unat N"
  shows "test_mac n N h st = Some ((pass ^^ 11) st)"
proof -
  define m1 m2 m3 :: "u8 list" where "m1 = [0xAA, 0xBB, 0xCC, 0xDD, 0xEE, 0xFF]" and "m2 = [0x00, 0x11, 0x22, 0x33, 0x44, 0x55]"
    and "m3 = [0xDE, 0xAD, 0xBE, 0xEF, 0x00, 0x01]"
  have m: "length m1 = 6" "length m2 = 6" "length m3 = 6" and ne: "m1 \<noteq> m2" "m1 \<noteq> m3" "m2 \<noteq> m3"
    by (simp_all add: m1_def m2_def m3_def)
  have el: "ELEM_MAC n p = Some (sized_elem n p 6)" "sized n (sized_elem n p 6)" "bytes_of (sized_elem n p 6) = (6, p)"
    if "length p = 6" for p using make_elem_ok [of 6 n p] assms(2) that by (simp_all add: ELEM_MAC_def)
  have N: "0 < N" using assms(3) by (auto simp: word_less_nat_alt)
  let ?e1 = "sized_elem n m1 6" and ?e2 = "sized_elem n m2 6" and ?e3 = "sized_elem n m3 6"
  obtain h0 where h0: "hash_init n N h (generic_hash_mac N) generic_comp_mac 0 = Some (h0, True)" "hash_has n N h0 {}"
    by (rule hash_init_has [OF assms(1) N])
  obtain h1 where h1: "check_insert n h0 ?e1 = (\<lambda>st. Some (h1, pass st))" "hash_has n N h1 {(6, m1)}"
    by (rule check_insert_ok [OF h0(2) el(2) [OF m(1)]]) (use assms(3) in \<open>simp_all add: el(3) m\<close>)
  obtain h2 where h2: "check_insert n h1 ?e2 = (\<lambda>st. Some (h2, pass st))" "hash_has n N h2 {(6, m2), (6, m1)}"
    by (rule check_insert_ok [OF h1(2) el(2) [OF m(2)]]) (use assms(3) in \<open>simp_all add: el(3) m\<close>)
  obtain h3 where h3: "check_insert n h2 ?e3 = (\<lambda>st. Some (h3, pass st))" "hash_has n N h3 {(6, m3), (6, m2), (6, m1)}"
    by (rule check_insert_ok [OF h2(2) el(2) [OF m(3)]]) (use assms(3) ne in \<open>simp_all add: el(3) m\<close>)
  have size3: "hash_size h3 = 3" by (rule ht.siz_eq_iff [OF h3(2)]) (use ne in auto)
  obtain h4 where h4: "check_delete n h3 ?e2 = (\<lambda>st. Some (h4, pass st))" "hash_has n N h4 {(6, m3), (6, m1)}"
    by (rule check_delete_ok [OF h3(2) el(2) [OF m(2)]]) (use ne in \<open>auto simp: el(3) m insert_Diff_if\<close>)
  show ?thesis
    unfolding test_mac_def m1_def [symmetric] m2_def [symmetric] m3_def [symmetric]
    using ne by (simp add: el m Let_def h0(1) h1(1) h2(1) h3(1) h4(1) size3 CHECK_pass eval_nat_numeral
        check_find_ok [OF h3(2) el(2)] check_find_ok [OF h4(2) el(2)] del: CHECK_True)
qed

lemma test_ip_passes:
  assumes "table_memory n N h" and "4 \<le> n" and "4 \<le> unat N"
  shows "test_ip n N h st = Some ((pass ^^ 5) st)"
proof -
  note el = u32_elem_ok [OF assms(2)]
  have N: "0 < N" using assms(3) by (auto simp: word_less_nat_alt)
  let ?k1 = "(4, host_bytes (0xC0A80101 :: u32))" and ?k2 = "(4, host_bytes (0xC0A80102 :: u32))" and ?k3 = "(4, host_bytes (0xC0A80103 :: u32))"
  have ne: "host_bytes (0xC0A80101 :: u32) \<noteq> host_bytes (0xC0A80102 :: u32)" "host_bytes (0xC0A80101 :: u32) \<noteq> host_bytes (0xC0A80103 :: u32)"
    "host_bytes (0xC0A80102 :: u32) \<noteq> host_bytes (0xC0A80103 :: u32)" by (simp_all add: host_bytes_inject)
  obtain h0 where h0: "hash_init n N h (generic_hash_mac N) generic_comp_mac 0 = Some (h0, True)" "hash_has n N h0 {}"
    by (rule hash_init_has [OF assms(1) N])
  obtain h1 where h1: "hash_insert n h0 (u32_elem n 0xC0A80101) = Some (h1, True)" "hash_has n N h1 {?k1}"
    by (rule ht.inserts [OF h0(2) el(3), of "0xC0A80101"]) (use assms(3) in \<open>simp_all add: el(4)\<close>)
  obtain h2 where h2: "hash_insert n h1 (u32_elem n 0xC0A80102) = Some (h2, True)" "hash_has n N h2 {?k2, ?k1}"
    by (rule ht.inserts [OF h1(2) el(3), of "0xC0A80102"]) (use assms(3) in \<open>simp_all add: el(4)\<close>)
  obtain h3 where h3: "hash_insert n h2 (u32_elem n 0xC0A80103) = Some (h3, True)" "hash_has n N h3 {?k3, ?k2, ?k1}"
    by (rule ht.inserts [OF h2(2) el(3), of "0xC0A80103"]) (use assms(3) ne in \<open>simp_all add: el(4)\<close>)
  obtain h4 where h4: "check_insert n h3 (u32_elem n 0xC0A80101) = (\<lambda>st. Some (h4, pass st))" "hash_has n N h4 {?k3, ?k2, ?k1}"
    by (rule check_insert_ok [OF h3(2) el(3), of "0xC0A80101"]) (use assms(3) ne in \<open>simp_all add: el(4) insert_absorb\<close>)
  have size4: "hash_size h4 = 3" by (rule ht.siz_eq_iff [OF h4(2)]) (use ne in auto)
  show ?thesis
    using ne by (simp add: test_ip_def el Let_def h0(1) h1(1) h2(1) h3(1) h4(1) size4 CHECK_pass eval_nat_numeral
        check_find_ok [OF h4(2) el(3)] del: CHECK_True)
qed

section \<open>The collision test\<close>

abbreviation u32_key :: "u32 \<Rightarrow> bytes_key" where
  "u32_key x \<equiv> (4, host_bytes x)"

lemma of_nat_u32_inject: "i < 2 ^ 32 \<Longrightarrow> j < 2 ^ 32 \<Longrightarrow> (of_nat i :: u32) = of_nat j \<longleftrightarrow> i = j"
  by (simp add: word_unat_eq_iff unat_of_nat)

lemma u32_key_image: "card (u32_key ` of_nat ` {..<m}) = m" if "m < 2 ^ 32"
proof -
  have "inj_on u32_key (of_nat ` {..<m})" by (auto simp: inj_on_def host_bytes_inject)
  moreover have "inj_on (of_nat :: nat \<Rightarrow> u32) {..<m}"
    using that by (auto simp: inj_on_def of_nat_u32_inject)
  ultimately show ?thesis by (simp add: card_image)
qed

lemma insert_all_ok:
  assumes "hash_has n N h K" and "4 \<le> n" and "card K + length vs \<le> unat N"
  shows "\<exists>h'. insert_all n h vs st = Some (h', (pass ^^ length vs) st) \<and> hash_has n N h' (K \<union> u32_key ` set vs)"
  using assms(1,3)
proof (induction vs arbitrary: h K st)
  case (Cons v vs)
  note el = u32_elem_ok [OF assms(2)]
  obtain h1 where h1: "check_insert n h (u32_elem n v) = (\<lambda>st. Some (h1, pass st))" "hash_has n N h1 (insert (u32_key v) K)"
    by (rule check_insert_ok [OF Cons.prems(1) el(3), of v]) (use Cons.prems(2) in \<open>simp_all add: el(4)\<close>)
  have "card (insert (u32_key v) K) + length vs \<le> unat N"
    using Cons.prems(2) card_insert_le_m1 [of "Suc (card K)" K "u32_key v"] by simp
  from Cons.IH [OF h1(2) this, of "pass st"] h1(1) show ?case by (simp add: el(1) funpow_swap1)
qed simp

lemma find_all_ok:
  assumes "hash_has n N h K" and "4 \<le> n" and "u32_key ` set vs \<subseteq> K"
  shows "find_all n h vs = Some True"
  using assms(3)
proof (induction vs)
  case (Cons v vs)
  note el = u32_elem_ok [OF assms(2)]
  obtain r where "hash_find h (u32_elem n v) = Some r" "r \<noteq> None \<longleftrightarrow> u32_key v \<in> K"
    using ht.fnd_law [OF assms(1) el(3), of v] by (auto simp: el(4))
  with Cons show ?case by (simp add: el(1))
qed simp

lemma delete_all_ok:
  assumes "hash_has n N h K" and "4 \<le> n"
  shows "\<exists>h'. delete_all n h vs = Some h' \<and> hash_has n N h' (K - u32_key ` set vs)"
  using assms(1)
proof (induction vs arbitrary: h K)
  case (Cons v vs)
  note el = u32_elem_ok [OF assms(2)]
  obtain h1 rc where h1: "hash_delete n h (u32_elem n v) = Some (h1, rc)" "hash_has n N h1 (K - {u32_key v})"
    using ht.del_law [OF Cons.prems el(3), of v] by (auto simp: el(4))
  have "K - {u32_key v} - u32_key ` set vs = K - u32_key ` set (v # vs)" by auto
  with Cons.IH [OF h1(2)] h1(1) show ?case by (simp add: el(1))
qed simp

lemma test_collisions_passes:
  assumes "table_memory n N h" and "4 \<le> n" and "0 < N" and "m \<le> N"
  shows "\<exists>st'. test_collisions n N m h st = Some st' \<and> balanced st' = balanced st"
proof -
  let ?is = "[0..<unat m]"
  have m: "unat m \<le> unat N" "unat m < 2 ^ 32" using assms(4) unat_less_pow [of m] by (simp_all add: word_le_nat_alt)
  obtain h0 where h0: "hash_init n N h (generic_hash_mac N) generic_comp_mac 0 = Some (h0, True)" "hash_has n N h0 {}"
    by (rule hash_init_has [OF assms(1,3)])
  obtain h1 where h1: "insert_all n h0 (map of_nat ?is) st = Some (h1, (pass ^^ unat m) st)"
    "hash_has n N h1 (u32_key ` of_nat ` {..<unat m})"
    using insert_all_ok [OF h0(2) assms(2), of "map of_nat ?is" st] m(1) by (auto simp: atLeast0LessThan)
  have size1: "hash_size h1 = m" by (rule ht.siz_eq_iff [OF h1(2)]) (simp only: u32_key_image [OF m(2)])
  have find1: "find_all n h1 (map of_nat ?is) = Some True" by (rule find_all_ok [OF h1(2) assms(2)]) auto
  obtain h2 where h2: "delete_all n h1 (map of_nat (filter even ?is)) = Some h2"
    "hash_has n N h2 (u32_key ` of_nat ` {..<unat m} - u32_key ` set (map of_nat (filter even ?is)))"
    using delete_all_ok [OF h1(2) assms(2)] by blast
  have "(of_nat i :: u32) \<noteq> of_nat j" if "i < unat m" "j < unat m" "odd i" "even j" for i j
    using that m(2) of_nat_u32_inject [of i j] by auto
  then have "u32_key ` set (map of_nat (filter odd ?is)) \<subseteq> u32_key ` of_nat ` {..<unat m} - u32_key ` set (map of_nat (filter even ?is))"
    by (auto simp: host_bytes_inject)
  then have find2: "find_all n h2 (map of_nat (filter odd ?is)) = Some True" by (rule find_all_ok [OF h2(2) assms(2)])
  show ?thesis using h0(1) h1(1) size1 find1 h2(1) find2 by (simp add: test_collisions_def Let_def CHECK_pass del: CHECK_True)
qed


section \<open>The stress test\<close>

lemma random_elem_ok:
  assumes "unat sz \<le> n"
  obtains e k' where "random_elem n sz rand k = Some (e, k')" and "sized n e"
  using assms by (auto simp: random_elem_def access_simps sized_def)

lemma shadow_pick_ok:
  assumes "shadow_wf n N s" and "unat sz \<le> n"
  obtains e k' where "shadow_pick n N s sz rand k = Some (e, k')" and "sized n e"
proof -
  let ?is = "used_indices N s"
  define cnt :: u32 where "cnt = of_nat (length ?is)"
  have "length ?is \<le> unat N" unfolding used_indices_def by (metis length_filter_le length_upt diff_zero)
  then have cnt: "unat cnt = length ?is" using unat_less_pow [of N] by (simp add: cnt_def unat_of_nat)
  show thesis
  proof (cases "cnt > 0")
    case True
    let ?j = "unat (rand k mod cnt)"
    have "unat cnt \<noteq> 0" using True by (simp add: word_less_nat_alt)
    then have "?j < length ?is" by (simp add: unat_mod cnt [symmetric])
    then have rd1: "rd ?is ?j = Some (?is ! ?j)" and mem: "?is ! ?j < unat N"
      using nth_mem [of ?j ?is] by (auto simp: access_simps used_indices_def)
    note x = shadow_wf_nth [OF assms(1) mem]
    show thesis
      by (rule that [of "\<lparr>elem = take (unat (sh_size (sh_entries s ! (?is ! ?j)))) (sh_data (sh_entries s ! (?is ! ?j))) @
            replicate (n - unat (sh_size (sh_entries s ! (?is ! ?j)))) 0, elem_size = sz\<rparr>" "k + 1"])
        (use True rd1 x assms(2) in \<open>simp_all add: shadow_pick_def cnt_def [symmetric] Let_def access_simps sized_def\<close>)
  next
    case False
    then show thesis
      using that [of "\<lparr>elem = replicate n 0, elem_size = sz\<rparr>" k] assms(2)
      by (simp add: shadow_pick_def cnt_def [symmetric] Let_def sized_def)
  qed
qed

lemma stress_elem_ok:
  assumes "shadow_wf n N s" and "unat sz \<le> n"
  obtains e k' where "stress_elem n N s sz rand k = Some (e, k')" and "sized n e"
proof (cases "sh_count s > 0")
  case True
  show thesis
  proof (cases "rand k mod 3 \<noteq> 0")
    case mod: True
    obtain e k' where "shadow_pick n N s sz rand (k + 1) = Some (e, k')" "sized n e" by (rule shadow_pick_ok [OF assms])
    with True mod that show thesis by (simp add: stress_elem_def)
  next
    case mod: False
    obtain e k' where "random_elem n sz rand (k + 1) = Some (e, k')" "sized n e" by (rule random_elem_ok [OF assms(2)])
    with True mod that show thesis by (simp add: stress_elem_def)
  qed
next
  case False
  obtain e k' where "random_elem n sz rand k = Some (e, k')" "sized n e" by (rule random_elem_ok [OF assms(2)])
  with False that show thesis by (simp add: stress_elem_def)
qed

text \<open>Both tables hold the same keys before and after an operation, and the operation finds no difference.\<close>

lemma stress_op_ok:
  assumes "hash_has n N h K" and "shadow_has n N s K" and "unat sz \<le> n"
  shows "\<exists>h' s' k' K'. stress_op n N sz rand k h s = Some (h', s', k', False) \<and> hash_has n N h' K' \<and> shadow_has n N s' K'"
proof -
  have wf: "shadow_wf n N s" using assms(2) by (simp add: shadow_has_def)
  consider (ins) "rand k mod 3 = 0" "hash_size h < N" | (fnd) "\<not> (rand k mod 3 = 0 \<and> hash_size h < N)" "rand k mod 3 = 1"
    | (del) "\<not> (rand k mod 3 = 0 \<and> hash_size h < N)" "rand k mod 3 \<noteq> 1" by blast
  then show ?thesis
  proof cases
    case ins
    then have room: "card K < unat N" using ht.siz_law [OF assms(1)] by (simp add: word_less_nat_alt)
    obtain e k' where e: "random_elem n sz rand (k + 1) = Some (e, k')" "sized n e" by (rule random_elem_ok [OF assms(3)])
    obtain h' where "hash_insert n h e = Some (h', True)" "hash_has n N h' (insert (bytes_of e) K)"
      by (rule ht.inserts [OF assms(1) e(2) room])
    moreover obtain s' where "shadow_insert N s e = Some (s', True)" "shadow_has n N s' (insert (bytes_of e) K)"
      by (rule sh.inserts [OF assms(2) e(2) room])
    ultimately show ?thesis using ins e(1) by (auto simp: stress_op_def Let_def)
  next
    case fnd
    obtain e k' where e: "stress_elem n N s sz rand (k + 1) = Some (e, k')" "sized n e" by (rule stress_elem_ok [OF wf assms(3)])
    obtain hr where hr: "hash_find h e = Some hr" "hr \<noteq> None \<longleftrightarrow> bytes_of e \<in> K" by (rule ht.finds [OF assms(1) e(2)])
    obtain sr where sr: "shadow_find N s e = Some sr" "sr \<noteq> None \<longleftrightarrow> bytes_of e \<in> K" by (rule sh.finds [OF assms(2) e(2)])
    have "stress_op n N sz rand k h s = Some (h, s, k', False)"
      using fnd e(1) hr sr by (auto simp: stress_op_def Let_def)
    with assms(1,2) show ?thesis by blast
  next
    case del
    obtain e k' where e: "stress_elem n N s sz rand (k + 1) = Some (e, k')" "sized n e" by (rule stress_elem_ok [OF wf assms(3)])
    obtain h' where "hash_delete n h e = Some (h', bytes_of e \<in> K)" "hash_has n N h' (K - {bytes_of e})"
      by (rule ht.deletes [OF assms(1) e(2)])
    moreover obtain s' where "shadow_delete N s e = Some (s', bytes_of e \<in> K)" "shadow_has n N s' (K - {bytes_of e})"
      by (rule sh.deletes [OF assms(2) e(2)])
    ultimately show ?thesis using del e(1) by (auto simp: stress_op_def Let_def)
  qed
qed

lemma hash_stress_loop_ok:
  assumes "hash_has n N h K" and "shadow_has n N s K" and "unat sz \<le> n"
  shows "\<exists>k'. hash_stress_loop n N sz rand k h s ops = Some (False, k')"
  using assms(1,2)
proof (induction ops arbitrary: k h s K)
  case (Suc ops)
  obtain h' s' k' K' where op: "stress_op n N sz rand k h s = Some (h', s', k', False)" "hash_has n N h' K'" "shadow_has n N s' K'"
    using stress_op_ok [OF Suc.prems assms(3)] by blast
  have "hash_size h' = sh_count s'"
    using ht.siz_law [OF op(2)] sh.siz_law [OF op(3)] by (simp add: word_unat_eq_iff)
  with op(1) Suc.IH [OF op(2,3)] show ?case by simp
qed simp

lemma stress_test_passes:
  assumes "table_memory n N h" and "shadow_memory n N s" and "unat sz \<le> n" and "0 < N"
  shows "\<exists>k'. stress_test n N sz ops rand h s k st = Some (k', pass st)"
proof -
  obtain h0 where h0: "hash_init n N h (generic_hash_mac N) generic_comp_mac 0 = Some (h0, True)" "hash_has n N h0 {}"
    by (rule hash_init_has [OF assms(1,4)])
  obtain k' where "hash_stress_loop n N sz rand k h0 (shadow_clear s) ops = Some (False, k')"
    using hash_stress_loop_ok [OF h0(2) shadow_clear_has [OF assms(2)] assms(3)] by blast
  with h0(1) show ?thesis by (simp add: stress_test_def CHECK_pass del: CHECK_True)
qed

end
