(* ===== verification/Bench_Tests.thy ===== *)
theory Bench_Tests
  imports Hash_Tests_Correct
begin

text \<open>
  The test programs of the load generator, \<open>bench-live/lib/cqueue-test.c\<close> and \<open>bench-live/lib/hash-test.c\<close>.
  They are the programs of \<open>ds-lib\<close> at other sizes: \<open>CQ_N\<close> is \<open>4096 * 8 * sizeof (void *)\<close>, \<open>HASH_N\<close> is 4096,
  \<open>HASH_ELEM_MAX\<close> is 8, and the collision test fills only half of the table.
\<close>

section \<open>The tests of the queue\<close>

definition lib_test_init where "lib_test_init = test_init BENCH_CQ_N"
definition lib_test_push_pop_single where "lib_test_push_pop_single = test_push_pop_single BENCH_CQ_N"
definition lib_test_fifo_order where "lib_test_fifo_order = test_fifo_order BENCH_CQ_N"
definition lib_test_boundary_failures where "lib_test_boundary_failures = test_boundary_failures BENCH_CQ_N"
definition lib_test_peek where "lib_test_peek = test_peek BENCH_CQ_N"
definition lib_test_push_pop_n where "lib_test_push_pop_n = test_push_pop_n BENCH_CQ_N"
definition lib_test_peek_n where "lib_test_peek_n = test_peek_n BENCH_CQ_N"
definition lib_test_wraparound where "lib_test_wraparound = test_wraparound BENCH_CQ_N"
definition lib_test_push_pop32 where "lib_test_push_pop32 = test_push_pop32 BENCH_CQ_N"
definition lib_test_push_pop_type where "lib_test_push_pop_type = test_push_pop_type BENCH_CQ_N"
definition lib_test_random_stress where "lib_test_random_stress = test_random_stress BENCH_CQ_N"

definition lib_cqueue_test_main :: "(nat \<Rightarrow> u32) \<Rightarrow> u8 \<Rightarrow> int option" where
  "lib_cqueue_test_main rand d = do {
     st \<leftarrow> lib_test_init (0, 0);
     st \<leftarrow> lib_test_push_pop_single st;
     st \<leftarrow> lib_test_fifo_order d st;
     st \<leftarrow> lib_test_boundary_failures st;
     st \<leftarrow> lib_test_peek d st;
     st \<leftarrow> lib_test_push_pop_n st;
     st \<leftarrow> lib_test_peek_n d st;
     st \<leftarrow> lib_test_wraparound d st;
     st \<leftarrow> lib_test_push_pop32 st;
     st \<leftarrow> lib_test_push_pop_type st;
     st \<leftarrow> lib_test_random_stress rand d st;
     Some (if snd st = fst st then 0 else 1)
   }"

lemmas lib_cqueue_test_defs = lib_test_init_def lib_test_push_pop_single_def lib_test_fifo_order_def
  lib_test_boundary_failures_def lib_test_peek_def lib_test_push_pop_n_def lib_test_peek_n_def lib_test_wraparound_def
  lib_test_push_pop32_def lib_test_push_pop_type_def lib_test_random_stress_def

lemma lib_cqueue_test_main_eq: "lib_cqueue_test_main rand d = cqueue_test_main BENCH_CQ_N rand d"
  unfolding lib_cqueue_test_main_def cqueue_test_main_def lib_cqueue_test_defs ..

lemma BENCH_CQ_N_ok: "cq_size_ok BENCH_CQ_N"
  by (simp add: cq_size_ok_def BENCH_CQ_N_def)

section \<open>The tests of the hash table\<close>

definition lib_hash_test_init where "lib_hash_test_init = hash_test_init LIB_HASH_ELEM_MAX LIB_HASH_N"
definition lib_test_uint32 where "lib_test_uint32 = test_uint32 LIB_HASH_ELEM_MAX LIB_HASH_N"
definition lib_test_mac where "lib_test_mac = test_mac LIB_HASH_ELEM_MAX LIB_HASH_N"
definition lib_test_ip where "lib_test_ip = test_ip LIB_HASH_ELEM_MAX LIB_HASH_N"
definition lib_test_collisions where "lib_test_collisions = test_collisions LIB_HASH_ELEM_MAX LIB_HASH_N (LIB_HASH_N div 2)"
definition lib_stress_test where "lib_stress_test = stress_test LIB_HASH_ELEM_MAX LIB_HASH_N"

definition lib_hash_test_main :: "(nat \<Rightarrow> u32) \<Rightarrow> (nat \<Rightarrow> hash_tab) \<Rightarrow> (nat \<Rightarrow> shadow_tab_t) \<Rightarrow> int option" where
  "lib_hash_test_main rand hs ss = do {
     st \<leftarrow> lib_hash_test_init (hs 0) (0, 0);
     st \<leftarrow> lib_test_uint32 (hs 1) st;
     st \<leftarrow> lib_test_mac (hs 2) st;
     st \<leftarrow> lib_test_ip (hs 3) st;
     st \<leftarrow> lib_test_collisions (hs 4) st;
     (k, st) \<leftarrow> lib_stress_test 4 10000 rand (hs 5) (ss 5) 0 st;
     (k, st) \<leftarrow> lib_stress_test 6 10000 rand (hs 6) (ss 6) k st;
     (k, st) \<leftarrow> lib_stress_test 4 10000 rand (hs 7) (ss 7) k st;
     (k, st) \<leftarrow> lib_stress_test 8 10000 rand (hs 8) (ss 8) k st;
     Some (if snd st = fst st then 0 else 1)
   }"

lemmas lib_hash_test_defs = lib_hash_test_init_def lib_test_uint32_def lib_test_mac_def lib_test_ip_def
  lib_test_collisions_def lib_stress_test_def

lemma lib_hash_test_main_eq:
  "lib_hash_test_main rand hs ss = hash_test_main LIB_HASH_ELEM_MAX LIB_HASH_N (LIB_HASH_N div 2) rand hs ss"
  unfolding lib_hash_test_main_def hash_test_main_def lib_hash_test_defs ..

section \<open>The stress test of the queue at this size\<close>

text \<open>
  The shadow array of the stress test has 4096 entries, but the queue of the load generator takes more
  than 260000 bytes.  The test fails on a correct queue as soon as 4097 bytes are in it; the
  following sequence of random numbers leads there.
\<close>

definition rand_deep :: "nat \<Rightarrow> u32" where
  "rand_deep k = (if k = 8193 then 1 else if k < 8193 \<and> even k then 1 else 0)"

definition deep_state :: "'n::len word \<Rightarrow> cq_t \<Rightarrow> shadow_queue \<Rightarrow> nat \<Rightarrow> bool" where
  "deep_state N cq s i \<longleftrightarrow> shadows N cq s \<and> s_tail s = 0 \<and> s_n s = of_nat i \<and> cq_list N cq = replicate i 0"

lemma deep_push:
  fixes N :: "'n::len word"
  assumes "deep_state N cq s i" and "i < 4096" and "4098 < unat N" and "unat N < 2 ^ 32"
  shows "\<exists>cq' s'. stress_loop N rand_deep d (2 * i) cq s (Suc ops) = stress_loop N rand_deep d (2 * Suc i) cq' s' ops \<and>
    deep_state N cq' s' (Suc i)"
proof -
  have sh: "shadows N cq s" and n: "s_n s = of_nat i" and t: "s_tail s = 0" and l: "cq_list N cq = replicate i 0"
    using assms(1) by (auto simp: deep_state_def)
  have i: "unat (s_n s) = i" using assms(2) by (simp add: n unat_of_nat)
  have "N \<noteq> 0" using assms(3) by auto
  then have cap: "unat (ucast (N - 1) :: u32) = unat N - 1" using assms(4) by (simp add: unat_ucast_small unat_minus_one)
  then have room: "s_n s < ucast (N - 1)" "s_n s < 4096" using i assms(2,3) by (simp_all add: word_less_nat_alt)
  have r: "rand_deep (2 * i) = 1" "rand_deep (2 * i + 1) = 0" using assms(2) by (simp_all add: rand_deep_def)
  obtain cq' sh' where *: "wr (shadow s) (unat (s_head s mod 4096)) 0 = Some sh'" "cq_push N cq 0 = Some (cq', True)"
    "shadows N cq' (s\<lparr>shadow := sh', s_head := s_head s + 1, s_n := s_n s + 1\<rparr>)"
    using shadows_push [OF sh room(2,1), of 0] by blast
  have inv: "cq_inv N cq" using sh by (simp add: shadows_def)
  have "length (cq_list N cq) < unat N - 1" unfolding l using assms(2,3) by simp
  then have "cq_list N cq' = replicate (Suc i) 0"
    using cq_push_ok [OF inv, of 0] *(2) l by (auto simp: replicate_append_same)
  then have "deep_state N cq' (s\<lparr>shadow := sh', s_head := s_head s + 1, s_n := s_n s + 1\<rparr>) (Suc i)"
    using *(3) t n by (simp add: deep_state_def)
  moreover have "stress_loop N rand_deep d (2 * i) cq s (Suc ops) =
      stress_loop N rand_deep d (2 * Suc i) cq' (s\<lparr>shadow := sh', s_head := s_head s + 1, s_n := s_n s + 1\<rparr>) ops"
    using r room(1) * shadows_nelem [OF *(3)] by (simp add: Let_def)
  ultimately show ?thesis by blast
qed

lemma deep_pushes:
  fixes N :: "'n::len word"
  assumes "deep_state N cq s i" and "i + j \<le> 4096" and "4098 < unat N" and "unat N < 2 ^ 32"
  shows "\<exists>cq' s'. stress_loop N rand_deep d (2 * i) cq s (j + ops) = stress_loop N rand_deep d (2 * (i + j)) cq' s' ops \<and>
    deep_state N cq' s' (i + j)"
  using assms(1,2)
proof (induction j arbitrary: cq s i)
  case (Suc j)
  have "i < 4096" using Suc.prems(2) by simp
  then obtain cq' s' where *: "stress_loop N rand_deep d (2 * i) cq s (Suc (j + ops)) = stress_loop N rand_deep d (2 * Suc i) cq' s' (j + ops)"
    "deep_state N cq' s' (Suc i)"
    using deep_push [OF Suc.prems(1) _ assms(3,4)] by blast
  moreover have "Suc i + j \<le> 4096" using Suc.prems(2) by simp
  ultimately show ?case using Suc.IH [OF *(2)] by (simp del: stress_loop.simps)
qed (use assms in auto)

text \<open>The last push overwrites the oldest entry of the shadow array, and the pop after it reports a mismatch.\<close>

lemma deep_mismatch:
  fixes N :: "'n::len word"
  assumes "deep_state N cq s 4096" and "4098 < unat N" and "unat N < 2 ^ 32"
  shows "stress_loop N rand_deep d 8192 cq s (Suc (Suc ops)) = Some True"
proof -
  have sh: "shadows N cq s" and n: "s_n s = 4096" and t: "s_tail s = 0" and l: "cq_list N cq = replicate 4096 0"
    using assms(1) by (auto simp: deep_state_def)
  have inv: "cq_inv N cq" and len: "length (shadow s) = 4096" and head: "s_head s = 4096" using sh t n by (auto simp: shadows_def)
  have "N \<noteq> 0" using assms(2) by auto
  then have "unat (ucast (N - 1) :: u32) = unat N - 1" using assms(3) by (simp add: unat_ucast_small unat_minus_one)
  then have room: "s_n s < ucast (N - 1)" using assms(2) by (simp add: n word_less_nat_alt)
  have "length (cq_list N cq) < unat N - 1" unfolding l using assms(2) by simp
  then obtain cq1 where cq1: "cq_push N cq 1 = Some (cq1, True)" "cq_inv N cq1" "cq_list N cq1 = 0 # replicate 4095 0 @ [1]"
    using cq_push_room [OF inv, of 1] l by (auto simp: numeral_eq_Suc)
  obtain cq2 where cq2: "cq_pop N cq1 d = Some (cq2, 0, True)" by (rule cq_pop_some [OF cq1(2,3)])
  define s1 where "s1 = s\<lparr>shadow := (shadow s)[0 := 1], s_head := s_head s + 1, s_n := s_n s + 1\<rparr>"
  have "cq_nelem N cq1 = s_n s1" using nelem_list [OF cq1(2)] unfolding cq1(3) by (simp add: s1_def n word_unat_eq_iff)
  moreover have "wr (shadow s) (unat (s_head s mod 4096)) 1 = Some ((shadow s)[0 := 1])" using len by (simp add: head access_simps)
  moreover have "rand_deep 8192 = 1" "rand_deep 8193 = 1" "rand_deep 8194 = 0" by (simp_all add: rand_deep_def)
  ultimately have first: "stress_loop N rand_deep d 8192 cq s (Suc (Suc ops)) = stress_loop N rand_deep d 8194 cq1 s1 (Suc ops)"
    using room cq1(1) by (simp add: Let_def s1_def)
  have "rd (shadow s1) (unat (s_tail s1 mod 4096)) = Some 1" using len by (simp add: s1_def t access_simps)
  moreover have "s_n s1 > 0" by (simp add: s1_def n)
  ultimately show ?thesis unfolding first using cq2 \<open>rand_deep 8194 = 0\<close> by (simp add: Let_def)
qed

lemma bench_stress_mismatch: "lib_test_random_stress rand_deep d st = Some (fst st + 1, snd st)"
proof -
  let ?N = "BENCH_CQ_N" and ?s = "\<lparr>shadow = replicate 4096 d, s_head = 0, s_tail = 0, s_n = 0\<rparr>"
  have N: "4098 < unat ?N" "unat ?N < 2 ^ 32" by (simp_all add: BENCH_CQ_N_def)
  obtain cq where cq: "make_queue ?N = Some cq" "cq_inv ?N cq" "cq_list ?N cq = []" by (rule make_queue_ok [OF BENCH_CQ_N_ok])
  then have start: "deep_state ?N cq ?s 0" by (simp add: deep_state_def shadows_def)
  obtain cq' s' where *: "stress_loop ?N rand_deep d 0 cq ?s 100000 = stress_loop ?N rand_deep d 8192 cq' s' 95904"
    "deep_state ?N cq' s' 4096"
    using deep_pushes [OF start _ N, of 4096 d 95904] by (auto simp del: stress_loop.simps)
  have "Suc (Suc 95902) = (95904 :: nat)" by simp
  then have "stress_loop ?N rand_deep d 0 cq ?s 100000 = Some True"
    using *(1) deep_mismatch [OF *(2) N, of d 95902] by metis
  then show ?thesis using cq(1) by (simp add: lib_test_random_stress_def test_random_stress_def CHECK_def)
qed

section \<open>Properties\<close>

lemma hash_test_main_passes:
  assumes "8 \<le> n" and "4 \<le> unat N" and "m \<le> N" and "\<And>i. table_memory n N (hs i)" and "\<And>i. shadow_memory n N (ss i)"
  shows "hash_test_main n N m rand hs ss = Some 0"
proof -
  have N: "0 < N" using assms(2) by (auto simp: word_less_nat_alt)
  have n: "4 \<le> n" "6 \<le> n" "3 \<le> unat N" using assms(1,2) by simp_all
  define st4 where "st4 = (pass ^^ 5) ((pass ^^ 11) ((pass ^^ 9) ((pass ^^ 4) (0, 0))))"
  have bal: "balanced st4" unfolding st4_def by (simp add: balanced_def [of "(0, 0)"])
  obtain st5 where st5: "test_collisions n N m (hs 4) st4 = Some st5" "balanced st5"
    using test_collisions_passes [OF assms(4) n(1) N assms(3), of 4 st4] bal by auto
  have stress: "\<exists>k'. stress_test n N sz 10000 rand (hs i) (ss i) k st = Some (k', pass st)" if "unat sz \<le> 8" for sz i k st
    by (rule stress_test_passes [OF assms(4,5) _ N]) (use that assms(1) in simp)
  obtain k1 where k1: "stress_test n N 4 10000 rand (hs 5) (ss 5) 0 st5 = Some (k1, pass st5)" using stress [of 4 5 0 st5] by auto
  obtain k2 where k2: "stress_test n N 6 10000 rand (hs 6) (ss 6) k1 (pass st5) = Some (k2, pass (pass st5))"
    using stress [of 6 6 k1 "pass st5"] by auto
  obtain k3 where k3: "stress_test n N 4 10000 rand (hs 7) (ss 7) k2 (pass (pass st5)) = Some (k3, pass (pass (pass st5)))"
    using stress [of 4 7 k2 "pass (pass st5)"] by auto
  obtain k4 where k4: "stress_test n N 8 10000 rand (hs 8) (ss 8) k3 (pass (pass (pass st5))) = Some (k4, pass (pass (pass (pass st5))))"
    using stress [of 8 8 k3 "pass (pass (pass st5))"] by auto
  have "balanced (pass (pass (pass (pass st5))))" using st5(2) by simp
  then show ?thesis
    using st5(1) k1 k2 k3 k4 test_ip_passes [OF assms(4) n(1) assms(2)]
    by (simp add: hash_test_main_def hash_test_init_passes [OF assms(4) N] test_uint32_passes [OF assms(4) n(1,3)]
        test_mac_passes [OF assms(4) n(2,3)] st4_def balanced_def del: funpow.simps)
qed

text \<open>
  C40. The test programs of the hash table pass.  For every table of at least four slots with elements
  of at least eight bytes, every content of uninitialised memory and every sequence of random
  numbers, all checks of \<open>ds-lib/hash-test.c\<close> hold and \<open>main\<close> returns 0: in particular 10000 random
  operations on the hash table and on the linear shadow table never disagree.  The same holds for
  \<open>bench-live/lib/hash-test.c\<close>.
\<close>

theorem hash_tests_pass:
  assumes "8 \<le> n" and "4 \<le> unat N" and "m \<le> N" and "\<forall>i. table_memory n N (hs i) \<and> shadow_memory n N (ss i)"
    and "\<forall>i. table_memory LIB_HASH_ELEM_MAX LIB_HASH_N (hs' i) \<and> shadow_memory LIB_HASH_ELEM_MAX LIB_HASH_N (ss' i)"
  shows "hash_test_main n N m rand hs ss = Some 0 \<and> lib_hash_test_main rand hs' ss' = Some 0"
proof
  show "hash_test_main n N m rand hs ss = Some 0" by (rule hash_test_main_passes) (use assms in auto)
  show "lib_hash_test_main rand hs' ss' = Some 0"
    unfolding lib_hash_test_main_eq
    by (rule hash_test_main_passes) (use assms(5) in \<open>simp_all add: LIB_HASH_ELEM_MAX_def LIB_HASH_N_def word_le_nat_alt\<close>)
qed

definition stale_tab :: "nat \<Rightarrow> u32 \<Rightarrow> hash_tab" where
  "stale_tab n N = \<lparr>buckets = replicate (unat N) \<lparr>elem = replicate n 7, elem_size = 99\<rparr>, occupied = replicate (unat N) 1, elem_cnt = 5,
     capacity = 0, hash = (\<lambda>_ _. None), comp = (\<lambda>_ _ _. None), aux = 0\<rparr>"

definition stale_shadow :: "nat \<Rightarrow> u32 \<Rightarrow> shadow_tab_t" where
  "stale_shadow n N = \<lparr>sh_entries = replicate (unat N) \<lparr>sh_data = replicate n 7, sh_size = 99, sh_used = 1\<rparr>, sh_count = 3\<rparr>"

theorem hash_tests_pass_witness:
  "hash_test_main HASH_ELEM_MAX 2048 2048 (\<lambda>k. of_nat (7 * k)) (\<lambda>_. stale_tab HASH_ELEM_MAX 2048) (\<lambda>_. stale_shadow HASH_ELEM_MAX 2048) = Some 0"
  using hash_tests_pass [of HASH_ELEM_MAX 2048 2048 "\<lambda>_. stale_tab HASH_ELEM_MAX 2048" "\<lambda>_. stale_shadow HASH_ELEM_MAX 2048"
      "\<lambda>_. stale_tab LIB_HASH_ELEM_MAX LIB_HASH_N" "\<lambda>_. stale_shadow LIB_HASH_ELEM_MAX LIB_HASH_N" "\<lambda>k. of_nat (7 * k)"]
  by (simp add: table_memory_def shadow_memory_def stale_tab_def stale_shadow_def HASH_ELEM_MAX_def)

end
