(* ===== verification/Debug_Frame.thy ===== *)
theory Debug_Frame
  imports Frame_Correct
begin

text \<open>
  \<open>debug_frame\<close> of \<open>bench-live/frame.c\<close>, which the debugging build of the load generator calls on every
  frame that it sends or receives.  The function prints, and the model keeps the arguments of each
  \<open>printf\<close>; it also stores into the frame, so it matters to the caller in which state it leaves the
  buffer.  The lemmas show that it touches nothing outside the received bytes, that it prints exactly
  the options that the parser evaluates, and when it restores the checksum field it clears.
\<close>

section \<open>Model\<close>

datatype debug_line =
    Discard_Length nat nat
  | Discard_EtherType u16 u16
  | Discard_Protocol u8 u8
  | Discard_IpLength nat u16
  | Discard_Checksum u16 u16
  | Discard_SrcPort u16
  | Discard_DstPort u16
  | Discard_UdpLength nat u16
  | Eth_Line "u8 list" "u8 list" u16
  | Ip_Line u8 u8 u16 u16
  | Ip_Line2 u16 u8 u8 u16
  | Ip_Addr_Line "u8 list" "u8 list"
  | Udp_Line u16 u16 u16 u16
  | Dhcp_Line u8 u8 u8 u8 u32
  | Dhcp_Addr_Line "u8 list" "u8 list"
  | Opt_Line u8 u8 "u8 list"

definition debug_headers :: "EthernetHdr \<Rightarrow> IPv4Hdr \<Rightarrow> UDPHdr \<Rightarrow> DHCPHdr \<Rightarrow> debug_line list" where
  "debug_headers eth ip udp dhcp_hdr =
     [Eth_Line (eth_srcMAC eth) (eth_dstMAC eth) (htons (eth_etherType eth)),
      Ip_Line (ip_versionIhl ip) (ip_tos ip) (htons (ip_totalLen ip)) (htons (ip_ident ip)),
      Ip_Line2 (htons (ip_flags ip)) (ip_ttl ip) (ip_protocol ip) (htons (ip_checksum ip)),
      Ip_Addr_Line (ip_srcIP ip) (ip_dstIP ip),
      Udp_Line (htons (udp_srcPort udp)) (htons (udp_dstPort udp)) (htons (udp_totalLen udp)) (htons (udp_checksum udp)),
      Dhcp_Line (dh_op dhcp_hdr) (dh_htype dhcp_hdr) (dh_hlen dhcp_hdr) (dh_hops dhcp_hdr) (ntohl (dh_xid dhcp_hdr)),
      Dhcp_Addr_Line (dh_ciaddr dhcp_hdr) (dh_yiaddr dhcp_hdr),
      Dhcp_Addr_Line (dh_siaddr dhcp_hdr) (dh_giaddr dhcp_hdr)]"

function debug_options :: "u8 list \<Rightarrow> nat \<Rightarrow> nat \<Rightarrow> debug_line list option" where
  "debug_options dhcp_options opts_len opt_idx =
     (if opt_idx < opts_len then do {
        opt_type \<leftarrow> rd dhcp_options opt_idx;
        if opt_type = OPT_PAD then debug_options dhcp_options opts_len (opt_idx + 1)
        else if opt_type = OPT_END \<or> opt_idx + 1 \<ge> opts_len then Some []
        else do {
          opt_len \<leftarrow> rd dhcp_options (opt_idx + 1);
          if opt_idx + 2 + unat opt_len > opts_len then Some []
          else do {
            v \<leftarrow> rd_bytes dhcp_options (opt_idx + 2) (unat opt_len);
            out \<leftarrow> debug_options dhcp_options opts_len (opt_idx + 2 + unat opt_len);
            Some (Opt_Line opt_type opt_len v # out)
          }
        }
      }
      else Some [])"
  by pat_completeness auto
termination
  by (relation "measure (\<lambda>(os, n, i). n - i)") auto

declare debug_options.simps [simp del]

definition debug_frame :: "u8 list \<Rightarrow> nat \<Rightarrow> (u8 list \<times> debug_line list) option" where
  "debug_frame buf buflen =
     (if buflen < MIN_RECV_LEN then Some (buf, [Discard_Length MIN_RECV_LEN buflen])
      else do {
        eth \<leftarrow> rd_hdr get_EthernetHdr ETHER_LEN buf 0;
        ip \<leftarrow> rd_hdr get_IPv4Hdr IPv4_LEN buf ETHER_LEN;
        udp \<leftarrow> rd_hdr get_UDPHdr UDP_LEN buf (ETHER_LEN + IPv4_LEN);
        dhcp_hdr \<leftarrow> rd_hdr get_DHCPHdr DHCPHDR_LEN buf (ETHER_LEN + IPv4_LEN + UDP_LEN);
        if eth_etherType eth \<noteq> htons 0x0800 then Some (buf, [Discard_EtherType 0x0800 (htons (eth_etherType eth))])
        else do {
          let opts_len = buflen - MIN_RECV_LEN;
          let udp_len = UDP_LEN + DHCPHDR_LEN + opts_len;
          let ip_len = IPv4_LEN + udp_len;
          if ip_protocol ip \<noteq> 17 then Some (buf, [Discard_Protocol 17 (ip_protocol ip)])
          else if ip_totalLen ip \<noteq> htons (of_nat ip_len) then Some (buf, [Discard_IpLength ip_len (htons (ip_totalLen ip))])
          else do {
            let reported_cksum = ip_checksum ip;
            buf \<leftarrow> kmemcpy buf (ETHER_LEN + 10) (host_bytes (0 :: u16)) 2;
            hdr \<leftarrow> rd_bytes buf ETHER_LEN IPv4_LEN;
            if reported_cksum \<noteq> ip_cksum hdr then Some (buf, [Discard_Checksum (ip_cksum hdr) reported_cksum])
            else do {
              buf \<leftarrow> kmemcpy buf (ETHER_LEN + 10) (host_bytes reported_cksum) 2;
              if udp_srcPort udp \<noteq> htons 67 \<and> udp_srcPort udp \<noteq> htons 68 then
                Some (buf, [Discard_SrcPort (htons (udp_srcPort udp))])
              else if udp_dstPort udp \<noteq> htons 67 \<and> udp_dstPort udp \<noteq> htons 68 then
                Some (buf, [Discard_DstPort (htons (udp_dstPort udp))])
              else if udp_totalLen udp \<noteq> htons (of_nat udp_len) then
                Some (buf, [Discard_UdpLength udp_len (htons (udp_totalLen udp))])
              else do {
                dhcp_options \<leftarrow> rd_bytes buf MIN_RECV_LEN opts_len;
                out \<leftarrow> debug_options dhcp_options opts_len 0;
                Some (buf, debug_headers eth ip udp dhcp_hdr @ out)
              }
            }
          }
        }
      })"

section \<open>The printed options are the parsed options\<close>

text \<open>The effect of a printed option on the metadata.  Running the parser is the same as reading the options off the output.\<close>

fun line_meta :: "parse_meta \<Rightarrow> debug_line \<Rightarrow> parse_meta" where
  "line_meta m (Opt_Line t l v) = parse_option m t v"
| "line_meta m _ = m"

theorem parse_debug_options: "parse_options os n i m = map_option (foldl line_meta m) (debug_options os n i)"
proof (induction os n i m rule: parse_options.induct)
  case (1 os n i m)
  show ?case
  proof (cases "i < n")
    case False
    then show ?thesis by (simp add: parse_options.simps [of os n i] debug_options.simps [of os n i])
  next
    case True
    note IH = "1.IH" [OF True]
    show ?thesis
      using True IH by (simp add: parse_options.simps [of os n i] debug_options.simps [of os n i] split: bind_splits)
  qed
qed

corollary debug_options_total: "n \<le> length os \<Longrightarrow> \<exists>out. debug_options os n i = Some out"
  using parse_options_total [of n os i] by (simp add: parse_debug_options)

text \<open>A field that was built from items is printed as these items; padding is skipped.\<close>

fun item_line :: "dhcp_item \<Rightarrow> debug_line list" where
  "item_line Pad = []"
| "item_line (Opt c d) = [Opt_Line c (of_nat (length d)) d]"

lemma debug_options_item:
  assumes "item_ok i" and "length (pre @ encode_item i) \<le> n" and "n \<le> length (pre @ encode_item i @ post)"
  shows "debug_options (pre @ encode_item i @ post) n (length pre) =
    map_option ((@) (item_line i)) (debug_options (pre @ encode_item i @ post) n (length (pre @ encode_item i)))"
proof (cases i)
  case Pad
  with assms show ?thesis
    by (subst debug_options.simps)
      (auto simp: access_simps nth_append frame_opt_defs opt_code_defs intro!: option.map_ident_strong [symmetric])
next
  case (Opt c d)
  then have c: "c \<noteq> OPT_PAD" "c \<noteq> OPT_END" "length d < 256"
    using assms(1) by (auto simp: frame_opt_defs opt_code_defs)
  with Opt assms(2,3) show ?thesis
    by (subst debug_options.simps) (simp add: access_simps nth_append map_conv_bind_option comp_def)
qed

lemma debug_options_items:
  assumes "list_all item_ok is" and "length (pre @ encode_items is) < n" and "n \<le> length (pre @ encode_items is @ OPT_END # post)"
  shows "debug_options (pre @ encode_items is @ OPT_END # post) n (length pre) = Some (concat (map item_line is))"
  using assms
proof (induction "is" arbitrary: pre)
  case Nil
  then show ?case by (subst debug_options.simps) (simp add: access_simps frame_opt_defs)
next
  case (Cons i js)
  then show ?case
    using debug_options_item [of i pre n "encode_items js @ OPT_END # post"] Cons.IH [of "pre @ encode_item i"] by simp
qed

section \<open>The state of the buffer\<close>

text \<open>The checks before the store, those of the whole function, and the result on a frame in each case.\<close>

definition ip_checked :: "EthernetHdr \<Rightarrow> IPv4Hdr \<Rightarrow> nat \<Rightarrow> bool" where
  "ip_checked eth ip n \<longleftrightarrow> eth_etherType eth = htons 0x0800 \<and> ip_protocol ip = 17 \<and>
     ip_totalLen ip = htons (of_nat (IPv4_LEN + (UDP_LEN + DHCPHDR_LEN + n)))"

abbreviation cksum_of :: "IPv4Hdr \<Rightarrow> u16" where
  "cksum_of ip \<equiv> ip_cksum (put_IPv4Hdr (ip\<lparr>ip_checksum := 0\<rparr>))"

definition debug_ok :: "EthernetHdr \<Rightarrow> IPv4Hdr \<Rightarrow> UDPHdr \<Rightarrow> nat \<Rightarrow> bool" where
  "debug_ok eth ip udp n \<longleftrightarrow> ip_checked eth ip n \<and> ip_checksum ip = cksum_of ip \<and>
     udp_srcPort udp \<in> {htons 67, htons 68} \<and> udp_dstPort udp \<in> {htons 67, htons 68} \<and>
     udp_totalLen udp = htons (of_nat (UDP_LEN + DHCPHDR_LEN + n))"

lemma reply_debug_ok: "reply_ok eth ip udp n \<Longrightarrow> debug_ok eth ip udp n"
  by (simp add: reply_ok_def debug_ok_def ip_checked_def)

lemma debug_frame_frame:
  assumes "eth_ok eth" and "ip_ok ip" and "dhcp_ok hdr" and "n \<le> length opts"
  shows "debug_ok eth ip udp n \<Longrightarrow> debug_options (take n opts) n 0 = Some out \<Longrightarrow>
      debug_frame (frame eth ip udp hdr opts) (MIN_RECV_LEN + n) =
        Some (frame eth ip udp hdr opts, debug_headers eth ip udp hdr @ out)"
    and "ip_checked eth ip n \<Longrightarrow> ip_checksum ip \<noteq> cksum_of ip \<Longrightarrow>
      debug_frame (frame eth ip udp hdr opts) (MIN_RECV_LEN + n) =
        Some (frame eth (ip\<lparr>ip_checksum := 0\<rparr>) udp hdr opts, [Discard_Checksum (cksum_of ip) (ip_checksum ip)])"
    and "\<not> debug_ok eth ip udp n \<Longrightarrow> ip_checked eth ip n \<longrightarrow> ip_checksum ip = cksum_of ip \<Longrightarrow>
      \<exists>l. debug_frame (frame eth ip udp hdr opts) (MIN_RECV_LEN + n) = Some (frame eth ip udp hdr opts, [l])"
proof -
  have ip0: "ip_ok (ip\<lparr>ip_checksum := 0\<rparr>)" using assms(2) by simp
  have len: "\<not> MIN_RECV_LEN + n < MIN_RECV_LEN" "MIN_RECV_LEN + n - MIN_RECV_LEN = n" by simp_all
  note f = len rd_frame [OF assms(1-3)] wr_frame(6) [OF assms(1-3)] rd_frame(5,6) [OF assms(1) ip0 assms(3)] assms(4)
  have restored: "kmemcpy (frame eth (ip\<lparr>ip_checksum := 0\<rparr>) udp hdr opts) (ETHER_LEN + 10) (host_bytes (cksum_of ip)) 2 =
      Some (frame eth ip udp hdr opts)" if "ip_checksum ip = cksum_of ip"
  proof -
    have "ip\<lparr>ip_checksum := cksum_of ip\<rparr> = ip" unfolding that [symmetric] by simp
    then show ?thesis using wr_frame(6) [OF assms(1) ip0 assms(3), of udp opts "cksum_of ip"] by (simp del: host_bytes_0)
  qed
  show "debug_frame (frame eth ip udp hdr opts) (MIN_RECV_LEN + n) =
      Some (frame eth ip udp hdr opts, debug_headers eth ip udp hdr @ out)"
    if "debug_ok eth ip udp n" "debug_options (take n opts) n 0 = Some out"
    using that unfolding debug_frame_def Let_def debug_ok_def ip_checked_def by (auto simp: f restored simp del: host_bytes_0)
  show "debug_frame (frame eth ip udp hdr opts) (MIN_RECV_LEN + n) =
      Some (frame eth (ip\<lparr>ip_checksum := 0\<rparr>) udp hdr opts, [Discard_Checksum (cksum_of ip) (ip_checksum ip)])"
    if "ip_checked eth ip n" "ip_checksum ip \<noteq> cksum_of ip"
    using that unfolding debug_frame_def Let_def ip_checked_def by (simp add: f del: host_bytes_0)
  show "\<exists>l. debug_frame (frame eth ip udp hdr opts) (MIN_RECV_LEN + n) = Some (frame eth ip udp hdr opts, [l])"
    if "\<not> debug_ok eth ip udp n" "ip_checked eth ip n \<longrightarrow> ip_checksum ip = cksum_of ip"
    using that unfolding debug_frame_def Let_def debug_ok_def ip_checked_def by (auto simp: f restored simp del: host_bytes_0)
qed

text \<open>On every buffer: the function returns, and it changes at most the checksum field, which it leaves cleared.\<close>

theorem debug_frame_total:
  assumes "n \<le> length buf"
  shows "\<exists>buf' out. debug_frame buf n = Some (buf', out) \<and>
    (buf' = buf \<or> MIN_RECV_LEN \<le> n \<and> kmemcpy buf (ETHER_LEN + 10) [0, 0] 2 = Some buf')"
proof (cases "n < MIN_RECV_LEN")
  case True
  then show ?thesis by (simp add: debug_frame_def)
next
  case False
  then obtain k where k: "n = MIN_RECV_LEN + k" by (metis le_Suc_ex not_less)
  then have "MIN_RECV_LEN \<le> length buf" using assms by simp
  from frame_cases [OF this] obtain eth ip udp hdr opts where f: "eth_ok eth" "ip_ok ip" "dhcp_ok hdr" "buf = frame eth ip udp hdr opts"
    "length buf = MIN_RECV_LEN + length opts" by metis
  have ko: "k \<le> length opts" using k f(5) assms by simp
  obtain out where out: "debug_options (take k opts) k 0 = Some out"
    using debug_options_total [of k "take k opts"] ko by auto
  have z: "kmemcpy buf (ETHER_LEN + 10) [0, 0] 2 = Some (frame eth (ip\<lparr>ip_checksum := 0\<rparr>) udp hdr opts)"
    using wr_frame(6) [OF f(1-3), of udp opts 0] f(4) by simp
  note R = debug_frame_frame [OF f(1-3) ko]
  consider "debug_ok eth ip udp k" | "ip_checked eth ip k" "ip_checksum ip \<noteq> cksum_of ip"
    | "\<not> debug_ok eth ip udp k" "ip_checked eth ip k \<longrightarrow> ip_checksum ip = cksum_of ip" by blast
  then show ?thesis
  proof cases
    case 1
    from R(1) [OF this out] show ?thesis unfolding k f(4) by blast
  next
    case 2
    from R(2) [OF this] z show ?thesis unfolding k f(4) by simp
  next
    case 3
    from R(3) [OF this] show ?thesis unfolding k f(4) by blast
  qed
qed

text \<open>
  A debugging build sends the same frames: what \<open>build_frame\<close> has built is printed with its items and
  left as it is.
\<close>

theorem debug_frame_sent:
  assumes "build_meta_ok m" and "MIN_SEND_LEN \<le> n" and "n \<le> length buf" and "build_frame buf n m = Some (buf', k)"
  shows "debug_frame buf' k = Some (buf', debug_headers (client_eth m) client_ip client_udp (client_hdr m) @
    concat (map item_line (client_items m)))"
proof -
  let ?opts = "client_opts m (n - MIN_RECV_LEN) @ drop n buf"
  have b: "buf' = frame (client_eth m) client_ip client_udp (client_hdr m) ?opts" "k = MIN_RECV_LEN + 312"
    using assms(4) build_frame_ok [OF assms(1-3)] by (auto simp: frame_len_defs)
  have l: "312 \<le> n - MIN_RECV_LEN" using assms(2) by (simp add: frame_len_defs)
  have i: "length (encode_items (client_items m)) < 312" using length_client_items [OF assms(1)] by simp
  have t: "take 312 ?opts = encode_items (client_items m) @ OPT_END # replicate (311 - length (encode_items (client_items m))) 0"
    using l i by (simp add: client_opts_def take_Cons' min_def)
  have ok: "list_all item_ok (client_items m)"
    using assms(1) by (simp add: client_items_def build_meta_ok_def frame_opt_defs opt_code_defs)
  have out: "debug_options (take 312 ?opts) 312 0 = Some (concat (map item_line (client_items m)))"
    using debug_options_items [OF ok, of "[]" 312 "replicate (311 - length (encode_items (client_items m))) 0"] i t by simp
  have "debug_ok (client_eth m) client_ip client_udp 312"
    by (simp add: debug_ok_def ip_checked_def client_eth_def client_ip_def client_ip0_def client_udp_def zero_hdr_defs hdr_len_defs)
  moreover have "312 \<le> length ?opts" using l length_client_opts [OF assms(1) l] by simp
  ultimately show ?thesis
    using debug_frame_frame(1) [OF client_hdrs_ok(1) [OF assms(1)] client_hdrs_ok(2) client_hdrs_ok(4) [OF assms(1)] _ _ out] b by blast
qed

text \<open>
  A reply that the parser accepts is left as it is, so the parser that runs next sees it unchanged.  A
  frame with a wrong checksum is not: the field stays 0, and if 0 is the checksum of the rest of
  the header, the parser that runs next accepts what it would have rejected without \<open>debug_frame\<close>.
\<close>

theorem debug_frame_reply:
  assumes "eth_ok eth" and "ip_ok ip" and "dhcp_ok hdr" and "n \<le> length opts" and "reply_ok eth ip udp n"
  shows "\<exists>out. debug_frame (frame eth ip udp hdr opts) (MIN_RECV_LEN + n) = Some (frame eth ip udp hdr opts, out)"
proof -
  obtain out where "debug_options (take n opts) n 0 = Some out"
    using debug_options_total [of n "take n opts"] assms(4) by auto
  from debug_frame_frame(1) [OF assms(1-4) reply_debug_ok [OF assms(5)] this] show ?thesis by blast
qed

theorem debug_frame_masks_checksum:
  assumes "eth_ok eth" and "ip_ok ip" and "dhcp_ok hdr" and "n \<le> length opts"
    and "ip_checksum ip \<noteq> 0" and "reply_ok eth (ip\<lparr>ip_checksum := 0\<rparr>) udp n"
    and "dh_xid hdr = htonl (pm_xid m)" and "parse_options (take n opts) n 0 (header_meta m eth hdr) = Some m'"
  shows "map_option snd (parse_frame (frame eth ip udp hdr opts) (MIN_RECV_LEN + n) m) = Some (reset_meta m)"
    and "map_option snd (debug_frame (frame eth ip udp hdr opts) (MIN_RECV_LEN + n) \<bind>
      (\<lambda>(buf', out). parse_frame buf' (MIN_RECV_LEN + n) m)) = Some m'"
proof -
  have ip0: "ip_ok (ip\<lparr>ip_checksum := 0\<rparr>)" using assms(2) by simp
  have c: "ip_checked eth ip n" "ip_checksum ip \<noteq> cksum_of ip"
    using assms(5,6) by (simp_all add: reply_ok_def ip_checked_def)
  then have "\<not> (reply_ok eth ip udp n \<and> dh_xid hdr = htonl (pm_xid m))" by (simp add: reply_ok_def)
  from parse_frame_rejected [OF assms(1-4) this]
  show "map_option snd (parse_frame (frame eth ip udp hdr opts) (MIN_RECV_LEN + n) m) = Some (reset_meta m)" by auto
  show "map_option snd (debug_frame (frame eth ip udp hdr opts) (MIN_RECV_LEN + n) \<bind>
      (\<lambda>(buf', out). parse_frame buf' (MIN_RECV_LEN + n) m)) = Some m'"
    using debug_frame_frame(2) [OF assms(1-4) c] parse_frame_accepted [OF assms(1) ip0 assms(3,4,6-8)] by simp
qed

text \<open>Such a header exists: the identification makes the words of the header add up to \<open>0xFFFF\<close>.\<close>

lemma masked_header:
  defines "ip \<equiv> zero_IPv4Hdr\<lparr>ip_versionIhl := 0x45, ip_totalLen := htons 268, ip_ident := htons 0x79E2, ip_ttl := 64,
    ip_protocol := 17, ip_checksum := 0xBEEF\<rparr>"
    and "udp \<equiv> \<lparr>udp_srcPort = htons 67, udp_dstPort = htons 68, udp_totalLen = htons 248, udp_checksum = 0\<rparr>"
  shows "ip_ok ip \<and> ip_checksum ip \<noteq> 0 \<and>
    reply_ok (zero_EthernetHdr\<lparr>eth_etherType := htons 0x0800\<rparr>) (ip\<lparr>ip_checksum := 0\<rparr>) udp 0"
  unfolding ip_def udp_def by code_simp

end
