(* ===== verification/Bitmap_Offers.thy ===== *)
theory Bitmap_Offers
  imports Bitmap_Var_Correct Bitmap_Uni_Correct
begin

text \<open>
  Which address the two bitmap backends offer.  Their loops over the bitmap are equal to a search of
  the list of indices, \<open>next_free\<close>; from this follows the offered address in every state, and in
  particular that an address is offered exactly when one is left in the part of the range that the
  cursor has not passed.
\<close>

section \<open>The reference search\<close>

definition next_free :: "u32 list \<Rightarrow> nat \<Rightarrow> nat \<Rightarrow> nat option" where
  "next_free bm i n = List.find (\<lambda>k. \<not> bm_bit bm k) [i..<n]"

lemma next_free_step: "i < n \<Longrightarrow> next_free bm i n = (if bm_bit bm i then next_free bm (i + 1) n else Some i)"
  by (simp add: next_free_def upt_conv_Cons)

lemma next_free_end: "n \<le> i \<Longrightarrow> next_free bm i n = None"
  by (simp add: next_free_def)

lemma next_free_wiped: "\<forall>i < n. \<not> bm_bit bm i \<Longrightarrow> next_free bm 0 n = (if 0 < n then Some 0 else None)"
  by (simp add: next_free_step next_free_end)

lemma next_free_Some:
  "next_free bm i n = Some k \<longleftrightarrow> i \<le> k \<and> k < n \<and> \<not> bm_bit bm k \<and> (\<forall>j. i \<le> j \<and> j < k \<longrightarrow> bm_bit bm j)"
proof -
  have "next_free bm i n = Some k \<longleftrightarrow> (\<exists>m < n - i. \<not> bm_bit bm (i + m) \<and> k = i + m \<and> (\<forall>j < m. bm_bit bm (i + j)))"
    by (auto simp: next_free_def find_Some_iff)
  also have "\<dots> \<longleftrightarrow> i \<le> k \<and> k < n \<and> \<not> bm_bit bm k \<and> (\<forall>j. i \<le> j \<and> j < k \<longrightarrow> bm_bit bm j)"
    by (auto simp: le_iff_add intro!: exI [of _ "k - i"])
  finally show ?thesis .
qed

lemma next_free_None: "next_free bm i n = None \<longleftrightarrow> (\<forall>k. i \<le> k \<and> k < n \<longrightarrow> bm_bit bm k)"
  by (auto simp: next_free_def find_None_iff)

section \<open>BMVAR\<close>

abbreviation var_search :: "dhcp_bmpool_var_t \<Rightarrow> nat option" where
  "var_search p \<equiv> next_free (ips (range p)) (unat (counter p)) (unat (range_size p))"

lemma var_scan_search:
  assumes "var_inv p"
  shows "case var_search p of
      Some k \<Rightarrow> var_scan p c = Some (p\<lparr>counter := of_nat (k + 1)\<rparr>, var_pool_start p + of_nat k)
    | None \<Rightarrow> \<exists>c'. var_scan p c = Some (p\<lparr>counter := range_size p\<rparr>, c') \<and> (c' = c \<or> c' \<in> var_unavail p)"
  using assms
proof (induction p c rule: var_scan.induct)
  case (1 p c)
  show ?case
  proof (cases "counter p < range_size p")
    case False
    moreover from this have "counter p = range_size p" using 1(2) by (simp add: var_inv_def)
    ultimately show ?thesis
      by (subst var_scan.simps) (simp add: next_free_end)
  next
    case True
    let ?c = "var_pool_start p + counter p" and ?p = "p\<lparr>counter := counter p + 1\<rparr>"
    have lt: "unat (counter p) < unat (range_size p)" using True by (simp add: word_less_nat_alt)
    then have next_c: "unat (counter p + 1) = unat (counter p) + 1"
      using unat_less_pow [of "range_size p"] by (intro unat_plus_one) simp
    have inv: "var_inv ?p" using 1(2) lt next_c by (simp add: var_inv_def word_le_nat_alt)
    note has = var_has_counter [OF 1(2) True]
    have bit: "?c \<in> var_unavail p \<longleftrightarrow> bm_bit (ips (range p)) (unat (counter p))" using has(1) by (simp add: var_unavail_def)
    have used: "dhcp_bm_used (ips (range p)) (counter p) (range_size p) = Some (?c \<in> var_unavail p)"
      using var_used_ok [OF 1(2) has(1)] by simp
    have same: "var_unavail ?p = var_unavail p" by (simp add: var_unavail_def var_has_def)
    show ?thesis
    proof (cases "?c \<in> var_unavail p")
      case False
      then have "var_scan p c = Some (?p, ?c)"
        using True used by (subst var_scan.simps) (simp add: Let_def dhcp_bm_counter_to_ip_def)
      moreover have "var_search p = Some (unat (counter p))" using False bit lt by (simp add: next_free_step)
      ultimately show ?thesis by simp
    next
      case unavail: True
      then have step: "var_scan p c = var_scan ?p ?c"
        using True used by (subst var_scan.simps) (simp add: Let_def dhcp_bm_counter_to_ip_def)
      have "var_search p = var_search ?p" using unavail bit lt next_c by (simp add: next_free_step)
      then show ?thesis
        using "1.IH" [OF True, of ?c ?p True] inv used unavail same step
        by (cases "var_search ?p") (auto simp: dhcp_bm_counter_to_ip_def)
    qed
  qed
qed

text \<open>The index of the address that is offered at time \<open>t\<close>.\<close>

definition var_choice :: "dhcp_bmpool_var_t \<Rightarrow> u32 \<Rightarrow> nat option" where
  "var_choice p t =
     (if 0 < expire_time (range p) \<and> expire_time (range p) \<le> t
      then (if 0 < range_size p then Some 0 else None) else var_search p)"

definition var_choice_ip :: "dhcp_bmpool_var_t \<Rightarrow> nat option \<Rightarrow> u32" where
  "var_choice_ip p ch = (case ch of None \<Rightarrow> 0 | Some k \<Rightarrow> var_pool_start p + of_nat k)"

lemma var_search_ip:
  assumes "var_inv p" and "var_search p = Some k"
  shows "var_has p (var_pool_start p + of_nat k)" and "var_pool_start p + of_nat k \<noteq> 0"
    and "var_pool_start p + of_nat k \<notin> var_unavail p" and "\<not> dhcp_bm_range_full (counter p) (range_size p)"
proof -
  have k: "unat (counter p) \<le> k" "k < unat (range_size p)" "\<not> bm_bit (ips (range p)) k"
    using assms(2) by (auto simp: next_free_Some)
  have u: "unat (of_nat k :: u32) = k" using k(2) unat_less_pow [of "range_size p"] by (simp add: unat_of_nat)
  then have lt: "of_nat k < range_size p" using k(2) by (simp add: word_less_nat_alt)
  note h = var_has_counter [OF assms(1) lt]
  show "var_has p (var_pool_start p + of_nat k)" and "var_pool_start p + of_nat k \<noteq> 0" by (fact h)+
  show "var_pool_start p + of_nat k \<notin> var_unavail p" using k(3) u by (simp add: var_unavail_def)
  show "\<not> dhcp_bm_range_full (counter p) (range_size p)" using k(1,2) by (simp add: dhcp_bm_range_full_def word_le_nat_alt)
qed

lemma var_next_search:
  assumes inv: "var_inv p"
  shows "\<exists>p'. var_next p t = Some (p', var_choice_ip p (var_search p))"
proof -
  define q where "q = (if expire_time (range p) = 0
    then p\<lparr>range := (range p)\<lparr>expire_time := t + var_lease_time p\<rparr>\<rparr> else p)"
  have q: "var_inv q" "var_search q = var_search p" "var_pool_start q = var_pool_start p" "range_size q = range_size p"
    "ips (range q) = ips (range p)" "var_unavail q = var_unavail p" "\<And>ip. var_has q ip = var_has p ip"
    using inv by (simp_all add: q_def var_inv_def var_unavail_def var_has_def)
  note S = var_scan_search [OF q(1), of 0, unfolded q(2)]
  have run: "var_next p t = do {
      (p, candidate) \<leftarrow> var_scan q 0;
      if candidate = 0 then Some (p, 0)
      else do {
        u \<leftarrow> dhcp_bm_used (ips (range p)) (candidate - var_pool_start p) (range_size p);
        Some (p, if u then 0 else candidate)
      } }" if "\<not> (expire_time (range p) > 0 \<and> dhcp_bm_range_full (counter p) (range_size p))"
    unfolding var_next_def if_not_P [OF that] Let_def q_def ..
  have used: "dhcp_bm_used (ips (range q)) (c - var_pool_start q) (range_size q) = Some (c \<in> var_unavail p)" if "var_has p c" for c
    using var_used_ok [OF q(1), of c] that q(6,7) by simp
  show ?thesis
  proof (cases "var_search p")
    case (Some k)
    note I = var_search_ip [OF inv Some]
    have "\<not> (expire_time (range p) > 0 \<and> dhcp_bm_range_full (counter p) (range_size p))" using I(4) by simp
    from run [OF this] show ?thesis using S Some I used [OF I(1)] q(3) by (simp add: var_choice_ip_def)
  next
    case None
    with S obtain c where c: "var_scan q 0 = Some (q\<lparr>counter := range_size q\<rparr>, c)" "c = 0 \<or> c \<in> var_unavail p"
      using q(6) by auto
    have "var_has p c" if "c \<noteq> 0" using c(2) that by (simp add: var_unavail_def)
    then have "\<exists>p'. var_next p t = Some (p', 0)"
      using run c used by (cases "expire_time (range p) > 0 \<and> dhcp_bm_range_full (counter p) (range_size p)")
        (auto simp: var_next_def)
    with None show ?thesis by (simp add: var_choice_ip_def)
  qed
qed

lemma bmvar_offer_choice:
  assumes "var_server_inv s"
  shows "\<exists>s'. bmvar_offer s mac t = Some (s', var_choice_ip (pool s) (var_choice (pool s) t))"
proof -
  have inv: "var_inv (pool s)" using assms by (simp add: var_server_inv_def)
  have "\<exists>p'. dhcp_bmpool_var_peek (pool s) t = Some (p', var_choice_ip (pool s) (var_choice (pool s) t))"
  proof (cases "0 < expire_time (range (pool s)) \<and> expire_time (range (pool s)) \<le> t")
    case False
    then show ?thesis using var_next_search [OF inv, of t] by (auto simp: dhcp_bmpool_var_peek_def var_choice_def)
  next
    case True
    obtain q where q: "dhcp_bmpool_var_recycle (pool s) = Some q" "var_inv q" "same_range (pool s) q" "counter q = 0"
      "\<forall>i < unat (range_size (pool s)). \<not> bm_bit (ips (range q)) i"
      using bm_wipe_ok [of "range_size (pool s)" "ips (range (pool s))"] inv
      by (auto simp: dhcp_bmpool_var_recycle_def var_inv_def same_range_def)
    have "var_search q = (if 0 < range_size (pool s) then Some 0 else None)"
      using next_free_wiped [OF q(5)] q(3,4) by (simp add: same_range_def word_less_nat_alt)
    then have "var_choice_ip (pool s) (var_choice (pool s) t) = var_choice_ip q (var_search q)"
      using True q(3) by (simp add: var_choice_def var_choice_ip_def same_range_def)
    then show ?thesis
      using True q(1) var_next_search [OF q(2), of t] by (simp add: dhcp_bmpool_var_peek_def)
  qed
  then show ?thesis by (auto simp: bmvar_offer_def)
qed

text \<open>A range whose cursor is at the end is not reset before it expires.\<close>

lemma bmvar_offer_full:
  assumes "t < expire_time (range (pool s))" and "counter (pool s) = range_size (pool s)"
  shows "bmvar_offer s mac t = Some (s, 0)"
proof -
  have "0 < expire_time (range (pool s))" "\<not> expire_time (range (pool s)) \<le> t" using assms(1) by (auto simp: word_gt_0)
  then have "dhcp_bmpool_var_peek (pool s) t = Some (pool s, 0)"
    using assms(2) by (simp add: dhcp_bmpool_var_peek_def var_next_def dhcp_bm_range_full_def)
  then show ?thesis by (simp add: bmvar_offer_def)
qed

lemma var_choice_nonzero:
  assumes "var_server_inv s" and "var_choice (pool s) t = Some k"
  shows "var_choice_ip (pool s) (Some k) \<noteq> 0" and "k < unat (range_size (pool s))"
proof -
  have inv: "var_inv (pool s)" using assms(1) by (simp add: var_server_inv_def)
  have "k = 0 \<and> 0 < range_size (pool s) \<or> var_search (pool s) = Some k" using assms(2) by (auto simp: var_choice_def split: if_splits)
  then show "var_choice_ip (pool s) (Some k) \<noteq> 0" and "k < unat (range_size (pool s))"
    using var_search_ip(2) [OF inv] inv by (auto simp: var_choice_ip_def var_inv_def word_less_nat_alt next_free_Some)
qed

section \<open>BMUNI\<close>

abbreviation uni_search :: "dhcp_bmpool_uni_t \<Rightarrow> nat option" where
  "uni_search p \<equiv> next_free (ips (ranges p ! unat (cur_range p))) (unat (uni_counter p)) (unat (uni_range_size p))"

lemma uni_counter_bit:
  assumes "uni_inv p" and "c < uni_range_size p"
  shows "range_base p + c \<in> uni_unavail p \<longleftrightarrow> bm_bit (ips (ranges p ! unat (cur_range p))) (unat c)"
proof -
  note h = uni_in_counter(1) [OF assms]
  have "unat (range_base p + c - range_base p) = unat (range_base p + c) - uni_first p (unat (cur_range p))"
    by (rule uni_guard(2) [OF assms(1) h])
  with uni_bit_unavail [OF uni_cur(1) [OF assms(1)] h] show ?thesis by simp
qed

lemma uni_scan_search:
  assumes "uni_inv p" and "b = range_base p"
  shows "case uni_search p of
      Some k \<Rightarrow> uni_scan p b c = Some (p\<lparr>uni_counter := of_nat (k + 1)\<rparr>, range_base p + of_nat k)
    | None \<Rightarrow> \<exists>n c'. uni_scan p b c = Some (p\<lparr>uni_counter := n\<rparr>, c') \<and> (c' = c \<or> c' \<in> uni_unavail p)"
  using assms
proof (induction p b c rule: uni_scan.induct)
  case (1 p b c)
  show ?case
  proof (cases "uni_counter p < uni_range_size p")
    case False
    then show ?thesis
      by (subst uni_scan.simps) (auto simp: next_free_end word_less_nat_alt intro!: exI [of _ "uni_counter p"])
  next
    case True
    let ?c = "range_base p + uni_counter p" and ?p = "p\<lparr>uni_counter := uni_counter p + 1\<rparr>"
    have lt: "unat (uni_counter p) < unat (uni_range_size p)" using True by (simp add: word_less_nat_alt)
    then have next_c: "unat (uni_counter p + 1) = unat (uni_counter p) + 1"
      using unat_less_pow [of "uni_range_size p"] by (intro unat_plus_one) simp
    note bit = uni_counter_bit [OF 1(2) True]
    have r: "rd (ranges p) (unat (cur_range p)) = Some (ranges p ! unat (cur_range p))"
      using uni_cur(2) [OF 1(2)] by (rule rd_Some)
    have used: "dhcp_bm_used (ips (ranges p ! unat (cur_range p))) (uni_counter p) (uni_range_size p) = Some (?c \<in> uni_unavail p)"
      using uni_bm_used_ok [OF 1(2) uni_in_counter(1) [OF 1(2) True]] by simp
    show ?thesis
    proof (cases "?c \<in> uni_unavail p")
      case False
      then have "uni_scan p b c = Some (?p, ?c)"
        using True used r 1(3) by (subst uni_scan.simps) (simp add: Let_def dhcp_bm_counter_to_ip_def)
      moreover have "uni_search p = Some (unat (uni_counter p))" using False bit lt by (simp add: next_free_step)
      ultimately show ?thesis by simp
    next
      case unavail: True
      then have step: "uni_scan p b c = uni_scan ?p b ?c"
        using True used r 1(3) by (subst uni_scan.simps) (simp add: Let_def dhcp_bm_counter_to_ip_def)
      have "uni_search p = uni_search ?p" using unavail bit lt next_c by (simp add: next_free_step)
      then show ?thesis
        using "1.IH" [OF True, of ?c ?p "ranges p ! unat (cur_range p)" True] 1(2,3) used unavail step r
        by (cases "uni_search ?p") (auto simp: dhcp_bm_counter_to_ip_def)
    qed
  qed
qed

lemma uni_search_ip:
  assumes "uni_inv p" and "uni_search p = Some k"
  shows "uni_in p (unat (cur_range p)) (range_base p + of_nat k)" and "range_base p + of_nat k \<noteq> 0"
    and "range_base p + of_nat k \<notin> uni_unavail p"
proof -
  have k: "k < unat (uni_range_size p)" "\<not> bm_bit (ips (ranges p ! unat (cur_range p))) k"
    using assms(2) by (auto simp: next_free_Some)
  have u: "unat (of_nat k :: u32) = k" using k(1) unat_less_pow [of "uni_range_size p"] by (simp add: unat_of_nat)
  then have lt: "of_nat k < uni_range_size p" using k(1) by (simp add: word_less_nat_alt)
  show "uni_in p (unat (cur_range p)) (range_base p + of_nat k)" "range_base p + of_nat k \<noteq> 0"
    by (fact uni_in_counter [OF assms(1) lt])+
  show "range_base p + of_nat k \<notin> uni_unavail p" using uni_counter_bit [OF assms(1) lt] k(2) u by simp
qed

definition uni_choice_ip :: "dhcp_bmpool_uni_t \<Rightarrow> (nat \<times> nat) option \<Rightarrow> u32" where
  "uni_choice_ip p ch = (case ch of None \<Rightarrow> 0 | Some (j, k) \<Rightarrow> of_nat (uni_first p j + k))"

lemma range_base_of_nat: "uni_inv p \<Longrightarrow> range_base p + of_nat k = of_nat (uni_first p (unat (cur_range p)) + k)"
  by (simp flip: range_base_ok)

lemma uni_pick_search:
  assumes inv: "uni_inv p"
  shows "\<exists>p'. uni_pick p t = Some (p', uni_choice_ip p (map_option (Pair (unat (cur_range p))) (uni_search p)))"
proof -
  note S = uni_scan_search [OF inv refl, of 0]
  have inv': "uni_inv (p\<lparr>uni_counter := n\<rparr>)" for n using inv by simp
  note used = uni_ip_used_ok [OF inv']
  show ?thesis
  proof (cases "uni_search p")
    case (Some k)
    note I = uni_search_ip [OF inv Some]
    obtain q where "uni_start_timer (p\<lparr>uni_counter := of_nat (k + 1)\<rparr>) t = Some q" using uni_start_timer_ok [OF inv'] by blast
    then have "uni_pick p t = Some (q, range_base p + of_nat k)" using S Some I used by (simp add: uni_pick_def)
    then show ?thesis using Some range_base_of_nat [OF inv, of k] by (simp add: uni_choice_ip_def)
  next
    case None
    with S obtain n c where "uni_scan p (range_base p) 0 = Some (p\<lparr>uni_counter := n\<rparr>, c)" "c = 0 \<or> c \<in> uni_unavail p" by auto
    then have "uni_pick p t = Some (p\<lparr>uni_counter := n\<rparr>, 0)" using used [of n c] by (auto simp: uni_pick_def)
    with None show ?thesis by (simp add: uni_choice_ip_def)
  qed
qed

text \<open>
  The range and the index of the offered address: the next free one of the current range, or, when
  the cursor is at the end, the first free one of the next range if that range is idle or expired.
\<close>

definition uni_choice :: "dhcp_bmpool_uni_t \<Rightarrow> u32 \<Rightarrow> (nat \<times> nat) option" where
  "uni_choice p t =
     (if uni_counter p < uni_range_size p then map_option (Pair (unat (cur_range p))) (uni_search p)
      else let j = (unat (cur_range p) + 1) mod unat (num_ranges p); r = ranges p ! j
        in if expire_time r = 0 then map_option (Pair j) (next_free (ips r) 0 (unat (uni_range_size p)))
           else if expire_time r \<le> t \<and> 0 < uni_range_size p then Some (j, 0) else None)"

lemma uni_pick_moved:
  assumes "uni_inv q" and "same_pool p q" and "unat n < unat (num_ranges p)"
  shows "\<exists>p'. uni_pick (q\<lparr>cur_range := n, uni_counter := 0\<rparr>) t = Some (p', uni_choice_ip p
    (map_option (Pair (unat n)) (next_free (ips (ranges q ! unat n)) 0 (unat (uni_range_size p)))))"
proof -
  let ?q = "q\<lparr>cur_range := n, uni_counter := 0\<rparr>"
  have "uni_inv ?q" using assms by (simp add: uni_inv_def same_pool_def)
  moreover have "uni_choice_ip ?q = uni_choice_ip p"
    using assms(2) by (auto simp: fun_eq_iff uni_choice_ip_def uni_first_def same_pool_def split: option.splits)
  moreover have "uni_range_size ?q = uni_range_size p" using assms(2) by (simp add: same_pool_def)
  ultimately show ?thesis using uni_pick_search [of ?q t] by simp
qed

lemma bmuni_offer_choice:
  assumes "uni_server_inv s"
  shows "\<exists>s'. bmuni_offer s mac t = Some (s', uni_choice_ip (pool s) (uni_choice (pool s) t))"
proof -
  let ?p = "pool s"
  have inv: "uni_inv ?p" using assms by (simp add: uni_server_inv_def)
  have "\<exists>p'. dhcp_bmpool_uni_peek ?p t = Some (p', uni_choice_ip ?p (uni_choice ?p t))"
  proof (cases "uni_counter ?p < uni_range_size ?p")
    case True
    then have "\<not> dhcp_bm_range_full (uni_counter ?p) (uni_range_size ?p)" by (simp add: dhcp_bm_range_full_def)
    then show ?thesis
      using True uni_pick_search [OF inv, of t] by (simp add: dhcp_bmpool_uni_peek_def uni_advance_def uni_choice_def)
  next
    case False
    obtain n where n: "uni_next_range ?p = Some n" "unat n = (unat (cur_range ?p) + 1) mod unat (num_ranges ?p)"
      "unat n < unat (num_ranges ?p)"
      by (rule uni_next_range_ok [OF inv])
    let ?r = "ranges ?p ! unat n"
    have len: "unat n < length (ranges ?p)" using n(3) inv by (simp add: uni_inv_def)
    have full: "dhcp_bm_range_full (uni_counter ?p) (uni_range_size ?p)" using False by (simp add: dhcp_bm_range_full_def)
    have choice: "uni_choice ?p t = (if expire_time ?r = 0 then map_option (Pair (unat n)) (next_free (ips ?r) 0 (unat (uni_range_size ?p)))
        else if expire_time ?r \<le> t \<and> 0 < uni_range_size ?p then Some (unat n, 0) else None)"
      using False n(2) by (simp add: uni_choice_def Let_def)
    note pick = uni_pick_moved [OF _ _ n(3), of _ t]
    consider "expire_time ?r = 0" | "0 < expire_time ?r" "expire_time ?r \<le> t" | "0 < expire_time ?r" "\<not> expire_time ?r \<le> t"
      by (auto simp: word_gt_0)
    then show ?thesis
    proof cases
      case 1
      then show ?thesis
        using pick [OF inv] full n(1) len by (simp add: dhcp_bmpool_uni_peek_def uni_advance_def rd_Some choice same_pool_def)
    next
      case 2
      obtain bm where bm: "dhcp_bmpool_uni_recycle ?p (ucast n) = Some (?p\<lparr>ranges := (ranges ?p)[unat n := \<lparr>ips = bm, expire_time = 0\<rparr>]\<rparr>)"
        "uni_inv (?p\<lparr>ranges := (ranges ?p)[unat n := \<lparr>ips = bm, expire_time = 0\<rparr>]\<rparr>)" "\<forall>i < unat (uni_range_size ?p). \<not> bm_bit bm i"
        by (rule uni_recycle_ok [OF inv n(3)])
      show ?thesis
        using pick [OF bm(2)] full n(1) len 2 bm(1) next_free_wiped [OF bm(3)]
        by (auto simp: dhcp_bmpool_uni_peek_def uni_advance_def rd_Some choice same_pool_def word_less_nat_alt)
    next
      case 3
      then show ?thesis
        using full n(1) len by (auto simp: dhcp_bmpool_uni_peek_def uni_advance_def rd_Some choice uni_choice_ip_def)
    qed
  qed
  then show ?thesis by (auto simp: bmuni_offer_def)
qed

lemma uni_choice_nonzero:
  assumes "uni_server_inv s" and "uni_choice (pool s) t = Some (j, k)"
  shows "uni_choice_ip (pool s) (Some (j, k)) \<noteq> 0"
proof -
  have inv: "uni_inv (pool s)" using assms(1) by (simp add: uni_server_inv_def)
  have j: "j < unat (num_ranges (pool s))" and k: "k < unat (uni_range_size (pool s))"
    using assms(2) uni_cur(1) [OF inv]
    by (auto simp: uni_choice_def Let_def next_free_Some word_less_nat_alt split: if_splits)
  have "uni_first (pool s) j + k < 2 ^ 32" "0 < uni_first (pool s) j"
    using uni_first_bound [OF inv j] k inv by (simp_all add: uni_inv_def uni_first_def word_less_nat_alt)
  then have "unat (of_nat (uni_first (pool s) j + k) :: u32) \<noteq> 0" by (simp add: unat_of_nat del: of_nat_add)
  then show ?thesis unfolding uni_choice_ip_def by auto
qed

section \<open>An offer that is refused\<close>

text \<open>After an offer the cursor is behind the offered address.\<close>

lemma uni_pick_cursor:
  assumes inv: "uni_inv p" and pick: "uni_pick p t = Some (p', ip)" and "ip \<noteq> 0"
  shows "cur_range p' = cur_range p" and "same_pool p p'" and "uni_in p (unat (cur_range p)) ip"
    and "uni_counter p' = ip - range_base p + 1"
proof -
  show "cur_range p' = cur_range p" and "same_pool p p'" and "uni_in p (unat (cur_range p)) ip"
    using uni_pick_ok [OF inv, of t] pick assms(3) by auto
  note S = uni_scan_search [OF inv refl, of 0]
  note used = uni_ip_used_ok [of "p\<lparr>uni_counter := _\<rparr>", simplified, OF inv]
  obtain k where k: "uni_scan p (range_base p) 0 = Some (p\<lparr>uni_counter := of_nat (k + 1)\<rparr>, range_base p + of_nat k)"
  proof (cases "uni_search p")
    case None
    with S obtain n c where "uni_scan p (range_base p) 0 = Some (p\<lparr>uni_counter := n\<rparr>, c)" "c = 0 \<or> c \<in> uni_unavail p" by auto
    then have "uni_pick p t = Some (p\<lparr>uni_counter := n\<rparr>, 0)" using used [of n c] by (auto simp: uni_pick_def)
    with pick assms(3) show thesis by simp
  qed (use S that in simp)
  have timer: "uni_start_timer q t = Some q' \<Longrightarrow> uni_counter q' = uni_counter q" for q q'
    by (auto simp: uni_start_timer_def bind_eq_Some_iff split: if_splits)
  show "uni_counter p' = ip - range_base p + 1"
    using pick assms(3) k timer by (auto simp: uni_pick_def bind_eq_Some_iff split: if_splits)
qed

lemma uni_peek_cursor:
  assumes inv: "uni_inv p" and "dhcp_bmpool_uni_peek p t = Some (p', ip)" and "ip \<noteq> 0"
  shows "uni_inv p'" and "same_pool p p'" and "uni_in p' (unat (cur_range p')) ip" and "uni_counter p' = ip - range_base p' + 1"
    and "\<not> uni_counter p < uni_range_size p \<Longrightarrow> unat (cur_range p') = (unat (cur_range p) + 1) mod unat (num_ranges p)"
proof -
  show inv': "uni_inv p'" and same: "same_pool p p'" and "uni_in p' (unat (cur_range p')) ip"
    using uni_peek_ok [OF inv, of t] assms(2,3) by auto
  obtain q where q: "uni_advance p t = Some (q, True)" "uni_inv q" "same_pool p q" "uni_pick q t = Some (p', ip)"
    using uni_advance_ok [OF inv, of t] assms(2,3) by (auto simp: dhcp_bmpool_uni_peek_def bind_eq_Some_iff split: if_splits)
  note P = uni_pick_cursor [OF q(2,4) assms(3)]
  have "range_base p' = range_base q" using P(1,2) by (simp add: range_base_def same_pool_def)
  then show "uni_counter p' = ip - range_base p' + 1" using P(4) by simp
  show "unat (cur_range p') = (unat (cur_range p) + 1) mod unat (num_ranges p)" if "\<not> uni_counter p < uni_range_size p"
  proof -
    have full: "dhcp_bm_range_full (uni_counter p) (uni_range_size p)" using that by (simp add: dhcp_bm_range_full_def)
    obtain n where n: "uni_next_range p = Some n" "unat n = (unat (cur_range p) + 1) mod unat (num_ranges p)"
      by (rule uni_next_range_ok [OF inv])
    have "cur_range q = n" using q(1) full n(1) by (auto simp: uni_advance_def bind_eq_Some_iff split: if_splits)
    then show ?thesis using P(1) n(2) by simp
  qed
qed

text \<open>The pool: the last address of a range, once offered, is refused after the next offer.\<close>

lemma uni_stale:
  assumes inv: "uni_inv p" and many: "1 < num_ranges p"
    and o1: "dhcp_bmpool_uni_peek p t1 = Some (p1, ip)" "ip \<noteq> 0" "ip + 1 = range_base p1 + uni_range_size p1"
    and o2: "dhcp_bmpool_uni_peek p1 t2 = Some (p2, ip2)" "ip2 \<noteq> 0"
  shows "dhcp_bmpool_uni_commit_ip p2 ip = Some (p2, False)"
proof -
  note A = uni_peek_cursor [OF inv o1(1,2)]
  note B = uni_peek_cursor [OF A(1) o2]
  have "uni_counter p1 = ip + 1 - range_base p1" using A(4) by simp
  then have "uni_counter p1 = uni_range_size p1" unfolding o1(3) by simp
  then have cur: "unat (cur_range p2) = (unat (cur_range p1) + 1) mod unat (num_ranges p1)" using B(5) by simp
  have n: "num_ranges p1 = num_ranges p" using A(2) by (simp add: same_pool_def)
  have lt: "unat (cur_range p1) < unat (num_ranges p)" using uni_cur(1) [OF A(1)] n by simp
  have "1 < unat (num_ranges p)" using many by (simp add: word_less_nat_alt)
  then have "(unat (cur_range p1) + 1) mod unat (num_ranges p) \<noteq> unat (cur_range p1)"
    using lt by (cases "unat (cur_range p1) + 1 = unat (num_ranges p)") auto
  then have "\<not> uni_in p1 (unat (cur_range p2)) ip" using cur n uni_in_unique [OF A(3)] by metis
  then have "\<not> uni_in p2 (unat (cur_range p2)) ip" by (simp add: uni_in_same(1) [OF B(2)])
  then show ?thesis using uni_ip_used_ok [OF B(1), of ip] by (simp add: dhcp_bmpool_uni_commit_ip_def)
qed

text \<open>What a DISCOVER that is answered with an OFFER has done to the server.\<close>

lemma bmuni_discover_offers:
  assumes "uni_server_inv s" and "wf_request request is" and "item_lookup is DHCP_OPT_MESSAGE_TYPE = Some [DHCP_DISCOVER]"
    and "dhcp_process_message_bmuni s request zero_message t = Some (s', m)" and "dhcp_get_message_type m = Some DHCP_OFFER"
  shows "\<exists>p. s' = s\<lparr>pool := p\<rparr> \<and> uni_server_inv s' \<and> dhcp_bmpool_uni_peek (pool s) t = Some (p, yiaddr m) \<and> yiaddr m \<noteq> 0"
proof -
  obtain r where r: "uni_server_inv s'" "outcome bmuni_offer bmuni_commit no_decline s is (chaddr request) t = Some (s', r)"
    "realises request (config s') zero_message r m"
    using bmu.serve_ok [OF assms(1,2), of zero_message t] assms(4) unfolding process_bmuni_is_serve by auto
  obtain p ip where o: "dhcp_bmpool_uni_peek (pool s) t = Some (p, ip)" "s' = s\<lparr>pool := p\<rparr>" "r = (if ip \<noteq> 0 then Offer ip else NoReply)"
    using r(2) unfolding outcome_if_discover [OF assms(3)] by (auto simp: bmuni_offer_def bind_eq_Some_iff)
  have "ip \<noteq> 0"
  proof
    assume "ip = 0"
    then show False using realises_message_type [OF r(3)] assms(5) o(3) by simp
  qed
  moreover from this have "yiaddr m = ip" using r(3) o(3) by simp
  ultimately show ?thesis using o(1,2) r(1) by simp
qed

lemma bmuni_offers_discover:
  assumes "wf_request request is" and "item_lookup is DHCP_OPT_MESSAGE_TYPE = Some [DHCP_DISCOVER]"
    and "dhcp_bmpool_uni_peek (pool s) t = Some (p, ip)" and "ip \<noteq> 0"
  obtains m where "dhcp_process_message_bmuni s request zero_message t = Some (s\<lparr>pool := p\<rparr>, m)"
    and "dhcp_get_message_type m = Some DHCP_OFFER" and "yiaddr m = ip"
proof -
  have "outcome bmuni_offer bmuni_commit no_decline s is (chaddr request) t = Some (s\<lparr>pool := p\<rparr>, Offer ip)"
    using assms(3,4) by (simp add: outcome_if_discover [OF assms(2)] bmuni_offer_def)
  from serve_refines_outcome [OF assms(1) this, of zero_message] obtain m where
    m: "dhcp_process_message_bmuni s request zero_message t = Some (s\<lparr>pool := p\<rparr>, m)"
      "realises request (config (s\<lparr>pool := p\<rparr>)) zero_message (Offer ip) m"
    unfolding process_bmuni_is_serve by blast
  show thesis by (rule that [OF m(1)]) (use realises_message_type [OF m(2)] m(2) in simp_all)
qed

text \<open>
  C25. An offer that is refused.  A BMUNI server with at least two ranges offers a client the last
  address of a range, and then makes an offer to another client.  This has moved the server to the
  next range, and a REQUEST is looked up in the current range only: whatever time it arrives, the
  REQUEST of the first client for the address it was offered is answered with a NAK.
\<close>

theorem bmuni_stale_offer:
  assumes "uni_server_inv s" and "1 < num_ranges (pool s)"
    and "wf_request d1 is1" and "item_lookup is1 DHCP_OPT_MESSAGE_TYPE = Some [DHCP_DISCOVER]"
    and "dhcp_process_message_bmuni s d1 zero_message t1 = Some (s1, m1)" and "dhcp_get_message_type m1 = Some DHCP_OFFER"
    and "yiaddr m1 + 1 = range_base (pool s1) + uni_range_size (pool s1)"
    and "wf_request d2 is2" and "item_lookup is2 DHCP_OPT_MESSAGE_TYPE = Some [DHCP_DISCOVER]"
    and "dhcp_process_message_bmuni s1 d2 zero_message t2 = Some (s2, m2)" and "dhcp_get_message_type m2 = Some DHCP_OFFER"
    and "wf_request r is3" and "item_lookup is3 DHCP_OPT_MESSAGE_TYPE = Some [DHCP_REQUEST]"
    and "item_lookup is3 DHCP_OPT_REQUESTED_IP = Some (be_bytes (yiaddr m1))"
  shows "\<exists>m. dhcp_process_message_bmuni s2 r zero_message t3 = Some (s2, m) \<and> dhcp_get_message_type m = Some DHCP_NAK"
proof -
  obtain p1 where p1: "s1 = s\<lparr>pool := p1\<rparr>" "uni_server_inv s1" "dhcp_bmpool_uni_peek (pool s) t1 = Some (p1, yiaddr m1)" "yiaddr m1 \<noteq> 0"
    using bmuni_discover_offers [OF assms(1,3-6)] by blast
  obtain p2 where p2: "s2 = s1\<lparr>pool := p2\<rparr>" "dhcp_bmpool_uni_peek (pool s1) t2 = Some (p2, yiaddr m2)" "yiaddr m2 \<noteq> 0"
    using bmuni_discover_offers [OF p1(2) assms(8-11)] by blast
  have "uni_inv (pool s)" using assms(1) by (simp add: uni_server_inv_def)
  then have "dhcp_bmpool_uni_commit_ip (pool s2) (yiaddr m1) = Some (pool s2, False)"
    using uni_stale [OF _ assms(2) p1(3,4)] p1(1) p2 assms(7) by simp
  then have "bmuni_commit s2 (yiaddr m1) (chaddr r) t3 = Some (s2, False)" by (simp add: bmuni_commit_def)
  then have "outcome bmuni_offer bmuni_commit no_decline s2 is3 (chaddr r) t3 = Some (s2, Nak)"
    by (simp add: outcome_if_request [OF assms(13,14)])
  from serve_refines_outcome [OF assms(12) this, of zero_message] obtain m where
    "dhcp_process_message_bmuni s2 r zero_message t3 = Some (s2, m)" "realises r (config s2) zero_message Nak m"
    unfolding process_bmuni_is_serve by blast
  with realises_message_type [OF this(2)] show ?thesis by auto
qed

theorem bmuni_stale_offer_witness:
  "\<exists>s1 m1 s2 m2 m. dhcp_process_message_bmuni (sample_uni 0 0) (sample_request 1 discover_items) zero_message 5 = Some (s1, m1) \<and>
    dhcp_process_message_bmuni s1 (sample_request 2 discover_items) zero_message 6 = Some (s2, m2) \<and>
    dhcp_process_message_bmuni s2 (sample_request 1 (request_items (yiaddr m1))) zero_message 7 = Some (s2, m) \<and>
    dhcp_get_message_type m1 = Some DHCP_OFFER \<and> dhcp_get_message_type m = Some DHCP_NAK"
proof -
  let ?s = "sample_uni 0 0"
  have "(do { (p1, a) \<leftarrow> dhcp_bmpool_uni_peek (pool ?s) 5; (p2, b) \<leftarrow> dhcp_bmpool_uni_peek p1 6;
      Some (a, b, a + 1 = range_base p1 + uni_range_size p1) }) = Some (0x0A00000A, 0x0A00000B, True)" by code_simp
  then obtain p1 p2 where p: "dhcp_bmpool_uni_peek (pool ?s) 5 = Some (p1, 0x0A00000A)" "dhcp_bmpool_uni_peek p1 6 = Some (p2, 0x0A00000B)"
    "0x0A00000A + 1 = range_base p1 + uni_range_size p1"
    by (auto simp: bind_eq_Some_iff)
  obtain m1 where m1: "dhcp_process_message_bmuni ?s (sample_request 1 discover_items) zero_message 5 = Some (?s\<lparr>pool := p1\<rparr>, m1)"
    "dhcp_get_message_type m1 = Some DHCP_OFFER" "yiaddr m1 = 0x0A00000A"
    by (rule bmuni_offers_discover [OF sample_items_wf(1) sample_items_lookup(1) p(1)]) simp
  obtain m2 where m2: "dhcp_process_message_bmuni (?s\<lparr>pool := p1\<rparr>) (sample_request 2 discover_items) zero_message 6 =
      Some (?s\<lparr>pool := p1\<rparr>\<lparr>pool := p2\<rparr>, m2)" "dhcp_get_message_type m2 = Some DHCP_OFFER"
    by (rule bmuni_offers_discover [OF sample_items_wf(1) sample_items_lookup(1), of "?s\<lparr>pool := p1\<rparr>" 6 p2 "0x0A00000B" 2]) (use p(2) in simp_all)
  have many: "1 < num_ranges (pool ?s)" by (simp add: sample_uni_def)
  have last: "yiaddr m1 + 1 = range_base (pool (?s\<lparr>pool := p1\<rparr>)) + uni_range_size (pool (?s\<lparr>pool := p1\<rparr>))" using p(3) m1(3) by simp
  from bmuni_stale_offer [OF sample_uni_inv many sample_items_wf(1) sample_items_lookup(1) m1(1,2) last sample_items_wf(1)
      sample_items_lookup(1) m2 sample_items_wf(2) sample_items_lookup(2,3), of 1 7]
  show ?thesis using m1(1,2) m2(1) by blast
qed

end
