(* ===== verification/Window_Exchange.thy ===== *)
theory Window_Exchange
  imports Circle_Server Bitmap_Offers
begin

text \<open>
  The backends without leases at the level of the whole system: which address the bitmap backends
  offer, the DHCP exchange between the load generator and a server with one of the three window
  backends, and the frames that a server sends in any mode.
\<close>

section \<open>Offers\<close>

text \<open>
  C11. The address that a bitmap backend offers.  BMVAR offers the first address at or after its
  cursor whose bit is clear, or the first address of the pool when the window has expired; BMUNI does
  the same in the current range, and with the cursor at its end it turns to the next range if that
  one is idle or expired.  When there is no such address the offer is 0, which means no reply.  The
  loops of the code are thus equal to a search in the list of indices.  In particular a BMVAR range
  that is full is left as it is until it expires, as the comment in \<open>dhcp_bitmap_vartime.c\<close> has it
  (\<open>dhcp-lib/README.md\<close> says that the range resets when full or expired).
\<close>

theorem bitmap_offers_first:
  assumes "var_server_inv sv" and "uni_server_inv su"
  shows "(\<exists>s'. bmvar_offer sv mac t = Some (s', var_choice_ip (pool sv) (var_choice (pool sv) t))) \<and>
    (t < expire_time (range (pool sv)) \<and> counter (pool sv) = range_size (pool sv) \<longrightarrow> bmvar_offer sv mac t = Some (sv, 0)) \<and>
    (\<exists>s'. bmuni_offer su mac t = Some (s', uni_choice_ip (pool su) (uni_choice (pool su) t)))"
  using bmvar_offer_choice [OF assms(1)] bmvar_offer_full [of t sv mac] bmuni_offer_choice [OF assms(2)] by blast

lemma sample_choices:
  "var_choice (pool sample_var) 5 = Some 1" "var_choice_ip (pool sample_var) (Some 1) = 0x0A00000B"
  "uni_choice (pool (sample_uni 0 0)) 5 = Some (0, 0)" "uni_choice_ip (pool (sample_uni 0 0)) (Some (0, 0)) = 0x0A00000A"
  by (simp_all add: var_choice_def var_choice_ip_def uni_choice_def uni_choice_ip_def uni_first_def sample_var_def sample_uni_def
      next_free_step bm_bit_def)

theorem bitmap_offers_first_witness:
  "(\<exists>s'. bmvar_offer sample_var [] 5 = Some (s', 0x0A00000B)) \<and> (\<exists>s'. bmuni_offer (sample_uni 0 0) [] 5 = Some (s', 0x0A00000A))"
  using bitmap_offers_first [OF sample_var_inv sample_uni_inv [of 0 0], of "[]" 5] by (simp add: sample_choices [simplified])

section \<open>The exchange\<close>

lemma no_decline_all: "no_decline s m = Some s"
  by (simp add: no_decline_def)

lemma masked_lease_time [simp]: "masked (c\<lparr>lease_time := x\<rparr>) = masked c"
  by (simp add: masked_def)

text \<open>
  C8. The DHCP exchange, end to end, with the BMVAR backend.  When the server has an address to
  offer, the client returns 0 after two rounds with exactly the address that the specification of the
  offer names, and the server will not grant it again in this window.
\<close>

theorem exchange_bmvar:
  assumes "var_server_inv s" and "var_choice (pool s) (ts_in_sec ticks1) = Some k"
    and "masked (config s)" and "length mac = 6" and "client_ok c" and "length sbuf = SBUF_LEN" and "c_retries c = 0"
  shows "\<exists>st0 s' cr. client_start (\<lambda>_. False) c sbuf pmeta = Some st0 \<and>
    net_run False dhcp_process_message_bmvar mac (s, st0) [(rest1, ticks1), (rest2, ticks2)] = Some (s', Returned cr 0) \<and>
    var_server_inv s' \<and> c_assigned_ip (cr_c cr) = be_bytes (var_choice_ip (pool s) (Some k)) \<and>
    var_choice_ip (pool s) (Some k) \<in> var_unavail (pool s')"
proof -
  let ?ch = "client_chaddr (c_mac c)" and ?ip = "var_choice_ip (pool s) (Some k)"
  obtain s1 where s1: "bmvar_offer s ?ch (ts_in_sec ticks1) = Some (s1, ?ip)"
    using bmvar_offer_choice [OF assms(1), of ?ch "ts_in_sec ticks1"] assms(2) by auto
  then have c1: "var_server_inv s1" "config s1 = config s" using bmvar_offer_ok [OF assms(1), of ?ch "ts_in_sec ticks1"] by auto
  have keep: "masked (config s')" if "bmvar_commit s1 ?ip ?ch (ts_in_sec ticks2) = Some (s', True)" for s'
    by (rule bmvar_commit_ok [OF c1(1), of ?ip ?ch "ts_in_sec ticks2"]) (use that c1(2) assms(3) in auto)
  have m1: "masked (config s1)" using c1(2) assms(3) by simp
  from grant_server.exchange [where pmeta = pmeta and ?rest1.0 = rest1 and ?rest2.0 = rest2, OF bmv.grant_server_axioms assms(1,4) m1 no_decline_all s1 var_choice_nonzero(1) [OF assms(1,2)] keep assms(5-7)]
  show ?thesis unfolding process_bmvar_is_serve by blast
qed

theorem exchange_bmvar_witness:
  "\<exists>st0 s' cr. client_start (\<lambda>_. False) sample_client (replicate SBUF_LEN 0) (blank_meta 0) = Some st0 \<and>
    net_run False dhcp_process_message_bmvar sample_server_mac (sample_var, st0) [([], 5000000), ([], 6000000)] =
      Some (s', Returned cr 0)"
proof -
  have "ts_in_sec 5000000 = 5" by code_simp
  then have c: "var_choice (pool sample_var) (ts_in_sec 5000000) = Some 1" by (simp add: sample_choices)
  have "masked (config sample_var)" using sample_config_masked by (simp add: sample_var_def)
  from exchange_bmvar [OF sample_var_inv c this sample_server_mac_ok sample_client_ok(1) _ sample_client_ok(2),
      of "replicate SBUF_LEN 0" "blank_meta 0" "[]" "[]" 6000000]
  show ?thesis by auto
qed

text \<open>
  C9. The DHCP exchange, end to end, with the BMUNI backend.
\<close>

theorem exchange_bmuni:
  assumes "uni_server_inv s" and "uni_choice (pool s) (ts_in_sec ticks1) = Some (j, k)"
    and "masked (config s)" and "length mac = 6" and "client_ok c" and "length sbuf = SBUF_LEN" and "c_retries c = 0"
  shows "\<exists>st0 s' cr. client_start (\<lambda>_. False) c sbuf pmeta = Some st0 \<and>
    net_run False dhcp_process_message_bmuni mac (s, st0) [(rest1, ticks1), (rest2, ticks2)] = Some (s', Returned cr 0) \<and>
    uni_server_inv s' \<and> c_assigned_ip (cr_c cr) = be_bytes (uni_choice_ip (pool s) (Some (j, k))) \<and>
    uni_choice_ip (pool s) (Some (j, k)) \<in> uni_unavail (pool s')"
proof -
  let ?ch = "client_chaddr (c_mac c)" and ?ip = "uni_choice_ip (pool s) (Some (j, k))"
  obtain s1 where s1: "bmuni_offer s ?ch (ts_in_sec ticks1) = Some (s1, ?ip)"
    using bmuni_offer_choice [OF assms(1), of ?ch "ts_in_sec ticks1"] assms(2) by auto
  then have c1: "uni_server_inv s1" "config s1 = config s" using bmuni_offer_ok [OF assms(1), of ?ch "ts_in_sec ticks1"] by auto
  have keep: "masked (config s')" if "bmuni_commit s1 ?ip ?ch (ts_in_sec ticks2) = Some (s', True)" for s'
    using bmuni_commit_ok [OF c1(1), of ?ip ?ch "ts_in_sec ticks2"] that c1(2) assms(3) by auto
  have m1: "masked (config s1)" using c1(2) assms(3) by simp
  from grant_server.exchange [where pmeta = pmeta and ?rest1.0 = rest1 and ?rest2.0 = rest2, OF bmu.grant_server_axioms assms(1,4) m1 no_decline_all s1 uni_choice_nonzero [OF assms(1,2)] keep
      assms(5-7)]
  show ?thesis unfolding process_bmuni_is_serve by blast
qed

theorem exchange_bmuni_witness:
  "\<exists>st0 s' cr. client_start (\<lambda>_. False) sample_client (replicate SBUF_LEN 0) (blank_meta 0) = Some st0 \<and>
    net_run False dhcp_process_message_bmuni sample_server_mac (sample_uni 0 0, st0) [([], 5000000), ([], 6000000)] =
      Some (s', Returned cr 0)"
proof -
  have "ts_in_sec 5000000 = 5" by code_simp
  then have c: "uni_choice (pool (sample_uni 0 0)) (ts_in_sec 5000000) = Some (0, 0)" by (simp add: sample_choices)
  have "masked (config (sample_uni 0 0))" using sample_config_masked by (simp add: sample_uni_def)
  from exchange_bmuni [OF sample_uni_inv c this sample_server_mac_ok sample_client_ok(1) _ sample_client_ok(2),
      of "replicate SBUF_LEN 0" "blank_meta 0" "[]" "[]" 6000000]
  show ?thesis by auto
qed

text \<open>
  C10. The DHCP exchange, end to end, with the NPRC backend, for both widths of its bitmap.  While
  the pool is not exhausted the client gets the next address that was never offered before.
\<close>

theorem exchange_nprc:
  assumes "nprc_server_inv s" and "nprc_next (pool s) < nprc_size s"
    and "masked (config s)" and "length mac = 6" and "client_ok c" and "length sbuf = SBUF_LEN" and "c_retries c = 0"
  shows "\<exists>st0 s' cr. client_start (\<lambda>_. False) c sbuf pmeta = Some st0 \<and>
    net_run False nprc_step mac (s, st0) [(rest1, ticks1), (rest2, ticks2)] = Some (s', Returned cr 0) \<and>
    nprc_server_inv s' \<and> c_assigned_ip (cr_c cr) = be_bytes (pool_start (config s) + of_nat (nprc_next (pool s))) \<and>
    pool_start (config s) + of_nat (nprc_next (pool s)) \<in> nprc_unavail s'"
proof -
  let ?ch = "client_chaddr (c_mac c)" and ?ip = "pool_start (config s) + of_nat (nprc_next (pool s))"
  obtain s1 where s1: "nprc_offer s ?ch (ts_in_sec ticks1) = Some (s1, ?ip)" "nprc_server_inv s1" "config s1 = config s"
    using nprc_offer_ok [OF assms(1), of ?ch "ts_in_sec ticks1"] assms(2) by auto
  have "unat ?ip = unat (pool_start (config s)) + nprc_next (pool s)" "0 < unat (pool_start (config s))"
    using assms(1) nprc_next_ip by (auto simp: nprc_server_inv_def nprc_room_def word_less_nat_alt)
  then have ip: "?ip \<noteq> 0" by (metis add_is_0 less_irrefl unat_0)
  have keep: "masked (config s')" if "nprc_commit s1 ?ip ?ch (ts_in_sec ticks2) = Some (s', True)" for s'
    using nprc_server_commit_ok [OF s1(2), of ?ip ?ch "ts_in_sec ticks2"] that s1(3) assms(3) by auto
  have m1: "masked (config s1)" using s1(3) assms(3) by simp
  from grant_server.exchange [where pmeta = pmeta and ?rest1.0 = rest1 and ?rest2.0 = rest2, OF npr.grant_server_axioms assms(1,4) m1 no_decline_all s1(1) ip keep assms(5-7)]
  show ?thesis unfolding process_nprc_is_serve by blast
qed

theorem exchange_nprc_witness:
  "\<exists>st0 s' cr. client_start (\<lambda>_. False) sample_client (replicate SBUF_LEN 0) (blank_meta 0) = Some st0 \<and>
    net_run False nprc_step sample_server_mac (sample_nprc, st0) [([], 5000000), ([], 6000000)] = Some (s', Returned cr 0)"
proof -
  have c: "nprc_next (pool sample_nprc) < nprc_size sample_nprc"
    by (simp add: nprc_next_def nprc_pool_size_def sample_nprc_def)
  have "masked (config sample_nprc)" using sample_config_masked by (simp add: sample_nprc_def)
  from exchange_nprc [OF sample_nprc_inv c this sample_server_mac_ok sample_client_ok(1) _ sample_client_ok(2),
      of "replicate SBUF_LEN 0" "blank_meta 0" "[]" 5000000 "[]" 6000000]
  show ?thesis by auto
qed

section \<open>The frames that a server sends\<close>

definition valid_reply :: "u8 list \<Rightarrow> bool" where
  "valid_reply g \<longleftrightarrow> length g = MIN_SEND_LEN \<and> (case parse_xid g MIN_SEND_LEN of Some (g', Some x) \<Rightarrow> g' = g | _ \<Rightarrow> False)"

definition valid_replies :: "u8 list option list \<Rightarrow> bool" where
  "valid_replies rs \<longleftrightarrow> list_all (\<lambda>f. case f of None \<Rightarrow> True | Some g \<Rightarrow> valid_reply g) rs"

lemma sent_valid:
  assumes "length mac = 6" and "\<forall>f \<in> set rs. sent_by mac f"
  shows "valid_replies rs"
proof -
  have "valid_reply g" if g: "Some g \<in> set rs" for g
  proof -
    obtain m where "message_ok m" "g = server_frame mac m" using assms(2) g unfolding sent_by_def by blast
    with server_frame_valid [OF _ assms(1), of m "[]"] assms(1) show ?thesis by (simp add: valid_reply_def)
  qed
  then show ?thesis by (auto simp: valid_replies_def list_all_iff split: option.splits)
qed

context address_server
begin

lemma run_valid:
  assumes "inv s" and "\<forall>(buf, ticks) \<in> set fs. good_frame buf" and "length mac = 6" and "dec \<or> (\<forall>s m. decline s m = Some s)"
  shows "\<exists>s' rs. kernel_run dec (serve offer commit decline) mac s fs = Some (s', rs) \<and> valid_replies rs"
  using kernel_run_ok [OF assms] sent_valid [OF assms(3)] by blast

end

text \<open>
  C7. Every frame that the server sends is a well-formed frame.  In every lease mode and for every
  sequence of frames whose DHCP requests are terminated, each reply has the length of a full frame
  and passes the header checks of the client: the type of the Ethernet frame, the protocol, length
  and checksum of the IPv4 header, and the ports and length of the UDP header.
\<close>

theorem replies_well_formed:
  assumes "\<forall>(buf, ticks) \<in> set fs. good_frame buf" and "length mac = 6"
    and "array_server_inv sa" and "hash_server_inv sh" and "var_server_inv sv" and "uni_server_inv su" and "nprc_server_inv sn"
  shows "(\<exists>s rs. kernel_run True dhcp_process_message_array mac sa fs = Some (s, rs) \<and> valid_replies rs) \<and>
    (\<exists>s rs. kernel_run True dhcp_process_message_hashmap mac sh fs = Some (s, rs) \<and> valid_replies rs) \<and>
    (\<exists>s rs. kernel_run False dhcp_process_message_bmvar mac sv fs = Some (s, rs) \<and> valid_replies rs) \<and>
    (\<exists>s rs. kernel_run False dhcp_process_message_bmuni mac su fs = Some (s, rs) \<and> valid_replies rs) \<and>
    (\<exists>s rs. kernel_run False nprc_step mac sn fs = Some (s, rs) \<and> valid_replies rs)"
proof (intro conjI)
  note run = address_server.run_valid
  have nodec: "False \<or> (\<forall>s m. no_decline s m = Some s)" by (simp add: no_decline_def)
  show "\<exists>s rs. kernel_run True dhcp_process_message_array mac sa fs = Some (s, rs) \<and> valid_replies rs"
    using run [OF arr.srv.address_server_axioms assms(3,1,2), of True] unfolding process_array_is_serve by blast
  show "\<exists>s rs. kernel_run True dhcp_process_message_hashmap mac sh fs = Some (s, rs) \<and> valid_replies rs"
    using run [OF hsh.srv.address_server_axioms assms(4,1,2), of True] unfolding process_hashmap_is_serve by blast
  show "\<exists>s rs. kernel_run False dhcp_process_message_bmvar mac sv fs = Some (s, rs) \<and> valid_replies rs"
    using run [OF bmv.address_server_axioms assms(5,1,2) nodec] unfolding process_bmvar_is_serve by blast
  show "\<exists>s rs. kernel_run False dhcp_process_message_bmuni mac su fs = Some (s, rs) \<and> valid_replies rs"
    using run [OF bmu.address_server_axioms assms(6,1,2) nodec] unfolding process_bmuni_is_serve by blast
  show "\<exists>s rs. kernel_run False nprc_step mac sn fs = Some (s, rs) \<and> valid_replies rs"
    using run [OF npr.address_server_axioms assms(7,1,2) nodec] unfolding process_nprc_is_serve by blast
qed

theorem replies_well_formed_witness:
  "\<exists>s rs. kernel_run False nprc_step sample_server_mac sample_nprc [(received sample_meta [], 7)] = Some (s, rs) \<and> valid_replies rs"
proof -
  obtain sh where sh: "hash_server_inv sh" by (rule sample_hash_init)
  have "\<forall>(buf, ticks) \<in> set [(received sample_meta [], 7 :: u32)]. good_frame buf"
    using received_good [OF sample_meta_ok] by simp
  from replies_well_formed [OF this sample_server_mac_ok sample_array_inv sh sample_var_inv sample_uni_inv [of 0 0] sample_nprc_inv]
  show ?thesis by blast
qed

end
