(* ===== verification/Startup.thy ===== *)
theory Startup
  imports Circle_Server
begin

text \<open>
  The start of the server: \<open>CKernel::Initialize\<close>, the part of \<open>CKernel::Run\<close> before the receive loop
  (\<open>kernel.cpp\<close>) and \<open>main\<close> (\<open>main.cpp\<close>).  The drivers belong to the Circle framework; what their
  \<open>Initialize\<close> functions return, whether there is a network device and what it says about its link
  are arguments.
\<close>

section \<open>Model\<close>

datatype device = Screen | Serial | Logger | Interrupt | Timer | Net_Driver

text \<open>One step \<open>if (bOK) bOK = device.Initialize ()\<close>; the list has the devices whose \<open>Initialize\<close> was called.\<close>

definition init_device :: "(device \<Rightarrow> bool) \<Rightarrow> device \<Rightarrow> device list \<times> bool \<Rightarrow> device list \<times> bool" where
  "init_device init d st = (case st of (called, bOK) \<Rightarrow> if bOK then (called @ [d], init d) else (called, bOK))"

text \<open>The result of the screen is ignored: the server runs without a display.\<close>

definition CKernel_Initialize :: "(device \<Rightarrow> bool) \<Rightarrow> device list \<times> bool" where
  "CKernel_Initialize init = (
     let st = ([Screen], True);
         st = init_device init Serial st;
         st = init_device init Logger st;
         st = init_device init Interrupt st;
         st = init_device init Timer st
     in init_device init Net_Driver st)"

text \<open>
  The loop that waits for the link.  Each element of the list is one round: the results of \<open>IsLinkUp\<close> and
  \<open>UpdatePHY\<close> (which is only asked while the link is down).  The result is the number of waits of two
  seconds, and \<^const>\<open>None\<close> if the loop has not ended with the list.
\<close>

fun wait_link :: "(bool \<times> bool) list \<Rightarrow> nat option" where
  "wait_link [] = None"
| "wait_link ((IsLinkUp, UpdatePHY) # ps) = (if \<not> IsLinkUp \<and> UpdatePHY then map_option Suc (wait_link ps) else Some 0)"

datatype TShutdownMode = ShutdownNone | ShutdownHalt | ShutdownReboot

datatype 's kernel_state = Shut_Down TShutdownMode | Link_Down | Serving 's "u8 list option list"

text \<open>\<open>CKernel::Run\<close>; \<open>serv\<close> is what the constructor \<open>CDHCPServer\<close> of the lease mode gives.  The receive loop does not end.\<close>

definition CKernel_Run ::
  "bool \<Rightarrow> (bool \<times> bool) list \<Rightarrow> 's option \<Rightarrow> bool \<Rightarrow> 's process \<Rightarrow> u8 list \<Rightarrow> (u8 list \<times> u32) list \<Rightarrow> 's kernel_state option" where
  "CKernel_Run found polls serv dec process mac fs =
     (if \<not> found then Some (Shut_Down ShutdownHalt)
      else case wait_link polls of
        None \<Rightarrow> Some Link_Down
      | Some n \<Rightarrow> do {
          serv \<leftarrow> serv;
          (serv, rs) \<leftarrow> kernel_run dec process mac serv fs;
          Some (Serving serv rs)
        })"

datatype 's machine = Running "'s kernel_state" | EXIT_HALT | EXIT_REBOOT

definition kernel_main ::
  "(device \<Rightarrow> bool) \<Rightarrow> bool \<Rightarrow> (bool \<times> bool) list \<Rightarrow> 's option \<Rightarrow> bool \<Rightarrow> 's process \<Rightarrow> u8 list \<Rightarrow> (u8 list \<times> u32) list \<Rightarrow>
     's machine option" where
  "kernel_main init found polls serv dec process mac fs =
     (if \<not> snd (CKernel_Initialize init) then Some EXIT_HALT
      else do {
        k \<leftarrow> CKernel_Run found polls serv dec process mac fs;
        Some (case k of
            Shut_Down ShutdownReboot \<Rightarrow> EXIT_REBOOT
          | Shut_Down _ \<Rightarrow> EXIT_HALT
          | _ \<Rightarrow> Running k)
      })"

section \<open>Initialisation\<close>

definition required :: "device list" where
  "required = [Serial, Logger, Interrupt, Timer, Net_Driver]"

text \<open>Devices are started in order, none after one that has failed, and the screen does not matter.\<close>

lemma Initialize_result: "snd (CKernel_Initialize init) \<longleftrightarrow> list_all init required"
  by (auto simp: CKernel_Initialize_def init_device_def required_def Let_def split: if_splits)

lemma Initialize_order:
  "\<exists>n. fst (CKernel_Initialize init) = Screen # take n required \<and> list_all init (take (n - 1) required) \<and> 0 < n \<and>
    (snd (CKernel_Initialize init) \<longrightarrow> n = 5) \<and> (\<not> snd (CKernel_Initialize init) \<longrightarrow> \<not> init (required ! (n - 1)))"
proof -
  consider "\<not> init Serial" | "init Serial" "\<not> init Logger" | "init Serial" "init Logger" "\<not> init Interrupt"
    | "init Serial" "init Logger" "init Interrupt" "\<not> init Timer"
    | "init Serial" "init Logger" "init Interrupt" "init Timer" by blast
  then show ?thesis
  proof cases
    case 1
    then show ?thesis by (intro exI [of _ 1]) (simp add: CKernel_Initialize_def init_device_def required_def)
  next
    case 2
    then show ?thesis by (intro exI [of _ 2]) (simp add: CKernel_Initialize_def init_device_def required_def)
  next
    case 3
    then show ?thesis by (intro exI [of _ 3]) (simp add: CKernel_Initialize_def init_device_def required_def)
  next
    case 4
    then show ?thesis by (intro exI [of _ 4]) (simp add: CKernel_Initialize_def init_device_def required_def)
  next
    case 5
    then show ?thesis by (intro exI [of _ 5]) (simp add: CKernel_Initialize_def init_device_def required_def)
  qed
qed

section \<open>Waiting for the link\<close>

lemma wait_link_None: "wait_link ps = None \<longleftrightarrow> set ps \<subseteq> {(False, True)}"
  by (induction ps rule: wait_link.induct) auto

lemma wait_link_Some: "wait_link ps = Some n \<longleftrightarrow> n < length ps \<and> ps ! n \<noteq> (False, True) \<and> (\<forall>i < n. ps ! i = (False, True))"
proof (induction ps arbitrary: n rule: wait_link.induct)
  case (2 up upd ps)
  then show ?case by (cases n) (auto simp: nth_Cons' All_less_Suc2 split: if_splits)
qed simp

section \<open>The machine\<close>

lemma main_never_reboots: "kernel_main init found polls serv dec process mac fs \<noteq> Some EXIT_REBOOT"
  by (auto simp: kernel_main_def CKernel_Run_def bind_eq_Some_iff split: option.splits)

lemma main_halts:
  assumes "kernel_main init found polls serv dec process mac fs = Some m"
  shows "m = EXIT_HALT \<longleftrightarrow> \<not> list_all init required \<or> \<not> found"
  using assms
  by (auto simp: kernel_main_def CKernel_Run_def Initialize_result bind_eq_Some_iff split: option.splits if_splits)

lemma main_waits:
  assumes "list_all init required" and "found" and "set polls \<subseteq> {(False, True)}"
  shows "kernel_main init found polls serv dec process mac fs = Some (Running Link_Down)"
  using assms wait_link_None [of polls] by (simp add: kernel_main_def CKernel_Run_def Initialize_result)

lemma main_serves:
  assumes "list_all init required" and "found" and "\<not> set polls \<subseteq> {(False, True)}" and "serv = Some s0"
    and "kernel_run dec process mac s0 fs = Some (s, rs)"
  shows "kernel_main init found polls serv dec process mac fs = Some (Running (Serving s rs))"
  using assms wait_link_None [of polls] by (auto simp: kernel_main_def CKernel_Run_def Initialize_result)

section \<open>Every lease mode\<close>

context address_server
begin

lemma main_total:
  assumes "\<exists>s0. serv = Some s0 \<and> inv s0" and "\<forall>(buf, ticks) \<in> set fs. good_frame buf" and "length mac = 6"
    and "dec \<or> (\<forall>s m. decline s m = Some s)"
  shows "\<exists>m. kernel_main init found polls serv dec (serve offer commit decline) mac fs = Some m \<and>
    (\<forall>s rs. m = Running (Serving s rs) \<longrightarrow> inv s)"
proof -
  obtain s0 where s0: "serv = Some s0" "inv s0" using assms(1) by blast
  obtain s rs where "kernel_run dec (serve offer commit decline) mac s0 fs = Some (s, rs)" "inv s"
    using kernel_run_ok [OF s0(2) assms(2-4)] by blast
  with s0 show ?thesis by (auto simp: kernel_main_def CKernel_Run_def split: option.splits)
qed

end

text \<open>
  Whatever the drivers return and whenever the link comes up, the machine halts, waits or serves,
  and a server that serves is in its invariant.
\<close>

theorem machine_safe:
  assumes "\<forall>(buf, ticks) \<in> set fs. good_frame buf" and "length mac = 6"
  shows "length m_leases = 2048 \<Longrightarrow> \<forall>l \<in> set m_leases. length (mac_address l) = 6 \<Longrightarrow>
      \<exists>m. kernel_main init found polls (CDHCPServer_array m_leases) True dhcp_process_message_array mac fs = Some m \<and>
        (\<forall>s rs. m = Running (Serving s rs) \<longrightarrow> array_server_inv s)"
    and "hash_memory HASH_ELEM_MAX (leases (pool hm)) \<Longrightarrow> hash_memory HASH_ELEM_IP_SIZE (ip_set (pool hm)) \<Longrightarrow>
      \<exists>m. kernel_main init found polls (CDHCPServer_hashmap hm) True dhcp_process_message_hashmap mac fs = Some m \<and>
        (\<forall>s rs. m = Running (Serving s rs) \<longrightarrow> hash_server_inv s)"
    and "length m_bmvar_ips = (unat DHCP_POOL_SIZE + 31) div 32 \<Longrightarrow>
      \<exists>m. kernel_main init found polls (CDHCPServer_bmvar vm r m_bmvar_ips) False dhcp_process_message_bmvar mac fs = Some m \<and>
        (\<forall>s rs. m = Running (Serving s rs) \<longrightarrow> var_server_inv s)"
    and "length m_bmuni_ranges = 4 \<Longrightarrow> length m_bmuni_ips = 4 \<Longrightarrow>
      \<forall>bm \<in> set m_bmuni_ips. length bm = (unat (DHCP_POOL_SIZE div DHCP_BMUNI_NUM_RANGES) + 31) div 32 \<Longrightarrow>
      \<exists>m. kernel_main init found polls (CDHCPServer_bmuni um m_bmuni_ranges m_bmuni_ips) False dhcp_process_message_bmuni mac fs = Some m \<and>
        (\<forall>s rs. m = Running (Serving s rs) \<longrightarrow> uni_server_inv s)"
    and "\<exists>m. kernel_main init found polls (Some (CDHCPServer_nprc (nm :: 64 nprc_server))) False nprc_step mac fs = Some m \<and>
        (\<forall>s rs. m = Running (Serving s rs) \<longrightarrow> nprc_server_inv s)"
proof -
  note total = address_server.main_total
  have nodec: "False \<or> (\<forall>s m. no_decline s m = Some s)" by (simp add: no_decline_def)
  show "\<exists>m. kernel_main init found polls (CDHCPServer_array m_leases) True dhcp_process_message_array mac fs = Some m \<and>
      (\<forall>s rs. m = Running (Serving s rs) \<longrightarrow> array_server_inv s)"
    if "length m_leases = 2048" "\<forall>l \<in> set m_leases. length (mac_address l) = 6"
    unfolding process_array_is_serve using CDHCPServer_array_ok [of m_leases] that
    by (intro total [OF arr.srv.address_server_axioms _ assms]) (auto simp: DHCP_MAX_LEASES_def)
  show "\<exists>m. kernel_main init found polls (CDHCPServer_hashmap hm) True dhcp_process_message_hashmap mac fs = Some m \<and>
      (\<forall>s rs. m = Running (Serving s rs) \<longrightarrow> hash_server_inv s)"
    if "hash_memory HASH_ELEM_MAX (leases (pool hm))" "hash_memory HASH_ELEM_IP_SIZE (ip_set (pool hm))"
    unfolding process_hashmap_is_serve using CDHCPServer_hashmap_ok [OF that]
    by (intro total [OF hsh.srv.address_server_axioms _ assms]) auto
  show "\<exists>m. kernel_main init found polls (CDHCPServer_bmvar vm r m_bmvar_ips) False dhcp_process_message_bmvar mac fs = Some m \<and>
      (\<forall>s rs. m = Running (Serving s rs) \<longrightarrow> var_server_inv s)"
    if "length m_bmvar_ips = (unat DHCP_POOL_SIZE + 31) div 32"
    unfolding process_bmvar_is_serve using CDHCPServer_bmvar_ok [OF that]
    by (intro total [OF bmv.address_server_axioms _ assms nodec]) blast
  show "\<exists>m. kernel_main init found polls (CDHCPServer_bmuni um m_bmuni_ranges m_bmuni_ips) False dhcp_process_message_bmuni mac fs =
      Some m \<and> (\<forall>s rs. m = Running (Serving s rs) \<longrightarrow> uni_server_inv s)"
    if "length m_bmuni_ranges = 4" "length m_bmuni_ips = 4"
      "\<forall>bm \<in> set m_bmuni_ips. length bm = (unat (DHCP_POOL_SIZE div DHCP_BMUNI_NUM_RANGES) + 31) div 32"
    unfolding process_bmuni_is_serve using CDHCPServer_bmuni_ok [OF that]
    by (intro total [OF bmu.address_server_axioms _ assms nodec]) blast
  show "\<exists>m. kernel_main init found polls (Some (CDHCPServer_nprc nm)) False nprc_step mac fs = Some m \<and>
      (\<forall>s rs. m = Running (Serving s rs) \<longrightarrow> nprc_server_inv s)"
    unfolding process_nprc_is_serve using CDHCPServer_nprc_ok(1) [of nm]
    by (intro total [OF npr.address_server_axioms _ assms nodec]) simp
qed

end
