(* ===== verification/Raw_Socket.thy ===== *)
theory Raw_Socket
  imports Prelude
begin

text \<open>
  The packet capture socket of the load generator, \<open>bench-live/raw_socket.c\<close>.  The capture library is
  not part of the repository: the results of its calls are arguments, the calls themselves are
  recorded in order, and \<open>'h\<close> is the type of its handles.  The global variable \<open>handle\<close> is passed and
  returned.
\<close>

section \<open>Model\<close>

datatype 'h pcap_call =
    Pcap_Create string | Set_Snaplen 'h nat | Set_Promisc 'h nat | Set_Immediate_Mode 'h nat | Set_Timeout 'h nat
  | Activate 'h | Compile 'h string | Set_Filter 'h | Free_Code | Breakloop 'h | Close 'h

definition dhcp_filter :: string where
  "dhcp_filter = ''udp port 67 or udp port 68''"

definition raw_socket_init :: "string \<Rightarrow> 'h option \<Rightarrow> int \<Rightarrow> int \<Rightarrow> 'h option \<times> 'h pcap_call list \<times> int" where
  "raw_socket_init iface created activated compiled =
     (case created of
        None \<Rightarrow> (None, [Pcap_Create iface], -1)
      | Some h \<Rightarrow>
          let calls = [Pcap_Create iface, Set_Snaplen h 65535, Set_Promisc h 1, Set_Immediate_Mode h 1, Set_Timeout h 1, Activate h]
          in if activated \<noteq> 0 then (None, calls @ [Close h], -1)
             else (Some h, calls @ [Compile h dhcp_filter] @ (if compiled = 0 then [Set_Filter h, Free_Code] else []), 0))"

text \<open>\<open>pcap_inject\<close> gets the first \<open>len\<close> bytes of the buffer and its result is passed on.\<close>

definition raw_send :: "('h option \<Rightarrow> u8 list \<Rightarrow> int) \<Rightarrow> 'h option \<Rightarrow> u8 list \<Rightarrow> nat \<Rightarrow> int option" where
  "raw_send pcap_inject handle buf len = map_option (pcap_inject handle) (rd_bytes buf 0 len)"

text \<open>
  \<open>pkt\<close> is the captured packet with its field \<open>caplen\<close> when \<open>pcap_next_ex\<close> returns 1.  The length is
  compared as an \<open>int\<close>; a negative length would become a size larger than any buffer.
\<close>

definition raw_recv :: "(u32 \<times> u8 list) option \<Rightarrow> u8 list \<Rightarrow> int \<Rightarrow> (u8 list \<times> int) option" where
  "raw_recv pkt buf maxlen =
     (case pkt of
        None \<Rightarrow> Some (buf, -1)
      | Some (caplen, data) \<Rightarrow>
          let copy_len = (if sint caplen < maxlen then sint caplen else maxlen)
          in if copy_len < 0 then None
             else do {
               buf \<leftarrow> kmemcpy buf 0 data (nat copy_len);
               Some (buf, copy_len)
             })"

definition raw_socket_close :: "'h option \<Rightarrow> 'h option \<times> 'h pcap_call list" where
  "raw_socket_close handle = (case handle of None \<Rightarrow> (None, []) | Some h \<Rightarrow> (None, [Breakloop h, Close h]))"

section \<open>Handles\<close>

text \<open>The handle is set exactly when the initialisation succeeds.\<close>

lemma raw_socket_init_handle:
  "raw_socket_init iface created activated compiled = (handle, calls, rc) \<Longrightarrow>
    (rc = 0 \<longleftrightarrow> handle \<noteq> None) \<and> (rc = 0 \<or> rc = -1) \<and> (handle \<noteq> None \<longleftrightarrow> created \<noteq> None \<and> activated = 0)"
  by (auto simp: raw_socket_init_def Let_def split: option.splits if_splits)

text \<open>
  Initialising and later closing the socket closes each handle that was created exactly once, on
  every path, and uses it for nothing after that; closing a second time does nothing.
\<close>

theorem raw_socket_no_leak:
  assumes "raw_socket_init iface (Some h) activated compiled = (handle, calls, rc)"
    and "raw_socket_close handle = (handle', calls')"
  shows "count_list (calls @ calls') (Close h) = 1 \<and> last (calls @ calls') = Close h \<and> handle' = None"
  using assms by (auto simp: raw_socket_init_def raw_socket_close_def Let_def split: if_splits)

lemma raw_socket_close_twice: "raw_socket_close (fst (raw_socket_close handle)) = (None, [])"
  by (simp add: raw_socket_close_def split: option.splits)

section \<open>Receiving\<close>

text \<open>
  The documentation of the capture library promises that \<open>caplen\<close> bytes are there and that they are
  not more than the length set by \<open>pcap_set_snaplen\<close>.  A packet longer than the buffer is cut.
\<close>

definition captured :: "u32 \<times> u8 list \<Rightarrow> bool" where
  "captured pkt \<longleftrightarrow> unat (fst pkt) = length (snd pkt) \<and> unat (fst pkt) \<le> 65535"

lemma sint_captured:
  assumes "captured (caplen, data)"
  shows "sint caplen = int (length data)"
proof -
  have u: "uint caplen = int (length data)" using assms uint_nat [of caplen] by (simp add: captured_def)
  moreover have "length data < 2 ^ 31" using assms by (simp add: captured_def)
  ultimately have "uint caplen < 2 ^ 31" by simp
  then have "signed_take_bit 31 (uint caplen) = uint caplen"
    using uint_ge_0 [of caplen] by (intro signed_take_bit_int_eq_self) linarith+
  then have "sint caplen = uint caplen" by (simp add: sint_uint)
  with u show ?thesis by simp
qed

theorem raw_recv_ok:
  assumes "captured (caplen, data)" and "n \<le> length buf"
  shows "raw_recv (Some (caplen, data)) buf (int n) =
    Some (take n data @ drop (min n (length data)) buf, int (min n (length data)))"
proof -
  note c = sint_captured [OF assms(1)]
  show ?thesis
    using assms(2) by (cases "length data < n") (auto simp: raw_recv_def c kmemcpy_def min_def)
qed

end
