(* ===== verification/Frame_Log.thy ===== *)
theory Frame_Log
  imports Adapter_Correct
begin

text \<open>
  The log output of frames: \<open>circle/sample/06-ethernet-dhcp-lib/debug-frame.cpp\<close> and \<open>hexdump\<close> of
  \<open>bench-live/utils.c\<close>.  A line of the log is its arguments; the text of the format strings is left out.
  The functions only read, and the lemmas say what can be read off their output.
\<close>

section \<open>The log of the server\<close>

datatype log_line =
    Log_Eth "u8 list" "u8 list" u16
  | Log_Ip u8 u8 u16 u16
  | Log_Ip_Flags u16 u8 u8 u16
  | Log_Ip_Addrs "u8 list" "u8 list"
  | Log_Udp u16 u16 u16 u16
  | Log_Dhcp u8 u8 u8 u8 u32
  | Log_Dhcp_Flags u16 u16
  | Log_Dhcp_Addrs "u8 list" "u8 list"
  | Log_Dhcp_Client "u8 list" u32

text \<open>\<open>logger\<close> is whether the pointer to the logger is not null; an address of the Ethernet header is six bytes.\<close>

definition logEthernetHdr :: "bool \<Rightarrow> EthernetHdr \<Rightarrow> log_line list" where
  "logEthernetHdr logger eth =
     (if \<not> logger then [] else [Log_Eth (eth_srcMAC eth) (eth_dstMAC eth) (BE (eth_etherType eth))])"

definition logIPv4Hdr :: "bool \<Rightarrow> IPv4Hdr \<Rightarrow> log_line list" where
  "logIPv4Hdr logger ipv4 =
     (if \<not> logger then []
      else [Log_Ip (ip_versionIhl ipv4) (ip_tos ipv4) (BE (ip_totalLen ipv4)) (BE (ip_ident ipv4)),
        Log_Ip_Flags (BE (ip_flags ipv4)) (ip_ttl ipv4) (ip_protocol ipv4) (BE (ip_checksum ipv4)),
        Log_Ip_Addrs (ip_srcIP ipv4) (ip_dstIP ipv4)])"

definition logUDPHdr :: "bool \<Rightarrow> UDPHdr \<Rightarrow> log_line list" where
  "logUDPHdr logger udp =
     (if \<not> logger then []
      else [Log_Udp (BE (udp_srcPort udp)) (BE (udp_dstPort udp)) (BE (udp_totalLen udp)) (BE (udp_checksum udp))])"

text \<open>\<open>secs\<close> and \<open>flags\<close> are written as they are in memory, without \<open>BE\<close>; of \<open>chaddr\<close> the first six bytes are formatted.\<close>

definition logDHCPHdr :: "bool \<Rightarrow> DHCPHdr \<Rightarrow> log_line list option" where
  "logDHCPHdr logger dhcp =
     (if \<not> logger then Some []
      else do {
        clientHdAddr \<leftarrow> rd_bytes (dh_chaddr dhcp) 0 6;
        Some [Log_Dhcp (dh_op dhcp) (dh_htype dhcp) (dh_hlen dhcp) (dh_hops dhcp) (BE32 (dh_xid dhcp)),
          Log_Dhcp_Flags (dh_secs dhcp) (dh_flags dhcp),
          Log_Dhcp_Addrs (dh_ciaddr dhcp) (dh_yiaddr dhcp),
          Log_Dhcp_Addrs (dh_siaddr dhcp) (dh_giaddr dhcp),
          Log_Dhcp_Client clientHdAddr (BE32 (dh_magic dhcp))]
      })"

text \<open>The log of the Ethernet, IPv4 and UDP headers determines the header.\<close>

lemma BE_inject [simp]: "BE x = BE y \<longleftrightarrow> x = y"
  by (simp add: BE_htons)

lemma log_determines:
  "logEthernetHdr True e = logEthernetHdr True e' \<Longrightarrow> e = e'"
  "logIPv4Hdr True i = logIPv4Hdr True i' \<Longrightarrow> i = i'"
  "logUDPHdr True u = logUDPHdr True u' \<Longrightarrow> u = u'"
  by (auto simp: logEthernetHdr_def logIPv4Hdr_def logUDPHdr_def
      intro: EthernetHdr.equality IPv4Hdr.equality UDPHdr.equality)

lemma logDHCPHdr_total: "dhcp_ok h \<Longrightarrow> \<exists>ls. logDHCPHdr logger h = Some ls"
  by (simp add: logDHCPHdr_def rd_bytes_def dhcp_ok_def)

text \<open>The broadcast flag \<open>0x8000\<close> of a client is printed as \<open>0x0080\<close>.\<close>

lemma logDHCPHdr_swapped:
  assumes "dhcp_ok h" and "dh_flags h = BE 0x8000"
  shows "\<exists>ls. logDHCPHdr True h = Some ls \<and> Log_Dhcp_Flags (dh_secs h) 0x0080 \<in> set ls"
proof -
  have "BE 0x8000 = 0x0080" by code_simp
  with assms show ?thesis by (simp add: logDHCPHdr_def rd_bytes_def dhcp_ok_def)
qed

section \<open>The dump of the load generator\<close>

datatype dump_item = Dump_Offset nat | Dump_Byte u8 | Dump_End

function hexdump_from :: "u8 list \<Rightarrow> nat \<Rightarrow> nat \<Rightarrow> dump_item list option" where
  "hexdump_from buf len i =
     (if i < len then do {
        b \<leftarrow> rd buf i;
        out \<leftarrow> hexdump_from buf len (i + 1);
        Some ((if i mod 16 = 0 then [Dump_Offset i] else []) @ [Dump_Byte b] @ out)
      }
      else Some [Dump_End])"
  by pat_completeness auto
termination
  by (relation "measure (\<lambda>(_, len, i). len - i)") auto

declare hexdump_from.simps [simp del]

definition hexdump :: "u8 list \<Rightarrow> nat \<Rightarrow> dump_item list option" where
  "hexdump buf len = hexdump_from buf len 0"

text \<open>What a reader of the dump collects: the bytes.\<close>

fun dumped :: "dump_item list \<Rightarrow> u8 list" where
  "dumped [] = []"
| "dumped (Dump_Byte b # out) = b # dumped out"
| "dumped (_ # out) = dumped out"

lemma hexdump_from_ok:
  assumes "len \<le> length buf" and "i \<le> len"
  shows "\<exists>out. hexdump_from buf len i = Some out \<and> dumped out = drop i (take len buf)"
  using assms
proof (induction buf len i rule: hexdump_from.induct)
  case (1 buf len i)
  show ?case
  proof (cases "i < len")
    case False
    then show ?thesis using 1(3) by (subst hexdump_from.simps) simp
  next
    case True
    have r: "rd buf i = Some (buf ! i)" using True 1(2) by (simp add: rd_def)
    obtain out where out: "hexdump_from buf len (i + 1) = Some out" "dumped out = drop (i + 1) (take len buf)"
      using "1.IH" [OF True r] 1(2) True by auto
    have "drop i (take len buf) = buf ! i # drop (i + 1) (take len buf)"
      using True 1(2) Cons_nth_drop_Suc [of i "take len buf"] by simp
    with True r out show ?thesis by (subst hexdump_from.simps) simp
  qed
qed

theorem hexdump_roundtrip:
  assumes "len \<le> length buf"
  shows "map_option dumped (hexdump buf len) = Some (take len buf)"
  using hexdump_from_ok [OF assms, of 0] by (auto simp: hexdump_def)

end
