(* ===== verification/Bench_Main.thy ===== *)
theory Bench_Main
  imports Circle_Server Workers_Properties "HOL-Library.Signed_Division"
begin

text \<open>
  The two main programs of the load generator around their loops: \<open>main\<close> of \<open>bench-live/dhcp-client.c\<close>,
  which stops when there is no socket and draws the hardware address and the transaction identifier
  of each client from \<open>rand\<close>, and the summary that both programs print.
\<close>

section \<open>Model\<close>

text \<open>The division of \<open>long\<close>: it truncates, and dividing by 0 is undefined.\<close>

definition long_div :: "int \<Rightarrow> int \<Rightarrow> int option" where
  "long_div a b = (if b = 0 then None else Some (a sdiv b))"

record report =
  rp_passed :: int
  rp_failed :: int
  rp_total_avg :: int
  rp_success_avg :: int
  rp_fail_avg :: int

definition print_results :: "results \<Rightarrow> int \<Rightarrow> report option" where
  "print_results r num_clients = do {
     t \<leftarrow> long_div (total_ms r) num_clients;
     s \<leftarrow> (if passed r = 0 then Some 0 else long_div (success_ms r) (passed r));
     f \<leftarrow> (if failed r = 0 then Some 0 else long_div (fail_ms r) (failed r));
     Some \<lparr>rp_passed = passed r, rp_failed = failed r, rp_total_avg = t, rp_success_avg = s, rp_fail_avg = f\<rparr>
   }"

text \<open>Six values of \<open>rand\<close> make the address of a client and the next one its identifier.\<close>

fun draw_clients :: "(nat \<Rightarrow> u32) \<Rightarrow> nat \<Rightarrow> client_input list \<Rightarrow> client_input list" where
  "draw_clients rand k [] = []"
| "draw_clients rand k (x # xs) = x\<lparr>in_mac := random_mac rand k, in_xid := rand (k + 6)\<rparr> # draw_clients rand (k + 7) xs"

datatype bench_exit = No_Socket | Finished report | In_Recv

definition zero_results :: results where
  "zero_results = \<lparr>passed = 0, failed = 0, total_ms = 0, success_ms = 0, fail_ms = 0\<rparr>"

text \<open>The list has what the outside does to each of the \<open>NUM_CLIENTS\<close> clients.\<close>

definition seq_main :: "bool \<Rightarrow> (nat \<Rightarrow> u32) \<Rightarrow> client_input list \<Rightarrow> bench_exit option" where
  "seq_main socket rand xs =
     (if \<not> socket then Some No_Socket
      else do {
        (r, returned) \<leftarrow> main_loop zero_results (draw_clients rand 0 xs);
        if \<not> returned then Some In_Recv
        else do {
          rp \<leftarrow> print_results r (int (length xs));
          Some (Finished rp)
        }
      })"

definition exit_code :: "bench_exit \<Rightarrow> int option" where
  "exit_code e = (case e of No_Socket \<Rightarrow> Some 1 | Finished rp \<Rightarrow> Some 0 | In_Recv \<Rightarrow> None)"

section \<open>Properties\<close>

text \<open>The summary never divides by 0, and it accounts for every client.\<close>

lemma print_results_ok:
  assumes "0 < n"
  shows "\<exists>rp. print_results r n = Some rp \<and> rp_passed rp = passed r \<and> rp_failed rp = failed r"
  using assms by (simp add: print_results_def long_div_def)

lemma draw_clients_ok:
  "length (draw_clients rand k xs) = length xs"
  "\<forall>x \<in> set (draw_clients rand k xs). length (in_mac x) = 6 \<and> \<not> bit (in_mac x ! 0) 0"
  "(\<forall>x \<in> set (draw_clients rand k xs). P (in_sbuf x) (in_events x)) \<longleftrightarrow> (\<forall>x \<in> set xs. P (in_sbuf x) (in_events x))"
  by (induction xs arbitrary: k) (auto simp: random_mac_ok)

theorem seq_main_finishes:
  assumes "xs \<noteq> []" and "\<forall>x \<in> set xs. length (in_sbuf x) = SBUF_LEN \<and> 5 \<le> count_list (in_events x) Timeout"
  shows "\<exists>rp. seq_main True rand xs = Some (Finished rp) \<and> rp_passed rp + rp_failed rp = int (length xs)"
proof -
  let ?ys = "draw_clients rand 0 xs"
  have "\<forall>x \<in> set ?ys. length (in_sbuf x) = SBUF_LEN \<and> 5 \<le> count_list (in_events x) Timeout"
    using draw_clients_ok(3) [where P = "\<lambda>b es. length b = SBUF_LEN \<and> 5 \<le> count_list es Timeout", of rand 0 xs] assms(2) by blast
  then have "\<forall>x \<in> set ?ys. length (in_mac x) = 6 \<and> length (in_sbuf x) = SBUF_LEN \<and> 5 \<le> count_list (in_events x) Timeout"
    using draw_clients_ok(2) [of rand 0 xs] by blast
  from main_counts_all [OF this, of zero_results] obtain r where
    r: "main_loop zero_results ?ys = Some (r, True)" "passed r + failed r = int (length xs)"
    by (auto simp: zero_results_def draw_clients_ok(1))
  obtain rp where "print_results r (int (length xs)) = Some rp" "rp_passed rp = passed r" "rp_failed rp = failed r"
    using print_results_ok [of "int (length xs)" r] assms(1) by auto
  with r show ?thesis by (simp add: seq_main_def)
qed

lemma seq_main_no_socket: "seq_main socket rand xs = Some e \<Longrightarrow> exit_code e = Some 1 \<longleftrightarrow> \<not> socket"
  by (auto simp: seq_main_def exit_code_def bind_eq_Some_iff split: if_splits)

text \<open>The program with threads prints the same summary for the clients as the threads have left them.\<close>

theorem async_summary:
  assumes "cs \<noteq> []"
  shows "\<exists>rp. print_results (collect_results zero_results cs) (int (length cs)) = Some rp \<and>
    rp_passed rp + rp_failed rp = int (length cs)"
  using print_results_ok [of "int (length cs)" "collect_results zero_results cs"] assms collect_results_count [of zero_results cs]
  by (auto simp: zero_results_def)

end
