(* ===== verification/Fleet.thy ===== *)
theory Fleet
  imports Window_Exchange
begin

text \<open>
  The run that the load generator is made for: many clients, one after the other, against one server
  on a network without loss.  With a backend that records leases, every client succeeds as long as
  the table and the pool have room, and no two clients get the same address.
\<close>

section \<open>The run\<close>

text \<open>
  A client with the contents of its uninitialised variables, and for each round the rest of the
  receive buffer of the server and its timer.
\<close>

record fleet_client =
  fc_client :: client
  fc_sbuf :: "u8 list"
  fc_pmeta :: parse_meta
  fc_rounds :: "(u8 list \<times> u32) list"

abbreviation fc_mac :: "fleet_client \<Rightarrow> u8 list" where
  "fc_mac x \<equiv> c_mac (fc_client x)"

definition fleet_ok :: "fleet_client \<Rightarrow> bool" where
  "fleet_ok x \<longleftrightarrow> client_ok (fc_client x) \<and> c_retries (fc_client x) = 0 \<and> length (fc_sbuf x) = SBUF_LEN \<and> length (fc_rounds x) = 2"

fun fleet_run :: "bool \<Rightarrow> 's process \<Rightarrow> u8 list \<Rightarrow> 's \<Rightarrow> fleet_client list \<Rightarrow> ('s \<times> client_status list) option" where
  "fleet_run dec process mac s [] = Some (s, [])"
| "fleet_run dec process mac s (x # xs) = do {
     st \<leftarrow> client_start (\<lambda>_. False) (fc_client x) (fc_sbuf x) (fc_pmeta x);
     (s, st) \<leftarrow> net_run dec process mac (s, st) (fc_rounds x);
     (s, sts) \<leftarrow> fleet_run dec process mac s xs;
     Some (s, st # sts)
   }"

text \<open>The status of a client that has returned 0 with the address \<open>ip\<close>.\<close>

fun assigned :: "u32 \<Rightarrow> client_status \<Rightarrow> bool" where
  "assigned ip (Returned cr rc) = (rc = 0 \<and> c_assigned_ip (cr_c cr) = be_bytes ip)"
| "assigned ip (Waiting cr) = False"

fun status_ip :: "client_status \<Rightarrow> u8 list" where
  "status_ip (Returned cr rc) = c_assigned_ip (cr_c cr)"
| "status_ip (Waiting cr) = c_assigned_ip (cr_c cr)"

lemma assigned_ip: "assigned ip st \<Longrightarrow> status_ip st = be_bytes ip"
  by (cases st) simp_all

lemma be_bytes_inject: "be_bytes a = be_bytes b \<Longrightarrow> a = b"
  by (metis option.inject unpackIP_be_bytes)

text \<open>A client has the address of the pool that the lease map has for its hardware address.\<close>

definition served :: "dhcp_config_t \<Rightarrow> lease_map \<Rightarrow> fleet_client \<Rightarrow> client_status \<Rightarrow> bool" where
  "served c L x st =
     (case L (fc_mac x) of
        None \<Rightarrow> False
      | Some (ip, e) \<Rightarrow> assigned ip st \<and> pool_start c \<le> ip \<and> ip \<le> pool_end c)"

lemma servedE:
  assumes "served c L x st"
  obtains ip e where "L (fc_mac x) = Some (ip, e)" "assigned ip st"
  using assms by (auto simp: served_def split: option.splits)

section \<open>Counting\<close>

lemma card_leased_le: "finite (dom L) \<Longrightarrow> finite (leased_ips L) \<and> card (leased_ips L) \<le> card (dom L)"
proof -
  assume f: "finite (dom L)"
  have "leased_ips L = (\<lambda>k. fst (the (L k))) ` dom L" by (force simp: leased_ips_iff)
  with f show ?thesis by (simp add: card_image_le)
qed

lemma free_address:
  assumes "finite (dom L)" and "card (dom L) < card {a. lo \<le> a \<and> a \<le> hi}"
  shows "\<exists>a. lo \<le> a \<and> a \<le> hi \<and> a \<notin> leased_ips L"
proof (rule ccontr)
  assume "\<nexists>a. lo \<le> a \<and> a \<le> hi \<and> a \<notin> leased_ips L"
  then have "{a. lo \<le> a \<and> a \<le> hi} \<subseteq> leased_ips L" by blast
  then have "card {a. lo \<le> a \<and> a \<le> hi} \<le> card (dom L)"
    using card_leased_le [OF assms(1)] card_mono order.trans by blast
  with assms(2) show False by simp
qed

section \<open>Backends with leases\<close>

context lease_server
begin

lemma fleet_step:
  assumes "inv s" and "0 < pool_start (config s)" and "masked (config s)" and "length mac = 6" and "fleet_ok x"
    and "fc_mac x \<notin> dom (leases_of (pool s))" and "card (dom (leases_of (pool s))) < cap (pool s)"
    and "card (dom (leases_of (pool s))) < card {a. pool_start (config s) \<le> a \<and> a \<le> pool_end (config s)}"
  shows "\<exists>st0 s' cr ip e. client_start (\<lambda>_. False) (fc_client x) (fc_sbuf x) (fc_pmeta x) = Some st0 \<and>
    net_run True (serve offer commit decline) mac (s, st0) (fc_rounds x) = Some (s', Returned cr 0) \<and>
    inv s' \<and> c_assigned_ip (cr_c cr) = be_bytes ip \<and> pool_start (config s) \<le> ip \<and> ip \<le> pool_end (config s) \<and>
    leases_of (pool s') = (leases_of (pool s))(fc_mac x \<mapsto> (ip, e)) \<and> config s' = config s \<and> cap (pool s') = cap (pool s)"
proof -
  obtain a where a: "pool_start (config s) \<le> a" "a \<le> pool_end (config s)" "a \<notin> leased_ips (leases_of (pool s))"
    using free_address [OF _ assms(8)] finite_leases [OF assms(1)] by blast
  obtain rest1 ticks1 rest2 ticks2 where r: "fc_rounds x = [(rest1, ticks1), (rest2, ticks2)]"
    using assms(5) by (auto simp: fleet_ok_def length_Suc_conv numeral_2_eq_2)
  have "leases_of (pool s) (fc_mac x) \<noteq> Some (0, e)" for e using assms(6) by auto
  note E = exchange [OF assms(1,2,7) this a assms(3,4)]
  show ?thesis
    unfolding r using E [of "fc_sbuf x" "fc_pmeta x" rest1 ticks1 rest2 ticks2] assms(5) unfolding fleet_ok_def by blast
qed

text \<open>
  Every client gets an address and the server records it; the leases of other clients stay as they are.
\<close>

lemma fleet_served:
  assumes "inv s" and "0 < pool_start (config s)" and "masked (config s)" and "length mac = 6" and "\<forall>x \<in> set xs. fleet_ok x"
    and "distinct (map fc_mac xs)" and "\<forall>x \<in> set xs. fc_mac x \<notin> dom (leases_of (pool s))"
    and "card (dom (leases_of (pool s))) + length xs \<le> cap (pool s)"
    and "card (dom (leases_of (pool s))) + length xs \<le> card {a. pool_start (config s) \<le> a \<and> a \<le> pool_end (config s)}"
  shows "\<exists>s' sts. fleet_run True (serve offer commit decline) mac s xs = Some (s', sts) \<and> inv s' \<and>
    (\<forall>k. k \<notin> fc_mac ` set xs \<longrightarrow> leases_of (pool s') k = leases_of (pool s) k) \<and>
    list_all2 (served (config s) (leases_of (pool s'))) xs sts"
  using assms
proof (induction xs arbitrary: s)
  case Nil
  then show ?case by simp
next
  case (Cons x xs)
  have "fleet_ok x" "fc_mac x \<notin> dom (leases_of (pool s))" "card (dom (leases_of (pool s))) < cap (pool s)"
    "card (dom (leases_of (pool s))) < card {a. pool_start (config s) \<le> a \<and> a \<le> pool_end (config s)}"
    using Cons.prems(5,7,8,9) by auto
  from fleet_step [OF Cons.prems(1-4) this] obtain st0 s1 cr ip e where
    x: "client_start (\<lambda>_. False) (fc_client x) (fc_sbuf x) (fc_pmeta x) = Some st0"
      "net_run True (serve offer commit decline) mac (s, st0) (fc_rounds x) = Some (s1, Returned cr 0)"
      "c_assigned_ip (cr_c cr) = be_bytes ip" "pool_start (config s) \<le> ip" "ip \<le> pool_end (config s)"
    and s1: "inv s1" "leases_of (pool s1) = (leases_of (pool s))(fc_mac x \<mapsto> (ip, e))" "config s1 = config s"
      "cap (pool s1) = cap (pool s)" by blast
  have card: "card (dom (leases_of (pool s1))) = Suc (card (dom (leases_of (pool s))))"
    using s1(2) Cons.prems(7) finite_leases [OF Cons.prems(1)] by simp
  have "\<exists>s' sts. fleet_run True (serve offer commit decline) mac s1 xs = Some (s', sts) \<and> inv s' \<and>
    (\<forall>k. k \<notin> fc_mac ` set xs \<longrightarrow> leases_of (pool s') k = leases_of (pool s1) k) \<and>
    list_all2 (served (config s1) (leases_of (pool s'))) xs sts"
  proof (rule Cons.IH)
    show "\<forall>y \<in> set xs. fc_mac y \<notin> dom (leases_of (pool s1))" using Cons.prems(6,7) s1(2) by (auto simp: image_iff)
    show "card (dom (leases_of (pool s1))) + length xs \<le> cap (pool s1)"
      using Cons.prems(8) unfolding card s1(4) by simp
    show "card (dom (leases_of (pool s1))) + length xs \<le> card {a. pool_start (config s1) \<le> a \<and> a \<le> pool_end (config s1)}"
      using Cons.prems(9) unfolding card s1(3) by simp
  qed (use Cons.prems s1(1,3) in auto)
  then obtain s' sts where s': "fleet_run True (serve offer commit decline) mac s1 xs = Some (s', sts)" "inv s'"
    "\<forall>k. k \<notin> fc_mac ` set xs \<longrightarrow> leases_of (pool s') k = leases_of (pool s1) k"
    "list_all2 (served (config s) (leases_of (pool s'))) xs sts"
    unfolding s1(3) by blast
  have "leases_of (pool s') (fc_mac x) = Some (ip, e)" using s'(3) s1(2) Cons.prems(6) by auto
  moreover have "leases_of (pool s') k = leases_of (pool s) k" if "k \<notin> fc_mac ` set (x # xs)" for k
    using that s'(3) s1(2) by auto
  moreover from calculation(1) x(3-5) have "served (config s) (leases_of (pool s')) x (Returned cr 0)" by (simp add: served_def)
  ultimately show ?case using x(1,2) s'(1,2,4) by auto
qed

text \<open>No two clients of a run have the same address.\<close>

lemma fleet_distinct:
  assumes "inv s'" and "distinct (map fc_mac xs)"
    and "list_all2 (served c (leases_of (pool s'))) xs sts"
  shows "distinct (map status_ip sts)"
proof -
  have len: "length xs = length sts" using assms(3) by (rule list_all2_lengthD)
  have "i = j" if ij: "i < length sts" "j < length sts" "status_ip (sts ! i) = status_ip (sts ! j)" for i j
  proof -
    obtain a e b f where "leases_of (pool s') (fc_mac (xs ! i)) = Some (a, e)" "assigned a (sts ! i)"
      "leases_of (pool s') (fc_mac (xs ! j)) = Some (b, f)" "assigned b (sts ! j)"
      using list_all2_nthD2 [OF assms(3) ij(1)] list_all2_nthD2 [OF assms(3) ij(2)] by (metis servedE)
    moreover from this ij(3) have "a = b" using assigned_ip be_bytes_inject by metis
    ultimately have "fc_mac (xs ! i) = fc_mac (xs ! j)" using unique_ip [OF assms(1)] by blast
    then show "i = j" using assms(2) ij(1,2) len by (auto simp: distinct_conv_nth)
  qed
  then show ?thesis by (auto simp: distinct_conv_nth)
qed

end

lemma card_range: "card {a :: u32. lo \<le> a \<and> a \<le> hi} = card {unat lo..unat hi}"
proof -
  have "unat ` {a. lo \<le> a \<and> a \<le> hi} = {unat lo..unat hi}"
  proof (intro equalityI subsetI)
    fix n assume "n \<in> {unat lo..unat hi}"
    moreover from this have "unat (word_of_nat n :: u32) = n"
      using unsigned_less [of hi, where ?'a = nat] by (simp add: unat_of_nat take_bit_nat_eq_self)
    ultimately show "n \<in> unat ` {a. lo \<le> a \<and> a \<le> hi}"
      by (intro image_eqI [of _ _ "word_of_nat n"]) (simp_all add: word_le_nat_alt)
  qed (auto simp: word_le_nat_alt)
  then show ?thesis by (metis (no_types, lifting) card_image inj_onI word_unat_eq_iff)
qed

lemma adapter_pool_card: "card {a. pool_start adapter_config \<le> a \<and> a \<le> pool_end adapter_config} = 64412"
  by (simp add: card_range)

lemma adapter_masked: "masked adapter_config"
  by code_simp

lemma fleet_fresh:
  assumes "lease_server I offer commit decline leases_of cap" and "I s" and "config s = adapter_config"
    and "leases_of (pool s) = Map.empty" and "length xs \<le> cap (pool s)" and "length mac = 6"
    and "\<forall>x \<in> set xs. fleet_ok x" and "distinct (map fc_mac xs)" and "length xs \<le> 64412"
  shows "\<exists>s' sts. fleet_run True (serve offer commit decline) mac s xs = Some (s', sts) \<and> I s' \<and>
    distinct (map status_ip sts) \<and> dom (leases_of (pool s')) = fc_mac ` set xs \<and>
    list_all2 (served adapter_config (leases_of (pool s'))) xs sts"
proof -
  have "\<exists>s' sts. fleet_run True (serve offer commit decline) mac s xs = Some (s', sts) \<and> I s' \<and>
    (\<forall>k. k \<notin> fc_mac ` set xs \<longrightarrow> leases_of (pool s') k = leases_of (pool s) k) \<and>
    list_all2 (served (config s) (leases_of (pool s'))) xs sts"
    by (rule lease_server.fleet_served [OF assms(1,2)])
      (simp_all only: assms(3,4) adapter_pool_card, use assms(5-9) adapter_masked in auto)
  then obtain s' sts where r: "fleet_run True (serve offer commit decline) mac s xs = Some (s', sts)" "I s'"
    "\<And>k. k \<notin> fc_mac ` set xs \<Longrightarrow> leases_of (pool s') k = None"
    and each: "list_all2 (served adapter_config (leases_of (pool s'))) xs sts"
    unfolding assms(3,4) by auto
  have sub: "k \<in> dom (leases_of (pool s'))" if "k \<in> fc_mac ` set xs" for k
  proof -
    from that obtain i where "i < length xs" "k = fc_mac (xs ! i)" by (auto simp: in_set_conv_nth)
    with list_all2_nthD [OF each, of i] show ?thesis by (auto elim: servedE)
  qed
  have "dom (leases_of (pool s')) = fc_mac ` set xs"
  proof (intro equalityI subsetI)
    fix k assume "k \<in> dom (leases_of (pool s'))"
    then show "k \<in> fc_mac ` set xs" using r(3) [of k] unfolding domIff by argo
  qed (rule sub)
  moreover have "distinct (map status_ip sts)" by (rule lease_server.fleet_distinct [OF assms(1) r(2) assms(8) each])
  ultimately show ?thesis using r(1,2) each by (intro exI [of _ s'] exI [of _ sts] conjI)
qed

text \<open>Two clients of the load generator.\<close>

definition sample_fleet :: "fleet_client list" where
  "sample_fleet = map (\<lambda>m. \<lparr>fc_client = sample_client\<lparr>c_mac := m\<rparr>, fc_sbuf = replicate SBUF_LEN 0, fc_pmeta = blank_meta 0,
     fc_rounds = [([], 5000000), ([], 6000000)]\<rparr>) [[2, 0, 0, 0, 0, 2], [2, 0, 0, 0, 0, 3]]"

lemma sample_fleet_ok:
  "\<forall>x \<in> set sample_fleet. fleet_ok x" "distinct (map fc_mac sample_fleet)" "length sample_fleet = 2"
  using sample_client_ok by (auto simp: sample_fleet_def fleet_ok_def client_ok_def)

section \<open>Properties\<close>

text \<open>
  C1. A run of the load generator against the machine as it boots, with the ARRAY backend: up to 2048
  clients with distinct hardware addresses, one after the other, over a network without loss.  Every
  \<open>run_client\<close> returns 0, the assigned addresses are pairwise distinct and lie in the pool, and at
  the end the server has exactly one lease per client, for the address that this client was given.
\<close>

theorem fleet_array:
  assumes "length m_leases = 2048" and "\<forall>l \<in> set m_leases. length (mac_address l) = 6" and "length mac = 6"
    and "\<forall>x \<in> set xs. fleet_ok x" and "distinct (map fc_mac xs)" and "length xs \<le> 2048"
  shows "\<exists>s0 s sts. CDHCPServer_array m_leases = Some s0 \<and>
    fleet_run True dhcp_process_message_array mac s0 xs = Some (s, sts) \<and> array_server_inv s \<and>
    distinct (map status_ip sts) \<and> dom (array_leases (pool s)) = fc_mac ` set xs \<and>
    list_all2 (served adapter_config (array_leases (pool s))) xs sts"
proof -
  obtain s0 where s0: "CDHCPServer_array m_leases = Some s0" "array_server_inv s0" "config s0 = adapter_config"
    "array_leases (pool s0) = Map.empty" "dhcp_arraypool_t.max_leases (pool s0) = DHCP_MAX_LEASES"
    using CDHCPServer_array_ok [OF _ assms(2)] assms(1) by (auto simp: DHCP_MAX_LEASES_def)
  have "length xs \<le> unat (dhcp_arraypool_t.max_leases (pool s0))" "length xs \<le> 64412"
    using s0(5) assms(6) by (simp_all add: DHCP_MAX_LEASES_def)
  from fleet_fresh [OF arr.srv.lease_server_axioms s0(2-4) this(1) assms(3-5) this(2)] s0(1) show ?thesis
    unfolding process_array_is_serve by blast
qed

theorem fleet_array_witness:
  "\<exists>s0 s sts. CDHCPServer_array (replicate 2048 blank_lease) = Some s0 \<and>
    fleet_run True dhcp_process_message_array sample_server_mac s0 sample_fleet = Some (s, sts) \<and>
    distinct (map status_ip sts) \<and> dom (array_leases (pool s)) = {[2, 0, 0, 0, 0, 2], [2, 0, 0, 0, 0, 3]}"
proof -
  have "fc_mac ` set sample_fleet = {[2, 0, 0, 0, 0, 2], [2, 0, 0, 0, 0, 3]}" by (simp add: sample_fleet_def)
  moreover have "length (replicate 2048 blank_lease) = 2048" "length sample_fleet \<le> 2048"
    "\<forall>l \<in> set (replicate 2048 blank_lease). length (mac_address l) = 6"
    using sample_fleet_ok(3) by (simp_all add: blank_lease_def)
  ultimately show ?thesis
    using fleet_array [OF _ _ sample_server_mac_ok sample_fleet_ok(1,2), of "replicate 2048 blank_lease"] by metis
qed

text \<open>
  The same run with the HASHMAP backend, whose tables hold 2048 entries.
\<close>

theorem fleet_hashmap:
  assumes "hash_memory HASH_ELEM_MAX (leases (pool m))" and "hash_memory HASH_ELEM_IP_SIZE (ip_set (pool m))"
    and "length mac = 6" and "\<forall>x \<in> set xs. fleet_ok x" and "distinct (map fc_mac xs)" and "length xs \<le> 2048"
  shows "\<exists>s0 s sts. CDHCPServer_hashmap m = Some s0 \<and>
    fleet_run True dhcp_process_message_hashmap mac s0 xs = Some (s, sts) \<and> hash_server_inv s \<and>
    distinct (map status_ip sts) \<and> dom (hash_leases (pool s)) = fc_mac ` set xs \<and>
    list_all2 (served adapter_config (hash_leases (pool s))) xs sts"
proof -
  obtain s0 where s0: "CDHCPServer_hashmap m = Some s0" "hash_server_inv s0" "config s0 = adapter_config"
    "hash_leases (pool s0) = Map.empty" "unat (dhcp_hashpool_t.max_leases (pool s0)) = min HASH_N (unat DHCP_MAX_LEASES)"
    using CDHCPServer_hashmap_ok [OF assms(1,2)] by blast
  have "length xs \<le> unat (dhcp_hashpool_t.max_leases (pool s0))" "length xs \<le> 64412"
    using s0(5) assms(6) by (simp_all add: DHCP_MAX_LEASES_def HASH_N_def)
  from fleet_fresh [OF hsh.srv.lease_server_axioms s0(2-4) this(1) assms(3-5) this(2)] s0(1) show ?thesis
    unfolding process_hashmap_is_serve by blast
qed

theorem fleet_hashmap_witness:
  "\<exists>s0 s sts. CDHCPServer_hashmap sample_hash_server = Some s0 \<and>
    fleet_run True dhcp_process_message_hashmap sample_server_mac s0 sample_fleet = Some (s, sts) \<and>
    distinct (map status_ip sts) \<and> dom (hash_leases (pool s)) = {[2, 0, 0, 0, 0, 2], [2, 0, 0, 0, 0, 3]}"
proof -
  have "fc_mac ` set sample_fleet = {[2, 0, 0, 0, 0, 2], [2, 0, 0, 0, 0, 3]}" by (simp add: sample_fleet_def)
  moreover have "hash_memory HASH_ELEM_MAX (leases (pool sample_hash_server))"
    "hash_memory HASH_ELEM_IP_SIZE (ip_set (pool sample_hash_server))" "length sample_fleet \<le> 2048"
    using sample_memory_ok sample_fleet_ok(3) by (simp_all add: sample_hash_server_def)
  ultimately show ?thesis
    using fleet_hashmap [OF _ _ sample_server_mac_ok sample_fleet_ok(1,2), of sample_hash_server] by metis
qed

end
