(* ===== verification/Spec2Isabelle.thy ===== *)
theory Spec2Isabelle
  imports Array_Server Hash_Server Bitmap_Var_Correct Bitmap_Uni_Correct Nprc_Correct Message_Properties
    Cqueue_Tests Frame_Properties Circle_Server Workers_Properties Bench_Tests Debug_Frame
    Window_Exchange Startup Raw_Socket Frame_Log Bench_Main Fleet
begin

text \<open>
  A verification of the bare-metal DHCP server of this repository, of the data structures it is built
  on and of the load generator that measures it.

  \<^bold>\<open>The program.\<close>  A Raspberry Pi runs a DHCP server on the Circle framework.  The receive loop
  (\<open>circle/sample/06-ethernet-dhcp-lib/kernel.cpp\<close>) takes Ethernet frames from the network device,
  checks the Ethernet, IPv4, UDP and DHCP headers and passes requests to the adapter
  (\<open>dhcp-server.cpp\<close>), which converts the wire structure into a message of the portable library
  \<open>dhcp-lib\<close>, calls the library and converts the reply back.  The library (\<open>dhcp_server.c\<close>) parses and
  builds the option field and keeps the leases in one of five backends that are chosen at compile
  time: an array (\<open>dhcp_array.c\<close>), two hash tables (\<open>dhcp_hashmap.c\<close> over \<open>ds-lib/hash.c\<close>), one recycled
  bitmap (\<open>dhcp_bitmap_vartime.c\<close>), several bitmaps recycled in turn (\<open>dhcp_bitmap_unitime.c\<close>) and a
  sliding window that never recycles (\<open>dhcp_nprc.c\<close>).  The load generator \<open>bench-live\<close> plays many
  clients against it: one after the other (\<open>dhcp-client.c\<close>), or with 32 worker threads and a receive
  thread (\<open>dhcp-client-async.c\<close>, \<open>workers-async.c\<close>) that share a queue of clients (\<open>client-queue.c\<close> over
  \<open>lib/cqueue.c\<close>) and a table of transactions (\<open>xid-tab.c\<close> over \<open>lib/hash.c\<close>).

  \<^bold>\<open>Conventions.\<close>  A struct is a record, an array a list, an integer a word of its width.  An access to an
  array goes through \<open>rd\<close>, \<open>wr\<close>, \<open>kmemcpy\<close> or \<open>rd_bytes\<close> of \<open>Prelude\<close>, which give \<^const>\<open>None\<close> outside the
  array; a function that returns \<^const>\<open>Some\<close> has stayed inside every array it was given, so the theorems
  that a function returns \<^const>\<open>Some\<close> are memory-safety theorems.  Uninitialised memory is an argument
  over which the theorems quantify.  The values of \<open>rand\<close>, of the timers, the results of \<open>recv\<close> and
  \<open>sendto\<close> and the schedule of the threads are arguments too.  All targets are little-endian
  (\<open>Byte_Order\<close>).  No model has fuel: loops with an index are functions with a measure, the probing
  loops of the hash table are partial functions into option for which the theorems prove that they
  return, and the loops that wait for the network are functions of the list of what arrives.

  \<^bold>\<open>The server library.\<close>  \<open>Dhcp_Options\<close> and \<open>Dhcp_Message\<close> hold the message, the option routines and
  the three reply builders; an option field represents a list of items, lookup and append are shown
  on that list, and \<open>Message_Properties\<close> states the round trip, the behaviour at the end of the array
  and the read one byte past the end of a field without END.  \<open>Dhcp_Serve\<close> has the part the five
  \<open>dhcp_process_message_*\<close> functions share as \<open>serve\<close>, which takes the three operations of a backend, and
  the contracts: \<open>address_server\<close> (a backend whose operations return and keep an invariant; one
  request then gives the reply that the item-level specification decides) and \<open>lease_server\<close> (in
  addition a map from hardware addresses to leases in which no address occurs twice).  \<open>Lease_Pool\<close>
  gives \<open>lease_server\<close> from the contract of a pool, \<open>lease_pool\<close>; \<open>Grant_Server\<close> is the contract
  \<open>grant_server\<close> of the backends that only remember which addresses were granted.

  \<^bold>\<open>The backends.\<close>  For each one theory with the model and one with the invariant, the lemmas about
  its operations and the interpretation of its contract: \<open>Array_Pool\<close>, \<open>Array_Pool_Correct\<close>,
  \<open>Array_Server\<close>; \<open>Hash_Pool\<close>, \<open>Hash_Pool_Correct\<close>, \<open>Hash_Server\<close>; \<open>Bitmap_Ops\<close> with \<open>Bitmap_Var\<close>,
  \<open>Bitmap_Var_Correct\<close>, \<open>Bitmap_Uni\<close>, \<open>Bitmap_Uni_Correct\<close>; \<open>Nprc\<close>, \<open>Nprc_Correct\<close> (for both widths of
  \<open>unsigned long\<close>).  \<open>Ip_Cursor\<close> is the walk over the pool that the array and hash backends share, and
  \<open>Samples\<close> has the requests of the witnesses.  For the array and hash backends the properties are:
  one request refines the specification, no address is leased twice after any sequence of requests,
  the REQUEST that follows an OFFER is acknowledged, and a lease survives the requests of others.
  For the other three: one request refines the specification and no address is granted twice within a
  window.  \<open>Bitmap_Offers\<close> proves the loops of the two bitmap backends equal to a search in the list of
  indices, which gives the address they offer in every state.  Three theorems prove defects for every
  state in which they occur: \<open>bmvar_late_request_wraps\<close> (the lease time of an ACK after the window has
  ended), \<open>bmuni_range_lost\<close> (a range that fills up without a timer) and \<open>bmuni_stale_offer\<close> (the last
  address of a range is refused to the client it was offered to).

  \<^bold>\<open>The data structures.\<close>  \<open>Hash_Table\<close> is the macro-generated table, once for all element sizes;
  \<open>Probing\<close> has the theory of linear probing on a ring, and \<open>Hash_Table_Correct\<close> proves in the locale
  \<open>keyed_hash\<close> that the table implements a finite map for every pair of hash and comparison function
  that respects a key, including the repair of the probe chains by \<open>hash_delete\<close> in a table that was
  full.  The locale is interpreted for the two tables of the server, for the transactions of the load
  generator and for the functions of the tests.  \<open>Fifo\<close> is the contract of a bounded queue,
  \<open>Cqueue\<close> and \<open>Cqueue_Correct\<close> the circular byte queue for every capacity that divides \<open>2\<^sup>3\<^sup>2\<close>, with its
  bulk operations.  \<open>Bench_Hash\<close> and \<open>Client_Queue\<close> are the copies that the load generator uses.

  \<^bold>\<open>The test programs.\<close>  \<open>Cqueue_Tests\<close>, \<open>Hash_Tests\<close> and \<open>Bench_Tests\<close> model the four test programs of the
  data structures with all their checks, and prove that they succeed for every sequence of random
  numbers.  The stress test of the hash table compares it with a linear table; both are
  interpretations of the contract \<open>key_table\<close> (\<open>Hash_Tests_Correct\<close>), so they cannot disagree.  The
  stress test of the queue fails on a correct queue at the capacity of the load generator
  (\<open>bench_stress_mismatch\<close>).

  \<^bold>\<open>The server on the Raspberry Pi.\<close>  \<open>Wire_Headers\<close> has the packed structures and their bytes,
  \<open>Checksum\<close> the two checksum routines, \<open>Circle_Adapter\<close> the conversions and the calls of the library,
  \<open>Kernel_Run\<close> the receive loop, \<open>Circle_Modes\<close> the constructor in the five lease modes.
  \<open>Adapter_Correct\<close> and \<open>Kernel_Correct\<close> show what the conversions compute and lift the contracts of
  the library to frames; \<open>Frame_Properties\<close> states the round trips and the cut of replies at the first
  byte \<open>0xFF\<close>; \<open>Circle_Server\<close> that the server is safe in every mode and which frames it drops (a UDP length below 8 wraps around and
  is taken for a long one);
  \<open>Window_Exchange\<close> that every frame it sends is well formed.  \<open>Startup\<close> is the initialisation of the
  devices, the wait for the link and \<open>main\<close> around the receive loop: devices start in order and none
  after one that fails, the machine never reboots, and whenever it serves the pool is in its
  invariant.  \<open>Frame_Log\<close> is the log output of frames and the hexadecimal dump.

  \<^bold>\<open>The load generator.\<close>  \<open>Bench_Client\<close> has its data, \<open>Frame\<close> and \<open>Frame_Correct\<close> the building and
  parsing of frames (safe on arbitrary bytes), \<open>Debug_Frame\<close> the printing of frames in the debugging
  build (it prints the options that the parser evaluates, and leaves the checksum field cleared when
  the checksum is wrong), \<open>Run_Client\<close> the sequential client, \<open>Client_Correct\<close>
  its invariant and \<open>Client_Protocol\<close> an abstract client as an inductive step relation that
  \<open>run_client\<close> refines, from which it follows that it returns after at most five timeouts (two before
  the OFFER, whose arrival resets the counter, and three after it) and that an address is assigned
  only by an ACK.  \<open>Exchange\<close>
  and \<open>Session\<close> connect client and server: with a free address the exchange succeeds and both sides
  agree on the lease (\<open>exchange_array\<close>, \<open>exchange_hashmap\<close>); \<open>Window_Exchange\<close> has the same for the three
  backends without leases (\<open>exchange_bmvar\<close>, \<open>exchange_bmuni\<close>, \<open>exchange_nprc\<close>).  \<open>Fleet\<close> is a whole run of
  the load generator against a server that has just booted: up to 2048 clients all succeed with
  distinct addresses (\<open>fleet_array\<close>, \<open>fleet_hashmap\<close>).  \<open>Bench_Main\<close> is the main program around the
  sequential client and the summary, which accounts for every client and never divides by 0.
  \<open>Raw_Socket\<close> is the capture socket: no handle is leaked and a received packet is cut to the
  buffer.  \<open>Xid_Tab\<close> is the table of transactions;
  \<open>Workers\<close> the threads as a system of steps between the points where a thread can wait, and
  \<open>Workers_Correct\<close> its invariant; \<open>Workers_Properties\<close> states mutual exclusion, completeness and the
  absence of deadlock for every schedule.

  \<^bold>\<open>Not modelled.\<close>  The Circle framework (drivers, timer, logger, USB and network devices) is vendored
  and only called: what its drivers return is an argument of the models.  The \<open>pi-connect\<close> script is
  input and output; of what is printed, the models keep the values and leave out the text, and the
  messages about the start of the server are left out.  The steps of the threads are
  atomic where the code holds a lock or touches only its own client, as documented in \<open>Workers\<close>;
  the memory model of the machine below that is not considered.
\<close>

end
